(* ===== verification/Prelude.thy ===== *)
theory Prelude
  imports Main "HOL-Library.Word"
begin

unbundle bit_operations_syntax

text \<open>
  The vocabulary the component theories share: the machine integer types of the Rust
  sources, \<open>Iterator::find\<close> over an index range, \<open>copy_from_slice\<close> on fixed-size
  arrays, and the generic lemmas and lemma collections that carry the component proofs.

  Conventions. \<open>u8\<close>, \<open>u16\<close>, \<open>u32\<close>, \<open>u64\<close> of the sources are words of that
  width, so that arithmetic wraps as the release build does. A \<open>usize\<close> that is an array
  index or a count below an array bound is a \<open>nat\<close>. A fixed-size array is a list of that
  length.
\<close>

section \<open>Machine types\<close>

type_synonym u8 = "8 word"
type_synonym u16 = "16 word"
type_synonym u32 = "32 word"
type_synonym u64 = "64 word"
type_synonym bytes = "u8 list"

named_theorems slot_simps \<open>first-free-slot search in fixed-size tables\<close>
named_theorems array_simps \<open>copying into fixed-size arrays\<close>

section \<open>Searching an index range\<close>

text \<open>Rust's \<open>(0..n).find(|&i| P(i))\<close>, and a \<open>for\<close> loop that returns at the first
  index with \<open>P\<close>.\<close>

definition find_idx :: "nat \<Rightarrow> (nat \<Rightarrow> bool) \<Rightarrow> nat option" where
  "find_idx n P = List.find P [0..<n]"

text \<open>Rust's \<open>xs.iter().position(P)\<close> and \<open>rposition\<close>.\<close>

definition position :: "('a \<Rightarrow> bool) \<Rightarrow> 'a list \<Rightarrow> nat option" where
  "position P xs = find_idx (length xs) (\<lambda>i. P (xs ! i))"

definition rposition :: "('a \<Rightarrow> bool) \<Rightarrow> 'a list \<Rightarrow> nat option" where
  "rposition P xs = List.find (\<lambda>i. P (xs ! i)) (rev [0..<length xs])"

lemma find_upt_SomeD:
  assumes "List.find P [a..<b] = Some i"
  shows "a \<le> i" and "i < b" and "P i" and "\<And>j. a \<le> j \<Longrightarrow> j < i \<Longrightarrow> \<not> P j"
proof -
  obtain k where k: "k < length [a..<b]" "P ([a..<b] ! k)" "i = [a..<b] ! k"
    and less: "\<forall>j<k. \<not> P ([a..<b] ! j)"
    using assms by (auto simp: find_Some_iff)
  show "a \<le> i" and "i < b" and "P i" using k by auto
  show "\<not> P j" if "a \<le> j" and "j < i" for j
  proof -
    have "j - a < k" using that k by auto
    then have "\<not> P ([a..<b] ! (j - a))" using less by blast
    moreover have "[a..<b] ! (j - a) = j" using that k by auto
    ultimately show ?thesis by simp
  qed
qed

lemma find_upt_None_iff: "List.find P [a..<b] = None \<longleftrightarrow> (\<forall>i. a \<le> i \<and> i < b \<longrightarrow> \<not> P i)"
  by (auto simp: find_None_iff)

lemma find_idx_SomeD:
  assumes "find_idx n P = Some i"
  shows "i < n" and "P i" and "\<And>j. j < i \<Longrightarrow> \<not> P j"
  using find_upt_SomeD [of P 0 n i] assms by (auto simp: find_idx_def)

lemma find_idx_None_iff [slot_simps]: "find_idx n P = None \<longleftrightarrow> (\<forall>i<n. \<not> P i)"
  by (auto simp: find_idx_def find_upt_None_iff)

lemma find_idx_eq_SomeI:
  assumes "i < n" and "P i" and "\<And>j. j < i \<Longrightarrow> \<not> P j"
  shows "find_idx n P = Some i"
proof (cases "find_idx n P")
  case None
  then show ?thesis using assms(1,2) by (auto simp: find_idx_None_iff)
next
  case (Some k)
  have "k = i"
  proof (rule linorder_cases [of k i])
    assume "k < i"
    then show ?thesis using find_idx_SomeD(2) [OF Some] assms(3) by blast
  next
    assume "i < k"
    then show ?thesis using find_idx_SomeD(3) [OF Some] assms(2) by blast
  qed simp
  then show ?thesis using Some by simp
qed

lemma find_idx_Some_iff:
  "find_idx n P = Some i \<longleftrightarrow> i < n \<and> P i \<and> (\<forall>j<i. \<not> P j)"
  using find_idx_SomeD [of n P i] find_idx_eq_SomeI [of i n P] by blast

lemma find_idx_exists: "i < n \<Longrightarrow> P i \<Longrightarrow> \<exists>k. find_idx n P = Some k"
  using find_idx_None_iff [of n P] by (cases "find_idx n P") auto

lemma find_idx_cong: "(\<And>i. i < n \<Longrightarrow> P i = Q i) \<Longrightarrow> find_idx n P = find_idx n Q"
  by (auto simp: find_idx_def intro!: find_cong)

lemma position_SomeD:
  assumes "position P xs = Some i"
  shows "i < length xs" and "P (xs ! i)" and "\<And>j. j < i \<Longrightarrow> \<not> P (xs ! j)"
  using find_idx_SomeD [of "length xs" "\<lambda>i. P (xs ! i)" i] assms
  by (auto simp: position_def)

lemma position_None_iff: "position P xs = None \<longleftrightarrow> (\<forall>x\<in>set xs. \<not> P x)"
  by (auto simp: position_def find_idx_None_iff all_set_conv_all_nth)

section \<open>Copying into a fixed-size array\<close>

text \<open>\<open>dst[off..off + src.len()].copy_from_slice(src)\<close>. The source panics when the range
  is out of bounds; every use below is within bounds, and \<open>length_splice\<close> then says that
  the array keeps its size.\<close>

definition splice_at :: "'a list \<Rightarrow> nat \<Rightarrow> 'a list \<Rightarrow> 'a list" where
  "splice_at dst off src = take off dst @ src @ drop (off + length src) dst"

lemma length_splice [array_simps, simp]:
  "off + length src \<le> length dst \<Longrightarrow> length (splice_at dst off src) = length dst"
  by (simp add: splice_at_def)

lemma nth_splice [array_simps]:
  assumes "off + length src \<le> length dst" and "i < length dst"
  shows "splice_at dst off src ! i =
    (if off \<le> i \<and> i < off + length src then src ! (i - off) else dst ! i)"
  using assms by (auto simp: splice_at_def nth_append min_def not_less)

lemma take_splice_0 [array_simps, simp]:
  "take (length src) (splice_at dst 0 src) = src"
  by (simp add: splice_at_def)

lemma splice_at_Nil [array_simps, simp]: "splice_at dst off [] = dst"
  by (simp add: splice_at_def)

lemma take_drop_splice [array_simps]:
  "off \<le> length dst \<Longrightarrow> take (length src) (drop off (splice_at dst off src)) = src"
  by (simp add: splice_at_def)

section \<open>Byte string literals\<close>

text \<open>Rust's \<open>b"..."\<close>.\<close>

definition ascii :: "string \<Rightarrow> bytes" where
  "ascii cs = map of_char cs"

lemma length_ascii [simp]: "length (ascii cs) = length cs"
  by (simp add: ascii_def)

section \<open>Lists and words\<close>

lemma nth_list_update_if: "i < length xs \<Longrightarrow> xs[i := x] ! j = (if i = j then x else xs ! j)"
  by (simp add: nth_list_update)

lemma unat_of_nat64: "n < 2 ^ 64 \<Longrightarrow> unat (of_nat n :: u64) = n"
  by (simp add: unat_of_nat take_bit_nat_eq_self)

lemma word_eq_of_natI: "unat (w :: 'a::len word) = n \<Longrightarrow> w = of_nat n"
  by (metis of_nat_unat ucast_id)

lemma unat_add_nat64:
  fixes x :: u64
  assumes "unat x + n < 2 ^ 64"
  shows "unat (x + of_nat n) = unat x + n"
proof -
  have "unat (of_nat n :: u64) = n" using assms by (intro unat_of_nat64) simp
  then show ?thesis using assms by (simp add: unat_word_ariths)
qed

lemma xor_cancel_left: "(a :: 'a::len word) XOR (a XOR b) = b"
  by (simp add: xor.assoc [symmetric])

lemma xor_cancel_right: "(a XOR b) XOR (b :: 'a::len word) = a"
  by (simp add: xor.assoc)

end
