(* ===== verification/Abi.thy ===== *)
theory Abi
  imports Prelude
begin

text \<open>
  The kernel's application binary interface, \<open>libs/dbsos-abi\<close>: capability slots and rights
  (\<open>cap.rs\<close>) and the IPC message (\<open>ipc.rs\<close>). Error codes are \<open>i64\<close> values, kept as
  integers.
\<close>

section \<open>Capabilities\<close>

datatype CapType = IpcTarget | SharedMem | Irq | IpcReply

fun cap_type_code :: "CapType \<Rightarrow> u64" where
  "cap_type_code IpcTarget = 1"
| "cap_type_code SharedMem = 2"
| "cap_type_code Irq = 3"
| "cap_type_code IpcReply = 4"

definition CAP_SEND :: u64 where "CAP_SEND = push_bit 0 1"
definition CAP_RECV :: u64 where "CAP_RECV = push_bit 1 1"
definition CAP_READ :: u64 where "CAP_READ = push_bit 2 1"
definition CAP_WRITE :: u64 where "CAP_WRITE = push_bit 3 1"

record cap =
  cap_type :: u64
  server_id :: u64
  rights :: u64
  cap_data :: u64

definition cap_null :: cap where
  "cap_null = \<lparr>cap_type = 0, server_id = 0, rights = 0, cap_data = 0\<rparr>"

definition cap_is_valid :: "cap \<Rightarrow> bool" where
  "cap_is_valid c \<longleftrightarrow> cap_type c \<noteq> 0"

definition MAX_CAPS_PER_PROCESS :: nat where "MAX_CAPS_PER_PROCESS = 64"

definition IPC_OK :: int where "IPC_OK = 0"
definition IPC_ERR_BAD_CAP :: int where "IPC_ERR_BAD_CAP = -1"
definition IPC_ERR_NO_SERVER :: int where "IPC_ERR_NO_SERVER = -2"
definition IPC_ERR_TIMEOUT :: int where "IPC_ERR_TIMEOUT = -3"
definition IPC_ERR_NO_MEM :: int where "IPC_ERR_NO_MEM = -4"
definition IPC_ERR_DENIED :: int where "IPC_ERR_DENIED = -5"

lemmas ipc_codes = IPC_OK_def IPC_ERR_BAD_CAP_def IPC_ERR_NO_SERVER_def IPC_ERR_TIMEOUT_def
  IPC_ERR_NO_MEM_def IPC_ERR_DENIED_def

section \<open>Messages\<close>

definition PAYLOAD_SIZE :: nat where "PAYLOAD_SIZE = 64"

definition PORT_KERNEL :: u16 where "PORT_KERNEL = 0"
definition PORT_CONSOLE :: u16 where "PORT_CONSOLE = 1"

datatype MsgType = Ping | Pong | Log | DataSend | DataRecv | IrqNotification | FsRequest | FsReply | Shutdown

fun msg_type_code :: "MsgType \<Rightarrow> u16" where
  "msg_type_code Ping = 0x0001"
| "msg_type_code Pong = 0x0002"
| "msg_type_code Log = 0x0010"
| "msg_type_code DataSend = 0x0100"
| "msg_type_code DataRecv = 0x0101"
| "msg_type_code IrqNotification = 0x0200"
| "msg_type_code FsRequest = 0x0300"
| "msg_type_code FsReply = 0x0301"
| "msg_type_code Shutdown = 0xFFFF"

record message =
  src_port :: u16
  dst_port :: u16
  msg_type :: u16
  msg_flags :: u16
  msg_length :: u16
  shmem_cap :: u16
  msg_data :: bytes

definition message_empty :: message where
  "message_empty = \<lparr>src_port = 0, dst_port = 0, msg_type = 0, msg_flags = 0, msg_length = 0,
     shmem_cap = 0, msg_data = replicate PAYLOAD_SIZE 0\<rparr>"

definition message_ping :: "u16 \<Rightarrow> u16 \<Rightarrow> message" where
  "message_ping from to = \<lparr>src_port = from, dst_port = to, msg_type = msg_type_code Ping,
     msg_flags = 0, msg_length = 0, shmem_cap = 0, msg_data = replicate PAYLOAD_SIZE 0\<rparr>"

definition message_pong :: "u16 \<Rightarrow> u16 \<Rightarrow> message" where
  "message_pong from to = \<lparr>src_port = from, dst_port = to, msg_type = msg_type_code Pong,
     msg_flags = 0, msg_length = 0, shmem_cap = 0, msg_data = replicate PAYLOAD_SIZE 0\<rparr>"

text \<open>A message type is never confused with the empty message or with another type.\<close>

lemma msg_type_code_inj: "msg_type_code a = msg_type_code b \<longleftrightarrow> a = b"
  by (cases a; cases b) simp_all

lemma msg_type_code_nonzero: "msg_type_code a \<noteq> 0"
  by (cases a) simp_all

lemma cap_type_code_inj: "cap_type_code a = cap_type_code b \<longleftrightarrow> a = b"
  by (cases a; cases b) simp_all

lemma cap_type_code_nonzero [simp]: "cap_type_code a \<noteq> 0"
  by (cases a) simp_all

lemma cap_null_invalid [simp]: "\<not> cap_is_valid cap_null"
  by (simp add: cap_is_valid_def cap_null_def)

end
