(* ===== verification/Tasks.thy ===== *)
theory Tasks
  imports Abi
begin

text \<open>
  The task table of \<open>kernel/src/scheduler\<close> (\<open>mod.rs\<close>, \<open>task.rs\<close>, \<open>vma.rs\<close>) and the
  context switch (\<open>context.rs\<close>). The scheduler's statics are one record; the CPU state that
  a switch changes (CR3, the stored kernel and user stack pointers, the FPU registers) is part
  of it. Pointers are their addresses. Descriptor tables and the TSS, which are only handed to
  the CPU, have no counterpart.
\<close>

section \<open>The task table\<close>

definition STACK_SIZE :: nat where "STACK_SIZE = 65536"
definition MAX_TASKS :: nat where "MAX_TASKS = 32"
definition MAX_FDS :: nat where "MAX_FDS = 16"
definition STACK_CANARY :: u64 where "STACK_CANARY = 0xDEADBEEFCAFEBABE"
definition IPC_ERR :: u64 where "IPC_ERR = NOT 1"
definition IPC_ANY :: u64 where "IPC_ANY = NOT 0"
definition MAX_TASKS_PER_USER :: nat where "MAX_TASKS_PER_USER = 8"

datatype TaskState = Free | Ready | Running | Exited | BlockedSend | BlockedRecv

record fd_entry =
  in_use :: bool
  fd_path :: bytes
  fd_offset :: u32
  fd_size :: u32
  fd_flags :: u64

definition fd_entry_empty :: fd_entry where
  "fd_entry_empty = \<lparr>in_use = False, fd_path = replicate 128 0, fd_offset = 0, fd_size = 0, fd_flags = 0\<rparr>"

definition MAX_VMAS :: nat where "MAX_VMAS = 8"

record vma =
  vma_start :: u64
  vma_end :: u64
  vma_kind :: u8
  vma_flags :: u64

definition vma_empty :: vma where
  "vma_empty = \<lparr>vma_start = 0, vma_end = 0, vma_kind = 0, vma_flags = 0\<rparr>"

record task =
  state :: TaskState
  stack_base :: u64
  sp :: u64
  task_id :: u64
  parent_id :: u64
  exit_status :: "32 word"
  ipc_partner :: u64
  ipc_val :: u64
  ipc_msg :: message
  task_pml4 :: u64
  pml4_phys :: u64
  gdt_phys :: u64
  tss_phys :: u64
  ring3 :: bool
  sys_ursave :: u64
  code_phys :: u64
  user_stack_phys :: u64
  kstack_phys :: u64
  fpu_buf_phys :: u64
  pending_msg :: message
  fds :: "fd_entry list"
  vmas :: "vma list"
  vma_count :: u8
  uid :: u32
  gid :: u32
  cwd :: bytes
  cwd_len :: u8

definition task_free :: task where
  "task_free = \<lparr>state = Free, stack_base = 0, sp = 0, task_id = 0, parent_id = 0, exit_status = 0,
     ipc_partner = 0, ipc_val = 0, ipc_msg = message_empty, task_pml4 = 0, pml4_phys = 0, gdt_phys = 0,
     tss_phys = 0, ring3 = False, sys_ursave = 0, code_phys = 0, user_stack_phys = 0,
     kstack_phys = 0, fpu_buf_phys = 0, pending_msg = message_empty,
     fds = replicate MAX_FDS fd_entry_empty, vmas = replicate MAX_VMAS vma_empty, vma_count = 0,
     uid = 0, gid = 0, cwd = replicate 128 0, cwd_len = 1\<rparr>"

text \<open>\<open>FPU\<close> is the content of the FPU registers and \<open>FPU_MEM\<close> what \<open>fxsave64\<close> left in the save
  areas; \<open>KERNEL_PML4\<close> is the static of \<open>vm.rs\<close>.\<close>

record sched =
  TASKS :: "task list"
  CURRENT :: nat
  NEXT_ID :: u64
  TICK_COUNT :: u64
  CR3 :: u64
  KERNEL_PML4 :: u64
  SYS_KRSP :: u64
  SYS_URSAVE :: u64
  FPU :: bytes
  FPU_MEM :: "u64 \<Rightarrow> bytes"

text \<open>\<open>TASKS[i].f = v\<close>.\<close>

definition upd_task :: "nat \<Rightarrow> (task \<Rightarrow> task) \<Rightarrow> 'a sched_scheme \<Rightarrow> 'a sched_scheme" where
  "upd_task i f s = s\<lparr>TASKS := (TASKS s)[i := f (TASKS s ! i)]\<rparr>"

section \<open>Looking at the table\<close>

definition current_task_id :: "'a sched_scheme \<Rightarrow> u64" where
  "current_task_id s = task_id (TASKS s ! CURRENT s)"

definition next_task_id :: "'a sched_scheme \<Rightarrow> u64 \<times> 'a sched_scheme" where
  "next_task_id s = (NEXT_ID s, s\<lparr>NEXT_ID := NEXT_ID s + 1\<rparr>)"

definition find_task :: "'a sched_scheme \<Rightarrow> u64 \<Rightarrow> nat option" where
  "find_task s i = find_idx MAX_TASKS (\<lambda>k. state (TASKS s ! k) \<noteq> Free \<and> task_id (TASKS s ! k) = i)"

definition current_cwd :: "'a sched_scheme \<Rightarrow> bytes" where
  "current_cwd s =
     (let t = TASKS s ! CURRENT s in
      if cwd_len t = 0 then (replicate 128 0)[0 := 0x2F] else cwd t)"

definition current_cwd_len :: "'a sched_scheme \<Rightarrow> nat" where
  "current_cwd_len s = unat (cwd_len (TASKS s ! CURRENT s))"

definition current_cwd_slice :: "'a sched_scheme \<Rightarrow> bytes" where
  "current_cwd_slice s =
     (let t = TASKS s ! CURRENT s; len = unat (cwd_len t) in
      if len = 0 \<or> cwd t ! 0 = 0 then [0x2F] else take len (cwd t))"

definition set_current_cwd :: "bytes \<Rightarrow> 'a sched_scheme \<Rightarrow> 'a sched_scheme" where
  "set_current_cwd path s =
     upd_task (CURRENT s) (\<lambda>t.
       let len = min (length path) 127;
           t1 = t\<lparr>cwd := (splice_at (cwd t) 0 (take len path))[len := 0], cwd_len := of_nat len\<rparr>
       in if len = 0 then t1\<lparr>cwd := (cwd t1)[0 := 0x2F, 1 := 0], cwd_len := 1\<rparr> else t1) s"

definition task_count_for_uid :: "'a sched_scheme \<Rightarrow> u32 \<Rightarrow> nat" where
  "task_count_for_uid s u = length (filter (\<lambda>t. state t \<noteq> Free \<and> uid t = u) (TASKS s))"

text \<open>\<open>for_each_task\<close> as the list of slots and tasks it visits.\<close>

definition for_each_task :: "'a sched_scheme \<Rightarrow> (nat \<times> task) list" where
  "for_each_task s = filter (\<lambda>(i, t). state t \<noteq> Free) (map (\<lambda>i. (i, TASKS s ! i)) [0..<MAX_TASKS])"

section \<open>Memory areas\<close>

definition vma_add :: "nat \<Rightarrow> u64 \<Rightarrow> u64 \<Rightarrow> u8 \<Rightarrow> u64 \<Rightarrow> 'a sched_scheme \<Rightarrow> bool \<times> 'a sched_scheme" where
  "vma_add slot start end' kind flags s =
     (if slot \<ge> MAX_TASKS \<or> state (TASKS s ! slot) = Free then (False, s)
      else if start \<ge> end' then (False, s)
      else
        (let count = unat (vma_count (TASKS s ! slot)) in
         if count \<ge> MAX_VMAS then (False, s)
         else (True, upd_task slot (\<lambda>t. t\<lparr>
             vmas := (vmas t)[count := \<lparr>vma_start = start, vma_end = end', vma_kind = kind, vma_flags = flags\<rparr>],
             vma_count := of_nat (count + 1)\<rparr>) s)))"

definition vma_find :: "nat \<Rightarrow> u64 \<Rightarrow> 'a sched_scheme \<Rightarrow> vma option" where
  "vma_find slot addr s =
     (if slot \<ge> MAX_TASKS then None
      else List.find (\<lambda>v. addr \<ge> vma_start v \<and> addr < vma_end v)
             (take (unat (vma_count (TASKS s ! slot))) (vmas (TASKS s ! slot))))"

section \<open>Choosing and switching\<close>

text \<open>\<open>find_ready\<close>: the first ready slot after the current one, cyclically, the current one
  last.\<close>

definition find_ready :: "'a sched_scheme \<Rightarrow> nat" where
  "find_ready s =
     (case List.find (\<lambda>i. state (TASKS s ! ((CURRENT s + i) mod MAX_TASKS)) = Ready) [1..<MAX_TASKS + 1] of
        Some i \<Rightarrow> (CURRENT s + i) mod MAX_TASKS
      | None \<Rightarrow> CURRENT s)"

text \<open>\<open>reschedule(rsp)\<close>, with \<open>canary\<close> the word at a stack's lowest address: \<open>None\<close> is the halt
  after a failed stack check; otherwise the stack pointer to continue on.\<close>

definition switch_away :: "u64 \<Rightarrow> nat \<Rightarrow> 'a sched_scheme \<Rightarrow> 'a sched_scheme" where
  "switch_away rsp cur s =
     (let s1 = (if state (TASKS s ! cur) = Running \<or> state (TASKS s ! cur) = Ready
                then upd_task cur (\<lambda>t. t\<lparr>state := Ready\<rparr>) s else s);
          f = fpu_buf_phys (TASKS s1 ! cur);
          s2 = (if f \<noteq> 0 then s1\<lparr>FPU_MEM := (FPU_MEM s1)(f := FPU s1)\<rparr> else s1)
      in upd_task cur (\<lambda>t. t\<lparr>sp := rsp\<rparr>) s2)"

definition switch_in :: "nat \<Rightarrow> 'a sched_scheme \<Rightarrow> 'a sched_scheme" where
  "switch_in nxt s =
     (let s1 = (upd_task nxt (\<lambda>t. t\<lparr>state := Running\<rparr>) s)\<lparr>CURRENT := nxt\<rparr>;
          n = TASKS s1 ! nxt;
          s2 = (if ring3 n then s1\<lparr>CR3 := task_pml4 n,
                  SYS_KRSP := stack_base n + of_nat STACK_SIZE, SYS_URSAVE := sys_ursave n\<rparr>
                else s1\<lparr>CR3 := KERNEL_PML4 s1\<rparr>);
          f = fpu_buf_phys n
      in if f \<noteq> 0 then s2\<lparr>FPU := FPU_MEM s2 f\<rparr> else s2)"

definition reschedule :: "(u64 \<Rightarrow> u64) \<Rightarrow> u64 \<Rightarrow> 'a sched_scheme \<Rightarrow> (u64 \<times> 'a sched_scheme) option" where
  "reschedule canary rsp s0 =
     (let s = s0\<lparr>TICK_COUNT := TICK_COUNT s0 + 1\<rparr>; cur = CURRENT s; b = stack_base (TASKS s ! cur) in
      if b \<noteq> 0 \<and> canary b \<noteq> STACK_CANARY then None
      else
        (let nxt = find_ready s in
         if nxt \<noteq> cur then
           (let s' = switch_in nxt (switch_away rsp cur s) in Some (sp (TASKS s' ! nxt), s'))
         else Some (rsp, s)))"

section \<open>Lemmas\<close>

lemma upd_task_sel [simp]:
  "CURRENT (upd_task i f s) = CURRENT s" "NEXT_ID (upd_task i f s) = NEXT_ID s"
  "TICK_COUNT (upd_task i f s) = TICK_COUNT s" "CR3 (upd_task i f s) = CR3 s"
  "KERNEL_PML4 (upd_task i f s) = KERNEL_PML4 s" "SYS_KRSP (upd_task i f s) = SYS_KRSP s"
  "SYS_URSAVE (upd_task i f s) = SYS_URSAVE s" "FPU (upd_task i f s) = FPU s"
  "FPU_MEM (upd_task i f s) = FPU_MEM s" "length (TASKS (upd_task i f s)) = length (TASKS s)"
  by (simp_all add: upd_task_def)

lemma upd_task_nth:
  "i < length (TASKS s) \<Longrightarrow> TASKS (upd_task i f s) ! j = (if i = j then f (TASKS s ! i) else TASKS s ! j)"
  by (simp add: upd_task_def nth_list_update)

lemma upd_task_other [simp]: "i \<noteq> j \<Longrightarrow> TASKS (upd_task i f s) ! j = TASKS s ! j"
  by (simp add: upd_task_def)

lemma find_task_SomeD:
  "find_task s i = Some k \<Longrightarrow> k < MAX_TASKS \<and> state (TASKS s ! k) \<noteq> Free \<and> task_id (TASKS s ! k) = i"
  unfolding find_task_def by (auto dest: find_idx_SomeD)

text \<open>Cyclic distance from slot \<open>a\<close> to slot \<open>b\<close>, in \<open>1..MAX_TASKS\<close>.\<close>

definition ahead :: "nat \<Rightarrow> nat \<Rightarrow> nat" where
  "ahead a b = (if a < b then b - a else b + MAX_TASKS - a)"

lemma ahead_bounds: "a < MAX_TASKS \<Longrightarrow> b < MAX_TASKS \<Longrightarrow> 1 \<le> ahead a b \<and> ahead a b \<le> MAX_TASKS"
  by (auto simp: ahead_def)

lemma ahead_step: "a < MAX_TASKS \<Longrightarrow> b < MAX_TASKS \<Longrightarrow> (a + ahead a b) mod MAX_TASKS = b"
  by (auto simp: ahead_def)

lemma ahead_unique:
  assumes "a < MAX_TASKS" "1 \<le> i" "i \<le> MAX_TASKS"
  shows "ahead a ((a + i) mod MAX_TASKS) = i"
proof (cases "a + i < MAX_TASKS")
  case True
  then show ?thesis using assms by (simp add: ahead_def)
next
  case False
  then have "(a + i) mod MAX_TASKS = a + i - MAX_TASKS"
    using assms by (simp add: le_mod_geq not_less)
  then show ?thesis using assms False by (auto simp: ahead_def)
qed

text \<open>\<open>find_ready\<close> is round robin: it picks the ready slot that comes first after the current
  one, and the current slot itself when no slot is ready.\<close>

lemma find_ready_None:
  assumes "\<forall>j<MAX_TASKS. state (TASKS s ! j) \<noteq> Ready"
  shows "find_ready s = CURRENT s"
proof -
  have "List.find (\<lambda>i. state (TASKS s ! ((CURRENT s + i) mod MAX_TASKS)) = Ready) [1..<MAX_TASKS + 1] = None"
    using assms by (auto simp: find_None_iff MAX_TASKS_def)
  then show ?thesis by (simp add: find_ready_def)
qed

lemma find_ready_Some:
  assumes "CURRENT s < MAX_TASKS" and "j < MAX_TASKS" and "state (TASKS s ! j) = Ready"
  shows "find_ready s < MAX_TASKS" and "state (TASKS s ! find_ready s) = Ready"
    and "ahead (CURRENT s) (find_ready s) \<le> ahead (CURRENT s) j"
proof -
  let ?P = "\<lambda>i. state (TASKS s ! ((CURRENT s + i) mod MAX_TASKS)) = Ready"
  have Pj: "?P (ahead (CURRENT s) j)" using assms ahead_step by simp
  note bj = ahead_bounds [OF assms(1,2)]
  obtain i where i: "List.find ?P [1..<MAX_TASKS + 1] = Some i"
    using Pj bj find_upt_None_iff [of ?P 1 "MAX_TASKS + 1"]
    by (cases "List.find ?P [1..<MAX_TASKS + 1]") auto
  note F = find_upt_SomeD [OF i]
  have r: "find_ready s = (CURRENT s + i) mod MAX_TASKS" using i by (simp add: find_ready_def)
  show "find_ready s < MAX_TASKS" unfolding r by (simp add: MAX_TASKS_def)
  show "state (TASKS s ! find_ready s) = Ready" unfolding r using F(3) .
  have "i \<le> ahead (CURRENT s) j" using F(4) [of "ahead (CURRENT s) j"] Pj bj by (meson not_less)
  then show "ahead (CURRENT s) (find_ready s) \<le> ahead (CURRENT s) j"
    unfolding r using ahead_unique [OF assms(1), of i] F(1,2) by simp
qed

section \<open>The context switch\<close>

text \<open>At most the current slot is running.\<close>

definition sched_ok :: "'a sched_scheme \<Rightarrow> bool" where
  "sched_ok s \<longleftrightarrow> length (TASKS s) = MAX_TASKS \<and> CURRENT s < MAX_TASKS \<and>
     (\<forall>i<MAX_TASKS. state (TASKS s ! i) = Running \<longrightarrow> i = CURRENT s)"

text \<open>The address space in use is that of the current task.\<close>

definition cr3_ok :: "'a sched_scheme \<Rightarrow> bool" where
  "cr3_ok s \<longleftrightarrow> CR3 s = (if ring3 (TASKS s ! CURRENT s) then task_pml4 (TASKS s ! CURRENT s) else KERNEL_PML4 s)"

lemma switch_away_sel [simp]:
  "CURRENT (switch_away rsp cur s) = CURRENT s" "KERNEL_PML4 (switch_away rsp cur s) = KERNEL_PML4 s"
  "length (TASKS (switch_away rsp cur s)) = length (TASKS s)" "FPU (switch_away rsp cur s) = FPU s"
  "CR3 (switch_away rsp cur s) = CR3 s"
  by (simp_all add: switch_away_def Let_def)

lemma switch_away_task:
  "cur < length (TASKS s) \<Longrightarrow> TASKS (switch_away rsp cur s) ! j =
    (if j = cur then (TASKS s ! cur)\<lparr>sp := rsp,
       state := (if state (TASKS s ! cur) = Running then Ready else state (TASKS s ! cur))\<rparr>
     else TASKS s ! j)"
  by (simp add: switch_away_def Let_def upd_task_nth)

lemma switch_away_fpu:
  "cur < length (TASKS s) \<Longrightarrow> FPU_MEM (switch_away rsp cur s) =
    (if fpu_buf_phys (TASKS s ! cur) \<noteq> 0 then (FPU_MEM s)(fpu_buf_phys (TASKS s ! cur) := FPU s) else FPU_MEM s)"
  by (simp add: switch_away_def Let_def upd_task_nth)

lemma switch_in_sel [simp]:
  "CURRENT (switch_in nxt s) = nxt" "KERNEL_PML4 (switch_in nxt s) = KERNEL_PML4 s"
  "length (TASKS (switch_in nxt s)) = length (TASKS s)" "FPU_MEM (switch_in nxt s) = FPU_MEM s"
  by (simp_all add: switch_in_def Let_def)

lemma switch_in_task:
  "nxt < length (TASKS s) \<Longrightarrow> TASKS (switch_in nxt s) ! j =
    (if j = nxt then (TASKS s ! nxt)\<lparr>state := Running\<rparr> else TASKS s ! j)"
  by (simp add: switch_in_def Let_def upd_task_nth)

lemma switch_in_cpu:
  "nxt < length (TASKS s) \<Longrightarrow>
    CR3 (switch_in nxt s) = (if ring3 (TASKS s ! nxt) then task_pml4 (TASKS s ! nxt) else KERNEL_PML4 s) \<and>
    FPU (switch_in nxt s) = (if fpu_buf_phys (TASKS s ! nxt) \<noteq> 0 then FPU_MEM s (fpu_buf_phys (TASKS s ! nxt)) else FPU s)"
  by (simp add: switch_in_def Let_def upd_task_nth)

lemma find_ready_tick [simp]: "find_ready (s\<lparr>TICK_COUNT := t\<rparr>) = find_ready s"
  by (simp add: find_ready_def del: upt_Suc split: option.split)

lemma reschedule_switch:
  assumes "sched_ok s" and "reschedule canary rsp s = Some (rsp', s')" and "find_ready s \<noteq> CURRENT s"
  shows "s' = switch_in (find_ready s) (switch_away rsp (CURRENT s) (s\<lparr>TICK_COUNT := TICK_COUNT s + 1\<rparr>))"
    and "rsp' = sp (TASKS s ! find_ready s)"
proof -
  obtain j where j: "j < MAX_TASKS" "state (TASKS s ! j) = Ready"
    using assms(3) find_ready_None [of s] by blast
  have c: "CURRENT s < MAX_TASKS" using assms(1) by (simp add: sched_ok_def)
  have lt: "find_ready s < length (TASKS s)" "CURRENT s < length (TASKS s)"
    using find_ready_Some(1) [OF c j] assms(1) by (auto simp: sched_ok_def)
  show s': "s' = switch_in (find_ready s) (switch_away rsp (CURRENT s) (s\<lparr>TICK_COUNT := TICK_COUNT s + 1\<rparr>))"
    using assms(2,3) by (auto simp: reschedule_def Let_def split: if_splits)
  have "rsp' = sp (TASKS s' ! find_ready s)"
    using assms(2,3) by (auto simp: reschedule_def Let_def split: if_splits)
  then show "rsp' = sp (TASKS s ! find_ready s)"
    unfolding s' using lt assms(3) by (simp add: switch_in_task switch_away_task)
qed

lemma reschedule_stay:
  assumes "reschedule canary rsp s = Some (rsp', s')" and "find_ready s = CURRENT s"
  shows "s' = s\<lparr>TICK_COUNT := TICK_COUNT s + 1\<rparr>" and "rsp' = rsp"
  using assms by (auto simp: reschedule_def Let_def split: if_splits)

lemma reschedule_CURRENT:
  assumes "sched_ok s" and "reschedule canary rsp s = Some (rsp', s')"
  shows "CURRENT s' = find_ready s"
  using assms reschedule_switch(1) [OF assms] reschedule_stay(1) [OF assms(2)]
  by (cases "find_ready s = CURRENT s") auto

section \<open>Properties\<close>

text \<open>C19: A context switch hands the CPU to the ready task that is next in round-robin order and
  to no other: that task becomes the only running one, the address space is switched to its
  own (or the kernel's), its saved stack pointer and FPU state are restored, the interrupted
  task becomes ready (or keeps its blocked state) with its stack pointer and FPU state saved,
  and every other task is untouched.\<close>

theorem reschedule_switches:
  assumes ok: "sched_ok s" and run: "reschedule canary rsp s = Some (rsp', s')"
    and ready: "j < MAX_TASKS" "j \<noteq> CURRENT s" "state (TASKS s ! j) = Ready"
    and cur: "state (TASKS s ! CURRENT s) \<noteq> Ready"
  shows "sched_ok s' \<and> cr3_ok s' \<and> CURRENT s' \<noteq> CURRENT s \<and>
    state (TASKS s ! CURRENT s') = Ready \<and> state (TASKS s' ! CURRENT s') = Running \<and>
    ahead (CURRENT s) (CURRENT s') \<le> ahead (CURRENT s) j \<and> rsp' = sp (TASKS s ! CURRENT s') \<and>
    TASKS s' ! CURRENT s = (TASKS s ! CURRENT s)\<lparr>sp := rsp,
      state := (if state (TASKS s ! CURRENT s) = Running then Ready else state (TASKS s ! CURRENT s))\<rparr> \<and>
    (fpu_buf_phys (TASKS s ! CURRENT s) \<noteq> 0 \<longrightarrow> FPU_MEM s' (fpu_buf_phys (TASKS s ! CURRENT s)) = FPU s) \<and>
    (fpu_buf_phys (TASKS s ! CURRENT s') \<noteq> 0 \<longrightarrow> FPU s' = FPU_MEM s' (fpu_buf_phys (TASKS s ! CURRENT s'))) \<and>
    (\<forall>i. i \<noteq> CURRENT s \<longrightarrow> i \<noteq> CURRENT s' \<longrightarrow> TASKS s' ! i = TASKS s ! i)"
proof -
  have c: "CURRENT s < MAX_TASKS" "CURRENT s < length (TASKS s)" "length (TASKS s) = MAX_TASKS"
    using ok by (auto simp: sched_ok_def)
  note F = find_ready_Some [OF c(1) ready(1,3)]
  have ne: "find_ready s \<noteq> CURRENT s" using F(2) cur by auto
  have lt: "find_ready s < length (TASKS s)" using F(1) c by simp
  note R = reschedule_switch [OF ok run ne]
  have C: "CURRENT s' = find_ready s" by (rule reschedule_CURRENT [OF ok run])
  have t: "TASKS s' ! i = (if i = find_ready s then (TASKS s ! i)\<lparr>state := Running\<rparr>
      else if i = CURRENT s then (TASKS s ! CURRENT s)\<lparr>sp := rsp,
        state := (if state (TASKS s ! CURRENT s) = Running then Ready else state (TASKS s ! CURRENT s))\<rparr>
      else TASKS s ! i)" for i
    unfolding R(1) using lt c(2) ne by (simp add: switch_in_task switch_away_task)
  have "length (TASKS s') = MAX_TASKS" using R(1) c(3) by simp
  moreover have "state (TASKS s' ! i) = Running \<longrightarrow> i = find_ready s" if "i < MAX_TASKS" for i
  proof -
    have "state (TASKS s ! i) = Running \<longrightarrow> i = CURRENT s" using ok that by (simp add: sched_ok_def)
    then have "state (TASKS s' ! i) \<noteq> Running" if ne': "i \<noteq> find_ready s"
      using trans [OF t [of i] if_not_P [OF ne']]
      by (cases "i = CURRENT s") (simp_all only: if_P if_not_P, simp_all)
    then show ?thesis by blast
  qed
  ultimately have "sched_ok s'" unfolding sched_ok_def C using F(1) by simp
  moreover have "cr3_ok s'" unfolding cr3_ok_def C
    using lt c(2) ne by (simp add: t) (simp add: R(1) switch_in_cpu switch_away_task)
  moreover have "FPU_MEM s' = (if fpu_buf_phys (TASKS s ! CURRENT s) \<noteq> 0
      then (FPU_MEM s)(fpu_buf_phys (TASKS s ! CURRENT s) := FPU s) else FPU_MEM s)"
    unfolding R(1) using c(2) by (simp add: switch_away_fpu)
  moreover have "fpu_buf_phys (TASKS s ! find_ready s) \<noteq> 0 \<longrightarrow>
      FPU s' = FPU_MEM s' (fpu_buf_phys (TASKS s ! find_ready s))"
    unfolding R(1) using lt c(2) ne by (simp add: switch_in_cpu switch_away_task)
  ultimately show ?thesis unfolding C using ne F R(2) by (auto simp: t)
qed

text \<open>One round: whatever the tasks did since the last tick left the table well formed with slot
  \<open>j\<close> still ready; then the timer interrupt runs \<open>reschedule\<close>.\<close>

definition tick_round :: "(u64 \<Rightarrow> u64) \<Rightarrow> nat \<Rightarrow> sched \<Rightarrow> sched \<Rightarrow> bool" where
  "tick_round canary j s s' \<longleftrightarrow>
     (\<exists>s1 rsp rsp'. sched_ok s1 \<and> CURRENT s1 = CURRENT s \<and> state (TASKS s1 ! j) = Ready \<and>
        reschedule canary rsp s1 = Some (rsp', s'))"

lemma tick_round_progress:
  assumes "tick_round canary j s s'" and "j < MAX_TASKS"
  shows "CURRENT s' < MAX_TASKS" and "ahead (CURRENT s) (CURRENT s') \<le> ahead (CURRENT s) j"
proof -
  obtain s1 rsp rsp' where r: "sched_ok s1" "CURRENT s1 = CURRENT s" "state (TASKS s1 ! j) = Ready"
    "reschedule canary rsp s1 = Some (rsp', s')" using assms(1) by (auto simp: tick_round_def)
  have c: "CURRENT s1 < MAX_TASKS" using r(1) by (simp add: sched_ok_def)
  note F = find_ready_Some [OF c assms(2) r(3)]
  show "CURRENT s' < MAX_TASKS" "ahead (CURRENT s) (CURRENT s') \<le> ahead (CURRENT s) j"
    using reschedule_CURRENT [OF r(1,4)] F r(2) by auto
qed

lemma ahead_closer:
  assumes "a < MAX_TASKS" "b < MAX_TASKS" "j < MAX_TASKS" "ahead a b \<le> ahead a j" "b \<noteq> j"
  shows "ahead b j < ahead a j"
  using assms by (auto simp: ahead_def split: if_splits)

text \<open>C6: Round-robin scheduling starves nobody: whatever the running tasks do between timer ticks, a
  ready task in slot \<open>j\<close> is running after at most \<open>MAX_TASKS\<close> context switches.\<close>

theorem ready_task_runs:
  assumes start: "CURRENT (\<sigma> 0) < MAX_TASKS" and j: "j < MAX_TASKS"
    and rounds: "\<And>k. CURRENT (\<sigma> k) \<noteq> j \<Longrightarrow> tick_round canary j (\<sigma> k) (\<sigma> (Suc k))"
  shows "\<exists>k\<le>MAX_TASKS. CURRENT (\<sigma> k) = j"
proof (rule ccontr)
  assume "\<not> (\<exists>k\<le>MAX_TASKS. CURRENT (\<sigma> k) = j)"
  then have never: "CURRENT (\<sigma> k) \<noteq> j" if "k \<le> MAX_TASKS" for k using that by blast
  have "CURRENT (\<sigma> k) < MAX_TASKS \<and> ahead (CURRENT (\<sigma> k)) j + k \<le> MAX_TASKS" if "k \<le> MAX_TASKS" for k
    using that
  proof (induction k)
    case 0
    then show ?case using start ahead_bounds [OF start j] by simp
  next
    case (Suc k)
    then have IH: "CURRENT (\<sigma> k) < MAX_TASKS" "ahead (CURRENT (\<sigma> k)) j + k \<le> MAX_TASKS" by auto
    note P = tick_round_progress [OF rounds [OF never] j, of k]
    have "ahead (CURRENT (\<sigma> (Suc k))) j < ahead (CURRENT (\<sigma> k)) j"
      using ahead_closer [OF IH(1) P(1) j P(2)] never [of "Suc k"] Suc.prems by simp
    then show ?case using P(1) IH(2) Suc.prems by simp
  qed
  from this [of MAX_TASKS] have "CURRENT (\<sigma> MAX_TASKS) < MAX_TASKS" "ahead (CURRENT (\<sigma> MAX_TASKS)) j = 0" by auto
  then show False using ahead_bounds [OF _ j] by fastforce
qed

text \<open>A table with a running task in slot 0 and a ready one in slot 1.\<close>

definition demo_sched :: sched where
  "demo_sched = \<lparr>TASKS = [task_free\<lparr>state := Running\<rparr>, task_free\<lparr>state := Ready, task_id := 1, sp := 77\<rparr>] @
       replicate 30 task_free,
     CURRENT = 0, NEXT_ID = 2, TICK_COUNT = 0, CR3 = 0, KERNEL_PML4 = 4096, SYS_KRSP = 0,
     SYS_URSAVE = 0, FPU = [], FPU_MEM = (\<lambda>_. [])\<rparr>"

lemma demo_sched_sel:
  "CURRENT demo_sched = 0" "state (TASKS demo_sched ! 0) = Running" "state (TASKS demo_sched ! Suc 0) = Ready"
  "stack_base (TASKS demo_sched ! 0) = 0" "sp (TASKS demo_sched ! Suc 0) = 77" "length (TASKS demo_sched) = MAX_TASKS"
  by (simp_all add: demo_sched_def task_free_def MAX_TASKS_def)

lemma demo_sched_ok: "sched_ok demo_sched"
  by (auto simp: sched_ok_def demo_sched_def MAX_TASKS_def nth_Cons nth_append task_free_def split: nat.splits)

lemma demo_sched_find: "find_ready demo_sched = 1"
proof -
  have c: "CURRENT demo_sched < MAX_TASKS" "1 < MAX_TASKS" "state (TASKS demo_sched ! 1) = Ready"
    by (simp_all add: demo_sched_sel MAX_TASKS_def)
  have "ahead 0 (find_ready demo_sched) \<le> 1"
    using find_ready_Some(3) [OF c] by (simp add: demo_sched_sel ahead_def)
  moreover have "find_ready demo_sched \<noteq> 0"
    using find_ready_Some(2) [OF c] demo_sched_sel(2) by (metis TaskState.distinct(11))
  ultimately show ?thesis by (simp add: ahead_def split: if_splits)
qed

lemma demo_sched_run: "reschedule (\<lambda>_. 0) 5 demo_sched = Some (77, snd (the (reschedule (\<lambda>_. 0) 5 demo_sched)))"
proof -
  obtain r s' where r: "reschedule (\<lambda>_. 0) 5 demo_sched = Some (r, s')"
    by (simp add: reschedule_def Let_def demo_sched_find demo_sched_sel)
  have "r = 77" using reschedule_switch(2) [OF demo_sched_ok r] demo_sched_find
    by (simp add: demo_sched_sel)
  then show ?thesis using r by simp
qed

theorem reschedule_switches_witness:
  "let s' = snd (the (reschedule (\<lambda>_. 0) 5 demo_sched)) in
     sched_ok s' \<and> cr3_ok s' \<and> state (TASKS s' ! CURRENT s') = Running \<and> sp (TASKS s' ! 0) = 5"
proof -
  show ?thesis
    using reschedule_switches [OF demo_sched_ok demo_sched_run, of 1]
    by (simp add: MAX_TASKS_def demo_sched_sel Let_def)
qed

theorem ready_task_runs_witness:
  "\<exists>k\<le>MAX_TASKS. CURRENT ((\<lambda>k. if k = 0 then demo_sched
     else snd (the (reschedule (\<lambda>_. 0) 5 demo_sched))) k) = 1"
proof (rule ready_task_runs)
  let ?\<sigma> = "\<lambda>k::nat. if k = 0 then demo_sched else snd (the (reschedule (\<lambda>_. 0) 5 demo_sched))"
  fix k assume ne: "CURRENT (?\<sigma> k) \<noteq> 1"
  have "CURRENT (snd (the (reschedule (\<lambda>_. 0) 5 demo_sched))) = 1"
    using reschedule_CURRENT [OF demo_sched_ok demo_sched_run] demo_sched_find by simp
  then have "k = 0" using ne by (auto split: if_splits)
  moreover have "state (TASKS demo_sched ! 1) = Ready" by (simp add: demo_sched_sel)
  ultimately show "tick_round (\<lambda>_. 0) 1 (?\<sigma> k) (?\<sigma> (Suc k))"
    unfolding tick_round_def using demo_sched_ok demo_sched_run by auto
qed (simp_all add: demo_sched_sel MAX_TASKS_def)

end
