(* ===== verification/Users.thy ===== *)
theory Users
  imports Tasks
begin

text \<open>
  The user database, \<open>kernel/src/user.rs\<close> without its persistence (which is in
  \<open>User_Store\<close>, after the file system it writes to): the table of users, password hashes,
  authentication, and the identity of the running task. The state extends the scheduler's
  record, since a task's identity is kept in the task table; \<open>ticks\<close> is the value read from the
  HPET counter. Console output is left out.
\<close>

section \<open>State\<close>

record user =
  u_uid :: u32
  u_gid :: u32
  u_name :: bytes
  u_name_len :: u8
  u_home :: bytes
  u_home_len :: u8
  u_shell :: bytes
  u_shell_len :: u8
  password_hash :: u32
  salt :: u32
  active :: bool

definition user_empty :: user where
  "user_empty = \<lparr>u_uid = 0, u_gid = 0, u_name = replicate 32 0, u_name_len = 0, u_home = replicate 64 0,
     u_home_len = 0, u_shell = replicate 32 0, u_shell_len = 0, password_hash = 0, salt = 0, active = False\<rparr>"

definition MAX_USERS :: nat where "MAX_USERS = 16"

record userdb = sched +
  USERS :: "user list"
  USER_COUNT :: nat
  CURRENT_UID :: u32

section \<open>Password hashes\<close>

definition hash_password :: "bytes \<Rightarrow> u32" where
  "hash_password pw = foldl (\<lambda>h b. h * 33 + ucast b) 5381 pw"

definition hash_password_salted :: "bytes \<Rightarrow> u32 \<Rightarrow> u32" where
  "hash_password_salted pw slt =
     (let h = foldl (\<lambda>h b. h * 33 + ucast b + (slt AND 0xFF)) (5381 XOR slt) pw
      in ((\<lambda>h. (h * 33) XOR slt) ^^ 100) h)"

definition generate_salt :: "u64 \<Rightarrow> u32 \<Rightarrow> bytes \<Rightarrow> u32" where
  "generate_salt ticks u nm =
     (let h = foldl (\<lambda>h b. h * 33 + ucast b) ((ucast ticks :: u32) * 2654435761 + u * 1597334677) nm
      in if h = 0 then 0x9E3779B9 XOR u else h)"

section \<open>Adding users\<close>

text \<open>The fields every constructor of a user sets in the same way.\<close>

definition fill_user :: "u32 \<Rightarrow> u32 \<Rightarrow> bytes \<Rightarrow> bytes \<Rightarrow> user" where
  "fill_user u g nm hm =
     (let nl = min (length nm) 31; hl = min (length hm) 63; sh = ascii ''/bin/sh'' in
      user_empty\<lparr>u_uid := u, u_gid := g,
        u_name := splice_at (u_name user_empty) 0 (take nl nm), u_name_len := of_nat nl,
        u_home := splice_at (u_home user_empty) 0 (take hl hm), u_home_len := of_nat hl,
        u_shell := splice_at (u_shell user_empty) 0 sh, u_shell_len := of_nat (length sh), active := True\<rparr>)"

definition push_user :: "user \<Rightarrow> 'a userdb_scheme \<Rightarrow> 'a userdb_scheme" where
  "push_user u s = s\<lparr>USERS := (USERS s)[USER_COUNT s := u], USER_COUNT := USER_COUNT s + 1\<rparr>"

definition init_user :: "u64 \<Rightarrow> u32 \<Rightarrow> u32 \<Rightarrow> bytes \<Rightarrow> bytes \<Rightarrow> u32 \<Rightarrow> 'a userdb_scheme \<Rightarrow> 'a userdb_scheme" where
  "init_user ticks u g nm hm pw_hash s =
     (if USER_COUNT s \<ge> MAX_USERS then s
      else push_user ((fill_user u g nm hm)\<lparr>password_hash := pw_hash,
             salt := (if pw_hash = 0 then 0 else generate_salt ticks u nm)\<rparr>) s)"

definition init_user_salted :: "u64 \<Rightarrow> u32 \<Rightarrow> u32 \<Rightarrow> bytes \<Rightarrow> bytes \<Rightarrow> bytes \<Rightarrow> 'a userdb_scheme \<Rightarrow> 'a userdb_scheme" where
  "init_user_salted ticks u g nm hm pw s =
     (if USER_COUNT s \<ge> MAX_USERS then s
      else let usr = fill_user u g nm hm;
               usr' = (if pw = [] then usr\<lparr>password_hash := 0, salt := 0\<rparr>
                       else let slt = generate_salt ticks u nm
                            in usr\<lparr>salt := slt, password_hash := hash_password_salted pw slt\<rparr>)
           in push_user usr' s)"

definition users_init :: "u64 \<Rightarrow> u64 \<Rightarrow> 'a userdb_scheme \<Rightarrow> 'a userdb_scheme" where
  "users_init ticks1 ticks2 s =
     (let s1 = init_user_salted ticks1 0 0 (ascii ''root'') (ascii ''/root'') (ascii ''root'') s;
          s2 = init_user_salted 0 1000 1000 (ascii ''guest'') (ascii ''/home/guest'') [] s1;
          s3 = init_user_salted ticks2 1001 1001 (ascii ''user'') (ascii ''/home/user'') (ascii ''user'') s2;
          s4 = s3\<lparr>CURRENT_UID := 0\<rparr>
      in upd_task (CURRENT s4) (\<lambda>t. t\<lparr>uid := 0, gid := 0\<rparr>) s4)"

section \<open>Looking users up\<close>

definition user_name :: "user \<Rightarrow> bytes" where
  "user_name u = take (unat (u_name_len u)) (u_name u)"

definition user_home :: "user \<Rightarrow> bytes" where
  "user_home u = take (unat (u_home_len u)) (u_home u)"

definition find_by_name :: "'a userdb_scheme \<Rightarrow> bytes \<Rightarrow> nat option" where
  "find_by_name s nm = position (\<lambda>u. user_name u = nm) (take (USER_COUNT s) (USERS s))"

definition find_by_uid :: "'a userdb_scheme \<Rightarrow> u32 \<Rightarrow> nat option" where
  "find_by_uid s u = position (\<lambda>x. u_uid x = u) (take (USER_COUNT s) (USERS s))"

definition uid_by_name :: "'a userdb_scheme \<Rightarrow> bytes \<Rightarrow> u32 option" where
  "uid_by_name s nm = map_option (\<lambda>idx. u_uid (USERS s ! idx)) (find_by_name s nm)"

definition gid_by_name :: "'a userdb_scheme \<Rightarrow> bytes \<Rightarrow> u32 option" where
  "gid_by_name s nm = map_option (\<lambda>idx. u_gid (USERS s ! idx)) (find_by_name s nm)"

section \<open>The identity of the running task\<close>

definition current_uid :: "'a userdb_scheme \<Rightarrow> u32" where
  "current_uid s =
     (let cur = CURRENT s; t = TASKS s ! cur in
      if cur < MAX_TASKS \<and> state t \<noteq> Free \<and> (task_id t \<noteq> 0 \<or> uid t \<noteq> 0 \<or> CURRENT_UID s = 0)
      then uid t else CURRENT_UID s)"

definition current_gid :: "'a userdb_scheme \<Rightarrow> u32" where
  "current_gid s =
     (let cur = CURRENT s; t = TASKS s ! cur in
      if cur < MAX_TASKS \<and> state t \<noteq> Free then gid t else CURRENT_UID s)"

definition set_current_uid :: "u32 \<Rightarrow> 'a userdb_scheme \<Rightarrow> 'a userdb_scheme" where
  "set_current_uid u s =
     (let s1 = s\<lparr>CURRENT_UID := u\<rparr>; cur = CURRENT s1 in
      if cur < MAX_TASKS then
        (let s2 = upd_task cur (\<lambda>t. t\<lparr>uid := u\<rparr>) s1 in
         case find_by_uid s2 u of
           Some idx \<Rightarrow> upd_task cur (\<lambda>t. t\<lparr>gid := u_gid (USERS s2 ! idx)\<rparr>) s2
         | None \<Rightarrow> upd_task cur (\<lambda>t. t\<lparr>gid := u\<rparr>) s2)
      else s1)"

definition current_user :: "'a userdb_scheme \<Rightarrow> user option" where
  "current_user s = List.find (\<lambda>u. u_uid u = current_uid s) (take (USER_COUNT s) (USERS s))"

definition authenticate :: "bytes \<Rightarrow> bytes \<Rightarrow> 'a userdb_scheme \<Rightarrow> bool" where
  "authenticate nm password s =
     (case find_by_name s nm of
        Some idx \<Rightarrow>
          (let u = USERS s ! idx in
           if password_hash u = 0 then True
           else if salt u = 0 then password_hash u = hash_password password
           else password_hash u = hash_password_salted password (salt u))
      | None \<Rightarrow> False)"

definition login :: "bytes \<Rightarrow> bytes \<Rightarrow> 'a userdb_scheme \<Rightarrow> bool \<times> 'a userdb_scheme" where
  "login nm password s =
     (if authenticate nm password s then
        (case find_by_name s nm of
           Some idx \<Rightarrow> (True, set_current_uid (u_uid (USERS s ! idx)) s)
         | None \<Rightarrow> (False, s))
      else (False, s))"

definition is_root :: "'a userdb_scheme \<Rightarrow> bool" where
  "is_root s \<longleftrightarrow> current_uid s = 0"

definition set_uid_for_current :: "u32 \<Rightarrow> 'a userdb_scheme \<Rightarrow> bool \<times> 'a userdb_scheme" where
  "set_uid_for_current u s =
     (if find_by_uid s u = None \<and> u \<noteq> 0 then (False, s)
      else if \<not> is_root s then (False, s)
      else (True, set_current_uid u s))"

text \<open>The table part of \<open>set_password\<close>, for the user in slot \<open>idx\<close>.\<close>

definition change_password :: "u64 \<Rightarrow> nat \<Rightarrow> bytes \<Rightarrow> bytes \<Rightarrow> 'a userdb_scheme \<Rightarrow> 'a userdb_scheme" where
  "change_password ticks idx nm new_pw s =
     (let u = USERS s ! idx in
      s\<lparr>USERS := (USERS s)[idx :=
        (if new_pw = [] then u\<lparr>password_hash := 0, salt := 0\<rparr>
         else let slt = generate_salt ticks (u_uid u) nm
              in u\<lparr>salt := slt, password_hash := hash_password_salted new_pw slt\<rparr>)]\<rparr>)"

section \<open>Identity\<close>

definition users_ok :: "'a userdb_scheme \<Rightarrow> bool" where
  "users_ok s \<longleftrightarrow> length (USERS s) = MAX_USERS \<and> USER_COUNT s \<le> MAX_USERS \<and>
     length (TASKS s) = MAX_TASKS \<and> CURRENT s < MAX_TASKS"

lemma set_current_uid_task:
  assumes "users_ok s"
  shows "\<exists>g. TASKS (set_current_uid u s) = (TASKS s)[CURRENT s := (TASKS s ! CURRENT s)\<lparr>uid := u, gid := g\<rparr>] \<and>
    (case find_by_uid s u of Some idx \<Rightarrow> g = u_gid (USERS s ! idx) | None \<Rightarrow> g = u)"
    and "CURRENT_UID (set_current_uid u s) = u" "CURRENT (set_current_uid u s) = CURRENT s"
    and "USERS (set_current_uid u s) = USERS s" "USER_COUNT (set_current_uid u s) = USER_COUNT s"
  using assms
  by (auto simp: set_current_uid_def Let_def upd_task_def users_ok_def find_by_uid_def split: option.split)

lemma current_uid_set:
  assumes "users_ok s"
  shows "current_uid (set_current_uid u s) = u"
proof -
  obtain g where "TASKS (set_current_uid u s) = (TASKS s)[CURRENT s := (TASKS s ! CURRENT s)\<lparr>uid := u, gid := g\<rparr>]"
    using set_current_uid_task(1) [OF assms, of u] by blast
  moreover have "CURRENT s < length (TASKS s)" using assms by (simp add: users_ok_def)
  ultimately show ?thesis
    using set_current_uid_task(2,3) [OF assms, of u] by (auto simp: current_uid_def Let_def)
qed

lemma find_by_name_SomeD:
  assumes "find_by_name s nm = Some idx"
  shows "idx < USER_COUNT s" and "idx < length (USERS s)" and "user_name (USERS s ! idx) = nm"
    and "\<And>j. j < idx \<Longrightarrow> user_name (USERS s ! j) \<noteq> nm"
  using position_SomeD [OF assms [unfolded find_by_name_def]] by auto

text \<open>C27: A task changes its identity only by authenticating or as root. \<open>login\<close> succeeds exactly when
  the name and password authenticate, and then the running task is that user (user and group
  of the table) and no other task and no entry of the table changes; when it fails nothing
  changes. \<open>set_uid_for_current\<close> succeeds exactly for root and a known user (or root itself).\<close>

theorem identity_guarded:
  assumes "users_ok s" and "login nm pw s = (ok, s1)" and "set_uid_for_current u s = (ok2, s2)"
  shows "(ok \<longleftrightarrow> authenticate nm pw s) \<and> (\<not> ok \<longrightarrow> s1 = s) \<and>
    (ok \<longrightarrow> (\<exists>idx. find_by_name s nm = Some idx \<and> current_uid s1 = u_uid (USERS s ! idx) \<and> USERS s1 = USERS s \<and>
       (\<forall>i. i \<noteq> CURRENT s \<longrightarrow> TASKS s1 ! i = TASKS s ! i))) \<and>
    (ok2 \<longleftrightarrow> current_uid s = 0 \<and> (u = 0 \<or> find_by_uid s u \<noteq> None)) \<and> (\<not> ok2 \<longrightarrow> s2 = s) \<and>
    (ok2 \<longrightarrow> current_uid s2 = u)"
proof -
  have others: "TASKS (set_current_uid v s) ! i = TASKS s ! i" if "i \<noteq> CURRENT s" for v i
    using set_current_uid_task(1) [OF assms(1), of v] that by auto
  have a: "authenticate nm pw s \<Longrightarrow> \<exists>idx. find_by_name s nm = Some idx"
    by (auto simp: authenticate_def split: option.splits)
  have "ok2 \<longleftrightarrow> current_uid s = 0 \<and> (u = 0 \<or> find_by_uid s u \<noteq> None)" "\<not> ok2 \<longrightarrow> s2 = s" "ok2 \<longrightarrow> current_uid s2 = u"
    using assms(3) current_uid_set [OF assms(1), of u]
    by (auto simp: set_uid_for_current_def is_root_def split: if_splits)
  moreover have "ok \<longleftrightarrow> authenticate nm pw s" "\<not> ok \<longrightarrow> s1 = s"
    using assms(2) a by (auto simp: login_def split: if_splits option.splits)
  moreover have "\<exists>idx. find_by_name s nm = Some idx \<and> current_uid s1 = u_uid (USERS s ! idx) \<and> USERS s1 = USERS s \<and>
       (\<forall>i. i \<noteq> CURRENT s \<longrightarrow> TASKS s1 ! i = TASKS s ! i)" if ok
    using assms(2) that current_uid_set [OF assms(1)] set_current_uid_task(4) [OF assms(1)] others
    by (auto simp: login_def split: if_splits option.splits)
  ultimately show ?thesis by blast
qed

section \<open>Passwords\<close>

lemma generate_salt_nonzero: "u \<noteq> 0x9E3779B9 \<Longrightarrow> generate_salt ticks u nm \<noteq> 0"
proof -
  assume "u \<noteq> 0x9E3779B9"
  then have "0x9E3779B9 XOR u \<noteq> 0" using xor_cancel_right [of "0x9E3779B9" u] by (metis xor.left_neutral)
  then show ?thesis by (simp add: generate_salt_def Let_def)
qed

lemma find_by_name_change:
  assumes "find_by_name s nm = Some idx"
  shows "find_by_name (change_password ticks idx nm pw s) nm' = find_by_name s nm'"
proof -
  let ?U = "USERS (change_password ticks idx nm pw s)"
  have "user_name (?U ! j) = user_name (USERS s ! j)" for j
    using find_by_name_SomeD(2) [OF assms]
    by (cases "j = idx") (auto simp: change_password_def Let_def user_name_def)
  moreover have "length ?U = length (USERS s)" "USER_COUNT (change_password ticks idx nm pw s) = USER_COUNT s"
    by (simp_all add: change_password_def Let_def)
  ultimately show ?thesis unfolding find_by_name_def position_def by (auto intro!: find_idx_cong)
qed

text \<open>A new password works and only it does, up to collisions of the 32-bit hash: after changing a
  user's password to a nonempty one, that password authenticates, and another does exactly if
  its salted hash is the same, unless the hash happens to be 0, the mark of an account without
  password.\<close>

theorem new_password_authenticates:
  assumes "find_by_name s nm = Some idx" and "new_pw \<noteq> []" and "u_uid (USERS s ! idx) \<noteq> 0x9E3779B9"
  shows "let s' = change_password ticks idx nm new_pw s; slt = generate_salt ticks (u_uid (USERS s ! idx)) nm in
    authenticate nm new_pw s' \<and>
    (authenticate nm pw s' \<longleftrightarrow>
       hash_password_salted pw slt = hash_password_salted new_pw slt \<or> hash_password_salted new_pw slt = 0)"
proof -
  let ?s = "change_password ticks idx nm new_pw s" and ?slt = "generate_salt ticks (u_uid (USERS s ! idx)) nm"
  have "USERS ?s ! idx = (USERS s ! idx)\<lparr>salt := ?slt, password_hash := hash_password_salted new_pw ?slt\<rparr>"
    using find_by_name_SomeD(2) [OF assms(1)] assms(2) by (simp add: change_password_def Let_def)
  moreover have "?slt \<noteq> 0" by (rule generate_salt_nonzero [OF assms(3)])
  ultimately have "authenticate nm p ?s \<longleftrightarrow>
      hash_password_salted p ?slt = hash_password_salted new_pw ?slt \<or> hash_password_salted new_pw ?slt = 0" for p
    using find_by_name_change [OF assms(1), of ticks new_pw nm] assms(1) by (auto simp: authenticate_def Let_def)
  then show ?thesis by (simp add: Let_def)
qed

section \<open>Concrete database\<close>

definition demo_users :: userdb where
  "demo_users = \<lparr>TASKS = task_free\<lparr>state := Running, uid := 7\<rparr> # replicate 31 task_free,
     CURRENT = 0, NEXT_ID = 1, TICK_COUNT = 0, CR3 = 0, KERNEL_PML4 = 0, SYS_KRSP = 0, SYS_URSAVE = 0,
     FPU = [], FPU_MEM = (\<lambda>_. []), USERS = fill_user 1000 1000 [103] [47] # replicate 15 user_empty, USER_COUNT = 1,
     CURRENT_UID = 7\<rparr>"

lemma demo_users_ok: "users_ok demo_users"
  by (simp add: users_ok_def demo_users_def MAX_USERS_def MAX_TASKS_def)

lemma demo_users_find: "find_by_name demo_users [103] = Some 0"
  unfolding find_by_name_def position_def
  by (rule find_idx_eq_SomeI) (simp_all add: demo_users_def user_name_def fill_user_def user_empty_def Let_def splice_at_def)

lemma demo_users_uid: "u_uid (USERS demo_users ! 0) = 1000" "password_hash (USERS demo_users ! 0) = 0"
  by (simp_all add: demo_users_def fill_user_def user_empty_def Let_def)

theorem identity_guarded_witness:
  "fst (login [103] [] demo_users) \<and> current_uid (snd (login [103] [] demo_users)) = 1000 \<and>
    \<not> fst (set_uid_for_current 0 demo_users)"
proof -
  have "authenticate [103] [] demo_users" by (simp add: authenticate_def demo_users_find demo_users_uid Let_def)
  moreover have "current_uid demo_users \<noteq> 0" by (simp add: current_uid_def demo_users_def MAX_TASKS_def Let_def)
  moreover note identity_guarded [OF demo_users_ok prod.collapse [symmetric] prod.collapse [symmetric], of "[103]" "[]" 0]
  ultimately show ?thesis by (auto simp: demo_users_find demo_users_uid)
qed

theorem new_password_authenticates_witness:
  "authenticate [103] [1, 2] (change_password 5 0 [103] [1, 2] demo_users)"
  using new_password_authenticates [OF demo_users_find, of "[1, 2]" 5] by (simp add: demo_users_uid Let_def)

end
