(* ===== verification/Slot_Interface.thy ===== *)
theory Slot_Interface
  imports Prelude "HOL-Library.Multiset"
begin

text \<open>
  The contract of the kernel's fixed-size tables (capability slots, file handles, mounts): an
  entry is stored in the first vacant slot, or the table is full. What the clients need, that
  exactly the new entry is added and that nothing else moves, is proved once here.
\<close>

locale slot_table =
  fixes vacant :: "'e \<Rightarrow> bool"
    and store :: "'e \<Rightarrow> 'e list \<Rightarrow> (nat \<times> 'e list) option"
  assumes store_Some: "store e t = Some (i, t') \<Longrightarrow>
      i < length t \<and> vacant (t ! i) \<and> t' = t[i := e] \<and> (\<forall>j<i. \<not> vacant (t ! j))"
    and store_None: "store e t = None \<Longrightarrow> x \<in> set t \<Longrightarrow> \<not> vacant x"
begin

definition occupied :: "'e list \<Rightarrow> 'e multiset" where
  "occupied t = filter_mset (\<lambda>x. \<not> vacant x) (mset t)"

lemma store_fails_iff: "store e t = None \<longleftrightarrow> (\<forall>x\<in>set t. \<not> vacant x)"
proof (cases "store e t")
  case (Some p)
  obtain i t' where p: "p = (i, t')" by force
  have "i < length t" "vacant (t ! i)" using store_Some [of e t i t'] Some p by auto
  then have "\<exists>x\<in>set t. vacant x" using nth_mem by blast
  then show ?thesis using Some by simp
qed (use store_None in blast)

lemma store_keeps:
  assumes "store e t = Some (i, t')"
  shows "length t' = length t" and "t' ! i = e" and "j \<noteq> i \<Longrightarrow> t' ! j = t ! j"
  using store_Some [OF assms] by auto

lemma occupied_update:
  assumes "i < length t"
  shows "occupied (t[i := e]) + (if vacant (t ! i) then {#} else {#t ! i#}) =
    occupied t + (if vacant e then {#} else {#e#})"
proof -
  have "mset (t[i := e]) + {#t ! i#} = mset t + {#e#}"
    using assms by (simp add: mset_update)
  from arg_cong [OF this, of "filter_mset (\<lambda>x. \<not> vacant x)"] show ?thesis
    by (auto simp: occupied_def split: if_splits)
qed

lemma store_adds:
  assumes "store e t = Some (i, t')" and "\<not> vacant e"
  shows "occupied t' = add_mset e (occupied t)"
  using store_Some [OF assms(1)] occupied_update [of i t e] assms(2) by auto

lemma clear_removes:
  assumes "i < length t" and "\<not> vacant (t ! i)" and "vacant e"
  shows "occupied t = add_mset (t ! i) (occupied (t[i := e]))"
  using occupied_update [OF assms(1), of e] assms(2,3) by auto

end

text \<open>Updating one table of several.\<close>

lemma sum_list_map_update:
  fixes f :: "'a \<Rightarrow> 'b::comm_monoid_add"
  assumes "i < length xs"
  shows "f (xs ! i) + sum_list (map f (xs[i := x])) = f x + sum_list (map f xs)"
  using assms
proof (induction xs arbitrary: i)
  case (Cons y ys)
  then show ?case by (cases i) (auto simp: ac_simps)
qed simp

end
