(* ===== verification/Permissions.thy ===== *)
theory Permissions
  imports Users Slot_Interface
begin

text \<open>
  File permissions, \<open>kernel/src/permissions.rs\<close>: a side table of at most 128 paths with owner, group
  and mode bits, a default for paths without an entry, and the three access checks the file
  system calls. Inserting an entry is interpreted as \<open>slot_table\<close>.
\<close>

section \<open>The table\<close>

record perm =
  owner :: u32
  group :: u32
  mode :: u16

record perm_entry =
  pe_path :: bytes
  pe_len :: u8
  pe_perm :: perm

definition MAX_PERMS :: nat where "MAX_PERMS = 128"

record permdb = userdb +
  PERMS :: "perm_entry option list"

text \<open>\<open>starts_with\<close> on byte slices.\<close>

definition starts_with :: "bytes \<Rightarrow> bytes \<Rightarrow> bool" where
  "starts_with xs p \<longleftrightarrow> take (length p) xs = p"

definition default_for :: "bytes \<Rightarrow> 'a userdb_scheme \<Rightarrow> perm" where
  "default_for path s =
     (let u = current_uid s;
          m = (if starts_with path (ascii ''/etc'') \<or> starts_with path (ascii ''/root'') then 0x1C0
               else if starts_with path (ascii ''/home'') then 0x1ED else 0x1A4)
      in \<lparr>owner = u, group = u, mode = m\<rparr>)"

definition permissions_init :: "'a permdb_scheme \<Rightarrow> 'a permdb_scheme" where
  "permissions_init s = s\<lparr>PERMS := replicate MAX_PERMS None\<rparr>"

definition entry_matches :: "bytes \<Rightarrow> perm_entry \<Rightarrow> bool" where
  "entry_matches path e \<longleftrightarrow> unat (pe_len e) = length path \<and> take (unat (pe_len e)) (pe_path e) = path"

definition slot_matches :: "bytes \<Rightarrow> perm_entry option \<Rightarrow> bool" where
  "slot_matches path x \<longleftrightarrow> (case x of Some e \<Rightarrow> entry_matches path e | None \<Rightarrow> False)"

definition perm_find :: "'a permdb_scheme \<Rightarrow> bytes \<Rightarrow> perm option" where
  "perm_find s path =
     (case List.find (slot_matches path) (PERMS s) of Some (Some e) \<Rightarrow> Some (pe_perm e) | _ \<Rightarrow> None)"

definition perm_get :: "'a permdb_scheme \<Rightarrow> bytes \<Rightarrow> perm" where
  "perm_get s path = (case perm_find s path of Some p \<Rightarrow> p | None \<Rightarrow> default_for path s)"

text \<open>The second loop of \<open>set\<close>: the first slot that is \<open>None\<close>.\<close>

definition perm_insert :: "perm_entry option \<Rightarrow> perm_entry option list \<Rightarrow> (nat \<times> perm_entry option list) option" where
  "perm_insert e t = (case position (\<lambda>x. x = None) t of Some i \<Rightarrow> Some (i, t[i := e]) | None \<Rightarrow> None)"

definition perm_set :: "bytes \<Rightarrow> perm \<Rightarrow> 'a permdb_scheme \<Rightarrow> 'a permdb_scheme" where
  "perm_set path p s =
     (case position (slot_matches path) (PERMS s) of
        Some i \<Rightarrow> s\<lparr>PERMS := (PERMS s)[i := map_option (\<lambda>e. e\<lparr>pe_perm := p\<rparr>) (PERMS s ! i)]\<rparr>
      | None \<Rightarrow>
          (let l = min (length path) 64;
               e = \<lparr>pe_path = splice_at (replicate 64 0) 0 (take l path), pe_len = of_nat l, pe_perm = p\<rparr>
           in case perm_insert (Some e) (PERMS s) of Some (i, t) \<Rightarrow> s\<lparr>PERMS := t\<rparr> | None \<Rightarrow> s))"

section \<open>Access checks\<close>

definition gid_of :: "u32 \<Rightarrow> 'a permdb_scheme \<Rightarrow> u32" where
  "gid_of u s = (if find_by_uid s u \<noteq> None then u else u)"

text \<open>The three checks differ in the bits they test: owner, group, other.\<close>

definition can_read :: "bytes \<Rightarrow> u32 \<Rightarrow> 'a permdb_scheme \<Rightarrow> bool" where
  "can_read path u s =
     (let p = perm_get s path in
      if u = 0 then True
      else if u = owner p then mode p AND 0x100 \<noteq> 0
      else if gid_of u s = group p then mode p AND 0x020 \<noteq> 0
      else mode p AND 0x004 \<noteq> 0)"

definition can_write :: "bytes \<Rightarrow> u32 \<Rightarrow> 'a permdb_scheme \<Rightarrow> bool" where
  "can_write path u s =
     (let p = perm_get s path in
      if u = 0 then True
      else if u = owner p then mode p AND 0x080 \<noteq> 0
      else if gid_of u s = group p then mode p AND 0x010 \<noteq> 0
      else mode p AND 0x002 \<noteq> 0)"

definition can_exec :: "bytes \<Rightarrow> u32 \<Rightarrow> 'a permdb_scheme \<Rightarrow> bool" where
  "can_exec path u s =
     (let p = perm_get s path in
      if u = 0 then True
      else if u = owner p then mode p AND 0x040 \<noteq> 0
      else if gid_of u s = group p then mode p AND 0x008 \<noteq> 0
      else mode p AND 0x001 \<noteq> 0)"

section \<open>Storing and finding entries\<close>

interpretation pt: slot_table "\<lambda>x. x = None" perm_insert
proof unfold_locales
  fix e t i t' assume "perm_insert e t = Some (i, t')"
  then have "position (\<lambda>x. x = None) t = Some i" "t' = t[i := e]"
    by (auto simp: perm_insert_def split: option.splits)
  then show "i < length t \<and> t ! i = None \<and> t' = t[i := e] \<and> (\<forall>j<i. \<not> t ! j = None)"
    using position_SomeD [of "\<lambda>x. x = None" t i] by blast
next
  fix e t x assume "perm_insert e t = None" "x \<in> set (t :: perm_entry option list)"
  then show "\<not> x = None"
    by (auto simp: perm_insert_def position_None_iff split: option.splits)
qed

text \<open>At most one entry per path, each entry's length within its array.\<close>

definition perms_ok :: "'a permdb_scheme \<Rightarrow> bool" where
  "perms_ok s \<longleftrightarrow> (\<forall>path i j. i < length (PERMS s) \<and> j < length (PERMS s) \<and>
     slot_matches path (PERMS s ! i) \<and> slot_matches path (PERMS s ! j) \<longrightarrow> i = j)"

lemma perm_find_Some:
  assumes "perms_ok s" and "i < length (PERMS s)" and "PERMS s ! i = Some e" and "entry_matches path e"
  shows "perm_find s path = Some (pe_perm e)"
proof -
  have m: "slot_matches path (PERMS s ! i)" using assms(3,4) by (simp add: slot_matches_def)
  obtain x where x: "List.find (slot_matches path) (PERMS s) = Some x"
    using m assms(2) by (cases "List.find (slot_matches path) (PERMS s)") (auto simp: find_None_iff)
  then obtain j where j: "j < length (PERMS s)" "slot_matches path (PERMS s ! j)" "x = PERMS s ! j"
    by (auto simp: find_Some_iff)
  then have "j = i" using assms(1,2) m unfolding perms_ok_def by blast
  then show ?thesis using x j(3) assms(3) by (simp add: perm_find_def)
qed

lemma perm_find_None_iff: "perm_find s path = None \<longleftrightarrow> (\<forall>i<length (PERMS s). \<not> slot_matches path (PERMS s ! i))"
proof (cases "List.find (slot_matches path) (PERMS s)")
  case None
  then have "\<not> slot_matches path x" if "x \<in> set (PERMS s)" for x using that by (auto simp: find_None_iff)
  then show ?thesis using None by (simp add: perm_find_def)
next
  case (Some x)
  then obtain j where "j < length (PERMS s)" "slot_matches path x" "x = PERMS s ! j" by (auto simp: find_Some_iff)
  then show ?thesis using Some by (auto simp: perm_find_def slot_matches_def split: option.splits)
qed

text \<open>\<open>perm_set\<close> changes one slot, to an entry for the path (cut to 64 bytes), when there is an entry or a
  free slot.\<close>

lemma perm_set_slot:
  assumes "perms_ok s" and "length path \<le> 64" and "perm_find s path \<noteq> None \<or> None \<in> set (PERMS s)"
  obtains i e where "i < length (PERMS s)" "PERMS (perm_set path p s) = (PERMS s)[i := Some e]" "pe_perm e = p"
    "entry_matches path e" "\<And>path'. path' \<noteq> path \<Longrightarrow> \<not> slot_matches path' (PERMS s ! i)"
    "\<And>j. j < length (PERMS s) \<Longrightarrow> j \<noteq> i \<Longrightarrow> \<not> slot_matches path (PERMS s ! j)"
proof (cases "position (slot_matches path) (PERMS s)")
  case (Some i)
  note P = position_SomeD [OF Some]
  then obtain e where e: "PERMS s ! i = Some e" "entry_matches path e"
    by (auto simp: slot_matches_def split: option.splits)
  show thesis
  proof (rule that [of i "e\<lparr>pe_perm := p\<rparr>"])
    show "PERMS (perm_set path p s) = (PERMS s)[i := Some (e\<lparr>pe_perm := p\<rparr>)]" using Some e by (simp add: perm_set_def)
    show "\<not> slot_matches path (PERMS s ! j)" if "j < length (PERMS s)" "j \<noteq> i" for j
      using assms(1) that P(1,2) unfolding perms_ok_def by blast
  qed (use P e in \<open>auto simp: entry_matches_def slot_matches_def\<close>)
next
  case None
  then have no: "\<forall>x\<in>set (PERMS s). \<not> slot_matches path x" by (simp add: position_None_iff)
  then have "perm_find s path = None" by (simp add: perm_find_None_iff)
  then have room: "\<not> (\<forall>x\<in>set (PERMS s). \<not> x = None)" using assms(3) by blast
  define e where "e = \<lparr>pe_path = splice_at (replicate 64 0) 0 (take (min (length path) 64) path),
    pe_len = of_nat (min (length path) 64), pe_perm = p\<rparr>"
  obtain i t where it: "perm_insert (Some e) (PERMS s) = Some (i, t)"
    using pt.store_fails_iff [of "Some e" "PERMS s"] room by (cases "perm_insert (Some e) (PERMS s)") auto
  note S = pt.store_Some [OF it]
  have "unat (of_nat (length path) :: u8) = length path"
    using assms(2) by (simp add: unat_of_nat take_bit_nat_eq_self)
  then have m: "entry_matches path e" using assms(2) by (simp add: entry_matches_def e_def min_absorb1)
  show thesis
  proof (rule that [of i e])
    show "PERMS (perm_set path p s) = (PERMS s)[i := Some e]"
      using None it S by (simp add: perm_set_def e_def [symmetric] Let_def)
  qed (use S m no in \<open>auto simp: e_def slot_matches_def\<close>)
qed

lemma slot_matches_unique: "slot_matches p x \<Longrightarrow> slot_matches q x \<Longrightarrow> p = q"
  by (auto simp: slot_matches_def entry_matches_def split: option.splits)

lemma perms_ok_set:
  assumes "perms_ok s" and "length path \<le> 64" and "perm_find s path \<noteq> None \<or> None \<in> set (PERMS s)"
  shows "perms_ok (perm_set path p s)"
proof -
  obtain i e where E: "i < length (PERMS s)" "PERMS (perm_set path p s) = (PERMS s)[i := Some e]"
    "entry_matches path e" "\<And>j. j < length (PERMS s) \<Longrightarrow> j \<noteq> i \<Longrightarrow> \<not> slot_matches path (PERMS s ! j)"
    using perm_set_slot [OF assms] by metis
  have sm: "slot_matches path (Some e)" using E(3) by (simp add: slot_matches_def)
  have new: "k = i \<and> q = path \<or> k \<noteq> i \<and> q \<noteq> path \<and> slot_matches q (PERMS s ! k)"
    if "k < length (PERMS s)" "slot_matches q ((PERMS s)[i := Some e] ! k)" for k q
    using that E(1,4) slot_matches_unique [OF sm, of q] by (cases "k = i") auto
  show ?thesis
    unfolding perms_ok_def E(2) length_list_update
    using assms(1) [unfolded perms_ok_def] new by metis
qed

text \<open>Permissions that are set are found again: for a path of at most 64 bytes, and while the table
  has an entry for it or a free slot, \<open>get\<close> after \<open>set\<close> returns the new permissions, the
  entries of all other paths stay as they were, and no path ever has two entries.\<close>

theorem perm_set_get:
  assumes "perms_ok s" and "length path \<le> 64" and "perm_find s path \<noteq> None \<or> None \<in> set (PERMS s)"
  shows "perm_get (perm_set path p s) path = p \<and>
    (\<forall>path'. path' \<noteq> path \<longrightarrow> perm_find (perm_set path p s) path' = perm_find s path') \<and>
    perms_ok (perm_set path p s)"
proof -
  let ?s = "perm_set path p s"
  obtain i e where E: "i < length (PERMS s)" "PERMS ?s = (PERMS s)[i := Some e]" "pe_perm e = p"
    "entry_matches path e" "\<And>path'. path' \<noteq> path \<Longrightarrow> \<not> slot_matches path' (PERMS s ! i)"
    using perm_set_slot [OF assms] by metis
  note ok = perms_ok_set [OF assms, of p]
  have "perm_find ?s path = Some p" using perm_find_Some [OF ok, of i e path] E by simp
  moreover have "perm_find ?s path' = perm_find s path'" if ne: "path' \<noteq> path" for path'
  proof (cases "perm_find s path'")
    case None
    have "\<not> slot_matches path' (Some e)"
      using E(4) ne slot_matches_unique [of path "Some e" path'] by (auto simp: slot_matches_def)
    then have "perm_find ?s path' = None" using None E(1,2) by (auto simp: perm_find_None_iff nth_list_update)
    then show ?thesis using None by simp
  next
    case (Some q)
    then obtain j where j: "j < length (PERMS s)" "slot_matches path' (PERMS s ! j)" using perm_find_None_iff [of s path'] by auto
    then obtain f where f: "PERMS s ! j = Some f" "entry_matches path' f"
      by (auto simp: slot_matches_def split: option.splits)
    have "j \<noteq> i" using j(2) E(5) [OF ne] by blast
    then have "PERMS ?s ! j = Some f" using E(1,2) f(1) by simp
    then show ?thesis
      using perm_find_Some [OF ok _ _ f(2), of j] perm_find_Some [OF assms(1) j(1) f] j(1) E(2) by simp
  qed
  ultimately show ?thesis using ok by (simp add: perm_get_def)
qed

lemma unregistered_open:
  assumes "perm_find s path = None"
  shows "can_read path (current_uid s) s" and "can_write path (current_uid s) s"
  using assms by (simp_all add: can_read_def can_write_def perm_get_def default_for_def Let_def)

text \<open>A path without an entry is open to whoever asks: the default makes the asking user the owner
  and gives the owner both read and write permission, so any user may read and write it, the
  files under \<open>/etc\<close> and \<open>/root\<close> included.\<close>

theorem unregistered_path_open:
  assumes "perm_find s path = None"
  shows "can_read path (current_uid s) s \<and> can_write path (current_uid s) s"
  using unregistered_open [OF assms] by blast

text \<open>A path of more than 64 bytes never gets its permissions: \<open>set\<close> stores the entry under the first
  64 bytes, so that \<open>get\<close> for the path still answers with the default, while a path that
  consists of these 64 bytes (and has no entry of its own) now carries the permissions.\<close>

theorem long_path_permissions_lost:
  assumes "perms_ok s" and "length path > 64" and "None \<in> set (PERMS s)" and "perm_find s path = None"
    and "perm_find s (take 64 path) = None"
  shows "perm_find (perm_set path p s) path = None \<and> perm_find (perm_set path p s) (take 64 path) = Some p"
proof -
  have same: "perm_set path p s = perm_set (take 64 path) p s"
    using assms(2,4,5) by (simp add: perm_set_def perm_find_None_iff position_def find_idx_None_iff
        find_idx_None_iff [THEN iffD2] min_absorb2)
  have "perm_find s (take 64 path) \<noteq> None \<or> None \<in> set (PERMS s)" using assms(3) by blast
  note E = perm_set_slot [OF assms(1) _ this, of p]
  obtain i e where e: "i < length (PERMS s)" "PERMS (perm_set (take 64 path) p s) = (PERMS s)[i := Some e]" "pe_perm e = p"
    "entry_matches (take 64 path) e" using E assms(2) by (metis length_take min.cobounded2)
  have ok: "perms_ok (perm_set (take 64 path) p s)" by (rule perms_ok_set [OF assms(1)]) (use assms(3) in auto)
  have "perm_find (perm_set (take 64 path) p s) (take 64 path) = Some p"
    using perm_find_Some [OF ok, of i e "take 64 path"] e by simp
  moreover have "perm_find (perm_set (take 64 path) p s) path = None"
  proof -
    have "path \<noteq> take 64 path" using assms(2) by (metis length_take min.cobounded2 not_le)
    then have "\<not> slot_matches path (Some e)"
      using e(4) slot_matches_unique [of path "Some e" "take 64 path"] by (auto simp: slot_matches_def)
    then show ?thesis using assms(4) e(1,2) by (auto simp: perm_find_None_iff nth_list_update)
  qed
  ultimately show ?thesis by (simp add: same)
qed

section \<open>Concrete tables\<close>

definition demo_perms :: permdb where
  "demo_perms = userdb.extend demo_users \<lparr>PERMS = replicate MAX_PERMS None\<rparr>"

lemma demo_perms_sel: "PERMS demo_perms = replicate MAX_PERMS None"
  by (simp add: demo_perms_def userdb.defs)

lemma demo_perms_ok: "perms_ok demo_perms" "None \<in> set (PERMS demo_perms)" "perm_find demo_perms path = None"
proof -
  have none: "\<not> slot_matches q (PERMS demo_perms ! i)" if "i < length (PERMS demo_perms)" for q i
    using that by (simp add: demo_perms_sel slot_matches_def)
  show "perms_ok demo_perms" unfolding perms_ok_def using none by blast
  show "None \<in> set (PERMS demo_perms)" by (simp add: demo_perms_sel MAX_PERMS_def)
  show "perm_find demo_perms path = None" unfolding perm_find_None_iff using none by blast
qed

theorem perm_set_get_witness:
  "perm_get (perm_set (ascii ''/etc'') \<lparr>owner = 0, group = 0, mode = 0x1C0\<rparr> demo_perms) (ascii ''/etc'') =
     \<lparr>owner = 0, group = 0, mode = 0x1C0\<rparr>"
  using perm_set_get [OF demo_perms_ok(1), of "ascii ''/etc''"] demo_perms_ok(2) by simp

theorem unregistered_path_open_witness:
  "can_write (ascii ''/etc/passwd'') (current_uid demo_perms) demo_perms \<and> current_uid demo_perms = 7"
  using unregistered_path_open [OF demo_perms_ok(3)]
  by (simp add: current_uid_def demo_perms_def demo_users_def userdb.defs MAX_TASKS_def Let_def)

theorem long_path_permissions_lost_witness:
  "perm_find (perm_set (replicate 70 47) \<lparr>owner = 0, group = 0, mode = 0\<rparr> demo_perms) (replicate 70 47) = None"
  using long_path_permissions_lost [OF demo_perms_ok(1) _ demo_perms_ok(2,3,3), of "replicate 70 47"] by simp

end
