(* ===== verification/Text_Buffer.thy ===== *)
theory Text_Buffer
  imports Prelude
begin

text \<open>
  Writing text into a fixed buffer at a cursor, and decimal numbers: the pattern the file system
  listing (\<open>vfs.rs\<close>) and the user database (\<open>user.rs\<close>) share. A byte is stored while the
  cursor is below a limit and dropped otherwise; when everything fits, writing a text is a
  splice of the buffer.
\<close>

section \<open>Cursor\<close>

definition put_byte :: "nat \<Rightarrow> u8 \<Rightarrow> bytes \<times> nat \<Rightarrow> bytes \<times> nat" where
  "put_byte lim c st = (case st of (buf, p) \<Rightarrow> if p < lim then (buf[p := c], p + 1) else (buf, p))"

definition put_bytes :: "nat \<Rightarrow> bytes \<Rightarrow> bytes \<times> nat \<Rightarrow> bytes \<times> nat" where
  "put_bytes lim cs st = fold (put_byte lim) cs st"

lemma splice_snoc:
  assumes "off + length xs < length buf"
  shows "(splice_at buf off xs)[off + length xs := c] = splice_at buf off (xs @ [c])"
proof (rule nth_equalityI)
  fix i assume "i < length ((splice_at buf off xs)[off + length xs := c])"
  then have i: "i < length buf" using assms by simp
  show "(splice_at buf off xs)[off + length xs := c] ! i = splice_at buf off (xs @ [c]) ! i"
    using assms i by (auto simp: nth_list_update nth_splice nth_append)
qed (use assms in simp)

lemma put_bytes_fits:
  "p + length cs \<le> lim \<Longrightarrow> lim \<le> length buf \<Longrightarrow> put_bytes lim cs (buf, p) = (splice_at buf p cs, p + length cs)"
proof (induction cs rule: rev_induct)
  case (snoc c cs)
  then have "put_bytes lim cs (buf, p) = (splice_at buf p cs, p + length cs)" by simp
  then show ?case using snoc.prems splice_snoc [of p cs buf c] by (simp add: put_bytes_def put_byte_def)
qed (simp add: put_bytes_def)

lemma put_byte_bound: "snd st \<le> lim \<Longrightarrow> snd (put_byte lim c st) \<le> lim \<and> length (fst (put_byte lim c st)) = length (fst st)"
  by (auto simp: put_byte_def split: prod.splits)

lemma put_bytes_bound:
  "snd st \<le> lim \<Longrightarrow> snd (put_bytes lim cs st) \<le> lim \<and> length (fst (put_bytes lim cs st)) = length (fst st)"
proof (induction cs arbitrary: st)
  case (Cons c cs)
  then show ?case using put_byte_bound [of st lim c] by (simp add: put_bytes_def)
qed (simp add: put_bytes_def)

lemma splice_splice:
  assumes "off + length xs + length ys \<le> length buf"
  shows "splice_at (splice_at buf off xs) (off + length xs) ys = splice_at buf off (xs @ ys)"
proof (rule nth_equalityI)
  fix i assume "i < length (splice_at (splice_at buf off xs) (off + length xs) ys)"
  then have i: "i < length buf" using assms by simp
  show "splice_at (splice_at buf off xs) (off + length xs) ys ! i = splice_at buf off (xs @ ys) ! i"
    using assms i by (auto simp: nth_splice nth_append)
qed (use assms in simp)

section \<open>Decimal numbers\<close>

text \<open>The digits the loops \<open>while v > 0 { tmp[n] = b'0' + v % 10; v /= 10; ... }\<close> produce, last digit
  first.\<close>

fun dec_rev :: "nat \<Rightarrow> bytes" where
  "dec_rev v = (if v = 0 then [] else (0x30 + of_nat (v mod 10)) # dec_rev (v div 10))"

declare dec_rev.simps [simp del]

definition dec_bytes :: "nat \<Rightarrow> bytes" where
  "dec_bytes v = (if v = 0 then [0x30] else rev (dec_rev v))"

definition parse_digit :: "u8 \<Rightarrow> u32 option \<Rightarrow> u32 option" where
  "parse_digit c acc =
     (case acc of
        None \<Rightarrow> None
      | Some v \<Rightarrow>
          if c < 0x30 \<or> c > 0x39 then None
          else if unat v * 10 \<ge> 2 ^ 32 then None
          else if unat v * 10 + unat (c - 0x30) \<ge> 2 ^ 32 then None
          else Some (v * 10 + ucast (c - 0x30)))"

definition parse_u32 :: "bytes \<Rightarrow> u32 option" where
  "parse_u32 s = (if s = [] then None else fold parse_digit s (Some 0))"

lemma digit_byte:
  assumes "d < 10"
  shows "unat ((0x30 :: u8) + of_nat d) = 48 + d"
proof -
  have "unat (of_nat d :: u8) = d" using assms by (simp add: unat_of_nat take_bit_nat_eq_self)
  then show ?thesis using assms by (simp add: unat_word_ariths)
qed

lemma parse_digit_step:
  assumes "v * 10 + d < 2 ^ 32" and "d < 10"
  shows "parse_digit (0x30 + of_nat d) (Some (of_nat v)) = Some (of_nat (v * 10 + d))"
proof -
  have v: "unat (of_nat v :: u32) = v" using assms by (simp add: unat_of_nat take_bit_nat_eq_self)
  have d: "unat ((0x30 :: u8) + of_nat d) = 48 + d" by (rule digit_byte [OF assms(2)])
  have sub: "(0x30 :: u8) + of_nat d - 0x30 = of_nat d" by simp
  have u: "unat (of_nat d :: u8) = d" using assms(2) by (simp add: unat_of_nat take_bit_nat_eq_self)
  have "\<not> (0x30 :: u8) + of_nat d < 0x30" "\<not> (0x30 :: u8) + of_nat d > 0x39"
    using d assms(2) by (simp_all add: word_less_nat_alt)
  moreover have "(ucast (of_nat d :: u8) :: u32) = of_nat d"
    using u by (metis of_nat_unat)
  ultimately show ?thesis using assms v u by (simp add: parse_digit_def sub)
qed

lemma parse_dec_rev: "n < 2 ^ 32 \<Longrightarrow> fold parse_digit (rev (dec_rev n)) (Some 0) = Some (of_nat n)"
proof (induction n rule: dec_rev.induct)
  case (1 n)
  show ?case
  proof (cases "n = 0")
    case False
    then have "dec_rev n = (0x30 + of_nat (n mod 10)) # dec_rev (n div 10)" by (simp add: dec_rev.simps [of n])
    moreover have "fold parse_digit (rev (dec_rev (n div 10))) (Some 0) = Some (of_nat (n div 10))"
      using 1 False by simp
    ultimately show ?thesis
      using parse_digit_step [of "n div 10" "n mod 10"] 1(2) by simp
  qed (simp add: dec_rev.simps)
qed

lemma parse_dec: "parse_u32 (dec_bytes (unat v)) = Some v"
proof (cases "v = 0")
  case True
  then show ?thesis using parse_digit_step [of 0 0] by (simp add: dec_bytes_def parse_u32_def)
next
  case False
  then have n: "unat v \<noteq> 0" by (simp add: unat_eq_0)
  then have "rev (dec_rev (unat v)) \<noteq> []" by (simp add: dec_rev.simps [of "unat v"])
  moreover have "unat v < 2 ^ 32" using unsigned_less [of v] by simp
  ultimately show ?thesis using n parse_dec_rev [of "unat v"] by (simp add: dec_bytes_def parse_u32_def)
qed

lemma dec_bytes_digits: "c \<in> set (dec_bytes n) \<Longrightarrow> 48 \<le> unat c \<and> unat c < 58"
proof -
  have "c \<in> set (dec_rev n) \<Longrightarrow> 48 \<le> unat c \<and> unat c < 58"
  proof (induction n rule: dec_rev.induct)
    case (1 n)
    then show ?case using digit_byte [of "n mod 10"] by (cases "n = 0") (auto simp: dec_rev.simps [of n] dec_rev.simps [of 0])
  qed
  then show "c \<in> set (dec_bytes n) \<Longrightarrow> 48 \<le> unat c \<and> unat c < 58" by (auto simp: dec_bytes_def split: if_splits)
qed

lemma length_dec_rev: "n < 10 ^ k \<Longrightarrow> length (dec_rev n) \<le> k"
proof (induction k arbitrary: n)
  case (Suc k)
  then have "n div 10 < 10 ^ k" by (simp add: less_mult_imp_div_less)
  then show ?case using Suc.IH [of "n div 10"] by (simp add: dec_rev.simps [of n])
qed (simp add: dec_rev.simps)

lemma length_dec_bytes: "length (dec_bytes (unat (v :: u32))) \<le> 10"
proof -
  have "unat v < 2 ^ 32" using unsigned_less [of v] by simp
  then have "unat v < 10 ^ 10" by simp
  then show ?thesis using length_dec_rev [of "unat v" 10] by (simp add: dec_bytes_def)
qed

end
