(* ===== verification/Vfs.thy ===== *)
theory Vfs
  imports Permissions Text_Buffer
begin

text \<open>
  The virtual file system switch, \<open>kernel/src/vfs.rs\<close>: the driver registry, the mount table with its
  longest-prefix lookup, the open file table, and the path operations with their permission
  checks. A driver is the record of functions it registers (the source's table of function
  pointers), each passing the drivers' own state \<open>'d\<close> along. Console output is left out.
\<close>

section \<open>Data\<close>

definition MAX_MOUNTS :: nat where "MAX_MOUNTS = 8"
definition MAX_OPEN_FILES :: nat where "MAX_OPEN_FILES = 64"
definition MAX_PATH :: nat where "MAX_PATH = 128"
definition MAX_NAME :: nat where "MAX_NAME = 32"

record stat_info =
  st_size :: u32
  st_is_dir :: bool
  st_cluster :: u32

record dir_entry =
  de_name :: bytes
  de_is_dir :: bool
  de_size :: u32

text \<open>\<open>read\<close> and \<open>readdir\<close> return the caller's buffer as the driver leaves it.\<close>

record 'd fs_ops =
  fs_open :: "bytes \<Rightarrow> u64 \<Rightarrow> 'd \<Rightarrow> u64 option \<times> 'd"
  fs_close :: "u64 \<Rightarrow> 'd \<Rightarrow> 'd"
  fs_read :: "u64 \<Rightarrow> bytes \<Rightarrow> u64 \<Rightarrow> 'd \<Rightarrow> (nat option \<times> bytes) \<times> 'd"
  fs_write :: "u64 \<Rightarrow> bytes \<Rightarrow> u64 \<Rightarrow> 'd \<Rightarrow> nat option \<times> 'd"
  fs_stat :: "bytes \<Rightarrow> 'd \<Rightarrow> stat_info option \<times> 'd"
  fs_readdir :: "bytes \<Rightarrow> dir_entry list \<Rightarrow> 'd \<Rightarrow> (nat option \<times> dir_entry list) \<times> 'd"
  fs_mkdir :: "bytes \<Rightarrow> 'd \<Rightarrow> bool \<times> 'd"
  fs_rmdir :: "bytes \<Rightarrow> 'd \<Rightarrow> bool \<times> 'd"
  fs_unlink :: "bytes \<Rightarrow> 'd \<Rightarrow> bool \<times> 'd"

record mount_entry =
  prefix :: bytes
  prefix_len :: nat
  m_driver_idx :: nat
  m_in_use :: bool

record vfs_file =
  driver_idx :: nat
  handle :: u64
  f_offset :: u64
  f_size :: u32
  f_flags :: u64

record 'd vfs = permdb +
  DRIVERS :: "'d fs_ops option list"
  DRIVER_COUNT :: nat
  MOUNTS :: "mount_entry list"
  OPEN_FILES :: "vfs_file option list"
  FS :: 'd

section \<open>Drivers and mounts\<close>

definition register_driver :: "'d fs_ops option \<Rightarrow> 'd vfs \<Rightarrow> u64 \<times> 'd vfs" where
  "register_driver ops s =
     (let idx = DRIVER_COUNT s in
      if idx \<ge> MAX_MOUNTS then (NOT 0, s)
      else (of_nat idx, s\<lparr>DRIVERS := (DRIVERS s)[idx := ops], DRIVER_COUNT := idx + 1\<rparr>))"

definition get_driver :: "'d vfs \<Rightarrow> nat \<Rightarrow> 'd fs_ops option" where
  "get_driver s idx = (if idx \<ge> DRIVER_COUNT s then None else DRIVERS s ! idx)"

definition mount :: "bytes \<Rightarrow> nat \<Rightarrow> 'd vfs \<Rightarrow> bool \<times> 'd vfs" where
  "mount pfx didx s =
     (if didx \<ge> DRIVER_COUNT s then (False, s)
      else case find_idx MAX_MOUNTS (\<lambda>i. \<not> m_in_use (MOUNTS s ! i)) of
        None \<Rightarrow> (False, s)
      | Some slot \<Rightarrow>
          (let m = MOUNTS s ! slot; len = min (length pfx) (MAX_PATH - 1);
               m' = m\<lparr>prefix := splice_at (prefix m) 0 (take len pfx), prefix_len := len,
                      m_driver_idx := didx, m_in_use := True\<rparr>
           in (True, s\<lparr>MOUNTS := (MOUNTS s)[slot := m']\<rparr>)))"

text \<open>The test of one mount entry in \<open>resolve_mount\<close>. For an empty prefix the source reads the byte
  before its start; a mount with an empty prefix is therefore excluded by \<open>mounts_ok\<close> below, and
  here it does not match.\<close>

definition mount_matches :: "bytes \<Rightarrow> mount_entry \<Rightarrow> bool" where
  "mount_matches path m \<longleftrightarrow>
     (let n = prefix_len m; pfx = take n (prefix m) in
      m_in_use m \<and> n \<noteq> 0 \<and> length path \<ge> n \<and> take n path = pfx \<and>
      \<not> (n \<noteq> 1 \<and> length path > n \<and> pfx ! (n - 1) \<noteq> 0x2F \<and> path ! n \<noteq> 0x2F))"

text \<open>The first loop: the best match so far and its length.\<close>

definition best_step :: "bytes \<Rightarrow> mount_entry \<Rightarrow> (nat \<times> nat) option \<times> nat \<Rightarrow> (nat \<times> nat) option \<times> nat" where
  "best_step path m b =
     (let (best_match, best_len) = b in
      if mount_matches path m \<and> prefix_len m > best_len
      then (Some (m_driver_idx m, prefix_len m), prefix_len m) else b)"

definition is_root_mount :: "mount_entry \<Rightarrow> bool" where
  "is_root_mount m \<longleftrightarrow> m_in_use m \<and> prefix_len m = 1 \<and> prefix m ! 0 = 0x2F"

definition resolve_mount :: "'d vfs \<Rightarrow> bytes \<Rightarrow> (nat \<times> nat) option" where
  "resolve_mount s path =
     (case fst (fold (best_step path) (MOUNTS s) (None, 0)) of
        Some b \<Rightarrow> Some b
      | None \<Rightarrow> (case List.find is_root_mount (MOUNTS s) of
                  Some m \<Rightarrow> Some (m_driver_idx m, 1) | None \<Rightarrow> None))"

definition strip_prefix :: "bytes \<Rightarrow> nat \<Rightarrow> bytes" where
  "strip_prefix full_path n = dropWhile (\<lambda>c. c = 0x2F) (drop n full_path)"

text \<open>The lookup every path operation starts with.\<close>

definition route :: "'d vfs \<Rightarrow> bytes \<Rightarrow> (nat \<times> 'd fs_ops \<times> bytes) option" where
  "route s path =
     (case resolve_mount s path of
        None \<Rightarrow> None
      | Some (didx, n) \<Rightarrow>
          (case get_driver s didx of None \<Rightarrow> None | Some d \<Rightarrow> Some (didx, d, strip_prefix path n)))"

section \<open>Path queries\<close>

definition vfs_stat :: "bytes \<Rightarrow> 'd vfs \<Rightarrow> stat_info option \<times> 'd vfs" where
  "vfs_stat path s =
     (case route s path of
        None \<Rightarrow> (None, s)
      | Some (_, d, rel) \<Rightarrow> (let (r, fs') = fs_stat d rel (FS s) in (r, s\<lparr>FS := fs'\<rparr>)))"

definition vfs_exists :: "bytes \<Rightarrow> 'd vfs \<Rightarrow> bool \<times> 'd vfs" where
  "vfs_exists path s = (let (r, s') = vfs_stat path s in (r \<noteq> None, s'))"

definition vfs_is_dir :: "bytes \<Rightarrow> 'd vfs \<Rightarrow> bool \<times> 'd vfs" where
  "vfs_is_dir path s = (let (r, s') = vfs_stat path s in ((case r of Some i \<Rightarrow> st_is_dir i | None \<Rightarrow> False), s'))"

definition vfs_file_size :: "bytes \<Rightarrow> 'd vfs \<Rightarrow> u32 option \<times> 'd vfs" where
  "vfs_file_size path s = (let (r, s') = vfs_stat path s in (map_option st_size r, s'))"

definition parent_of :: "bytes \<Rightarrow> bytes" where
  "parent_of path =
     (case rposition (\<lambda>c. c = 0x2F) path of
        Some pos \<Rightarrow> if pos = 0 then [0x2F] else take pos path
      | None \<Rightarrow> [0x2F])"

section \<open>Open files\<close>

definition may_open :: "bytes \<Rightarrow> u64 \<Rightarrow> bool \<Rightarrow> 'd vfs \<Rightarrow> bool" where
  "may_open path flags existed_before s =
     (let u = current_uid s;
          is_creat = flags AND 0x100 \<noteq> 0;
          need_write = flags AND 1 \<noteq> 0 \<or> is_creat
      in if need_write
         then can_write path u s \<or> (is_creat \<and> \<not> existed_before \<and> can_write (parent_of path) u s)
         else can_read path u s)"

definition vfs_open :: "bytes \<Rightarrow> u64 \<Rightarrow> 'd vfs \<Rightarrow> int \<times> 'd vfs" where
  "vfs_open path flags s0 =
     (let (existed_before, s) = vfs_exists path s0;
          u = current_uid s;
          is_creat = flags AND 0x100 \<noteq> 0
      in if \<not> may_open path flags existed_before s then (-1, s)
         else case route s path of
           None \<Rightarrow> (-1, s)
         | Some (didx, d, rel) \<Rightarrow>
             (let (ho, fs1) = fs_open d rel flags (FS s) in
              case ho of
                None \<Rightarrow> (-1, s\<lparr>FS := fs1\<rparr>)
              | Some h \<Rightarrow>
                  (let (st, fs2) = fs_stat d rel fs1;
                       size = (case st of Some i \<Rightarrow> st_size i | None \<Rightarrow> 0)
                   in case find_idx MAX_OPEN_FILES (\<lambda>i. OPEN_FILES s ! i = None) of
                        None \<Rightarrow> (-1, s\<lparr>FS := fs_close d h fs2\<rparr>)
                      | Some fd \<Rightarrow>
                          (let s1 = s\<lparr>FS := fs2, OPEN_FILES := (OPEN_FILES s)[fd :=
                                 Some \<lparr>driver_idx = didx, handle = h, f_offset = 0, f_size = size, f_flags = flags\<rparr>]\<rparr>;
                               s2 = (if is_creat \<and> \<not> existed_before
                                     then perm_set path \<lparr>owner = u, group = u, mode = 0x1A4\<rparr> s1 else s1)
                           in (int fd, s2)))))"

definition fd_file :: "int \<Rightarrow> 'd vfs \<Rightarrow> vfs_file option" where
  "fd_file fd s = (if fd < 0 \<or> nat fd \<ge> MAX_OPEN_FILES then None else OPEN_FILES s ! nat fd)"

definition vfs_close :: "int \<Rightarrow> 'd vfs \<Rightarrow> int \<times> 'd vfs" where
  "vfs_close fd s =
     (case fd_file fd s of
        None \<Rightarrow> (-1, s)
      | Some f \<Rightarrow>
          (let s1 = (case get_driver s (driver_idx f) of
                       Some d \<Rightarrow> s\<lparr>FS := fs_close d (handle f) (FS s)\<rparr> | None \<Rightarrow> s)
           in (0, s1\<lparr>OPEN_FILES := (OPEN_FILES s1)[nat fd := None]\<rparr>)))"

definition vfs_read :: "int \<Rightarrow> bytes \<Rightarrow> 'd vfs \<Rightarrow> (int \<times> bytes) \<times> 'd vfs" where
  "vfs_read fd buf s =
     (case fd_file fd s of
        None \<Rightarrow> ((-1, buf), s)
      | Some f \<Rightarrow>
          (case get_driver s (driver_idx f) of
             None \<Rightarrow> ((-1, buf), s)
           | Some d \<Rightarrow>
               (let ((r, buf'), fs') = fs_read d (handle f) buf (f_offset f) (FS s) in
                case r of
                  Some n \<Rightarrow> ((int n, buf'), s\<lparr>FS := fs', OPEN_FILES := (OPEN_FILES s)[nat fd :=
                               Some (f\<lparr>f_offset := f_offset f + of_nat n\<rparr>)]\<rparr>)
                | None \<Rightarrow> ((-1, buf'), s\<lparr>FS := fs'\<rparr>))))"

definition vfs_write :: "int \<Rightarrow> bytes \<Rightarrow> 'd vfs \<Rightarrow> int \<times> 'd vfs" where
  "vfs_write fd buf s =
     (case fd_file fd s of
        None \<Rightarrow> (-1, s)
      | Some f \<Rightarrow>
          if f_flags f AND 3 = 0 then (-1, s)
          else (case get_driver s (driver_idx f) of
             None \<Rightarrow> (-1, s)
           | Some d \<Rightarrow>
               (let (r, fs') = fs_write d (handle f) buf (f_offset f) (FS s) in
                case r of
                  Some n \<Rightarrow>
                    (let off = f_offset f + of_nat n;
                         f' = f\<lparr>f_offset := off, f_size := (if off > ucast (f_size f) then ucast off else f_size f)\<rparr>
                     in (int n, s\<lparr>FS := fs', OPEN_FILES := (OPEN_FILES s)[nat fd := Some f']\<rparr>))
                | None \<Rightarrow> (-1, s\<lparr>FS := fs'\<rparr>))))"

text \<open>\<open>offset\<close> is the bit pattern of the signed argument; the additions wrap.\<close>

definition vfs_lseek :: "int \<Rightarrow> u64 \<Rightarrow> nat \<Rightarrow> 'd vfs \<Rightarrow> int \<times> 'd vfs" where
  "vfs_lseek fd offset whence s =
     (case fd_file fd s of
        None \<Rightarrow> (-1, s)
      | Some f \<Rightarrow>
          (case (if whence = 0 then Some offset
                 else if whence = 1 then Some (f_offset f + offset)
                 else if whence = 2 then Some (ucast (f_size f) + offset)
                 else None) of
             None \<Rightarrow> (-1, s)
           | Some new_off \<Rightarrow>
               (sint new_off, s\<lparr>OPEN_FILES := (OPEN_FILES s)[nat fd := Some (f\<lparr>f_offset := new_off\<rparr>)]\<rparr>)))"

definition vfs_fstat :: "int \<Rightarrow> 'd vfs \<Rightarrow> u64" where
  "vfs_fstat fd s = (case fd_file fd s of Some f \<Rightarrow> ucast (f_size f) | None \<Rightarrow> 0)"

section \<open>Directories and removal\<close>

definition vfs_readdir :: "bytes \<Rightarrow> dir_entry list \<Rightarrow> 'd vfs \<Rightarrow> (int \<times> dir_entry list) \<times> 'd vfs" where
  "vfs_readdir path entries s =
     (if \<not> can_read path (current_uid s) s then ((-1, entries), s)
      else case route s path of
        None \<Rightarrow> ((-1, entries), s)
      | Some (_, d, rel) \<Rightarrow>
          (let ((r, es), fs') = fs_readdir d rel entries (FS s)
           in (((case r of Some n \<Rightarrow> int n | None \<Rightarrow> -1), es), s\<lparr>FS := fs'\<rparr>)))"

text \<open>\<open>readdir_to_buf\<close>: one line per entry, the name (up to its first zero byte), a slash for a
  directory, a tab and the size in decimal.\<close>

definition put_entry :: "dir_entry \<Rightarrow> bytes \<times> nat \<Rightarrow> bytes \<times> nat" where
  "put_entry e st =
     (let lim = length (fst st) - 1;
          name_len = (case position (\<lambda>c. c = 0) (de_name e) of Some i \<Rightarrow> i | None \<Rightarrow> MAX_NAME);
          st1 = put_bytes lim (take name_len (de_name e)) st;
          st2 = (if de_is_dir e then put_byte lim 0x2F st1 else st1);
          st3 = put_byte lim 0x09 st2;
          (buf, oi) = put_bytes lim (dec_bytes (unat (de_size e))) st3
      in if oi < length buf - 2 then (buf[oi := 0x0D, oi + 1 := 0x0A], oi + 2) else (buf, oi))"

definition vfs_readdir_to_buf :: "bytes \<Rightarrow> bytes \<Rightarrow> 'd vfs \<Rightarrow> (nat \<times> bytes) \<times> 'd vfs" where
  "vfs_readdir_to_buf path buf s =
     (let ((n, es), s') = vfs_readdir path (replicate 64 \<lparr>de_name = replicate MAX_NAME 0, de_is_dir = False, de_size = 0\<rparr>) s
      in if n < 0 then ((0, buf), s')
         else (let (buf', oi) = fold put_entry (take (nat n) es) (buf, 0) in ((oi, buf'), s')))"

definition vfs_mkdir :: "bytes \<Rightarrow> 'd vfs \<Rightarrow> bool \<times> 'd vfs" where
  "vfs_mkdir path s =
     (let u = current_uid s in
      if \<not> can_write (parent_of path) u s then (False, s)
      else case route s path of
        None \<Rightarrow> (False, s)
      | Some (_, d, rel) \<Rightarrow>
          (let (ok, fs') = fs_mkdir d rel (FS s); s1 = s\<lparr>FS := fs'\<rparr>
           in (ok, if ok then perm_set path \<lparr>owner = u, group = u, mode = 0x1ED\<rparr> s1 else s1)))"

definition may_remove :: "bytes \<Rightarrow> 'd vfs \<Rightarrow> bool" where
  "may_remove path s \<longleftrightarrow> can_write path (current_uid s) s \<and> can_write (parent_of path) (current_uid s) s"

definition vfs_rmdir :: "bytes \<Rightarrow> 'd vfs \<Rightarrow> bool \<times> 'd vfs" where
  "vfs_rmdir path s =
     (if \<not> may_remove path s then (False, s)
      else case route s path of
        None \<Rightarrow> (False, s)
      | Some (_, d, rel) \<Rightarrow> (let (ok, fs') = fs_rmdir d rel (FS s) in (ok, s\<lparr>FS := fs'\<rparr>)))"

definition vfs_unlink :: "bytes \<Rightarrow> 'd vfs \<Rightarrow> bool \<times> 'd vfs" where
  "vfs_unlink path s =
     (if \<not> may_remove path s then (False, s)
      else case route s path of
        None \<Rightarrow> (False, s)
      | Some (_, d, rel) \<Rightarrow> (let (ok, fs') = fs_unlink d rel (FS s) in (ok, s\<lparr>FS := fs'\<rparr>)))"

text \<open>\<open>write_file_buf\<close> of \<open>kernel/src/pkg.rs\<close>.\<close>

definition write_file_buf :: "bytes \<Rightarrow> bytes \<Rightarrow> 'd vfs \<Rightarrow> bool \<times> 'd vfs" where
  "write_file_buf path data s =
     (let (ffd, s1) = vfs_open path (0x200 OR 0x100) s in
      if ffd < 0 then (False, s1)
      else (True, snd (vfs_close ffd (snd (vfs_write ffd data s1)))))"

section \<open>The longest mount wins\<close>

lemma best_fold:
  "case fold (best_step path) ms (None, 0) of (bm, bl) \<Rightarrow>
     (\<forall>m\<in>set ms. mount_matches path m \<longrightarrow> prefix_len m \<le> bl) \<and>
     (case bm of None \<Rightarrow> bl = 0
      | Some (d, n) \<Rightarrow> n = bl \<and> (\<exists>m\<in>set ms. mount_matches path m \<and> m_driver_idx m = d \<and> prefix_len m = n))"
proof (induction ms rule: rev_induct)
  case (snoc m ms)
  obtain bm bl where b: "fold (best_step path) ms (None, 0) = (bm, bl)" by force
  show ?case
  proof (cases "mount_matches path m \<and> prefix_len m > bl")
    case True
    then have "fold (best_step path) (ms @ [m]) (None, 0) = (Some (m_driver_idx m, prefix_len m), prefix_len m)"
      using b by (simp add: best_step_def [of path m])
    then show ?thesis using snoc True unfolding b by (auto split: option.splits)
  next
    case False
    then have "fold (best_step path) (ms @ [m]) (None, 0) = (bm, bl)" using b by (auto simp: best_step_def [of path m])
    then show ?thesis using snoc False unfolding b by (cases bm) auto
  qed
qed simp

lemma mount_matches_pos: "mount_matches path m \<Longrightarrow> 0 < prefix_len m"
  by (simp add: mount_matches_def Let_def)

lemma resolve_mount_match:
  assumes "m \<in> set (MOUNTS s)" and "mount_matches path m"
  shows "\<exists>d n. resolve_mount s path = Some (d, n) \<and> prefix_len m \<le> n \<and>
    (\<exists>m'\<in>set (MOUNTS s). mount_matches path m' \<and> m_driver_idx m' = d \<and> prefix_len m' = n)"
  using best_fold [where path = path and ms = "MOUNTS s"] assms mount_matches_pos [OF assms(2)]
  by (auto simp: resolve_mount_def split: option.splits prod.splits)

lemma resolve_mount_no_match:
  assumes "\<forall>m\<in>set (MOUNTS s). \<not> mount_matches path m"
  shows "resolve_mount s path =
    (case List.find is_root_mount (MOUNTS s) of Some m \<Rightarrow> Some (m_driver_idx m, 1) | None \<Rightarrow> None)"
proof -
  have "fst (fold (best_step path) (MOUNTS s) (None, 0)) = None"
    using best_fold [where path = path and ms = "MOUNTS s"] assms
    by (cases "fst (fold (best_step path) (MOUNTS s) (None, 0))") (auto split: prod.splits)
  then show ?thesis by (simp add: resolve_mount_def)
qed

text \<open>A path goes to the mount with the longest matching prefix. When some mount matches (its prefix
  starts the path and ends there or at a slash), the lookup succeeds with the driver and the
  prefix length of a matching mount, and no matching mount has a longer prefix. When none
  matches, it answers the first root mount with prefix length 1, and fails if there is none.\<close>

theorem resolve_mount_longest:
  "case resolve_mount s path of
     Some (d, n) \<Rightarrow>
       (\<exists>m\<in>set (MOUNTS s). mount_matches path m \<and> m_driver_idx m = d \<and> prefix_len m = n \<and>
          (\<forall>m'\<in>set (MOUNTS s). mount_matches path m' \<longrightarrow> prefix_len m' \<le> n)) \<or>
       (\<forall>m\<in>set (MOUNTS s). \<not> mount_matches path m) \<and> n = 1 \<and>
         (\<exists>r. List.find is_root_mount (MOUNTS s) = Some r \<and> m_driver_idx r = d)
   | None \<Rightarrow> \<forall>m\<in>set (MOUNTS s). \<not> mount_matches path m \<and> \<not> is_root_mount m"
proof (cases "\<exists>m\<in>set (MOUNTS s). mount_matches path m")
  case True
  then obtain m where m: "m \<in> set (MOUNTS s)" "mount_matches path m" by blast
  obtain d n m' where r: "resolve_mount s path = Some (d, n)"
    and m': "m' \<in> set (MOUNTS s)" "mount_matches path m'" "m_driver_idx m' = d" "prefix_len m' = n"
    using resolve_mount_match [OF m] by blast
  moreover have "prefix_len k \<le> n" if "k \<in> set (MOUNTS s)" "mount_matches path k" for k
    using resolve_mount_match [OF that] r by auto
  ultimately show ?thesis by auto
next
  case False
  then show ?thesis using resolve_mount_no_match [of s path]
    by (auto simp: find_None_iff split: option.splits)
qed

text \<open>A relative path loses its first byte: when no mount matches and there is a root mount, the
  lookup answers with prefix length 1, so that the driver is asked for the path without its
  first character.\<close>

theorem relative_path_loses_first_byte:
  assumes "\<forall>m\<in>set (MOUNTS s). \<not> mount_matches (c # rest) m"
    and "List.find is_root_mount (MOUNTS s) = Some r" and "get_driver s (m_driver_idx r) = Some d"
    and "rest \<noteq> []" and "hd rest \<noteq> 0x2F"
  shows "route s (c # rest) = Some (m_driver_idx r, d, rest)"
  using assms(2-5) resolve_mount_no_match [OF assms(1)] by (cases rest) (simp_all add: route_def strip_prefix_def)

section \<open>Opening and closing\<close>

lemma route_cong:
  "MOUNTS s' = MOUNTS s \<Longrightarrow> DRIVERS s' = DRIVERS s \<Longrightarrow> DRIVER_COUNT s' = DRIVER_COUNT s \<Longrightarrow> route s' path = route s path"
  by (simp only: route_def resolve_mount_def get_driver_def)

lemma vfs_exists_frame:
  assumes "vfs_exists path s = (b, s')"
  shows "\<exists>fs'. s' = s\<lparr>FS := fs'\<rparr>"
proof -
  have "\<exists>fs'. snd (vfs_exists path s) = s\<lparr>FS := fs'\<rparr>"
  proof (cases "route s path")
    case None
    then show ?thesis by (intro exI [of _ "FS s"]) (simp add: vfs_exists_def vfs_stat_def)
  next
    case (Some q)
    obtain didx d rel where q: "q = (didx, d, rel)" by (metis prod_cases3)
    obtain r fs' where "fs_stat d rel (FS s) = (r, fs')" by force
    then show ?thesis using Some q by (intro exI [of _ fs']) (simp add: vfs_exists_def vfs_stat_def)
  qed
  then show ?thesis using assms by simp
qed

lemma perm_set_frame:
  "OPEN_FILES (perm_set path p s) = OPEN_FILES s" "MOUNTS (perm_set path p s) = MOUNTS s"
  "DRIVERS (perm_set path p s) = DRIVERS s" "DRIVER_COUNT (perm_set path p s) = DRIVER_COUNT s"
  by (simp_all add: perm_set_def Let_def split: option.splits)

definition vfs_ok :: "'d vfs \<Rightarrow> bool" where
  "vfs_ok s \<longleftrightarrow> length (OPEN_FILES s) = MAX_OPEN_FILES \<and> length (MOUNTS s) = MAX_MOUNTS \<and>
     length (DRIVERS s) = MAX_MOUNTS \<and> DRIVER_COUNT s \<le> MAX_MOUNTS"

lemma vfs_open_cases:
  assumes "vfs_open path flags s0 = (r, s')"
  obtains (fail) "r = -1" "OPEN_FILES s' = OPEN_FILES s0" "PERMS s' = PERMS s0" "MOUNTS s' = MOUNTS s0"
      "DRIVERS s' = DRIVERS s0" "DRIVER_COUNT s' = DRIVER_COUNT s0"
  | (opened) fd f ex s where "r = int fd" "vfs_exists path s0 = (ex, s)" "may_open path flags ex s"
      "fd < MAX_OPEN_FILES" "OPEN_FILES s0 ! fd = None" "OPEN_FILES s' = (OPEN_FILES s0)[fd := Some f]"
      "f_offset f = 0" "f_flags f = flags" "MOUNTS s' = MOUNTS s0" "DRIVERS s' = DRIVERS s0"
      "DRIVER_COUNT s' = DRIVER_COUNT s0"
proof -
  obtain ex s where e: "vfs_exists path s0 = (ex, s)" by force
  then obtain fs' where s: "s = s0\<lparr>FS := fs'\<rparr>" using vfs_exists_frame by blast
  show thesis
  proof (cases "may_open path flags ex s")
    case False
    then show ?thesis using assms e by (intro fail) (auto simp: vfs_open_def s)
  next
    case may: True
    show ?thesis
    proof (cases "route s path")
      case None
      then show ?thesis using assms e may by (intro fail) (auto simp: vfs_open_def s)
    next
      case (Some q)
      obtain didx d rel where q: "q = (didx, d, rel)" by (metis prod_cases3)
      obtain ho fs1 where op: "fs_open d rel flags (FS s) = (ho, fs1)" by force
      show ?thesis
      proof (cases ho)
        case None
        then show ?thesis using assms e may Some q op by (intro fail) (auto simp: vfs_open_def Let_def s)
      next
        case h: (Some h)
        obtain st fs2 where t: "fs_stat d rel fs1 = (st, fs2)" by force
        show ?thesis
        proof (cases "find_idx MAX_OPEN_FILES (\<lambda>i. OPEN_FILES s ! i = None)")
          case None
          then show ?thesis using assms e may Some q op h t by (intro fail) (auto simp: vfs_open_def Let_def s)
        next
          case fd: (Some fd)
          let ?f = "\<lparr>driver_idx = didx, handle = h, f_offset = 0,
            f_size = (case st of Some i \<Rightarrow> st_size i | None \<Rightarrow> 0), f_flags = flags\<rparr>"
          have "r = int fd" "OPEN_FILES s' = (OPEN_FILES s0)[fd := Some ?f]" "MOUNTS s' = MOUNTS s0"
            "DRIVERS s' = DRIVERS s0" "DRIVER_COUNT s' = DRIVER_COUNT s0"
            using assms e may Some q op h t fd by (auto simp: vfs_open_def Let_def s perm_set_frame split: if_splits)
          then show ?thesis
            using opened [of fd ex s ?f] e may find_idx_SomeD(1,2) [OF fd] by (simp add: s)
        qed
      qed
    qed
  qed
qed

lemma open_guarded_aux:
  assumes "vfs_ok s" and "vfs_open path flags s = (r, s')"
  shows "(r = -1 \<and> OPEN_FILES s' = OPEN_FILES s \<and> PERMS s' = PERMS s) \<or>
    (0 \<le> r \<and> fd_file r s = None \<and> may_open path flags (fst (vfs_exists path s)) (snd (vfs_exists path s)) \<and>
     (\<exists>f. fd_file r s' = Some f \<and> f_offset f = 0 \<and> f_flags f = flags) \<and>
     (\<forall>fd. fd \<noteq> r \<longrightarrow> fd_file fd s' = fd_file fd s) \<and>
     fst (vfs_close r s') = 0 \<and> OPEN_FILES (snd (vfs_close r s')) = OPEN_FILES s)"
  using assms(2)
proof (cases rule: vfs_open_cases)
  case (opened fd f ex s1)
  have len: "fd < length (OPEN_FILES s)" using assms(1) opened(4) by (simp add: vfs_ok_def)
  have f: "fd_file r s' = Some f" using opened len by (simp add: fd_file_def)
  have "fst (vfs_close r s') = 0" "OPEN_FILES (snd (vfs_close r s')) = (OPEN_FILES s')[fd := None]"
    using f opened(1) by (auto simp: vfs_close_def Let_def split: option.splits)
  moreover have "(OPEN_FILES s')[fd := None] = OPEN_FILES s"
    using opened(5,6) len by (metis list_update_id list_update_overwrite)
  moreover have "fd_file k s' = fd_file k s" if "k \<noteq> r" for k
    using that opened(1,6) len by (auto simp: fd_file_def nth_list_update)
  moreover have "fd_file r s = None" using opened(1,5) by (simp add: fd_file_def)
  ultimately show ?thesis using opened f by simp
qed simp

text \<open>C28: Opening a file is guarded and touches one descriptor: a nonnegative result is a descriptor that
  was free, was granted by the permission check, and now has offset 0 and the requested flags,
  with all other descriptors as before; closing it succeeds and restores the descriptor table.
  Every failure returns -1 and leaves the descriptors and the permission table unchanged.\<close>

theorem open_guarded:
  assumes "vfs_ok s" and "vfs_open path flags s = (r, s')"
  shows "(r = -1 \<and> OPEN_FILES s' = OPEN_FILES s \<and> PERMS s' = PERMS s) \<or>
    (0 \<le> r \<and> fd_file r s = None \<and> may_open path flags (fst (vfs_exists path s)) (snd (vfs_exists path s)) \<and>
     (\<exists>f. fd_file r s' = Some f \<and> f_offset f = 0 \<and> f_flags f = flags) \<and>
     (\<forall>fd. fd \<noteq> r \<longrightarrow> fd_file fd s' = fd_file fd s) \<and>
     fst (vfs_close r s') = 0 \<and> OPEN_FILES (snd (vfs_close r s')) = OPEN_FILES s)"
  by (rule open_guarded_aux [OF assms])

text \<open>A descriptor opened with the create and truncate bits alone refuses every write.\<close>

lemma create_write_refused:
  assumes "vfs_ok s" and "vfs_open path (0x200 OR 0x100) s = (r, s1)" and "\<not> r < 0"
  shows "vfs_write r d s1 = (-1, s1)"
  using open_guarded_aux [OF assms(1,2)] assms(3) by (auto simp: vfs_write_def)

text \<open>The package manager never writes a file: \<open>write_file_buf\<close> opens with the create and truncate
  bits but without a write bit, so \<open>vfs::write\<close> refuses, whatever the data; the function
  ignores that and reports success, having only created or emptied the file.\<close>

theorem write_file_buf_writes_nothing:
  assumes "vfs_ok s" and "write_file_buf path data s = (True, s')"
  shows "write_file_buf path data' s = (True, s') \<and> OPEN_FILES s' = OPEN_FILES s"
proof -
  obtain r s1 where o: "vfs_open path (0x200 OR 0x100) s = (r, s1)" by force
  have r: "\<not> r < 0" using assms(2) o by (auto simp: write_file_buf_def split: if_splits)
  have G: "OPEN_FILES (snd (vfs_close r s1)) = OPEN_FILES s"
    using open_guarded_aux [OF assms(1) o] r by auto
  have "vfs_write r d s1 = (-1, s1)" for d
    by (rule create_write_refused [OF assms(1) o r])
  then show ?thesis using assms(2) o r G by (auto simp: write_file_buf_def)
qed

section \<open>Listing stays within the buffer\<close>

lemma put_entry_bound:
  assumes "oi \<le> length buf - 1" and "2 \<le> length buf"
  shows "snd (put_entry e (buf, oi)) \<le> length buf - 1 \<and> length (fst (put_entry e (buf, oi))) = length buf"
proof -
  let ?lim = "length buf - 1"
  define nl where "nl = (case position (\<lambda>c. c = 0) (de_name e) of Some i \<Rightarrow> i | None \<Rightarrow> MAX_NAME)"
  define st1 where "st1 = put_bytes ?lim (take nl (de_name e)) (buf, oi)"
  define st2 where "st2 = (if de_is_dir e then put_byte ?lim 0x2F st1 else st1)"
  define st3 where "st3 = put_byte ?lim 0x09 st2"
  obtain b o1 where b: "put_bytes ?lim (dec_bytes (unat (de_size e))) st3 = (b, o1)" by force
  have "snd st1 \<le> ?lim \<and> length (fst st1) = length buf"
    using put_bytes_bound [of "(buf, oi)" ?lim] assms by (simp add: st1_def)
  then have "snd st2 \<le> ?lim \<and> length (fst st2) = length buf" using put_byte_bound [of st1 ?lim] by (simp add: st2_def)
  then have "snd st3 \<le> ?lim \<and> length (fst st3) = length buf" using put_byte_bound [of st2 ?lim] by (simp add: st3_def)
  then have "o1 \<le> ?lim" "length b = length buf"
    using put_bytes_bound [of st3 ?lim "dec_bytes (unat (de_size e))"] b by simp_all
  moreover have "put_entry e (buf, oi) = (if o1 < length b - 2 then (b[o1 := 0x0D, o1 + 1 := 0x0A], o1 + 2) else (b, o1))"
    unfolding put_entry_def Let_def fst_conv nl_def [symmetric] st1_def [symmetric] st2_def [symmetric] st3_def [symmetric] b
    by simp
  ultimately show ?thesis using assms(2) by auto
qed


section \<open>Concrete systems\<close>

text \<open>A driver whose only file is \<open>"a"\<close>, always empty, mounted at the root and at \<open>/tmp\<close>.\<close>

definition demo_ops :: "unit fs_ops" where
  "demo_ops = \<lparr>fs_open = (\<lambda>path flags d. (if path = [0x61] then Some 5 else None, d)), fs_close = (\<lambda>h d. d),
     fs_read = (\<lambda>h buf off d. ((Some 0, buf), d)), fs_write = (\<lambda>h buf off d. (Some 0, d)),
     fs_stat = (\<lambda>path d. (if path = [0x61] then Some \<lparr>st_size = 0, st_is_dir = False, st_cluster = 0\<rparr> else None, d)),
     fs_readdir = (\<lambda>path es d. ((Some 0, es), d)), fs_mkdir = (\<lambda>path d. (False, d)),
     fs_rmdir = (\<lambda>path d. (False, d)), fs_unlink = (\<lambda>path d. (False, d))\<rparr>"

abbreviation mount_free :: mount_entry where
  "mount_free \<equiv> \<lparr>prefix = replicate MAX_PATH 0, prefix_len = 0, m_driver_idx = 0, m_in_use = False\<rparr>"

abbreviation root_mount :: mount_entry where
  "root_mount \<equiv> \<lparr>prefix = [0x2F], prefix_len = 1, m_driver_idx = 0, m_in_use = True\<rparr>"

abbreviation tmp_mount :: mount_entry where
  "tmp_mount \<equiv> \<lparr>prefix = [0x2F, 0x74, 0x6D, 0x70], prefix_len = 4, m_driver_idx = 1, m_in_use = True\<rparr>"

definition demo_vfs :: "unit vfs" where
  "demo_vfs = permdb.extend demo_perms \<lparr>DRIVERS = [Some demo_ops, Some demo_ops] @ replicate 6 None, DRIVER_COUNT = 2,
     MOUNTS = [root_mount, tmp_mount] @ replicate 6 mount_free, OPEN_FILES = replicate MAX_OPEN_FILES None, FS = ()\<rparr>"

lemma demo_vfs_sel:
  "MOUNTS demo_vfs = [root_mount, tmp_mount] @ replicate 6 mount_free" "DRIVER_COUNT demo_vfs = 2"
  "DRIVERS demo_vfs = [Some demo_ops, Some demo_ops] @ replicate 6 None"
  "OPEN_FILES demo_vfs = replicate MAX_OPEN_FILES None" "PERMS demo_vfs = PERMS demo_perms"
  by (simp_all add: demo_vfs_def permdb.defs)

lemma demo_vfs_ok: "vfs_ok demo_vfs"
  by (simp add: vfs_ok_def demo_vfs_sel MAX_MOUNTS_def)

lemma demo_vfs_mounts:
  "mount_matches [0x2F, 0x74, 0x6D, 0x70, 0x2F, 0x61] tmp_mount"
  "resolve_mount demo_vfs [0x2F, 0x74, 0x6D, 0x70, 0x2F, 0x61] = Some (1, 4)"
  by (simp_all add: mount_matches_def resolve_mount_def demo_vfs_sel best_step_def numeral_eq_Suc)

theorem resolve_mount_longest_witness:
  "\<exists>m\<in>set (MOUNTS demo_vfs). mount_matches [0x2F, 0x74, 0x6D, 0x70, 0x2F, 0x61] m \<and> m_driver_idx m = 1 \<and> prefix_len m = 4"
  using resolve_mount_longest [of demo_vfs "[0x2F, 0x74, 0x6D, 0x70, 0x2F, 0x61]"] unfolding demo_vfs_mounts(2) by auto

theorem relative_path_loses_first_byte_witness:
  "route demo_vfs [0x62, 0x61] = Some (0, demo_ops, [0x61])"
proof -
  have "\<forall>m\<in>set (MOUNTS demo_vfs). \<not> mount_matches [0x62, 0x61] m"
    by (simp add: demo_vfs_sel mount_matches_def)
  moreover have "List.find is_root_mount (MOUNTS demo_vfs) = Some root_mount" "get_driver demo_vfs (m_driver_idx root_mount) = Some demo_ops"
    by (simp_all add: demo_vfs_sel is_root_mount_def get_driver_def)
  ultimately show ?thesis using relative_path_loses_first_byte [where s = demo_vfs and c = "0x62" and rest = "[0x61]"] by simp
qed

lemma demo_vfs_open:
  assumes "flags AND 0x100 \<noteq> 0"
  shows "\<exists>s'. vfs_open [0x2F, 0x61] flags demo_vfs = (0, s')"
proof -
  have "fst (fold (best_step [0x2F, 0x61]) (MOUNTS demo_vfs) (None, 0)) = Some (0, 1)"
    by (simp add: demo_vfs_sel best_step_def mount_matches_def numeral_eq_Suc)
  then have r: "route demo_vfs [0x2F, 0x61] = Some (0, demo_ops, [0x61])"
    by (simp add: route_def resolve_mount_def get_driver_def demo_vfs_sel strip_prefix_def)
  have ex: "vfs_exists [0x2F, 0x61] demo_vfs = (True, demo_vfs)"
    by (simp add: vfs_exists_def vfs_stat_def r demo_ops_def)
  have "perm_find demo_vfs [0x2F, 0x61] = None"
    using demo_perms_ok(3) [of "[0x2F, 0x61]"] by (simp add: perm_find_None_iff demo_vfs_sel)
  then have "may_open [0x2F, 0x61] flags True demo_vfs"
    using assms unregistered_open [of demo_vfs] by (simp add: may_open_def Let_def)
  moreover have "find_idx MAX_OPEN_FILES (\<lambda>i. OPEN_FILES demo_vfs ! i = None) = Some 0"
    by (rule find_idx_eq_SomeI) (simp_all add: demo_vfs_sel MAX_OPEN_FILES_def)
  ultimately show ?thesis by (simp add: vfs_open_def ex r demo_ops_def Let_def)
qed

theorem open_guarded_witness:
  "\<exists>s'. vfs_open [0x2F, 0x61] 0x101 demo_vfs = (0, s') \<and> OPEN_FILES (snd (vfs_close 0 s')) = OPEN_FILES demo_vfs"
proof -
  obtain s' where o: "vfs_open [0x2F, 0x61] 0x101 demo_vfs = (0, s')" using demo_vfs_open [of "0x101"] by auto
  then show ?thesis using open_guarded [OF demo_vfs_ok o] by simp
qed

theorem write_file_buf_writes_nothing_witness:
  "write_file_buf [0x2F, 0x61] [1, 2, 3] demo_vfs = write_file_buf [0x2F, 0x61] [] demo_vfs"
proof -
  obtain s1 where "vfs_open [0x2F, 0x61] (0x200 OR 0x100) demo_vfs = (0, s1)" using demo_vfs_open [of "0x200 OR 0x100"] by auto
  then obtain s' where w: "write_file_buf [0x2F, 0x61] [1, 2, 3] demo_vfs = (True, s')" by (simp add: write_file_buf_def)
  show ?thesis unfolding w using write_file_buf_writes_nothing [OF demo_vfs_ok w, of "[]"] by metis
qed


end
