(* ===== verification/Script.thy ===== *)
theory Script
  imports Vfs
begin

text \<open>
  The script interpreter, \<open>kernel/src/script.rs\<close>: shell variables and their expansion, the splitting
  of a line into words and redirections, the commands that work on files and variables, and \<open>if\<close>,
  \<open>for\<close>, pipes and blocks.

  The functions of the interpreter call each other and may never return; they are one function of a
  call and a bound on the nesting of calls, with the results \<open>Panic\<close>, \<open>Deep\<close> (the bound is not enough) and
  \<open>Endless\<close> (a file still has bytes after the bound on the reads of one loop). The commands of other components (\<open>ping\<close>, \<open>wget\<close>, program start and so on) are an argument
  of the interpreter: their effect on its state. What is printed is kept as the bytes handed to the
  terminal.
\<close>

section \<open>State\<close>

definition MAX_VARS :: nat where "MAX_VARS = 64"
definition MAX_NAME :: nat where "MAX_NAME = 32"
definition MAX_VAL :: nat where "MAX_VAL = 128"

record 'd sh =
  ENV :: "(bytes \<times> bytes) list"
  LAST_EXIT_CODE :: u32
  files :: "'d vfs"
  console :: bytes

datatype 'a run = Ret 'a | Panic | Deep | Endless

primrec andthen :: "'a run \<Rightarrow> ('a \<Rightarrow> 'b run) \<Rightarrow> 'b run" where
  "andthen (Ret a) f = f a"
| "andthen Panic f = Panic"
| "andthen Deep f = Deep"
| "andthen Endless f = Endless"

definition say :: "bytes \<Rightarrow> 'd sh \<Rightarrow> 'd sh" where
  "say t s = s\<lparr>console := console s @ t\<rparr>"

section \<open>Variables\<close>

text \<open>The text of a C string in an array.\<close>

definition cstr :: "bytes \<Rightarrow> bytes" where
  "cstr s = takeWhile (\<lambda>c. c \<noteq> 0) s"

definition copy_slice :: "bytes \<Rightarrow> bytes \<Rightarrow> bytes" where
  "copy_slice dst src = (let n = min (length src) (length dst - 1) in (splice_at dst 0 (take n src))[n := 0])"

definition name_eq :: "bytes \<Rightarrow> bytes \<Rightarrow> bool" where
  "name_eq a b \<longleftrightarrow> cstr a = cstr b"

definition var_pos :: "bytes \<Rightarrow> (bytes \<times> bytes) list \<Rightarrow> nat option" where
  "var_pos name env = find_idx (length env) (\<lambda>i. name_eq (fst (env ! i)) name)"

definition set_var :: "bytes \<Rightarrow> bytes \<Rightarrow> 'd sh \<Rightarrow> 'd sh" where
  "set_var name v s =
     (case var_pos name (ENV s) of
        Some i \<Rightarrow> s\<lparr>ENV := (ENV s)[i := (fst (ENV s ! i), copy_slice (snd (ENV s ! i)) v)]\<rparr>
      | None \<Rightarrow>
          if length (ENV s) \<ge> MAX_VARS then s
          else s\<lparr>ENV := ENV s @ [(copy_slice (replicate MAX_NAME 0) name, copy_slice (replicate MAX_VAL 0) v)]\<rparr>)"

definition get_var :: "bytes \<Rightarrow> 'd sh \<Rightarrow> bytes option" where
  "get_var name s = map_option (\<lambda>i. cstr (snd (ENV s ! i))) (var_pos name (ENV s))"

section \<open>Expansion\<close>

definition is_digit :: "u8 \<Rightarrow> bool" where
  "is_digit c \<longleftrightarrow> 0x30 \<le> c \<and> c \<le> 0x39"

definition is_alpha :: "u8 \<Rightarrow> bool" where
  "is_alpha c \<longleftrightarrow> 0x41 \<le> c \<and> c \<le> 0x5A \<or> 0x61 \<le> c \<and> c \<le> 0x7A"

definition is_alnum :: "u8 \<Rightarrow> bool" where
  "is_alnum c \<longleftrightarrow> is_digit c \<or> is_alpha c"

definition ident :: "u8 \<Rightarrow> bool" where
  "ident c \<longleftrightarrow> is_alnum c \<or> c = 0x5F"

text \<open>Bytes are stored while the cursor is below the last place of the buffer.\<close>

definition put_text :: "nat \<Rightarrow> bytes \<Rightarrow> bytes \<Rightarrow> bytes" where
  "put_text cap w out = take (cap - 1) (out @ w)"

definition var_text :: "bytes \<Rightarrow> 'd sh \<Rightarrow> bytes" where
  "var_text name s = (case get_var name s of Some v \<Rightarrow> v | None \<Rightarrow> [])"

lemma shrink_simps:
  shows "length (dropWhile P xs) < Suc (length xs)" and "length (dropWhile P (tl xs)) - Suc 0 < Suc (length xs)"
proof -
  show "length (dropWhile P xs) < Suc (length xs)" by (simp add: length_dropWhile_le less_Suc_eq_le)
  have "length (dropWhile P (tl xs)) \<le> length (tl xs)" by (rule length_dropWhile_le)
  then show "length (dropWhile P (tl xs)) - Suc 0 < Suc (length xs)" by simp
qed

function expand_vars :: "nat \<Rightarrow> 'd sh \<Rightarrow> bytes \<Rightarrow> bytes \<Rightarrow> bytes" where
  "expand_vars cap s input out =
     (case input of
        [] \<Rightarrow> out
      | x # rest \<Rightarrow>
          if length out \<ge> cap - 1 then out
          else if x = 0x24 \<and> rest \<noteq> []
          then (let c = hd rest; r = tl rest in
                if c = 0x3F then expand_vars cap s r (put_text cap (dec_bytes (unat (LAST_EXIT_CODE s))) out)
                else if c = 0x24 then expand_vars cap s r (put_text cap (dec_bytes 1) out)
                else if is_digit c then expand_vars cap s r out
                else if c = 0x7B
                then (let name = takeWhile (\<lambda>b. b \<noteq> 0x7D) r; rem = dropWhile (\<lambda>b. b \<noteq> 0x7D) r in
                      if rem = [] then out else expand_vars cap s (tl rem) (put_text cap (var_text name s) out))
                else if is_alpha c \<or> c = 0x5F
                then expand_vars cap s (dropWhile ident rest) (put_text cap (var_text (takeWhile ident rest) s) out)
                else expand_vars cap s rest (put_text cap [0x24] out))
          else expand_vars cap s rest (out @ [x]))"
  by pat_completeness auto
termination
  by (relation "measure (\<lambda>(cap, s, input, out). length input)") (auto simp: shrink_simps)

declare expand_vars.simps [simp del]

section \<open>Words and redirections\<close>

record toks =
  argv :: "bytes list"
  redir_out :: bytes
  redir_out_append :: bool
  redir_in :: bytes

definition no_toks :: toks where
  "no_toks = \<lparr>argv = [], redir_out = replicate 128 0, redir_out_append = False, redir_in = replicate 128 0\<rparr>"

definition blank :: "u8 \<Rightarrow> bool" where
  "blank c \<longleftrightarrow> c = 0x20 \<or> c = 9"

definition target_char :: "u8 \<Rightarrow> bool" where
  "target_char c \<longleftrightarrow> c \<noteq> 0x20 \<and> c \<noteq> 9 \<and> c \<noteq> 0x0A \<and> c \<noteq> 0x7C"

definition word_char :: "u8 \<Rightarrow> bool" where
  "word_char c \<longleftrightarrow> \<not> blank c \<and> c \<noteq> 0x7C \<and> c \<noteq> 0x3E \<and> c \<noteq> 0x3C"

lemma drop_blank:
  assumes "dropWhile blank line = c # rest"
  shows "length rest < length line" and "\<not> blank c"
proof -
  have "length (c # rest) \<le> length line" unfolding assms [symmetric] by (rule length_dropWhile_le)
  then show "length rest < length line" by simp
  show "\<not> blank c" using hd_dropWhile [of blank line] assms by simp
qed

text \<open>A word in quotes ends at the quote, or with the line.\<close>

function tokens :: "bytes \<Rightarrow> toks \<Rightarrow> toks" where
  "tokens line t =
     (case dropWhile blank line of
        [] \<Rightarrow> t
      | c # rest \<Rightarrow>
          if c = 0x23 then t
          else if c = 0x3E
          then (let app = (rest \<noteq> [] \<and> hd rest = 0x3E);
                    l = dropWhile (\<lambda>b. b = 0x20) (if app then tl rest else rest)
                in tokens (dropWhile target_char l)
                     (t\<lparr>redir_out := copy_slice (redir_out t) (takeWhile target_char l), redir_out_append := app \<or> redir_out_append t\<rparr>))
          else if c = 0x3C
          then (let l = dropWhile (\<lambda>b. b = 0x20) rest
                in tokens (dropWhile target_char l) (t\<lparr>redir_in := copy_slice (redir_in t) (takeWhile target_char l)\<rparr>))
          else if c = 0x7C \<or> length (argv t) \<ge> 16 then t
          else if c = 0x22 \<or> c = 0x27
          then tokens (tl (dropWhile (\<lambda>b. b \<noteq> c) rest)) (t\<lparr>argv := argv t @ [cstr (take 127 (takeWhile (\<lambda>b. b \<noteq> c) rest))]\<rparr>)
          else tokens (dropWhile word_char (c # rest)) (t\<lparr>argv := argv t @ [cstr (take 127 (takeWhile word_char (c # rest)))]\<rparr>))"
  by pat_completeness auto

termination
proof (relation "measure (\<lambda>(line, t). length line)", goal_cases)
  case (2 line t c rest app l)
  have "length (dropWhile target_char l) \<le> length l" "length l \<le> length (if app then tl rest else rest)"
    unfolding 2(5) by (rule length_dropWhile_le)+
  then show ?case using drop_blank(1) [OF 2(1)] by (auto split: if_splits)
next
  case (3 line t c rest l)
  have "length (dropWhile target_char l) \<le> length l" "length l \<le> length rest" unfolding 3(5) by (rule length_dropWhile_le)+
  then show ?case using drop_blank(1) [OF 3(1)] by simp
next
  case (4 line t c rest)
  have "length (dropWhile (\<lambda>b. b \<noteq> c) rest) \<le> length rest" by (rule length_dropWhile_le)
  then show ?case using drop_blank(1) [OF 4(1)] by simp
next
  case (5 line t c rest)
  have "word_char c" using drop_blank(2) [OF 5(1)] 5(3-5) by (simp add: word_char_def)
  moreover have "length (dropWhile word_char rest) \<le> length rest" by (rule length_dropWhile_le)
  ultimately show ?case using drop_blank(1) [OF 5(1)] by simp
qed simp

declare tokens.simps [simp del]

definition tokenize :: "bytes \<Rightarrow> toks" where
  "tokenize line = tokens line no_toks"

section \<open>Commands\<close>

text \<open>What the commands of other components are asked to do.\<close>

datatype action = Cd bytes | Pwd | Ls bytes | TcpTest | NvmeInfo | Ping | Dhcp | Mem | Time | Info | Help | Wget bytes bytes
  | Pkg bytes | Reboot | Poweroff | LoadAndSpawn bytes

definition parse_num :: "bytes \<Rightarrow> u32" where
  "parse_num w = fold (\<lambda>c v. if is_digit c then v * 10 + ucast (c - 0x30) else v) w 0"

definition arg :: "bytes list \<Rightarrow> nat \<Rightarrow> bytes" where
  "arg av i = (if i < length av then av ! i else [])"

definition echo_text :: "bytes list \<Rightarrow> bytes" where
  "echo_text av = fold (\<lambda>j out. put_text 512 (av ! j) (if j > 1 then put_text 512 [0x20] out else out)) [1..<length av] []"

text \<open>The loop of \<open>cat\<close>: 4096 bytes at a time, to the terminal or to a descriptor.\<close>

primrec cat_loop :: "nat \<Rightarrow> int \<Rightarrow> int option \<Rightarrow> 'd sh \<Rightarrow> 'd sh run" where
  "cat_loop 0 fd dst s = Endless"
| "cat_loop (Suc k) fd dst s =
     (let ((n, buf), v) = vfs_read fd (replicate 4096 0) (files s); s1 = s\<lparr>files := v\<rparr> in
      if n \<le> 0 then Ret s1
      else if nat n > length buf then Panic
      else (case dst of
              None \<Rightarrow> cat_loop k fd dst (say (take (nat n) buf) s1)
            | Some ffd \<Rightarrow> cat_loop k fd dst (s1\<lparr>files := snd (vfs_write ffd (take (nat n) buf) v)\<rparr>)))"

definition close_sh :: "int \<Rightarrow> 'd sh \<Rightarrow> 'd sh" where
  "close_sh fd s = s\<lparr>files := snd (vfs_close fd (files s))\<rparr>"

definition open_sh :: "bytes \<Rightarrow> u64 \<Rightarrow> 'd sh \<Rightarrow> int \<times> 'd sh" where
  "open_sh path flags s = (let (fd, v) = vfs_open path flags (files s) in (fd, s\<lparr>files := v\<rparr>))"

definition write_new :: "bytes \<Rightarrow> bool \<Rightarrow> bytes \<Rightarrow> 'd sh \<Rightarrow> bool \<times> 'd sh" where
  "write_new path app w s =
     (let (ffd, s1) = open_sh path (0x200 OR 0x100) s in
      if ffd < 0 then (False, s1)
      else let v = (if app then snd (vfs_lseek ffd 0 2 (files s1)) else files s1);
               v1 = snd (vfs_write ffd w v)
           in (True, close_sh ffd (s1\<lparr>files := v1\<rparr>)))"

definition cat_cmd :: "nat \<Rightarrow> bytes \<Rightarrow> bytes option \<Rightarrow> 'd sh \<Rightarrow> (u32 \<times> 'd sh) run" where
  "cat_cmd m path dst s =
     (let (fd, s1) = open_sh path 0 s in
      if fd < 0 then Ret (1, s1)
      else case dst of
        None \<Rightarrow> andthen (cat_loop m fd None s1) (\<lambda>s2. Ret (0, close_sh fd s2))
      | Some target \<Rightarrow>
          (let (ffd, s2) = open_sh target (0x200 OR 0x100) s1 in
           if ffd < 0 then Ret (1, close_sh fd s2)
           else andthen (cat_loop m fd (Some ffd) s2) (\<lambda>s3. Ret (0, close_sh ffd (close_sh fd s3)))))"

definition on_files :: "('d vfs \<Rightarrow> bool \<times> 'd vfs) \<Rightarrow> 'd sh \<Rightarrow> (u32 \<times> 'd sh) run" where
  "on_files f s = (let (ok, v) = f (files s) in Ret (if ok then 0 else 1, s\<lparr>files := v\<rparr>))"

text \<open>A command that is not built in: a program in \<open>/bin\<close>, then one with the name as its path.\<close>

definition external :: "(action \<Rightarrow> 'd sh \<Rightarrow> 'd sh) \<Rightarrow> bytes \<Rightarrow> 'd sh \<Rightarrow> (u32 \<times> 'd sh) run" where
  "external act cmd s =
     (let path = take 127 (ascii ''/bin/'' @ cmd); (fd, s1) = open_sh path 0 s in
      if fd \<ge> 0 then Ret (0, act (LoadAndSpawn path) (close_sh fd s1))
      else let (fd2, s2) = open_sh cmd 0 s1 in
        if fd2 \<ge> 0 then Ret (0, act (LoadAndSpawn cmd) (close_sh fd2 s2))
        else Ret (1, say (ascii ''command not found: '' @ cmd @ [0x0D, 0x0A]) s2))"

definition simple_actions :: "(bytes \<times> action) list" where
  "simple_actions = [(ascii ''ping'', Ping), (ascii ''dhcp'', Dhcp), (ascii ''mem'', Mem), (ascii ''time'', Time),
     (ascii ''info'', Info), (ascii ''help'', Help), (ascii ''reboot'', Reboot), (ascii ''poweroff'', Poweroff)]"

definition export_cmd :: "bytes list \<Rightarrow> 'd sh \<Rightarrow> 'd sh" where
  "export_cmd av s =
     (if length av \<le> 1 then s
      else case position (\<lambda>c. c = 0x3D) (av ! 1) of None \<Rightarrow> s
           | Some i \<Rightarrow> set_var (take i (av ! 1)) (drop (i + 1) (av ! 1)) s)"

definition exec_single :: "(action \<Rightarrow> 'd sh \<Rightarrow> 'd sh) \<Rightarrow> nat \<Rightarrow> toks \<Rightarrow> 'd sh \<Rightarrow> (u32 \<times> 'd sh) run" where
  "exec_single act m t s =
     (let av = argv t; n = length av; cmd = arg av 0; out = redir_out t; redirected = (hd out \<noteq> 0) in
      if n = 0 then Ret (0, s)
      else if cmd = ascii ''cd'' then Ret (0, act (Cd (arg av 1)) s)
      else if cmd = ascii ''echo''
      then Ret (0, if redirected then snd (write_new out (redir_out_append t) (echo_text av) s) else say (echo_text av) s)
      else if cmd = ascii ''export'' then Ret (0, export_cmd av s)
      else if cmd = ascii ''exit'' then Ret (if n > 1 then parse_num (av ! 1) else 1, s)
      else if cmd = ascii ''pwd'' then Ret (0, say [0x0D, 0x0A] (act Pwd s))
      else if cmd = ascii ''ls''
      then (let path = (if n > 1 then av ! 1 else [0x2F]) in
            if redirected
            then (let ((k, listing), v) = vfs_readdir_to_buf path (replicate 4096 0) (files s)
                  in Ret (0, snd (write_new out False (take k listing) (s\<lparr>files := v\<rparr>))))
            else Ret (0, act (Ls path) s))
      else if cmd = ascii ''cat''
      then (if n < 2 then Ret (1, s) else cat_cmd m (av ! 1) (if redirected then Some out else None) s)
      else if cmd = ascii ''mkdir'' then (if n < 2 then Ret (1, s) else on_files (vfs_mkdir (av ! 1)) s)
      else if cmd = ascii ''rm'' then (if n < 2 then Ret (1, s) else on_files (vfs_unlink (av ! 1)) s)
      else if cmd = ascii ''rmdir'' then (if n < 2 then Ret (1, s) else on_files (vfs_rmdir (av ! 1)) s)
      else if cmd = ascii ''write''
      then (if n < 3 then Ret (1, s)
            else let (ok, s1) = write_new (av ! 1) False (av ! 2) s in Ret (if ok then 0 else 1, s1))
      else if cmd = ascii ''tcp'' \<and> n > 1 \<and> av ! 1 = ascii ''test'' then Ret (0, act TcpTest s)
      else if cmd = ascii ''nvme'' \<and> n > 1 \<and> av ! 1 = ascii ''info'' then Ret (0, act NvmeInfo s)
      else if cmd = ascii ''wget'' then Ret (0, if n > 1 then act (Wget (av ! 1) (arg av 2)) s else s)
      else if cmd = ascii ''pkg'' then Ret (0, if n > 1 then act (Pkg (av ! 1)) s else s)
      else case map_of simple_actions cmd of Some a \<Rightarrow> Ret (0, act a s) | None \<Rightarrow> external act cmd s)"

section \<open>Scanning a line\<close>

definition trim_char :: "u8 \<Rightarrow> bool" where
  "trim_char c \<longleftrightarrow> c = 0x20 \<or> c = 9 \<or> c = 0x0A \<or> c = 0x0D \<or> c = 0x3B"

definition trim :: "bytes \<Rightarrow> bytes" where
  "trim s = rev (dropWhile trim_char (rev (dropWhile trim_char s)))"

definition sep_char :: "u8 \<Rightarrow> bool" where
  "sep_char c \<longleftrightarrow> c = 0x20 \<or> c = 9 \<or> c = 0x0A \<or> c = 0x3B"

definition starts_with_word :: "bytes \<Rightarrow> bytes \<Rightarrow> bool" where
  "starts_with_word s w \<longleftrightarrow> length w \<le> length s \<and> take (length w) s = w \<and> (length s = length w \<or> \<not> is_alnum (s ! length w))"

definition first_word :: "bytes \<Rightarrow> bytes" where
  "first_word s = takeWhile (\<lambda>c. \<not> sep_char c) (trim s)"

definition skip_first_word :: "bytes \<Rightarrow> bytes" where
  "skip_first_word s = dropWhile sep_char (dropWhile (\<lambda>c. \<not> sep_char c) (trim s))"

definition skip_keyword_text :: "bytes \<Rightarrow> bytes \<Rightarrow> nat" where
  "skip_keyword_text s kw =
     (let i = min (length s) (length kw) in i + length (takeWhile sep_char (drop i s)))"

text \<open>0 stands for no position, also when the keyword is at the start.\<close>

definition find_keyword :: "bytes \<Rightarrow> bytes \<Rightarrow> nat" where
  "find_keyword s kw =
     (case find_idx (length s) (\<lambda>i. i + length kw \<le> length s \<and> take (length kw) (drop i s) = kw \<and>
          (i = 0 \<or> \<not> is_alnum (s ! (i - 1))) \<and> (i + length kw \<ge> length s \<or> \<not> is_alnum (s ! (i + length kw)))) of
        Some i \<Rightarrow> i | None \<Rightarrow> 0)"

text \<open>The positions of \<open>elif\<close>, \<open>else\<close> and \<open>fi\<close>, from index \<open>i\<close> on.\<close>

function if_parts :: "bytes \<Rightarrow> nat \<Rightarrow> nat \<Rightarrow> nat \<Rightarrow> nat \<Rightarrow> nat \<times> nat \<times> nat" where
  "if_parts s i depth elif_pos else_pos =
     (if i \<ge> length s then (elif_pos, else_pos, length s)
      else let r = drop i s in
        if starts_with_word r (ascii ''if'') then if_parts s (i + 2) (depth + 1) elif_pos else_pos
        else if starts_with_word r (ascii ''fi'')
        then (if depth = 0 then (elif_pos, else_pos, if i = 0 then length s else i)
              else if_parts s (i + 2) (depth - 1) elif_pos else_pos)
        else if starts_with_word r (ascii ''elif'') \<and> depth = 1 \<and> elif_pos = 0 then if_parts s (i + 4) depth i else_pos
        else if starts_with_word r (ascii ''else'') \<and> depth = 1 \<and> else_pos = 0 then if_parts s (i + 4) depth elif_pos i
        else if_parts s (i + 1) depth elif_pos else_pos)"
  by pat_completeness auto
termination by (relation "measure (\<lambda>(s, i, d, a, b). length s - i)") auto

declare if_parts.simps [simp del]

definition find_if_parts :: "bytes \<Rightarrow> nat \<times> nat \<times> nat" where
  "find_if_parts s = if_parts s 0 0 0 0"

definition trim_end_fi :: "bytes \<Rightarrow> bytes" where
  "trim_end_fi s0 = (let s = trim s0 in
     if length s \<ge> 2 \<and> drop (length s - 2) s = ascii ''fi'' then take (length s - 2) s else s)"

text \<open>\<open>&s[a..b]\<close>, a panic when the bounds do not fit; \<open>b\<close> may be the wrapped value of a negative difference.\<close>

definition cut :: "bytes \<Rightarrow> nat \<Rightarrow> nat \<Rightarrow> bytes run" where
  "cut s a b = (if a \<le> b \<and> b \<le> length s then Ret (take (b - a) (drop a s)) else Panic)"

definition minus_usize :: "nat \<Rightarrow> nat \<Rightarrow> nat" where
  "minus_usize a b = (if b \<le> a then a - b else a + 2 ^ 64 - b)"

section \<open>Control flow\<close>

text \<open>The calls the interpreter makes to itself; the functions below take them as \<open>rec\<close>.\<close>

datatype sh_call = Line bytes | Single bytes | Block bytes

type_synonym 'd callee = "sh_call \<Rightarrow> 'd sh \<Rightarrow> (u32 \<times> 'd sh) run"

definition elif_branch :: "'d callee \<Rightarrow> bytes \<Rightarrow> nat \<Rightarrow> nat \<Rightarrow> nat \<Rightarrow> 'd sh \<Rightarrow> (u32 option \<times> 'd sh) run" where
  "elif_branch rec s elif_pos else_pos fi_pos st =
     (let elif_text = drop elif_pos s; elif_then = find_keyword elif_text (ascii ''then'') in
      if elif_then = 0 then Ret (None, st)
      else andthen (cut (drop elif_then elif_text) (skip_keyword_text (drop elif_then elif_text) (ascii ''then''))
               (minus_usize (if else_pos > 0 then else_pos else fi_pos) elif_pos))
             (\<lambda>b. andthen (rec (Line (trim (take elif_then elif_text))) st)
               (\<lambda>(c, st1). if c = 0 \<and> trim b \<noteq> [] then andthen (rec (Block (trim b)) st1) (\<lambda>(r, st2). Ret (Some r, st2))
                           else Ret (None, st1))))"

definition else_branch :: "'d callee \<Rightarrow> bytes \<Rightarrow> nat \<Rightarrow> 'd sh \<Rightarrow> (u32 \<times> 'd sh) run" where
  "else_branch rec s else_pos st =
     (if else_pos = 0 then Ret (0, st)
      else let b = trim_end_fi (trim (drop 4 (drop else_pos s))) in
        if b \<noteq> [] then rec (Block b) st else Ret (0, st))"

definition exec_if :: "'d callee \<Rightarrow> bytes \<Rightarrow> 'd sh \<Rightarrow> (u32 \<times> 'd sh) run" where
  "exec_if rec line st =
     (let after_if = skip_first_word line; then_pos = find_keyword after_if (ascii ''then'') in
      if then_pos = 0 then Ret (1, st)
      else let s = drop then_pos after_if; (elif_pos, else_pos, fi_pos) = find_if_parts s in
        andthen (rec (Line (trim (take then_pos after_if))) st)
          (\<lambda>(c, st1).
             if c = 0
             then andthen (cut s (skip_keyword_text s (ascii ''then'')) (if elif_pos > 0 then elif_pos else if else_pos > 0 then else_pos else fi_pos))
                    (\<lambda>b. if trim b = [] then Ret (0, st1) else rec (Block (trim b)) st1)
             else andthen (if elif_pos > 0 then elif_branch rec s elif_pos else_pos fi_pos st1 else Ret (None, st1))
                    (\<lambda>(r, st2). case r of Some c2 \<Rightarrow> Ret (c2, st2) | None \<Rightarrow> else_branch rec s else_pos st2)))"

text \<open>The lines of a block: cut at newlines and semicolons, trimmed, without the empty ones.\<close>

definition line_end :: "u8 \<Rightarrow> bool" where
  "line_end c \<longleftrightarrow> c = 0x0A \<or> c = 0x3B"

function block_lines :: "bytes \<Rightarrow> bytes list" where
  "block_lines b =
     (case dropWhile (\<lambda>c. line_end c \<or> c = 0x0D) b of
        [] \<Rightarrow> []
      | c # rest \<Rightarrow> (let l = trim (takeWhile (\<lambda>c. \<not> line_end c) (c # rest)); more = block_lines (dropWhile (\<lambda>c. \<not> line_end c) rest)
                      in if l = [] then more else l # more))"
  by pat_completeness auto
termination
proof (relation "measure length", goal_cases)
  case (2 b c rest l)
  have "length (c # rest) \<le> length b" unfolding 2(1) [symmetric] by (rule length_dropWhile_le)
  then show ?case using length_dropWhile_le [of "\<lambda>c. \<not> line_end c" rest] by simp
qed simp

declare block_lines.simps [simp del]

primrec run_lines :: "'d callee \<Rightarrow> bytes list \<Rightarrow> u32 \<Rightarrow> 'd sh \<Rightarrow> (u32 \<times> 'd sh) run" where
  "run_lines rec [] c st = Ret (c, st)"
| "run_lines rec (l # ls) c st = andthen (rec (Line l) st) (\<lambda>(c1, st1). run_lines rec ls c1 st1)"

definition exec_block :: "'d callee \<Rightarrow> bytes \<Rightarrow> 'd sh \<Rightarrow> (u32 \<times> 'd sh) run" where
  "exec_block rec body st = run_lines rec (block_lines (trim body)) 0 st"

text \<open>The words of the list of a \<open>for\<close>: cut at spaces, at most 63 bytes of each.\<close>

function list_items :: "bytes \<Rightarrow> bytes list" where
  "list_items l =
     (case dropWhile (\<lambda>c. c = 0x20) l of
        [] \<Rightarrow> []
      | c # rest \<Rightarrow> cstr (take 63 (takeWhile (\<lambda>c. c \<noteq> 0x20) (c # rest))) # list_items (dropWhile (\<lambda>c. c \<noteq> 0x20) rest))"
  by pat_completeness auto
termination
proof (relation "measure length", goal_cases)
  case (2 b c rest)
  have "length (c # rest) \<le> length b" unfolding 2(1) [symmetric] by (rule length_dropWhile_le)
  then show ?case using length_dropWhile_le [of "\<lambda>c. c \<noteq> 0x20" rest] by simp
qed simp

declare list_items.simps [simp del]

primrec for_loop :: "'d callee \<Rightarrow> bytes \<Rightarrow> bytes \<Rightarrow> bytes list \<Rightarrow> 'd sh \<Rightarrow> 'd sh run" where
  "for_loop rec name body [] st = Ret st"
| "for_loop rec name body (x # xs) st =
     (let st1 = set_var name x st in
      if body = [] then for_loop rec name body xs st1
      else andthen (rec (Block body) st1) (\<lambda>(c, st2). for_loop rec name body xs st2))"

text \<open>The end of the body is cut at \<open>do_pos\<close>, as in the source, not at \<open>done_pos\<close>.\<close>

definition exec_for :: "'d callee \<Rightarrow> bytes \<Rightarrow> 'd sh \<Rightarrow> (u32 \<times> 'd sh) run" where
  "exec_for rec line st =
     (let after_for = skip_first_word line; name = first_word after_for in
      if name = [] then Ret (1, st)
      else let after_in = skip_first_word (trim (skip_first_word after_for)); do_pos = find_keyword after_in (ascii ''do'') in
        if do_pos = 0 then Ret (1, st)
        else let s = drop do_pos after_in; body_start = skip_keyword_text s (ascii ''do'') in
          andthen (cut s body_start (if find_keyword s (ascii ''done'') > 0 then do_pos else length s))
            (\<lambda>b. andthen (for_loop rec name (trim b) (take 32 (list_items (trim (take do_pos after_in)))) st)
                   (\<lambda>st1. Ret (LAST_EXIT_CODE st1, st1))))"

text \<open>Pipes: at most 8 parts of 255 bytes, each run from its array of 256.\<close>

function pipe_parts :: "bytes \<Rightarrow> bytes list" where
  "pipe_parts l =
     (if l = [] then []
      else takeWhile (\<lambda>c. c \<noteq> 0x7C) l # pipe_parts (tl (dropWhile (\<lambda>c. c \<noteq> 0x7C) l)))"
  by pat_completeness auto
termination
proof (relation "measure length", goal_cases)
  case (2 l)
  then show ?case using length_dropWhile_le [of "\<lambda>c. c \<noteq> 0x7C" l] by (cases l) auto
qed simp

declare pipe_parts.simps [simp del]

definition part_array :: "bytes \<Rightarrow> bytes" where
  "part_array p = splice_at (replicate 256 0) 0 (take 255 p)"

primrec run_parts :: "'d callee \<Rightarrow> bytes list \<Rightarrow> u32 \<Rightarrow> 'd sh \<Rightarrow> (u32 \<times> 'd sh) run" where
  "run_parts rec [] c st = Ret (c, st)"
| "run_parts rec (p # ps) c st = andthen (rec (Single (part_array p)) st) (\<lambda>(c1, st1). run_parts rec ps c1 st1)"

definition exec_line :: "'d callee \<Rightarrow> bytes \<Rightarrow> 'd sh \<Rightarrow> (u32 \<times> 'd sh) run" where
  "exec_line rec raw st =
     (let line = trim (takeWhile (\<lambda>c. c \<noteq> 0x23) raw) in
      if line = [] then Ret (0, st)
      else let l = expand_vars 1024 st line []; parts = take 8 (pipe_parts l) in
        if length parts > 1 then run_parts rec parts 0 st else rec (Single l) st)"

definition exec_single_line :: "(action \<Rightarrow> 'd sh \<Rightarrow> 'd sh) \<Rightarrow> nat \<Rightarrow> 'd callee \<Rightarrow> bytes \<Rightarrow> 'd sh \<Rightarrow> (u32 \<times> 'd sh) run" where
  "exec_single_line act m rec line0 st =
     (let line = trim line0 in
      if line = [] then Ret (0, st)
      else if starts_with_word line (ascii ''if'') then exec_if rec line st
      else if starts_with_word line (ascii ''for'') then exec_for rec line st
      else andthen (exec_single act m (tokenize line) st) (\<lambda>(c, st1). Ret (c, st1\<lparr>LAST_EXIT_CODE := c\<rparr>)))"

text \<open>The interpreter: \<open>n\<close> bounds the nesting of calls, \<open>m\<close> the reads of a \<open>cat\<close>.\<close>

primrec exec :: "(action \<Rightarrow> 'd sh \<Rightarrow> 'd sh) \<Rightarrow> nat \<Rightarrow> nat \<Rightarrow> 'd callee" where
  "exec act m 0 = (\<lambda>c st. Deep)"
| "exec act m (Suc n) = (\<lambda>c st.
     case c of Line raw \<Rightarrow> exec_line (exec act m n) raw st
     | Single l \<Rightarrow> exec_single_line act m (exec act m n) l st
     | Block b \<Rightarrow> exec_block (exec act m n) b st)"

text \<open>A script file: at most 8192 bytes, read 4096 at a time.\<close>

primrec read_script :: "nat \<Rightarrow> int \<Rightarrow> bytes \<Rightarrow> 'd sh \<Rightarrow> (bytes \<times> 'd sh) run" where
  "read_script 0 fd data s = Endless"
| "read_script (Suc k) fd data s =
     (let ((n, buf), v) = vfs_read fd (replicate 4096 0) (files s); s1 = s\<lparr>files := v\<rparr> in
      if n \<le> 0 then Ret (data, s1)
      else if min (nat n) (8192 - length data) > length buf then Panic
      else read_script k fd (data @ take (min (nat n) (8192 - length data)) buf) s1)"

definition run_script :: "(action \<Rightarrow> 'd sh \<Rightarrow> 'd sh) \<Rightarrow> nat \<Rightarrow> nat \<Rightarrow> bytes \<Rightarrow> 'd sh \<Rightarrow> (u32 \<times> 'd sh) run" where
  "run_script act m n path s =
     (let (fd, s1) = open_sh path 0 s;
          missing = (\<lambda>s2. Ret (1, say (ascii ''script: cannot open '' @ path @ [0x0D, 0x0A]) s2)) in
      if fd < 0 then missing s1
      else andthen (read_script m fd [] s1)
             (\<lambda>(data, s2). if data = [] then missing (close_sh fd s2) else exec act m n (Block data) (close_sh fd s2)))"

end
