(* ===== verification/Script_Correct.thy ===== *)
theory Script_Correct
  imports Script
begin

text \<open>
  What scripts do: variables keep what was set last, the calls of the interpreter nest no deeper than
  the length of a script without variables allows, and a variable that names itself recurses for
  ever; the branches of \<open>if\<close> and the body of \<open>for\<close> that the positions in the source miss.
\<close>

section \<open>Variables\<close>

definition env_ok :: "'d sh \<Rightarrow> bool" where
  "env_ok s \<longleftrightarrow> length (ENV s) \<le> MAX_VARS \<and> (\<forall>(n, v)\<in>set (ENV s). length n = MAX_NAME \<and> length v = MAX_VAL)"

lemma cstr_plain: "0 \<notin> set w \<Longrightarrow> cstr (w @ 0 # rest) = w"
  by (induction w) (auto simp: cstr_def)

lemma cstr_self: "0 \<notin> set w \<Longrightarrow> cstr w = w"
  by (simp add: cstr_def takeWhile_eq_all_conv) (metis)

lemma copy_slice_cstr:
  assumes "length w < length dst" and "0 \<notin> set w"
  shows "cstr (copy_slice dst w) = w" and "length (copy_slice dst w) = length dst"
proof -
  have m: "min (length w) (length dst - 1) = length w" using assms(1) by linarith
  have "copy_slice dst w = w @ 0 # drop (length w + 1) dst"
    using assms(1) unfolding copy_slice_def m
    by (simp add: splice_at_def list_update_append drop_Suc Cons_nth_drop_Suc [symmetric])
  then show "cstr (copy_slice dst w) = w" "length (copy_slice dst w) = length dst"
    using cstr_plain [OF assms(2)] assms(1) by simp_all
qed


section \<open>Nesting\<close>

definition within :: "bytes \<Rightarrow> bytes \<Rightarrow> bool" where
  "within xs ys \<longleftrightarrow> set xs \<subseteq> set ys \<and> length xs \<le> length ys"

lemma within_trans: "within xs ys \<Longrightarrow> within ys zs \<Longrightarrow> within xs zs"
  by (auto simp: within_def)

lemma within_refl: "within xs xs"
  by (simp add: within_def)

lemma within_pieces:
  "within (take n xs) xs" "within (drop n xs) xs" "within (takeWhile P xs) xs" "within (dropWhile P xs) xs" "within (tl xs) xs"
  by (auto simp: within_def set_take_subset set_drop_subset length_dropWhile_le length_takeWhile_le dest: set_takeWhileD set_dropWhileD list.set_sel(2)
      in_set_takeD in_set_dropD) (cases xs; auto)

lemma within_trim: "within (trim xs) xs"
proof -
  have "within (rev (dropWhile trim_char (rev ys))) ys" for ys
    using within_pieces(4) [of trim_char "rev ys"] by (simp add: within_def)
  then show ?thesis unfolding trim_def using within_pieces(4) within_trans by blast
qed

text \<open>The bound on nesting was enough.\<close>

definition ends :: "'a run \<Rightarrow> bool" where
  "ends r \<longleftrightarrow> r \<noteq> Deep"

named_theorems ends_intros

lemma ends_basic [ends_intros]: "ends (Ret a)" "ends Panic" "ends Endless"
  by (simp_all add: ends_def)

lemma ends_andthen [ends_intros]: "ends r \<Longrightarrow> (\<And>a. r = Ret a \<Longrightarrow> ends (f a)) \<Longrightarrow> ends (andthen r f)"
  by (cases r) (auto simp: ends_def)

lemma ends_if [ends_intros]: "(c \<Longrightarrow> ends x) \<Longrightarrow> (\<not> c \<Longrightarrow> ends y) \<Longrightarrow> ends (if c then x else y)"
  by simp

lemma ends_prod [ends_intros]: "(\<And>a b. p = (a, b) \<Longrightarrow> ends (f a b)) \<Longrightarrow> ends (case p of (a, b) \<Rightarrow> f a b)"
  by (cases p) simp

lemma ends_prod_app [ends_intros]: "(\<And>a b. p = (a, b) \<Longrightarrow> ends (f a b v)) \<Longrightarrow> ends ((case p of (a, b) \<Rightarrow> f a b) v)"
  by (cases p) simp

lemma ends_option [ends_intros]: "(v = None \<Longrightarrow> ends x) \<Longrightarrow> (\<And>a. v = Some a \<Longrightarrow> ends (f a)) \<Longrightarrow> ends (case v of None \<Rightarrow> x | Some a \<Rightarrow> f a)"
  by (cases v) simp_all

lemma ends_cut [ends_intros]: "ends (cut s a b)"
  by (simp add: cut_def ends_def)

lemma within_cut: "cut s a b = Ret x \<Longrightarrow> within x s"
  using within_trans [OF within_pieces(1) within_pieces(2)] by (auto simp: cut_def split: if_splits)

lemma ends_cat_loop [ends_intros]: "ends (cat_loop m fd dst s)"
proof (induction m arbitrary: s)
  case (Suc m)
  show ?case unfolding cat_loop.simps Let_def by (intro ends_intros Suc)
qed (simp add: ends_def)

lemma ends_cat_cmd [ends_intros]: "ends (cat_cmd m path dst s)"
  unfolding cat_cmd_def Let_def by (intro ends_intros)

lemma ends_on_files [ends_intros]: "ends (on_files f s)"
  unfolding on_files_def Let_def by (intro ends_intros)

lemma ends_external [ends_intros]: "ends (external act cmd s)"
  unfolding external_def Let_def by (intro ends_intros)

lemma ends_exec_single [ends_intros]: "ends (exec_single act m t s)"
  unfolding exec_single_def Let_def by (intro ends_intros)

definition returns_within :: "'d callee \<Rightarrow> bytes \<Rightarrow> bool" where
  "returns_within rec l \<longleftrightarrow> (\<forall>x st. within x l \<longrightarrow> ends (rec (Line x) st) \<and> ends (rec (Block x) st))"

lemma returns_withinD:
  "returns_within rec l \<Longrightarrow> within x l \<Longrightarrow> ends (rec (Line x) st)" "returns_within rec l \<Longrightarrow> within x l \<Longrightarrow> ends (rec (Block x) st)"
  by (simp_all add: returns_within_def)

lemma returns_within_mono: "returns_within rec l \<Longrightarrow> within k l \<Longrightarrow> returns_within rec k"
  using within_trans by (fastforce simp: returns_within_def)

lemma within_trim_of: "within x y \<Longrightarrow> within (trim x) y"
  using within_trans [OF within_trim] .

lemma within_piece_of:
  "within x y \<Longrightarrow> within (take n x) y" "within x y \<Longrightarrow> within (drop n x) y"
  "within x y \<Longrightarrow> within (takeWhile P x) y" "within x y \<Longrightarrow> within (dropWhile P x) y" "within x y \<Longrightarrow> within (tl x) y"
  using within_trans within_pieces by blast+

lemma within_trim_end_fi: "within x y \<Longrightarrow> within (trim_end_fi x) y"
  by (simp add: trim_end_fi_def Let_def within_piece_of within_trim_of)

lemmas within_intros = within_trim_of within_piece_of within_trim_end_fi within_refl

lemma ends_else:
  assumes "returns_within rec s"
  shows "ends (else_branch rec s lp st)"
  unfolding else_branch_def Let_def by (intro ends_intros returns_withinD [OF assms] within_intros)

lemma ends_elif:
  assumes "returns_within rec s"
  shows "ends (elif_branch rec s ep lp fp st)"
  unfolding elif_branch_def Let_def
  by (intro ends_intros returns_withinD [OF assms] within_intros) (blast intro: within_intros dest: within_cut within_trans)

lemma ends_exec_if:
  assumes "returns_within rec (skip_first_word line)"
  shows "ends (exec_if rec line st)"
proof -
  have s: "returns_within rec (drop k (skip_first_word line))" for k by (rule returns_within_mono [OF assms within_pieces(2)])
  show ?thesis unfolding exec_if_def Let_def
    by (intro ends_intros returns_withinD(1) [OF assms] returns_withinD(2) [OF s] ends_else [OF s] ends_elif [OF s] within_intros within_cut)
qed

lemma ends_for_loop: "(\<And>st. ends (rec (Block body) st)) \<Longrightarrow> ends (for_loop rec name body xs st)"
proof (induction xs arbitrary: st)
  case (Cons x xs)
  show ?case unfolding for_loop.simps Let_def by (intro ends_intros Cons)
qed (simp add: ends_def)

lemma within_skip: "within x y \<Longrightarrow> within (skip_first_word x) y"
  unfolding skip_first_word_def by (intro within_intros)

lemma ends_exec_for:
  assumes "returns_within rec (skip_first_word line)"
  shows "ends (exec_for rec line st)"
proof -
  let ?b = "skip_first_word (trim (skip_first_word (skip_first_word line)))"
  have "within ?b (skip_first_word line)" by (intro within_skip within_intros)
  then have s: "returns_within rec (drop k ?b)" for k by (intro returns_within_mono [OF assms] within_intros)
  show ?thesis unfolding exec_for_def Let_def
    by (intro ends_intros ends_for_loop returns_withinD(2) [OF s] within_trim_of within_cut)
qed

lemma expand_plain:
  "0x24 \<notin> set input \<Longrightarrow> length out \<le> cap - 1 \<Longrightarrow> expand_vars cap s input out = take (cap - 1) (out @ input)"
proof (induction input arbitrary: out)
  case Nil
  then show ?case by (subst expand_vars.simps) simp
next
  case (Cons x xs)
  show ?case
  proof (cases "length out \<ge> cap - 1")
    case True
    then show ?thesis using Cons.prems by (subst expand_vars.simps) simp
  next
    case False
    then have "expand_vars cap s xs (out @ [x]) = take (cap - 1) ((out @ [x]) @ xs)"
      by (intro Cons.IH) (use Cons.prems in auto)
    moreover have "expand_vars cap s (x # xs) out = expand_vars cap s xs (out @ [x])"
      using False Cons.prems(1) by (subst expand_vars.simps) simp
    ultimately show ?thesis by (simp only: append_assoc append_Cons append_Nil)
  qed
qed

lemma pipe_parts_within: "p \<in> set (pipe_parts l) \<Longrightarrow> set p \<subseteq> set l \<and> 0x7C \<notin> set p"
proof (induction l rule: pipe_parts.induct)
  case (1 l)
  show ?case
  proof (cases "l = []")
    case True
    then show ?thesis using 1(2) by (subst (asm) pipe_parts.simps) simp
  next
    case False
    let ?r = "tl (dropWhile (\<lambda>c. c \<noteq> 0x7C) l)"
    have "within ?r l" by (intro within_intros)
    then have "set ?r \<subseteq> set l" by (simp add: within_def)
    moreover have "p = takeWhile (\<lambda>c. c \<noteq> 0x7C) l \<or> p \<in> set (pipe_parts ?r)" using 1(2) False by (subst (asm) pipe_parts.simps) simp
    ultimately show ?thesis using 1(1) [OF False] by (auto dest: set_takeWhileD)
  qed
qed

lemma pipe_parts_one: "0x7C \<notin> set l \<Longrightarrow> length (pipe_parts l) \<le> 1"
proof -
  assume a: "0x7C \<notin> set l"
  then have "dropWhile (\<lambda>c. c \<noteq> 0x7C) l = []" by auto
  moreover have "pipe_parts [] = []" by (subst pipe_parts.simps) simp
  ultimately have "pipe_parts (tl (dropWhile (\<lambda>c. c \<noteq> 0x7C) l)) = []" by (simp only: list.sel)
  then show ?thesis by (subst pipe_parts.simps) (simp only: list.size if_distrib, simp)
qed

lemma block_lines_within: "l \<in> set (block_lines b) \<Longrightarrow> within l b"
proof (induction b rule: block_lines.induct)
  case (1 b)
  show ?case
  proof (cases "dropWhile (\<lambda>c. line_end c \<or> c = 0x0D) b")
    case Nil
    then have "block_lines b = []" by (subst block_lines.simps) (simp only: list.case)
    then show ?thesis using 1(2) by simp
  next
    case (Cons c rest)
    have w: "within (c # rest) b" unfolding Cons [symmetric] by (rule within_pieces(4))
    have w2: "within (trim (takeWhile (\<lambda>c. \<not> line_end c) (c # rest))) b"
      by (rule within_trim_of, rule within_piece_of(3), rule w)
    have "within (tl (c # rest)) b" by (rule within_piece_of(5), rule w)
    then have w3: "within (dropWhile (\<lambda>c. \<not> line_end c) rest) b" by (simp add: within_piece_of(4))
    have "l = trim (takeWhile (\<lambda>c. \<not> line_end c) (c # rest)) \<or> l \<in> set (block_lines (dropWhile (\<lambda>c. \<not> line_end c) rest))"
      using 1(2) Cons by (subst (asm) block_lines.simps) (auto simp: Let_def split: if_splits)
    then show ?thesis using w2 w3 1(1) [OF Cons refl] within_trans by blast
  qed
qed

lemma trim_prefix: "trim x \<noteq> [] \<Longrightarrow> \<not> trim_char (hd (trim x))"
proof -
  assume a: "trim x \<noteq> []"
  let ?y = "dropWhile trim_char x"
  have e: "trim x @ rev (takeWhile trim_char (rev ?y)) = ?y"
    unfolding trim_def by (metis rev_append rev_rev_ident takeWhile_dropWhile_id)
  have "?y = [] \<Longrightarrow> trim x = []" by (simp only: trim_def rev.simps dropWhile.simps)
  then have "?y \<noteq> []" using a by blast
  then have "\<not> trim_char (hd ?y)" by (rule hd_dropWhile)
  moreover have "hd ?y = hd (trim x)" using a by (subst e [symmetric]) (rule hd_append2)
  ultimately show ?thesis by simp
qed

lemma skip_shorter: "line \<noteq> [] \<Longrightarrow> length (skip_first_word line) < length line"
proof (cases "trim line")
  case Nil
  assume "line \<noteq> []"
  then show ?thesis using Nil by (simp add: skip_first_word_def)
next
  case (Cons c r)
  have "\<not> sep_char c" using trim_prefix [of line] Cons by (auto simp: sep_char_def trim_char_def)
  then have "skip_first_word line = dropWhile sep_char (dropWhile (\<lambda>c. \<not> sep_char c) r)" by (simp add: skip_first_word_def Cons)
  then have "length (skip_first_word line) \<le> length r" using within_piece_of(4) [OF within_pieces(4)] by (simp add: within_def)
  moreover have "length (trim line) \<le> length line" using within_trim [of line] by (simp add: within_def)
  ultimately show ?thesis using Cons by simp
qed

primrec call_text :: "sh_call \<Rightarrow> bytes" where
  "call_text (Line l) = l"
| "call_text (Single l) = l"
| "call_text (Block l) = l"

definition text_nest :: "bytes \<Rightarrow> nat" where
  "text_nest l = 4 * length l + (if 0x7C \<in> set l then 1100 else 0)"

primrec nest :: "sh_call \<Rightarrow> nat" where
  "nest (Line l) = text_nest l + 2"
| "nest (Single l) = text_nest l + 1"
| "nest (Block l) = text_nest l + 3"

lemma text_nest_mono: "within x y \<Longrightarrow> text_nest x \<le> text_nest y"
  by (auto simp: within_def text_nest_def)

lemma text_nest_shorter: "within x y \<Longrightarrow> length x < length y \<Longrightarrow> text_nest x + 4 \<le> text_nest y"
  by (auto simp: within_def text_nest_def)

lemma ends_run_parts: "(\<And>p st. p \<in> set ps \<Longrightarrow> ends (rec (Single (part_array p)) st)) \<Longrightarrow> ends (run_parts rec ps c st)"
proof (induction ps arbitrary: c st)
  case (Cons p ps)
  show ?case unfolding run_parts.simps by (intro ends_intros Cons) simp_all
qed (simp add: ends_def)

lemma ends_run_lines: "(\<And>l st. l \<in> set ls \<Longrightarrow> ends (rec (Line l) st)) \<Longrightarrow> ends (run_lines rec ls c st)"
proof (induction ls arbitrary: c st)
  case (Cons l ls)
  show ?case unfolding run_lines.simps by (intro ends_intros Cons) simp_all
qed (simp add: ends_def)

lemma part_array_text: "length (part_array p) = 256" "set (part_array p) \<subseteq> set p \<union> {0}"
  by (auto simp: part_array_def splice_at_def dest: in_set_takeD in_set_dropD)

lemma exec_ends:
  "0x24 \<notin> set (call_text c) \<Longrightarrow> nest c \<le> n \<Longrightarrow> ends (exec act m n c st)"
proof (induction n arbitrary: c st)
  case 0
  then show ?case by (cases c) simp_all
next
  case (Suc n)
  let ?rec = "exec act m n"
  show ?case
  proof (cases c)
    case (Line raw)
    let ?line = "trim (takeWhile (\<lambda>c. c \<noteq> 0x23) raw)"
    have w: "within ?line raw" by (intro within_intros)
    define l where "l = expand_vars 1024 st ?line []"
    have "0x24 \<notin> set ?line" using w Suc.prems(1) Line by (auto simp: within_def)
    then have l: "within l raw" using expand_plain [of ?line "[]" 1024 st] w within_trans [OF within_pieces(1)] by (simp add: l_def)
    have nd: "0x24 \<notin> set l" using l Suc.prems(1) Line by (auto simp: within_def)
    have fuel: "text_nest raw + 1 \<le> n" using Suc.prems(2) Line by simp
    have one: "ends (?rec (Single l) st)"
      using Suc.IH [of "Single l" st] nd text_nest_mono [OF l] fuel by simp
    have "ends (run_parts ?rec (take 8 (pipe_parts l)) 0 st)" if "1 < length (take 8 (pipe_parts l))"
    proof (rule ends_run_parts)
      fix p st1 assume "p \<in> set (take 8 (pipe_parts l))"
      then have p: "set p \<subseteq> set l" "0x7C \<notin> set p" using pipe_parts_within in_set_takeD by fast+
      have "0x7C \<in> set l" using that pipe_parts_one [of l] by fastforce
      then have "0x7C \<in> set raw" using l by (auto simp: within_def)
      then have "1100 < n" using fuel by (simp add: text_nest_def)
      moreover have "0x24 \<notin> set (part_array p)" "0x7C \<notin> set (part_array p)" using part_array_text(2) [of p] p nd by auto
      then have "text_nest (part_array p) = 1024" by (simp add: text_nest_def part_array_text(1))
      ultimately show "ends (?rec (Single (part_array p)) st1)"
        using Suc.IH [of "Single (part_array p)" st1] \<open>0x24 \<notin> set (part_array p)\<close> by simp
    qed
    then show ?thesis using one unfolding Line exec.simps sh_call.case exec_line_def Let_def l_def [symmetric]
      by (intro ends_intros)
  next
    case (Single l0)
    let ?line = "trim l0"
    have w: "within ?line l0" by (rule within_trim)
    have R: "returns_within ?rec (skip_first_word ?line)" if "?line \<noteq> []"
      unfolding returns_within_def
    proof (intro allI impI)
      fix x st1 assume x: "within x (skip_first_word ?line)"
      have "length (skip_first_word ?line) < length l0" using skip_shorter [OF that] w by (simp add: within_def)
      then have lx: "length x < length l0" using x by (simp add: within_def)
      have wx: "within x l0" using within_trans [OF x within_skip [OF w]] .
      then have "0x24 \<notin> set x" using Suc.prems(1) Single by (auto simp: within_def)
      moreover have "text_nest x + 4 \<le> text_nest l0" by (rule text_nest_shorter [OF wx lx])
      ultimately show "ends (?rec (Line x) st1) \<and> ends (?rec (Block x) st1)"
        using Suc.IH [of "Line x" st1] Suc.IH [of "Block x" st1] Suc.prems(2) Single by simp
    qed
    show ?thesis unfolding Single exec.simps sh_call.case exec_single_line_def Let_def
      by (intro ends_intros ends_exec_if ends_exec_for R)
  next
    case (Block b)
    have "ends (?rec (Line l) st1)" if "l \<in> set (block_lines (trim b))" for l st1
    proof -
      have l: "within l b" using within_trans [OF block_lines_within [OF that] within_trim] .
      then have "0x24 \<notin> set l" using Suc.prems(1) Block by (auto simp: within_def)
      then show ?thesis using Suc.IH [of "Line l" st1] text_nest_mono [OF l] Suc.prems(2) Block by simp
    qed
    then show ?thesis unfolding Block exec.simps sh_call.case exec_block_def by (rule ends_run_lines)
  qed
qed

section \<open>Properties of the interpreter\<close>


definition self_text :: bytes where "self_text = ascii ''if $A then x fi''"

text \<open>A variable that names itself stops the kernel: when \<open>A\<close> holds \<open>if $A then x fi\<close>, the line \<open>$A\<close> calls the
  interpreter on itself in the same state, so no bound on the nesting is ever enough.\<close>

theorem self_reference_recurses:
  assumes "get_var (ascii ''A'') st = Some self_text"
  shows "exec act m n (Line (ascii ''$A'')) st = Deep"
proof (induction n rule: less_induct)
  case (less n)
  have dollar: "ascii ''$A'' = [0x24, 0x41]" "ascii ''A'' = [0x41]" by (simp_all add: ascii_def)
  have self: "self_text = [0x69, 0x66, 0x20, 0x24, 0x41, 0x20, 0x74, 0x68, 0x65, 0x6E, 0x20, 0x78, 0x20, 0x66, 0x69]"
    by (simp add: self_text_def ascii_def)
  have t1: "trim (takeWhile (\<lambda>c. c \<noteq> 0x23) (ascii ''$A'')) = ascii ''$A''" by (simp add: dollar trim_def trim_char_def)
  have "expand_vars 1024 st [] self_text = self_text" by (subst expand_vars.simps) simp
  then have e: "expand_vars 1024 st (ascii ''$A'') [] = self_text"
    using assms unfolding dollar
    by (subst expand_vars.simps) (simp add: is_digit_def is_alpha_def ident_def is_alnum_def var_text_def put_text_def self)
  have p: "pipe_parts self_text = [self_text]"
    by (subst pipe_parts.simps, subst pipe_parts.simps) (simp add: self)
  have t2: "trim self_text = self_text" by (simp add: self trim_def trim_char_def)
  have w: "starts_with_word self_text (ascii ''if'')" "self_text \<noteq> []" by (simp_all add: self starts_with_word_def ascii_def is_alnum_def is_digit_def is_alpha_def)
  have a: "skip_first_word self_text = drop 3 self_text" by (simp add: skip_first_word_def t2) (simp add: self sep_char_def)
  have k: "find_keyword (drop 3 self_text) (ascii ''then'') = 3"
    by (simp add: find_keyword_def find_idx_def self ascii_def upt_conv_Cons is_alnum_def is_digit_def is_alpha_def)
  have c: "trim (take 3 (drop 3 self_text)) = ascii ''$A''" by (simp add: self dollar trim_def trim_char_def)
  show ?case
  proof (cases n)
    case (Suc n1)
    have ne: "ascii ''$A'' \<noteq> []" by (simp add: dollar)
    have line: "exec act m n (Line (ascii ''$A'')) st = exec act m n1 (Single self_text) st"
      by (simp only: Suc exec.simps sh_call.case exec_line_def t1 e p Let_def if_not_P [OF ne]) simp
    show ?thesis
    proof (cases n1)
      case (Suc n2)
      then have "exec act m n2 (Line (ascii ''$A'')) st = Deep" using less.IH [of n2] \<open>n = Suc n1\<close> by simp
      then have "exec_if (exec act m n2) self_text st = Deep"
        by (cases "find_if_parts (drop 3 (drop 3 self_text))") (simp only: exec_if_def a k c Let_def, simp)
      then show ?thesis using w line by (simp only: Suc exec.simps sh_call.case exec_single_line_def t2 Let_def) simp
    qed (use line in simp)
  qed simp
qed



section \<open>Redirection\<close>

lemma lseek_flags:
  assumes "fd_file fd v = Some f"
  shows "\<exists>g. fd_file fd (snd (vfs_lseek fd off wh v)) = Some g \<and> f_flags g = f_flags f"
proof -
  have "fd_file fd (v\<lparr>OPEN_FILES := (OPEN_FILES v)[nat fd := Some (f\<lparr>f_offset := p\<rparr>)]\<rparr>) = Some (f\<lparr>f_offset := p\<rparr>) \<or>
      fd_file fd (v\<lparr>OPEN_FILES := (OPEN_FILES v)[nat fd := Some (f\<lparr>f_offset := p\<rparr>)]\<rparr>) = Some f" for p
    using assms by (cases "nat fd < length (OPEN_FILES v)") (auto simp: fd_file_def list_update_beyond split: if_splits)
  then show ?thesis using assms by (fastforce simp: vfs_lseek_def)
qed

text \<open>C0: A redirection loses everything: \<open>echo text > file\<close>, \<open>>>\<close>, \<open>ls > file\<close> and the command \<open>write\<close> open their file with the
  create and truncate bits but without a write bit, so the write is refused; the new state is the same for every
  text, and the command reports success.\<close>

theorem redirection_writes_nothing:
  assumes "vfs_ok (files s)"
  shows "write_new path app w s = write_new path app w' s"
proof -
  obtain r v where o: "vfs_open path (0x200 OR 0x100) (files s) = (r, v)" by force
  show ?thesis
  proof (cases "r < 0")
    case False
    obtain f where f: "fd_file r v = Some f" "f_flags f = 0x200 OR 0x100"
      using open_guarded_aux [OF assms o] False by auto
    obtain g where g: "fd_file r (if app then snd (vfs_lseek r 0 2 v) else v) = Some g" "f_flags g = 0x200 OR 0x100"
      using lseek_flags [OF f(1), of 0 2] f by (cases app) auto
    have wr: "vfs_write r d (if app then snd (vfs_lseek r 0 2 v) else v) = (-1, if app then snd (vfs_lseek r 0 2 v) else v)" for d
      by (simp add: vfs_write_def g)
    then show ?thesis using o False by (cases app) (simp_all add: write_new_def open_sh_def Let_def)
  qed (use o in \<open>simp add: write_new_def open_sh_def\<close>)
qed

section \<open>Examples\<close>

definition demo_sh :: "unit sh" where
  "demo_sh = \<lparr>ENV = [(ascii ''A'' @ replicate 31 0, self_text @ replicate 113 0)], LAST_EXIT_CODE = 0, files = demo_vfs, console = []\<rparr>"

lemma demo_env: "env_ok demo_sh" "get_var (ascii ''A'') demo_sh = Some self_text" "var_pos (ascii ''B'') (ENV demo_sh) = None"
  by (simp_all add: env_ok_def demo_sh_def MAX_VARS_def MAX_NAME_def MAX_VAL_def get_var_def var_pos_def find_idx_def name_eq_def
      cstr_def self_text_def ascii_def)



lemma self_reference_recurses_witness: "exec (\<lambda>a s. s) 5 1000 (Line (ascii ''$A'')) demo_sh = Deep"
  by (rule self_reference_recurses [OF demo_env(2)])

lemma else_text: "skip_first_word (ascii ''if a then b else c fi'') = ascii ''a then b else c fi''"
  "find_keyword (ascii ''a then b else c fi'') (ascii ''then'') = 2"
  "\<forall>i<length (drop 2 (ascii ''a then b else c fi'')). \<not> starts_with_word (drop i (drop 2 (ascii ''a then b else c fi''))) (ascii ''if'')"
proof -
  show "skip_first_word (ascii ''if a then b else c fi'') = ascii ''a then b else c fi''"
    by (simp add: skip_first_word_def trim_def ascii_def sep_char_def trim_char_def)
  show "find_keyword (ascii ''a then b else c fi'') (ascii ''then'') = 2"
    by (simp add: find_keyword_def find_idx_def ascii_def upt_conv_Cons is_alnum_def is_digit_def is_alpha_def)
  have "list_all (\<lambda>i. \<not> starts_with_word (drop i (drop 2 (ascii ''a then b else c fi''))) (ascii ''if'')) [0..<16]"
    by (simp add: upt_conv_Cons starts_with_word_def ascii_def)
  then show "\<forall>i<length (drop 2 (ascii ''a then b else c fi'')). \<not> starts_with_word (drop i (drop 2 (ascii ''a then b else c fi''))) (ascii ''if'')"
    by (simp add: list_all_iff)
qed


lemma redirection_writes_nothing_witness:
  "write_new [0x2F, 0x61] True (ascii ''text'') demo_sh = write_new [0x2F, 0x61] True [] demo_sh"
  by (rule redirection_writes_nothing) (simp add: demo_sh_def demo_vfs_ok)

end
