(* ===== verification/Gpt.thy ===== *)
theory Gpt
  imports Prelude "HOL-Library.Monad_Syntax"
begin

text \<open>
  The partition table parser, \<open>kernel/src/gpt.rs\<close>, and the little-endian readers, which the ELF loaders
  and the FAT driver use as well. An access outside a slice panics: its result is \<open>None\<close>.
\<close>

section \<open>Little-endian fields\<close>

definition byte_at :: "bytes \<Rightarrow> nat \<Rightarrow> u8 option" where
  "byte_at b i = (if i < length b then Some (b ! i) else None)"

definition le16 :: "bytes \<Rightarrow> nat \<Rightarrow> u16 option" where
  "le16 b off = do { b0 \<leftarrow> byte_at b off; b1 \<leftarrow> byte_at b (off + 1); Some (ucast b0 OR push_bit 8 (ucast b1)) }"

definition le32 :: "bytes \<Rightarrow> nat \<Rightarrow> u32 option" where
  "le32 b off =
     do { b0 \<leftarrow> byte_at b off; b1 \<leftarrow> byte_at b (off + 1); b2 \<leftarrow> byte_at b (off + 2); b3 \<leftarrow> byte_at b (off + 3);
          Some (ucast b0 OR push_bit 8 (ucast b1) OR push_bit 16 (ucast b2) OR push_bit 24 (ucast b3)) }"

definition le64 :: "bytes \<Rightarrow> nat \<Rightarrow> u64 option" where
  "le64 b off = do { lo \<leftarrow> le32 b off; hi \<leftarrow> le32 b (off + 4); Some (ucast lo OR push_bit 32 (ucast hi)) }"

section \<open>The parser\<close>

definition is_protective_mbr :: "bytes \<Rightarrow> bool" where
  "is_protective_mbr mbr \<longleftrightarrow> \<not> length mbr < 512 \<and>
     (ucast (mbr ! 0x1FE) OR push_bit 8 (ucast (mbr ! 0x1FF)) :: u16) = 0xAA55 \<and>
     (mbr ! 0x1C2 = 0xEE \<or> mbr ! 0x1D2 = 0xEE \<or> mbr ! 0x1E2 = 0xEE \<or> mbr ! 0x1F2 = 0xEE)"

definition EFI_PART :: bytes where "EFI_PART = [0x45, 0x46, 0x49, 0x20, 0x50, 0x41, 0x52, 0x54]"

definition parse_header :: "bytes \<Rightarrow> (u64 \<times> u32 \<times> u32) option option" where
  "parse_header h =
     (if take 8 h \<noteq> EFI_PART then Some None
      else if h ! 8 \<noteq> 0 \<or> h ! 9 \<noteq> 0 \<or> h ! 10 \<noteq> 1 then Some None
      else do { entry_lba \<leftarrow> le64 h 72; entry_num \<leftarrow> le32 h 80; entry_size \<leftarrow> le32 h 84;
                if entry_lba = 0 \<or> entry_num = 0 \<or> entry_num > 1024 then Some None
                else if entry_size < 128 \<or> entry_size > 512 then Some None
                else Some (Some (entry_lba, entry_num, entry_size)) })"

fun scan_entries :: "bytes \<Rightarrow> nat \<Rightarrow> nat list \<Rightarrow> u64 option option" where
  "scan_entries entries sz [] = Some None"
| "scan_entries entries sz (i # rest) =
     (let off = i * sz in
      if off + 48 > length entries then Some None
      else let e = take (min sz (length entries - off)) (drop off entries) in
        if length e < 16 then None
        else if list_all (\<lambda>k. e ! k = 0) [0..<16] then scan_entries entries sz rest
        else do { start \<leftarrow> le64 e 32; if start \<noteq> 0 then Some (Some start) else scan_entries entries sz rest })"

definition first_partition_lba :: "bytes \<Rightarrow> u32 \<Rightarrow> u32 \<Rightarrow> u64 option option" where
  "first_partition_lba entries entry_num entry_size =
     scan_entries entries (unat entry_size) [0..<unat (min entry_num 256)]"

section \<open>Writing the fields\<close>

definition le_bytes32 :: "u32 \<Rightarrow> bytes" where
  "le_bytes32 v = [ucast v, ucast (drop_bit 8 v), ucast (drop_bit 16 v), ucast (drop_bit 24 v)]"

definition le_bytes64 :: "u64 \<Rightarrow> bytes" where
  "le_bytes64 v = le_bytes32 (ucast v) @ le_bytes32 (ucast (drop_bit 32 v))"

lemma length_le_bytes [simp]: "length (le_bytes32 v) = 4" "length (le_bytes64 w) = 8"
  by (simp_all add: le_bytes32_def le_bytes64_def)

lemma le32_bytes: "off = length pre \<Longrightarrow> le32 (pre @ le_bytes32 v @ post) off = Some v"
proof -
  have "ucast (ucast v :: u8) OR push_bit 8 (ucast (ucast (drop_bit 8 v) :: u8)) OR push_bit 16 (ucast (ucast (drop_bit 16 v) :: u8)) OR
      push_bit 24 (ucast (ucast (drop_bit 24 v) :: u8)) = (v :: u32)"
  proof (rule bit_word_eqI)
    fix n assume "n < LENGTH(32)"
    then consider "n < 8" | "8 \<le> n" "n < 16" | "16 \<le> n" "n < 24" | "24 \<le> n" "n < 32" by fastforce
    then show "bit (ucast (ucast v :: u8) OR push_bit 8 (ucast (ucast (drop_bit 8 v) :: u8)) OR push_bit 16 (ucast (ucast (drop_bit 16 v) :: u8)) OR
      push_bit 24 (ucast (ucast (drop_bit 24 v) :: u8)) :: u32) n = bit v n" by cases (auto simp: bit_simps)
  qed
  moreover assume "off = length pre"
  ultimately show ?thesis by (simp add: le32_def byte_at_def le_bytes32_def nth_append)
qed

lemma le64_bytes:
  assumes "off = length pre"
  shows "le64 (pre @ le_bytes64 v @ post) off = Some v"
proof -
  have "ucast (ucast v :: u32) OR push_bit 32 (ucast (ucast (drop_bit 32 v) :: u32)) = v"
    by (rule bit_word_eqI) (auto simp: bit_simps)
  moreover have "le32 (pre @ le_bytes64 v @ post) off = Some (ucast v)"
    using le32_bytes [OF assms, of "ucast v" "le_bytes32 (ucast (drop_bit 32 v)) @ post"] by (simp add: le_bytes64_def)
  moreover have "le32 (pre @ le_bytes64 v @ post) (off + 4) = Some (ucast (drop_bit 32 v))"
    using le32_bytes [of "off + 4" "pre @ le_bytes32 (ucast v)" "ucast (drop_bit 32 v)" post] assms by (simp add: le_bytes64_def)
  ultimately show ?thesis by (simp add: le64_def)
qed

lemma le32_total: "off + 4 \<le> length b \<Longrightarrow> \<exists>v. le32 b off = Some v"
  by (simp add: le32_def byte_at_def)

lemma le64_total: "off + 8 \<le> length b \<Longrightarrow> \<exists>v. le64 b off = Some v"
  using le32_total [of off b] le32_total [of "off + 4" b] by (auto simp: le64_def)

section \<open>The reference search\<close>

definition entry_used :: "bytes \<Rightarrow> nat \<Rightarrow> bool" where
  "entry_used b off \<longleftrightarrow> (\<exists>k<16. b ! (off + k) \<noteq> 0)"

definition entry_start :: "bytes \<Rightarrow> nat \<Rightarrow> u64" where
  "entry_start b off = the (le64 b (off + 32))"

lemma byte_at_take: "i < n \<Longrightarrow> n + off \<le> length b \<Longrightarrow> byte_at (take n (drop off b)) i = byte_at b (off + i)"
  by (simp add: byte_at_def)

lemma le64_take:
  assumes "40 \<le> n" and "n + off \<le> length b"
  shows "le64 (take n (drop off b)) 32 = le64 b (off + 32)"
  using assms byte_at_take [OF _ assms(2)] by (simp add: le64_def le32_def add.commute add.left_commute)

lemma scan_entries_find:
  assumes "48 \<le> sz"
  shows "scan_entries b sz ix = Some (map_option (\<lambda>i. entry_start b (i * sz))
    (List.find (\<lambda>i. entry_used b (i * sz) \<and> entry_start b (i * sz) \<noteq> 0) (takeWhile (\<lambda>i. i * sz + 48 \<le> length b) ix)))"
proof (induction ix)
  case (Cons i ix)
  let ?n = "min sz (length b - i * sz)"
  show ?case
  proof (cases "i * sz + 48 \<le> length b")
    case True
    then have n: "48 \<le> ?n" "?n + i * sz \<le> length b" using assms by auto
    then obtain v where v: "le64 b (i * sz + 32) = Some v" using le64_total [of "i * sz + 32" b] True by auto
    have "list_all (\<lambda>k. take ?n (drop (i * sz) b) ! k = 0) [0..<16] \<longleftrightarrow> \<not> entry_used b (i * sz)"
      using n True by (auto simp: entry_used_def list_all_iff)
    moreover have "le64 (take ?n (drop (i * sz) b)) 32 = Some v" using le64_take [OF _ n(2)] n(1) v by simp
    moreover have "entry_start b (i * sz) = v" using v by (simp add: entry_start_def)
    moreover have "length (take ?n (drop (i * sz) b)) = ?n" by simp
    then have "\<not> length (take ?n (drop (i * sz) b)) < 16" using n(1) by linarith
    ultimately show ?thesis using True Cons.IH by (simp add: Let_def)
  qed simp
qed simp

text \<open>The partition search is the reference search: for every table of bytes and every entry size the header
  check lets through, \<open>first_partition_lba\<close> reads inside the table and returns the first sector of
  the first entry, among the first 256 that lie in the table, with a type and a nonzero start.\<close>

theorem first_partition_correct:
  assumes "parse_header h = Some (Some (lba, num, sz))"
  shows "first_partition_lba b num sz = Some (map_option (\<lambda>i. entry_start b (i * unat sz))
    (List.find (\<lambda>i. entry_used b (i * unat sz) \<and> entry_start b (i * unat sz) \<noteq> 0)
      (takeWhile (\<lambda>i. i * unat sz + 48 \<le> length b) [0..<unat (min num 256)])))"
proof -
  have "\<not> sz < 128"
    using assms by (auto simp: parse_header_def split: if_splits bind_splits)
  then have "48 \<le> unat sz" by (simp add: word_less_nat_alt)
  from scan_entries_find [OF this] show ?thesis by (simp add: first_partition_lba_def)
qed

definition demo_header :: bytes where
  "demo_header = EFI_PART @ [0, 0, 1, 0] @ replicate 60 0 @ le_bytes64 2 @ le_bytes32 128 @ le_bytes32 128 @ replicate 424 0"

lemma demo_header_parses: "parse_header demo_header = Some (Some (2, 128, 128))"
  by code_simp

theorem first_partition_correct_witness:
  "first_partition_lba (replicate 128 0 @ [1] @ replicate 31 0 @ le_bytes64 2048 @ replicate 88 0) 128 128 = Some (Some 2048)"
proof -
  let ?b = "replicate 128 0 @ [1] @ replicate 31 0 @ le_bytes64 2048 @ replicate 88 0 :: bytes"
  have u: "[0..<unat (min (128 :: u32) 256)] = [0, 1] @ [2..<128]" by code_simp
  have "entry_used ?b 128" "\<not> entry_used ?b 0" by code_simp+
  moreover have "entry_start ?b 128 = 2048" by code_simp
  ultimately show ?thesis
    using first_partition_correct [OF demo_header_parses, of ?b] unfolding u by simp
qed

end
