(* ===== verification/Isofs.thy ===== *)
theory Isofs
  imports Vfs Gpt
begin

text \<open>
  The ISO 9660 driver, \<open>kernel/src/isofs.rs\<close>: the volume descriptor, the records of a directory, path
  lookup over directories, the handle table, and the driver operations. The CD-ROM is the function
  \<open>disc\<close> from sector numbers to the 2048 bytes of a sector, \<open>None\<close> where a read fails; it
  stands for \<open>ide::cdrom_read\<close>. Every index of the source is inside its array, so nothing here panics.
\<close>

section \<open>State\<close>

definition ISO_MAX_OPEN :: nat where "ISO_MAX_OPEN = 16"

record iso_handle =
  ih_used :: bool
  ih_extent :: u32
  ih_size :: u32

definition empty_handle :: iso_handle where
  "empty_handle = \<lparr>ih_used = False, ih_extent = 0, ih_size = 0\<rparr>"

record iso =
  disc :: "u32 \<Rightarrow> bytes option"
  READY :: bool
  ROOT_LBA :: u32
  HANDLES :: "iso_handle list"

definition iso_le32 :: "bytes \<Rightarrow> nat \<Rightarrow> u32" where
  "iso_le32 b i = ucast (b ! i) OR push_bit 8 (ucast (b ! (i + 1))) OR push_bit 16 (ucast (b ! (i + 2))) OR push_bit 24 (ucast (b ! (i + 3)))"

text \<open>The volume descriptor in sector 16; the root record starts at byte 156.\<close>

definition iso_init :: "iso \<Rightarrow> bool \<times> iso" where
  "iso_init s =
     (case disc s 16 of
        None \<Rightarrow> (False, s)
      | Some pvd \<Rightarrow>
          if pvd ! 0 \<noteq> 1 \<or> take 5 (drop 1 pvd) \<noteq> ascii ''CD001'' then (False, s)
          else (True, s\<lparr>ROOT_LBA := iso_le32 pvd 158, READY := True\<rparr>))"

section \<open>Directory records\<close>

definition strip_ver :: "bytes \<Rightarrow> bytes" where
  "strip_ver name = (if length name > 2 \<and> name ! (length name - 2) = 0x3B then take (length name - 2) name else name)"

definition upper :: "u8 \<Rightarrow> u8" where
  "upper c = (if 0x61 \<le> c \<and> c \<le> 0x7A then c - 32 else c)"

definition is_dot :: "bytes \<Rightarrow> bool" where
  "is_dot nm \<longleftrightarrow> length nm = 1 \<and> (nm ! 0 = 0 \<or> nm ! 0 = 1)"

definition wants_dot :: "bytes \<Rightarrow> bool" where
  "wants_dot want \<longleftrightarrow> want = ascii ''.'' \<or> want = ascii ''..''"

text \<open>The comparison of a record's name: the codes 0 and 1 of the dot records are compared with the
  letters of the wanted name as they are.\<close>

definition record_matches :: "bytes \<Rightarrow> bytes \<Rightarrow> bool" where
  "record_matches want nm \<longleftrightarrow>
     (let cmp = (if is_dot nm then nm else strip_ver nm) in
      is_dot nm = wants_dot want \<and> length cmp = length want \<and>
      (if is_dot nm
       then cmp = want \<and> (nm ! 0 = 0 \<and> want = ascii ''.'' \<or> nm ! 0 = 1 \<and> want = ascii ''..'')
       else map upper cmp = map upper want))"

definition record_name :: "bytes \<Rightarrow> nat \<Rightarrow> bytes" where
  "record_name buf i = take (unat (buf ! (i + 32))) (drop (i + 33) buf)"

definition has_name :: "bytes \<Rightarrow> nat \<Rightarrow> bool" where
  "has_name buf i \<longleftrightarrow> buf ! (i + 32) \<noteq> 0 \<and> i + 33 + unat (buf ! (i + 32)) \<le> 2048"

lemma rec_step: "(buf :: bytes) ! i \<noteq> 0 \<Longrightarrow> \<not> 2015 < i \<Longrightarrow> 2048 - (i + unat (buf ! i)) < 2048 - i"
  using unat_gt_0 [of "buf ! i"] by linarith

function scan_from :: "bytes \<Rightarrow> bytes \<Rightarrow> nat \<Rightarrow> (u32 \<times> u32 \<times> u8) option" where
  "scan_from buf want i =
     (if i + 33 > 2048 \<or> buf ! i = 0 \<or> i + unat (buf ! i) > 2048 then None
      else if has_name buf i \<and> record_matches want (record_name buf i)
      then Some (iso_le32 buf (i + 2), iso_le32 buf (i + 10), buf ! (i + 25))
      else scan_from buf want (i + unat (buf ! i)))"
  by pat_completeness auto
termination by (relation "measure (\<lambda>(buf, want, i). 2048 - i)") (auto simp: rec_step)

declare scan_from.simps [simp del]

definition scan_sector :: "bytes \<Rightarrow> bytes \<Rightarrow> (u32 \<times> u32 \<times> u8) option" where
  "scan_sector buf want = scan_from buf want 0"

text \<open>At most 8 sectors of a directory are read.\<close>

primrec find_sectors :: "nat \<Rightarrow> iso \<Rightarrow> u32 \<Rightarrow> bytes \<Rightarrow> (u32 \<times> u32 \<times> u8) option" where
  "find_sectors 0 s lba want = None"
| "find_sectors (Suc n) s lba want =
     (case disc s lba of
        None \<Rightarrow> None
      | Some buf \<Rightarrow>
          (case scan_sector buf want of
             Some v \<Rightarrow> Some v
           | None \<Rightarrow> if buf ! 0 = 0 then None else find_sectors n s (lba + 1) want))"

definition iso_find_in_dir :: "iso \<Rightarrow> u32 \<Rightarrow> bytes \<Rightarrow> (u32 \<times> u32 \<times> u8) option" where
  "iso_find_in_dir s dir_lba want = find_sectors 8 s dir_lba want"

definition no_slash :: "bytes \<Rightarrow> bytes" where
  "no_slash p = dropWhile (\<lambda>c. c = 0x2F) p"

function resolve_in :: "iso \<Rightarrow> u32 \<Rightarrow> bytes \<Rightarrow> (u32 \<times> u32 \<times> bool) option" where
  "resolve_in s dir p =
     (case iso_find_in_dir s dir (takeWhile (\<lambda>c. c \<noteq> 0x2F) p) of
        None \<Rightarrow> None
      | Some (ext, sz, flags) \<Rightarrow>
          (let rest = no_slash (dropWhile (\<lambda>c. c \<noteq> 0x2F) p) in
           if rest = [] then Some (ext, sz, flags AND 2 \<noteq> 0)
           else if flags AND 2 = 0 then None
           else resolve_in s ext rest))"
  by pat_completeness auto
termination
proof (relation "measure (\<lambda>(s, dir, p). length p)", goal_cases)
  case (2 s dir p v ext w sz flags rest)
  have "length (no_slash q) \<le> length q" for q unfolding no_slash_def by (rule length_dropWhile_le)
  moreover have "length (dropWhile P q) \<le> length q" for P and q :: bytes by (rule length_dropWhile_le)
  ultimately have "length (no_slash (dropWhile (\<lambda>c. c \<noteq> 0x2F) p)) < length p" if "p \<noteq> []"
    using that by (cases p) (auto simp: no_slash_def less_Suc_eq_le intro: le_trans)
  moreover have "p \<noteq> []" using 2 by (auto simp: no_slash_def)
  ultimately show ?case using 2 by simp
qed simp

declare resolve_in.simps [simp del]

definition iso_resolve :: "iso \<Rightarrow> bytes \<Rightarrow> (u32 \<times> u32 \<times> bool) option" where
  "iso_resolve s path =
     (if \<not> READY s then None
      else let p = no_slash path in if p = [] then Some (ROOT_LBA s, 2048, True) else resolve_in s (ROOT_LBA s) p)"

section \<open>The operations\<close>

definition iso_open :: "bytes \<Rightarrow> u64 \<Rightarrow> iso \<Rightarrow> u64 option \<times> iso" where
  "iso_open path flags s =
     (case iso_resolve s path of
        None \<Rightarrow> (None, s)
      | Some (ext, sz, dir) \<Rightarrow>
          if dir then (Some (NOT 0), s)
          else case find_idx ISO_MAX_OPEN (\<lambda>i. \<not> ih_used (HANDLES s ! i)) of
            None \<Rightarrow> (None, s)
          | Some i \<Rightarrow> (Some (of_nat i), s\<lparr>HANDLES := (HANDLES s)[i := \<lparr>ih_used = True, ih_extent = ext, ih_size = sz\<rparr>]\<rparr>))"

definition iso_close :: "u64 \<Rightarrow> iso \<Rightarrow> iso" where
  "iso_close h s =
     (if h = NOT 0 then s
      else if unat h < ISO_MAX_OPEN then s\<lparr>HANDLES := (HANDLES s)[unat h := empty_handle]\<rparr> else s)"

function read_from :: "iso \<Rightarrow> u32 \<Rightarrow> nat \<Rightarrow> nat \<Rightarrow> bytes \<Rightarrow> bytes" where
  "read_from s extent off stop out =
     (if off \<ge> stop then out
      else case disc s (extent + of_nat (off div 2048)) of
        None \<Rightarrow> out
      | Some sec \<Rightarrow>
          (let n = min (2048 - off mod 2048) (stop - off)
           in read_from s extent (off + n) stop (out @ take n (drop (off mod 2048) sec))))"
  by pat_completeness auto
termination by (relation "measure (\<lambda>(s, e, off, stop, out). stop - off)") auto

declare read_from.simps [simp del]

definition iso_read :: "u64 \<Rightarrow> bytes \<Rightarrow> u64 \<Rightarrow> iso \<Rightarrow> (nat option \<times> bytes) \<times> iso" where
  "iso_read h buf offset s =
     (if h = NOT 0 then ((Some 0, buf), s)
      else if unat h \<ge> ISO_MAX_OPEN \<or> \<not> ih_used (HANDLES s ! unat h) then ((None, buf), s)
      else let size = unat (ih_size (HANDLES s ! unat h)) in
        if unat offset \<ge> size \<or> buf = [] then ((Some 0, buf), s)
        else let out = read_from s (ih_extent (HANDLES s ! unat h)) (unat offset) (min (unat offset + length buf) size) []
             in ((Some (length out), splice_at buf 0 out), s))"

definition iso_stat :: "bytes \<Rightarrow> iso \<Rightarrow> stat_info option \<times> iso" where
  "iso_stat path s =
     (map_option (\<lambda>(ext, sz, dir). \<lparr>st_size = sz, st_is_dir = dir, st_cluster = 0\<rparr>) (iso_resolve s path), s)"

text \<open>The name shown for a record, in the 32 bytes of an entry.\<close>

definition shown_name :: "bytes \<Rightarrow> bytes" where
  "shown_name nm =
     (let w = (if nm = [1] then ascii ''..'' else if nm = [0] then ascii ''.'' else take 32 (strip_ver nm))
      in w @ replicate (32 - length w) 0)"

function list_from :: "bytes \<Rightarrow> nat \<Rightarrow> nat \<Rightarrow> dir_entry list \<Rightarrow> nat \<times> dir_entry list" where
  "list_from buf i n entries =
     (if i + 33 > 2048 \<or> buf ! i = 0 \<or> i + unat (buf ! i) > 2048 then (n, entries)
      else if has_name buf i \<and> n < length entries
      then list_from buf (i + unat (buf ! i)) (n + 1)
             (entries[n := \<lparr>de_name = shown_name (record_name buf i), de_is_dir = (buf ! (i + 25) AND 2 \<noteq> 0), de_size = iso_le32 buf (i + 10)\<rparr>])
      else list_from buf (i + unat (buf ! i)) n entries)"
  by pat_completeness auto
termination by (relation "measure (\<lambda>(buf, i, n, es). 2048 - i)") (auto simp: rec_step)

declare list_from.simps [simp del]

definition any_record :: "bytes \<Rightarrow> bool" where
  "any_record buf \<longleftrightarrow> buf ! 0 \<noteq> 0 \<and> unat (buf ! 0) \<le> 2048"

primrec list_sectors :: "nat \<Rightarrow> iso \<Rightarrow> u32 \<Rightarrow> nat \<Rightarrow> dir_entry list \<Rightarrow> nat \<times> dir_entry list" where
  "list_sectors 0 s lba n entries = (n, entries)"
| "list_sectors (Suc k) s lba n entries =
     (case disc s lba of
        None \<Rightarrow> (n, entries)
      | Some buf \<Rightarrow>
          if \<not> any_record buf then (n, entries)
          else let (n1, es) = list_from buf 0 n entries in list_sectors k s (lba + 1) n1 es)"

definition iso_readdir :: "bytes \<Rightarrow> dir_entry list \<Rightarrow> iso \<Rightarrow> (nat option \<times> dir_entry list) \<times> iso" where
  "iso_readdir path entries s =
     (case iso_resolve s path of
        Some (ext, sz, True) \<Rightarrow> (let (n, es) = list_sectors 8 s ext 0 entries in ((Some n, es), s))
      | _ \<Rightarrow> ((None, entries), s))"

definition iso_no_mkdir :: "bytes \<Rightarrow> iso \<Rightarrow> bool \<times> iso" where "iso_no_mkdir p s = (False, s)"
definition iso_no_rmdir :: "bytes \<Rightarrow> iso \<Rightarrow> bool \<times> iso" where "iso_no_rmdir p s = (False, s)"
definition iso_no_unlink :: "bytes \<Rightarrow> iso \<Rightarrow> bool \<times> iso" where "iso_no_unlink p s = (False, s)"
definition iso_no_write :: "u64 \<Rightarrow> bytes \<Rightarrow> u64 \<Rightarrow> iso \<Rightarrow> nat option \<times> iso" where "iso_no_write h b i s = (None, s)"

definition ISO_OPS :: "iso fs_ops" where
  "ISO_OPS = \<lparr>fs_open = iso_open, fs_close = iso_close, fs_read = iso_read, fs_write = iso_no_write, fs_stat = iso_stat,
     fs_readdir = iso_readdir, fs_mkdir = iso_no_mkdir, fs_rmdir = iso_no_rmdir, fs_unlink = iso_no_unlink\<rparr>"

definition iso_register :: "iso vfs \<Rightarrow> u64 \<times> iso vfs" where
  "iso_register s = register_driver (Some ISO_OPS) s"

section \<open>The driver's own test\<close>

text \<open>\<open>emit\<close> writes a record at \<open>i\<close> and returns the place of the next one; all other bytes of the
  sector are 0.\<close>

record iso_rec =
  r_extent :: u32
  r_size :: u32
  r_flags :: u8
  r_name :: bytes

definition rec_len :: "bytes \<Rightarrow> nat" where
  "rec_len name = 33 + length name + (if even (length name) then 1 else 0)"

definition emit :: "iso_rec \<Rightarrow> bytes \<Rightarrow> nat \<Rightarrow> bytes" where
  "emit r sec i =
     splice_at ((splice_at (splice_at (sec[i := of_nat (rec_len (r_name r)), i + 25 := r_flags r]) (i + 2) (le_bytes32 (r_extent r)))
        (i + 10) (le_bytes32 (r_size r)))[i + 32 := of_nat (length (r_name r))]) (i + 33) (r_name r)"

definition emit_all :: "iso_rec list \<Rightarrow> bytes" where
  "emit_all rs = fst (fold (\<lambda>r (sec, i). (emit r sec i, i + rec_len (r_name r))) rs (replicate 2048 0, 0))"

definition test_records :: "iso_rec list" where
  "test_records = [\<lparr>r_extent = 17, r_size = 2048, r_flags = 2, r_name = [0]\<rparr>, \<lparr>r_extent = 17, r_size = 2048, r_flags = 2, r_name = [1]\<rparr>,
     \<lparr>r_extent = 18, r_size = 5, r_flags = 0, r_name = ascii ''HI.TXT;1''\<rparr>]"

definition iso_self_test :: u32 where
  "iso_self_test =
     (let sec = emit_all test_records in
      if strip_ver (ascii ''HI.TXT;1'') \<noteq> ascii ''HI.TXT'' then 1
      else if iso_le32 [0x78, 0x56, 0x34, 0x12] 0 \<noteq> 0x12345678 then 2
      else if scan_sector sec (ascii ''HI.TXT'') \<noteq> Some (18, 5, 0) then 4
      else if \<not> (case scan_sector sec (ascii ''hi.txt'') of Some (e, z, _) \<Rightarrow> e = 18 \<and> z = 5 | None \<Rightarrow> False) then 16
      else if \<not> (case scan_sector sec (ascii ''.'') of Some (e, _, f) \<Rightarrow> e = 17 \<and> f AND 2 \<noteq> 0 | None \<Rightarrow> False) then 32
      else if \<not> (case scan_sector sec (ascii ''..'') of Some (e, _, _) \<Rightarrow> e = 17 | None \<Rightarrow> False) then 32
      else if scan_sector sec (ascii ''NOPE'') \<noteq> None then 64
      else 0)"

end
