(* ===== verification/Isofs_Correct.thy ===== *)
theory Isofs_Correct
  imports Isofs
begin

text \<open>
  Facts about the ISO 9660 driver: the layout of a sector of directory records and what scanning it finds, the
  bytes a read returns, and the driver's own test, which can not succeed.
\<close>

section \<open>Records in a sector\<close>

definition rec_bytes :: "iso_rec \<Rightarrow> bytes" where
  "rec_bytes r = [of_nat (rec_len (r_name r)), 0] @ le_bytes32 (r_extent r) @ replicate 4 0 @ le_bytes32 (r_size r) @
     replicate 11 0 @ [r_flags r] @ replicate 6 0 @ [of_nat (length (r_name r))] @ r_name r @
     replicate (rec_len (r_name r) - 33 - length (r_name r)) 0"

definition rec_ok :: "iso_rec \<Rightarrow> bool" where
  "rec_ok r \<longleftrightarrow> r_name r \<noteq> [] \<and> rec_len (r_name r) < 256"

lemma length_rec_bytes: "length (rec_bytes r) = rec_len (r_name r)"
  by (simp add: rec_bytes_def rec_len_def le_bytes32_def)

lemma iso_le32_eq: "le32 b i = Some v \<Longrightarrow> iso_le32 b i = v"
  by (auto simp: le32_def iso_le32_def byte_at_def split: if_splits)

lemma update_at_append: "i = length pre + k \<Longrightarrow> (pre @ xs)[i := v] = pre @ xs[k := v]"
  by (simp add: list_update_append)

lemma splice_at_append: "i = length pre + k \<Longrightarrow> splice_at (pre @ xs) i w = pre @ splice_at xs k w"
  by (simp add: splice_at_def)

lemma emit_zeros:
  assumes "rec_len (r_name r) \<le> m"
  shows "emit r (pre @ replicate m 0) (length pre) = pre @ rec_bytes r @ replicate (m - rec_len (r_name r)) 0"
proof -
  have m: "replicate m (0 :: u8) = replicate 33 0 @ replicate (length (r_name r)) 0 @
      replicate (rec_len (r_name r) - 33 - length (r_name r)) 0 @ replicate (m - rec_len (r_name r)) 0"
    using assms by (simp add: rec_len_def flip: replicate_add)
  show ?thesis
    unfolding emit_def m
    by (simp add: update_at_append splice_at_append rec_bytes_def le_bytes32_def eval_nat_numeral)
       (simp add: splice_at_def)
qed

lemma emit_fold:
  assumes "sum_list (map (\<lambda>r. rec_len (r_name r)) rs) \<le> m"
  shows "fold (\<lambda>r (sec, i). (emit r sec i, i + rec_len (r_name r))) rs (pre @ replicate m 0, length pre) =
    (pre @ concat (map rec_bytes rs) @ replicate (m - sum_list (map (\<lambda>r. rec_len (r_name r)) rs)) 0,
     length pre + sum_list (map (\<lambda>r. rec_len (r_name r)) rs))"
  using assms
proof (induction rs arbitrary: pre m)
  case (Cons r rs)
  show ?case
    using Cons.IH [of "m - rec_len (r_name r)" "pre @ rec_bytes r"] Cons.prems
    by (simp add: emit_zeros length_rec_bytes add.assoc)
qed simp

lemma emit_all_bytes:
  assumes "sum_list (map (\<lambda>r. rec_len (r_name r)) rs) \<le> 2048"
  shows "emit_all rs = concat (map rec_bytes rs) @ replicate (2048 - sum_list (map (\<lambda>r. rec_len (r_name r)) rs)) 0"
  using emit_fold [OF assms, of "[]"] by (simp add: emit_all_def)

lemma nth_mid: "k < length xs \<Longrightarrow> (pre @ xs @ rest) ! (length pre + k) = xs ! k"
  by (simp add: nth_append)

lemma rec_bytes_head:
  "rec_bytes r = ([of_nat (rec_len (r_name r)), 0] @ le_bytes32 (r_extent r) @ [0, 0, 0, 0] @ le_bytes32 (r_size r) @
     [0, 0, 0, 0, 0, 0, 0, 0, 0, 0, 0, r_flags r, 0, 0, 0, 0, 0, 0, of_nat (length (r_name r))]) @ r_name r @
     replicate (rec_len (r_name r) - 33 - length (r_name r)) 0"
proof -
  have "replicate 4 0 = [0 :: u8, 0, 0, 0]" "replicate 6 0 = [0 :: u8, 0, 0, 0, 0, 0]" "replicate 11 0 = [0 :: u8, 0, 0, 0, 0, 0, 0, 0, 0, 0, 0]"
    by (simp_all add: eval_nat_numeral)
  then show ?thesis by (simp add: rec_bytes_def)
qed

lemma rec_fields:
  assumes "rec_ok r"
  shows "rec_bytes r ! 0 = of_nat (rec_len (r_name r))" and "rec_bytes r ! 25 = r_flags r"
    and "unat (rec_bytes r ! 32) = length (r_name r)" and "drop 33 (rec_bytes r @ rest) = r_name r @ replicate (rec_len (r_name r) - 33 - length (r_name r)) 0 @ rest"
    and "34 \<le> rec_len (r_name r)" and "unat (of_nat (rec_len (r_name r)) :: u8) = rec_len (r_name r)"
    and "33 + length (r_name r) \<le> rec_len (r_name r)"
proof -
  have n: "length (r_name r) < 256" "0 < length (r_name r)" using assms by (auto simp: rec_ok_def rec_len_def)
  show "rec_bytes r ! 0 = of_nat (rec_len (r_name r))" "rec_bytes r ! 25 = r_flags r"
    by (simp_all add: rec_bytes_head le_bytes32_def)
  show "unat (rec_bytes r ! 32) = length (r_name r)"
    using n by (simp add: rec_bytes_head le_bytes32_def unat_of_nat take_bit_nat_eq_self)
  show "drop 33 (rec_bytes r @ rest) = r_name r @ replicate (rec_len (r_name r) - 33 - length (r_name r)) 0 @ rest"
    by (simp add: rec_bytes_head le_bytes32_def)
  show "34 \<le> rec_len (r_name r)" "33 + length (r_name r) \<le> rec_len (r_name r)" using n by (auto simp: rec_len_def Suc_le_eq)
  show "unat (of_nat (rec_len (r_name r)) :: u8) = rec_len (r_name r)"
    using assms by (simp add: rec_ok_def unat_of_nat take_bit_nat_eq_self)
qed

lemma rec_words:
  shows "iso_le32 (pre @ rec_bytes r @ rest) (length pre + 2) = r_extent r"
    and "iso_le32 (pre @ rec_bytes r @ rest) (length pre + 10) = r_size r"
proof -
  let ?n = "of_nat (rec_len (r_name r)) :: u8"
  have "le32 ((pre @ [?n, 0]) @ le_bytes32 (r_extent r) @ replicate 4 0 @ le_bytes32 (r_size r) @
     replicate 11 0 @ [r_flags r] @ replicate 6 0 @ [of_nat (length (r_name r))] @ r_name r @
     replicate (rec_len (r_name r) - 33 - length (r_name r)) 0 @ rest) (length pre + 2) = Some (r_extent r)"
    by (rule le32_bytes) simp
  then show "iso_le32 (pre @ rec_bytes r @ rest) (length pre + 2) = r_extent r"
    by (intro iso_le32_eq) (simp add: rec_bytes_def)
  have "le32 ((pre @ [?n, 0] @ le_bytes32 (r_extent r) @ replicate 4 0) @ le_bytes32 (r_size r) @
     replicate 11 0 @ [r_flags r] @ replicate 6 0 @ [of_nat (length (r_name r))] @ r_name r @
     replicate (rec_len (r_name r) - 33 - length (r_name r)) 0 @ rest) (length pre + 10) = Some (r_size r)"
    by (rule le32_bytes) simp
  then show "iso_le32 (pre @ rec_bytes r @ rest) (length pre + 10) = r_size r"
    by (intro iso_le32_eq) (simp add: rec_bytes_def)
qed

lemma scan_record:
  assumes "rec_ok r" and "length (pre @ rec_bytes r @ rest) = 2048"
  shows "scan_from (pre @ rec_bytes r @ rest) want (length pre) =
    (if record_matches want (r_name r) then Some (r_extent r, r_size r, r_flags r)
     else scan_from (pre @ rec_bytes r @ rest) want (length (pre @ rec_bytes r)))"
proof -
  let ?b = "pre @ rec_bytes r @ rest"
  note f = rec_fields [OF assms(1)]
  have k: "?b ! (length pre + k) = rec_bytes r ! k" if "k < 34" for k
    using that f(5) by (intro nth_mid) (simp add: length_rec_bytes)
  have b0: "?b ! length pre = of_nat (rec_len (r_name r))" using k [of 0] f(1) by simp
  have nz: "of_nat (rec_len (r_name r)) \<noteq> (0 :: u8)" using f(5,6) by (metis unat_0 not_numeral_le_zero)
  have size: "length pre + rec_len (r_name r) \<le> 2048" using assms(2) by (simp add: length_rec_bytes)
  have b32: "?b ! (length pre + 32) = rec_bytes r ! 32" and b25: "?b ! (length pre + 25) = r_flags r" using k [of 32] k [of 25] f(2) by simp_all
  have "drop (length pre + 33) ?b = drop 33 (rec_bytes r @ rest)" by (simp add: add.commute flip: drop_drop)
  then have name: "record_name ?b (length pre) = r_name r" unfolding record_name_def b32 f(3) by (simp only: f(4)) simp
  have "rec_bytes r ! 32 \<noteq> 0" using f(3) assms(1) by (auto simp: rec_ok_def)
  then have has: "has_name ?b (length pre)" using size f(7) unfolding has_name_def b32 f(3) by simp
  show ?thesis
    using size f(5) nz by (subst scan_from.simps) (simp only: b0 f(6) has name b25 rec_words length_append length_rec_bytes, simp)
qed

lemma scan_zeros: "length pre + m = 2048 \<Longrightarrow> scan_from (pre @ replicate m 0) want (length pre) = None"
  by (subst scan_from.simps) (auto simp: nth_append)

lemma scan_records:
  assumes "\<forall>r\<in>set rs. rec_ok r" and "length (pre @ concat (map rec_bytes rs) @ replicate m 0) = 2048"
  shows "scan_from (pre @ concat (map rec_bytes rs) @ replicate m 0) want (length pre) =
    map_option (\<lambda>r. (r_extent r, r_size r, r_flags r)) (List.find (\<lambda>r. record_matches want (r_name r)) rs)"
  using assms
proof (induction rs arbitrary: pre)
  case (Cons r rs)
  show ?case
    using Cons.IH [of "pre @ rec_bytes r"] Cons.prems scan_record [of r pre "concat (map rec_bytes rs) @ replicate m 0" want] by simp
qed (simp add: scan_zeros)

lemma scan_emitted:
  assumes "\<forall>r\<in>set rs. rec_ok r" and "sum_list (map (\<lambda>r. rec_len (r_name r)) rs) \<le> 2048"
  shows "scan_sector (emit_all rs) want =
    map_option (\<lambda>r. (r_extent r, r_size r, r_flags r)) (List.find (\<lambda>r. record_matches want (r_name r)) rs)"
proof -
  have "length (concat (map rec_bytes rs)) = sum_list (map (\<lambda>r. rec_len (r_name r)) rs)" for rs
    by (induction rs) (simp_all add: length_rec_bytes)
  then show ?thesis
    using scan_records [of rs "[]"] assms by (simp add: scan_sector_def emit_all_bytes)
qed

text \<open>The codes of the dot records are compared with the letters of the wanted name.\<close>

lemma dot_never_matches: "wants_dot want \<Longrightarrow> \<not> record_matches want nm"
proof
  assume w: "wants_dot want" and m: "record_matches want nm"
  have "is_dot nm" using w m by (simp add: record_matches_def Let_def)
  then have "nm = want" and "nm ! 0 = 0 \<or> nm ! 0 = 1" using m by (simp_all add: record_matches_def Let_def) (simp add: is_dot_def)
  moreover have "want ! 0 = 0x2E" using w by (auto simp: wants_dot_def ascii_def)
  ultimately show False by auto
qed

lemma dot_never_found: "wants_dot want \<Longrightarrow> scan_from buf want i = None"
proof (induction buf want i rule: scan_from.induct)
  case (1 buf want i)
  then show ?case by (subst scan_from.simps) (simp add: dot_never_matches)
qed

lemma test_records_ok: "\<forall>r\<in>set test_records. rec_ok r" "sum_list (map (\<lambda>r. rec_len (r_name r)) test_records) \<le> 2048"
  by (simp_all add: test_records_def rec_ok_def rec_len_def ascii_def)

section \<open>Properties of lookup\<close>

text \<open>Scanning a sector in which a list of records was laid out (each with a name and fewer than 256 bytes
  long, together at most the sector) finds exactly the first record whose name matches, with its extent,
  size and flags, and nothing when no name matches.\<close>

theorem scan_finds_first:
  assumes "\<forall>r\<in>set rs. rec_ok r" and "sum_list (map (\<lambda>r. rec_len (r_name r)) rs) \<le> 2048"
  shows "scan_sector (emit_all rs) want =
    map_option (\<lambda>r. (r_extent r, r_size r, r_flags r)) (List.find (\<lambda>r. record_matches want (r_name r)) rs)"
  using assms by (rule scan_emitted)

lemma upper_letters: "upper 0x68 = 0x48" "upper 0x69 = 0x49" "upper 0x2E = 0x2E" "upper 0x74 = 0x54" "upper 0x78 = 0x58"
  by (simp_all add: upper_def)

lemma test_scan:
  "scan_sector (emit_all test_records) (ascii ''HI.TXT'') = Some (18, 5, 0)"
  "scan_sector (emit_all test_records) (ascii ''hi.txt'') = Some (18, 5, 0)"
  unfolding scan_emitted [OF test_records_ok]
  by (simp_all add: test_records_def record_matches_def is_dot_def wants_dot_def strip_ver_def upper_def ascii_def)

lemma scan_finds_first_witness:
  "scan_sector (emit_all test_records) (ascii ''hi.txt'') = Some (18, 5, 0)"
  unfolding scan_finds_first [OF test_records_ok]
  by (simp add: test_records_def record_matches_def is_dot_def wants_dot_def strip_ver_def upper_def ascii_def)

text \<open>The driver's own test can not succeed: it looks up the record \<open>.\<close> that it has written, but the lookup
  compares the record's code 0 with the letter, so neither \<open>.\<close> nor \<open>..\<close> is found in any sector, and the
  test returns 32.\<close>

theorem iso_self_test_fails:
  "iso_self_test = 32 \<and> scan_sector buf (ascii ''.'') = None \<and> scan_sector buf (ascii ''..'') = None"
proof -
  have dots: "scan_sector b (ascii ''.'') = None" "scan_sector b (ascii ''..'') = None" for b
    by (simp_all add: scan_sector_def dot_never_found wants_dot_def)
  have "strip_ver (ascii ''HI.TXT;1'') = ascii ''HI.TXT''" "iso_le32 [0x78, 0x56, 0x34, 0x12] 0 = 0x12345678"
    by (simp_all add: strip_ver_def ascii_def iso_le32_def)
  then show ?thesis unfolding iso_self_test_def by (simp add: test_scan dots)
qed

section \<open>Reading\<close>

text \<open>Byte \<open>j\<close> of the file that starts at sector \<open>ext\<close>.\<close>

definition iso_byte :: "iso \<Rightarrow> u32 \<Rightarrow> nat \<Rightarrow> u8" where
  "iso_byte s ext j = (case disc s (ext + of_nat (j div 2048)) of Some sec \<Rightarrow> sec ! (j mod 2048) | None \<Rightarrow> 0)"

definition readable :: "iso \<Rightarrow> u32 \<Rightarrow> nat \<Rightarrow> bool" where
  "readable s ext n \<longleftrightarrow> (\<forall>j<n. \<exists>sec. disc s (ext + of_nat (j div 2048)) = Some sec \<and> length sec = 2048)"

lemma read_from_bytes:
  assumes "readable s ext stop"
  shows "read_from s ext off stop out = out @ map (iso_byte s ext) [off..<stop]"
  using assms
proof (induction s ext off stop out rule: read_from.induct)
  case (1 s ext off stop out)
  show ?case
  proof (cases "off < stop")
    case True
    then obtain sec where sec: "disc s (ext + of_nat (off div 2048)) = Some sec" "length sec = 2048"
      using 1(2) by (auto simp: readable_def)
    define n where "n = min (2048 - off mod 2048) (stop - off)"
    have byte: "iso_byte s ext (off + k) = sec ! (off mod 2048 + k)" if "k < n" for k
    proof -
      have k: "off mod 2048 + k < 2048" using that unfolding n_def by linarith
      have "off + k = off div 2048 * 2048 + (off mod 2048 + k)" by simp
      then have "(off + k) div 2048 = off div 2048 \<and> (off + k) mod 2048 = off mod 2048 + k"
        using k by (metis div_mult_self3 mod_mult_self3 div_less mod_less add_0_right zero_neq_numeral)
      then show ?thesis by (simp add: iso_byte_def sec)
    qed
    have "off mod 2048 + n \<le> 2048" unfolding n_def using mod_less_divisor [of 2048 off] by (simp add: min_def) arith
    then have "take n (drop (off mod 2048) sec) = map (iso_byte s ext) [off..<off + n]"
      by (intro nth_equalityI) (auto simp: byte sec)
    moreover have "[off..<stop] = [off..<off + n] @ [off + n..<stop]"
      using True upt_add_eq_append [of off "off + n" "stop - (off + n)"] by (simp add: n_def)
    moreover have "read_from s ext (off + n) stop (out @ take n (drop (off mod 2048) sec)) =
        (out @ take n (drop (off mod 2048) sec)) @ map (iso_byte s ext) [off + n..<stop]"
      using 1(1) [OF _ sec(1) n_def 1(2)] True by simp
    ultimately show ?thesis using True by (subst read_from.simps) (simp add: sec n_def [symmetric])
  qed (subst read_from.simps, simp)
qed

text \<open>Reading an open file of the CD gives exactly the bytes of its extent: as many as fit the buffer and are
  left of the file from the offset on, byte \<open>j\<close> from sector \<open>extent + j div 2048\<close>, in the first places of
  the buffer; the rest of the buffer stays, and at or behind the end of the file 0 is returned.\<close>

theorem iso_read_correct:
  assumes "unat h < ISO_MAX_OPEN" and "ih_used (HANDLES s ! unat h)"
    and "readable s (ih_extent (HANDLES s ! unat h)) (unat (ih_size (HANDLES s ! unat h)))"
  shows "iso_read h buf offset s =
    (let n = min (length buf) (unat (ih_size (HANDLES s ! unat h)) - unat offset)
     in ((Some n, map (iso_byte s (ih_extent (HANDLES s ! unat h))) [unat offset..<unat offset + n] @ drop n buf), s))"
proof -
  let ?ext = "ih_extent (HANDLES s ! unat h)" and ?size = "unat (ih_size (HANDLES s ! unat h))"
  have h: "h \<noteq> NOT 0" using assms(1) by (auto simp: ISO_MAX_OPEN_def unsigned_minus_1_eq_mask mask_eq_exp_minus_1)
  define stop where "stop = min (unat offset + length buf) ?size"
  have "readable s ?ext stop" using assms(3) by (simp add: readable_def stop_def)
  then have r: "read_from s ?ext (unat offset) stop [] = map (iso_byte s ?ext) [unat offset..<stop]"
    by (simp add: read_from_bytes)
  show ?thesis
  proof (cases "unat offset \<ge> ?size \<or> buf = []")
    case True
    then have "min (length buf) (?size - unat offset) = 0" by auto
    then show ?thesis using True h assms(1,2) by (auto simp: iso_read_def)
  next
    case False
    then have n: "stop = unat offset + min (length buf) (?size - unat offset)" by (auto simp: stop_def)
    have "iso_read h buf offset s = ((Some (stop - unat offset), splice_at buf 0 (map (iso_byte s ?ext) [unat offset..<stop])), s)"
      using False h assms(1,2) r by (simp add: iso_read_def Let_def stop_def [symmetric])
    then show ?thesis unfolding n by (simp add: splice_at_def Let_def)
  qed
qed

definition demo_iso :: iso where
  "demo_iso = \<lparr>disc = (\<lambda>l. if l = 18 then Some (ascii ''hello'' @ replicate 2043 0) else None), READY = True, ROOT_LBA = 17,
     HANDLES = [\<lparr>ih_used = True, ih_extent = 18, ih_size = 5\<rparr>]\<rparr>"

lemma iso_read_correct_witness: "fst (iso_read 0 [7, 7, 7, 7, 7, 7] 1 demo_iso) = (Some 4, ascii ''ello'' @ [7, 7])"
proof -
  have "\<exists>sec. disc demo_iso (18 + of_nat (j div 2048)) = Some sec \<and> length sec = 2048" if "j < 5" for j
    using that by (simp add: demo_iso_def)
  then have "readable demo_iso (ih_extent (HANDLES demo_iso ! unat 0)) (unat (ih_size (HANDLES demo_iso ! unat 0)))"
    by (simp add: readable_def demo_iso_def)
  moreover have "[1..<5] = [1 :: nat, 2, 3, 4]" by (simp add: upt_rec)
  ultimately show ?thesis
    using iso_read_correct [of 0 demo_iso "[7, 7, 7, 7, 7, 7]" 1]
    by (simp add: demo_iso_def ISO_MAX_OPEN_def iso_byte_def ascii_def Let_def)
qed

end
