(* ===== verification/Checksum.thy ===== *)
theory Checksum
  imports Prelude
begin

text \<open>
  The Internet checksum and the big-endian fields of the network code
  (\<open>kernel/src/driver/tcp.rs\<close>, lines 90 to 121, and \<open>ip_checksum\<close> and \<open>udp_checksum\<close> of
  \<open>kernel/src/driver/net.rs\<close>). The three checksum routines of the sources are modelled apart
  and shown to agree; a packet with its checksum filled in verifies to zero.
\<close>

section \<open>Fields in network byte order\<close>

definition u16_from :: "u8 \<Rightarrow> u8 \<Rightarrow> u16" where
  "u16_from a b = push_bit 8 (ucast a) OR ucast b"

definition u32_from :: "bytes \<Rightarrow> u32" where
  "u32_from b = push_bit 24 (ucast (b ! 0)) OR push_bit 16 (ucast (b ! 1)) OR push_bit 8 (ucast (b ! 2)) OR ucast (b ! 3)"

definition be16 :: "u16 \<Rightarrow> bytes" where
  "be16 v = [ucast (drop_bit 8 v), ucast v]"

definition be32 :: "u32 \<Rightarrow> bytes" where
  "be32 v = [ucast (drop_bit 24 v), ucast (drop_bit 16 v), ucast (drop_bit 8 v), ucast v]"

lemma length_be [simp]: "length (be16 v) = 2" "length (be32 w) = 4"
  by (simp_all add: be16_def be32_def)

lemma u16_from_be16 [simp]: "u16_from (be16 v ! 0) (be16 v ! Suc 0) = v"
  unfolding u16_from_def be16_def
  by (rule bit_word_eqI) (auto simp: bit_simps)

lemma u32_from_be32 [simp]: "u32_from (be32 w) = w"
proof (rule bit_word_eqI)
  fix n assume "n < LENGTH(32)"
  then consider "n < 8" | "8 \<le> n \<and> n < 16" | "16 \<le> n \<and> n < 24" | "24 \<le> n \<and> n < 32" by fastforce
  then show "bit (u32_from (be32 w)) n = bit w n"
    by cases (auto simp: u32_from_def be32_def bit_simps)
qed

section \<open>The checksum\<close>

text \<open>\<open>checksum\<close>: the 16-bit words are added in 32 bits, a last odd byte as the high half of a word;
  then the carries are folded back until the sum fits 16 bits.\<close>

fun sum_words :: "bytes \<Rightarrow> u32 \<Rightarrow> u32" where
  "sum_words (a # b # r) s = sum_words r (s + (push_bit 8 (ucast a) OR ucast b))"
| "sum_words [a] s = s + push_bit 8 (ucast a)"
| "sum_words [] s = s"

function fold_carry :: "u32 \<Rightarrow> u32" where
  "fold_carry s = (if drop_bit 16 s \<noteq> 0 then fold_carry ((s AND 0xFFFF) + drop_bit 16 s) else s)"
  by auto

lemma and_mask_eq_mod65536: "(n :: nat) AND 65535 = n mod 65536"
  using take_bit_eq_mask [of 16 n] take_bit_eq_mod [of 16 n] by (simp add: mask_eq_exp_minus_1)

lemma unat_drop16: "unat (drop_bit 16 (s :: u32)) = unat s div 65536"
  by (subst unat_drop_bit_eq) (simp add: drop_bit_eq_div)

lemma fold_sum_less: "0 < n div 65536 \<Longrightarrow> n mod 65536 + n div 65536 < (n :: nat)"
proof -
  assume "0 < n div 65536"
  moreover have "n = n div 65536 * 65536 + n mod 65536" by simp
  ultimately show ?thesis by (simp only: less_eq_Suc_le)
qed

lemma unat_fold_step: "unat (((s :: u32) AND 0xFFFF) + drop_bit 16 s) = unat s mod 65536 + unat s div 65536"
proof -
  have a: "unat (s AND 0xFFFF) = unat s mod 65536"
    by (simp add: unsigned_and_eq and_mask_eq_mod65536)
  have "unat s < 4294967296" using unsigned_less [of s, where 'a = nat] by simp
  then have "unat s mod 65536 + unat s div 65536 < 4294967296" by linarith
  then show ?thesis using a unat_drop16 [of s] by (subst unat_word_ariths(1)) simp
qed

termination fold_carry
proof (relation "measure unat")
  fix s :: u32 assume "drop_bit 16 s \<noteq> 0"
  then have "unat s div 65536 \<noteq> 0"
    unfolding unat_drop16 [symmetric] by (simp only: unat_eq_zero not_False_eq_True)
  then show "((s AND 0xFFFF) + drop_bit 16 s, s) \<in> measure unat"
    using unat_fold_step [of s] fold_sum_less [of "unat s"] by simp
qed simp

declare fold_carry.simps [simp del]

definition checksum :: "bytes \<Rightarrow> u16" where
  "checksum buf = NOT (ucast (fold_carry (sum_words buf 0)))"

text \<open>\<open>ip_checksum\<close> of \<open>net.rs\<close> walks the even indices.\<close>

definition word_at :: "bytes \<Rightarrow> nat \<Rightarrow> u32" where
  "word_at buf i = (if i + 1 < length buf then push_bit 8 (ucast (buf ! i)) OR ucast (buf ! (i + 1)) else push_bit 8 (ucast (buf ! i)))"

definition ip_checksum :: "bytes \<Rightarrow> u16" where
  "ip_checksum buf = NOT (ucast (fold_carry (fold (\<lambda>k s. s + word_at buf (2 * k)) [0..<(length buf + 1) div 2] 0)))"

text \<open>\<open>udp_checksum\<close>: the pseudo header and the UDP header are added field by field, and a result of
  0 is sent as \<open>0xFFFF\<close>.\<close>

definition udp_checksum :: "bytes \<Rightarrow> bytes \<Rightarrow> u16 \<Rightarrow> u16 \<Rightarrow> bytes \<Rightarrow> u16" where
  "udp_checksum src dst sport dport payload =
    (let ulen = of_nat (8 + length payload) :: u32;
         sum = (push_bit 8 (ucast (src ! 0)) OR ucast (src ! 1)) + (push_bit 8 (ucast (src ! 2)) OR ucast (src ! 3)) +
               (push_bit 8 (ucast (dst ! 0)) OR ucast (dst ! 1)) + (push_bit 8 (ucast (dst ! 2)) OR ucast (dst ! 3)) +
               17 + ulen + ucast sport + ucast dport + ulen;
         c = NOT (ucast (fold_carry (sum_words payload sum)))
     in if c = 0 then 0xFFFF else c)"

section \<open>What the checksum computes\<close>

fun word_sum :: "bytes \<Rightarrow> nat" where
  "word_sum (a # b # r) = 256 * unat a + unat b + word_sum r"
| "word_sum [a] = 256 * unat a"
| "word_sum [] = 0"

lemma unat_pair:
  "unat ((push_bit 8 (ucast (a :: u8)) OR ucast (b :: u8)) :: u32) = 256 * unat a + unat b"
  "unat (push_bit 8 (ucast (a :: u8)) :: u32) = 256 * unat a"
proof -
  have hi: "unat (push_bit 8 (ucast a) :: u32) = 256 * unat a" for a :: u8
    using unsigned_less [of a, where 'a = nat]
    by (simp add: push_bit_eq_mult unat_word_ariths(2) unsigned_ucast_eq take_bit_nat_eq_self)
  have "(push_bit 8 (ucast a) OR ucast b :: u32) = push_bit 8 (ucast a) + ucast b"
    by (rule disjunctive_add [symmetric]) (auto simp: bit_simps dest: bit_imp_le_length)
  moreover have "unat (ucast b :: u32) = unat b"
    using unsigned_less [of b, where 'a = nat] by (simp add: unsigned_ucast_eq take_bit_nat_eq_self)
  ultimately show "unat ((push_bit 8 (ucast a) OR ucast b) :: u32) = 256 * unat a + unat b"
    using unsigned_less [of a, where 'a = nat] unsigned_less [of b, where 'a = nat]
    by (simp add: unat_word_ariths(1) hi)
  show "unat (push_bit 8 (ucast a) :: u32) = 256 * unat a" by (rule hi)
qed

lemma unat_sum_words:
  assumes "unat s + word_sum buf < 2 ^ 32"
  shows "unat (sum_words buf s) = unat s + word_sum buf"
  using assms
proof (induction buf s rule: sum_words.induct)
  case (1 a b r s)
  have "unat (s + (push_bit 8 (ucast a) OR ucast b)) = unat s + (256 * unat a + unat b)"
    using "1.prems" by (simp add: unat_word_ariths(1) unat_pair)
  then show ?case using 1 by simp
next
  case (2 a s)
  then show ?case by (simp add: unat_word_ariths(1) unat_pair)
qed simp

lemma word_sum_bound: "word_sum buf \<le> 65535 * ((length buf + 1) div 2)"
proof (induction buf rule: word_sum.induct)
  case (1 a b r)
  then show ?case using unsigned_less [of a, where 'a = nat] unsigned_less [of b, where 'a = nat] by simp
next
  case (2 a)
  then show ?case using unsigned_less [of a, where 'a = nat] by simp
qed simp

lemma fold_carry_spec:
  "unat (fold_carry s) < 65536 \<and> unat (fold_carry s) mod 65535 = unat s mod 65535 \<and> (fold_carry s = 0 \<longleftrightarrow> s = 0)"
proof (induction s rule: fold_carry.induct)
  case (1 s)
  let ?t = "(s AND 0xFFFF) + drop_bit 16 s"
  have t: "unat ?t = unat s mod 65536 + unat s div 65536" by (rule unat_fold_step)
  have m: "(n mod 65536 + n div 65536) mod 65535 = n mod 65535" for n :: nat
  proof -
    have "n = 65535 * (n div 65536) + (n mod 65536 + n div 65536)" by simp
    then show ?thesis by (metis mod_mult_self4)
  qed
  show ?case
  proof (cases "drop_bit 16 s = 0")
    case True
    then have "unat s div 65536 = 0" using unat_drop16 [of s] by simp
    then show ?thesis using True by (simp add: fold_carry.simps [of s])
  next
    case False
    have "?t = 0 \<longleftrightarrow> s = 0"
      using t False unat_drop16 [of s] by (metis add_is_0 drop_bit_of_0 unat_eq_zero)
    then show ?thesis using 1 [OF False] False t m [of "unat s"] by (simp add: fold_carry.simps [of s])
  qed
qed

lemma unat_not16: "unat (NOT (w :: u16)) = 65535 - unat w"
proof -
  have "NOT w = - 1 - w" by (simp add: not_eq_complement)
  moreover have "unat (- 1 - w) = unat (- 1 :: u16) - unat w" by (rule unat_sub) simp
  ultimately show ?thesis by (simp add: unsigned_minus_1_eq_mask mask_eq_exp_minus_1)
qed

lemma unat_checksum:
  assumes "length buf \<le> 65536"
  obtains r where "r < 65536" "unat (checksum buf) = 65535 - r" "r mod 65535 = word_sum buf mod 65535"
    "r = 0 \<longleftrightarrow> word_sum buf = 0"
proof -
  have w: "word_sum buf < 2 ^ 32" using word_sum_bound [of buf] assms by auto
  then have u: "unat (sum_words buf 0) = word_sum buf" using unat_sum_words [of 0 buf] by simp
  note F = fold_carry_spec [of "sum_words buf 0"]
  have "unat (ucast (fold_carry (sum_words buf 0)) :: u16) = unat (fold_carry (sum_words buf 0))"
    using F by (simp add: unsigned_ucast_eq take_bit_nat_eq_self)
  then have "unat (checksum buf) = 65535 - unat (fold_carry (sum_words buf 0))"
    by (simp add: checksum_def unat_not16)
  then show thesis using that F u by (metis unat_eq_zero)
qed

lemma word_sum_append: "even (length xs) \<Longrightarrow> word_sum (xs @ ys) = word_sum xs + word_sum ys"
  by (induction xs rule: word_sum.induct) auto

lemma word_sum_be16: "word_sum (be16 v) = unat v"
proof -
  have "unat v = unat v div 256 * 256 + unat v mod 256" by simp
  moreover have "unat (ucast (drop_bit 8 v) :: u8) = unat v div 256"
    using unsigned_less [of v, where 'a = nat] unat_drop_bit_eq [of 8 v]
    by (simp only: unsigned_ucast_eq drop_bit_eq_div) (simp add: take_bit_nat_eq_self less_mult_imp_div_less)
  moreover have "unat (ucast v :: u8) = unat v mod 256"
    by (simp add: unsigned_ucast_eq take_bit_eq_mod)
  ultimately show ?thesis by (simp add: be16_def)
qed

text \<open>A receiver that adds up a packet with its checksum filled in gets zero; \<open>0xFFFF\<close> may stand for a
  checksum of zero.\<close>

lemma checksum_fill:
  assumes "even (length pre)" and "length pre + length post \<le> 65534"
    and "unat v mod 65535 = unat (checksum (pre @ [0, 0] @ post)) mod 65535" and "v = 0 \<Longrightarrow> word_sum (pre @ [0, 0] @ post) \<noteq> 0"
  shows "checksum (pre @ be16 v @ post) = 0"
proof -
  let ?b = "pre @ [0, 0] @ post" let ?c = "checksum ?b" let ?n = "pre @ be16 v @ post"
  obtain r where r: "r < 65536" "unat ?c = 65535 - r" "r mod 65535 = word_sum ?b mod 65535"
    using unat_checksum [of ?b] assms(2) by auto
  obtain q where q: "q < 65536" "unat (checksum ?n) = 65535 - q" "q mod 65535 = word_sum ?n mod 65535"
    "q = 0 \<longleftrightarrow> word_sum ?n = 0"
    using unat_checksum [of ?n] assms(2) by auto
  have sum: "word_sum ?n = word_sum ?b + unat v"
    using assms(1) by (simp add: word_sum_append word_sum_be16)
  have "word_sum ?n mod 65535 = (word_sum ?b mod 65535 + unat v mod 65535) mod 65535"
    by (simp only: sum mod_add_eq)
  also have "\<dots> = (r mod 65535 + (65535 - r) mod 65535) mod 65535" by (simp only: r(3) assms(3) r(2))
  finally have "word_sum ?n mod 65535 = (r + (65535 - r)) mod 65535" by (simp only: mod_add_eq)
  then have "q mod 65535 = 0" using q(3) r(1) by simp
  moreover have "q \<noteq> 0" using q(4) sum assms(4) by (auto simp: unat_eq_zero)
  ultimately have "q = 65535" using q(1) by auto
  then show ?thesis using q(2) by (simp only: unat_eq_zero diff_self_eq_0)
qed

lemma checksum_zero_sum:
  assumes "length buf \<le> 65536" and "checksum buf = 0"
  shows "word_sum buf \<noteq> 0"
proof -
  obtain r where "r < 65536" "unat (checksum buf) = 65535 - r" "r = 0 \<longleftrightarrow> word_sum buf = 0"
    using unat_checksum [OF assms(1)] by metis
  then show ?thesis using assms(2) by auto
qed

lemma checksum_verifies:
  assumes "even (length pre)" and "length pre + length post \<le> 65534"
  shows "checksum (pre @ be16 (checksum (pre @ [0, 0] @ post)) @ post) = 0"
  using assms checksum_zero_sum [of "pre @ [0, 0] @ post"] by (intro checksum_fill) simp_all

section \<open>The three routines agree\<close>

lemma sum_even_words:
  "fold (\<lambda>k s. s + word_at buf (2 * k)) [0..<(length buf + 1) div 2] s = sum_words buf s"
proof (induction buf s rule: sum_words.induct)
  case (1 a b r s)
  have "[0..<Suc ((length r + 1) div 2)] = 0 # map Suc [0..<(length r + 1) div 2]"
    by (simp add: map_Suc_upt upt_conv_Cons)
  moreover have "word_at (a # b # r) (2 * Suc k) = word_at r (2 * k)" for k
    by (simp add: word_at_def)
  moreover have "word_at (a # b # r) 0 = (push_bit 8 (ucast a) OR ucast b)" by (simp add: word_at_def)
  ultimately show ?case using 1 by (simp add: fold_map comp_def del: mult_Suc_right)
qed (simp_all add: word_at_def)

lemma ip_checksum_eq: "ip_checksum = checksum"
  by (rule ext) (simp only: ip_checksum_def checksum_def sum_even_words)

lemma pair_be16: "(push_bit 8 (ucast (ucast (drop_bit 8 v) :: u8)) OR ucast (ucast v :: u8) :: u32) = ucast (v :: u16)"
  by (rule bit_word_eqI) (auto simp: bit_simps dest: bit_imp_le_length)

definition udp_packet :: "bytes \<Rightarrow> bytes \<Rightarrow> u16 \<Rightarrow> u16 \<Rightarrow> bytes \<Rightarrow> bytes" where
  "udp_packet src dst sport dport payload =
     src @ dst @ [0, 17] @ be16 (of_nat (8 + length payload)) @ be16 sport @ be16 dport @
     be16 (of_nat (8 + length payload)) @ [0, 0] @ payload"

lemma udp_checksum_eq:
  assumes "length src = 4" and "length dst = 4" and "8 + length payload < 65536"
  shows "udp_checksum src dst sport dport payload =
    (let c = checksum (udp_packet src dst sport dport payload) in if c = 0 then 0xFFFF else c)"
proof -
  obtain a b c d where s: "src = [a, b, c, d]" using assms(1) by (auto simp: length_Suc_conv numeral_eq_Suc)
  obtain e f g h where t: "dst = [e, f, g, h]" using assms(2) by (auto simp: length_Suc_conv numeral_eq_Suc)
  have l: "(ucast (of_nat (8 + length payload) :: u16) :: u32) = of_nat (8 + length payload)"
    using assms(3) by (intro word_eq_of_natI) (simp add: unsigned_ucast_eq unat_of_nat take_bit_nat_eq_self del: of_nat_add)
  show ?thesis
    unfolding udp_checksum_def checksum_def udp_packet_def s t be16_def Let_def
    by (simp add: pair_be16 l add.assoc del: of_nat_add)
qed

lemma udp_checksum_verifies:
  assumes "length src = 4" and "length dst = 4" and "length payload \<le> 1472"
  shows "checksum (src @ dst @ [0, 17] @ be16 (of_nat (8 + length payload)) @ be16 sport @ be16 dport @
    be16 (of_nat (8 + length payload)) @ be16 (udp_checksum src dst sport dport payload) @ payload) = 0"
proof -
  let ?l = "be16 (of_nat (8 + length payload))"
  let ?pre = "src @ dst @ [0, 17] @ ?l @ be16 sport @ be16 dport @ ?l" let ?u = "udp_checksum src dst sport dport payload"
  have e: "?pre @ [0, 0] @ payload = udp_packet src dst sport dport payload" by (simp add: udp_packet_def)
  have "8 + length payload < 65536" using assms(3) by simp
  note U = udp_checksum_eq [OF assms(1,2) this, of sport dport]
  have "?u \<noteq> 0" unfolding U by (simp add: Let_def)
  moreover have "unat ?u mod 65535 = unat (checksum (?pre @ [0, 0] @ payload)) mod 65535"
    unfolding e U Let_def by simp
  ultimately have "checksum (?pre @ be16 ?u @ payload) = 0"
    using assms by (intro checksum_fill) simp_all
  then show ?thesis by simp
qed

end
