(* ===== verification/Tcp.thy ===== *)
theory Tcp
  imports Checksum "HOL-Library.Monad_Syntax"
begin

text \<open>
  The TCP stack, \<open>kernel/src/driver/tcp.rs\<close>: the connection table, segments as bytes, the state
  machine of \<open>handle_segment\<close>, and the calls \<open>listen\<close>, \<open>connect\<close>, \<open>send\<close>, \<open>recv\<close>,
  \<open>close\<close> and \<open>check_retransmit\<close>.

  A segment to the machine's own address is not sent: \<open>tcp_send_seq\<close> calls \<open>input\<close> on it, which
  may answer through \<open>tcp_send\<close>, and so on. In the model each of these functions takes the
  function it calls for a looped segment as an argument, and \<open>tcp_input\<close> ties the knot with a
  depth: \<open>None\<close> means that the calls nest deeper. Depth 3 is always enough
  (\<open>tcp_input_total\<close>). Frames for other machines go to the network card, which is a field of the
  state that says which frames it accepts; accepted frames are logged. The clock is a field,
  too. Serial output is left out.
\<close>

section \<open>Constants and connections\<close>

definition MAX_CONNS :: nat where "MAX_CONNS = 8"
definition RX_BUF :: nat where "RX_BUF = 2048"
definition TCPH :: nat where "TCPH = 20"

definition FLAG_FIN :: u8 where "FLAG_FIN = 0x01"
definition FLAG_SYN :: u8 where "FLAG_SYN = 0x02"
definition FLAG_RST :: u8 where "FLAG_RST = 0x04"
definition FLAG_PSH :: u8 where "FLAG_PSH = 0x08"
definition FLAG_ACK :: u8 where "FLAG_ACK = 0x10"

lemmas flag_defs = FLAG_FIN_def FLAG_SYN_def FLAG_RST_def FLAG_PSH_def FLAG_ACK_def

datatype tcp_state = CLOSED | LISTEN | SYN_SENT | SYN_RCVD | ESTABLISHED | FIN_WAIT1 | FIN_WAIT2 | CLOSE_WAIT | LAST_ACK | CLOSING

record conn =
  c_in_use :: bool
  c_state :: tcp_state
  c_local_port :: u16
  c_remote_port :: u16
  c_remote_mac :: bytes
  c_peer_ip :: bytes
  c_snd_una :: u32
  c_snd_nxt :: u32
  c_rcv_nxt :: u32
  c_rx_len :: nat
  c_rx_buf :: bytes
  c_out_seq :: u32
  c_out_len :: nat
  c_out_buf :: bytes
  c_last_tx_ms :: u64
  c_rtt_ms :: u64
  c_live :: bool

definition CONN_EMPTY :: conn where
  "CONN_EMPTY = \<lparr>c_in_use = False, c_state = CLOSED, c_local_port = 0, c_remote_port = 0,
     c_remote_mac = replicate 6 0, c_peer_ip = replicate 4 0, c_snd_una = 0, c_snd_nxt = 0, c_rcv_nxt = 0,
     c_rx_len = 0, c_rx_buf = replicate RX_BUF 0, c_out_seq = 0, c_out_len = 0, c_out_buf = replicate 1400 0,
     c_last_tx_ms = 0, c_rtt_ms = 1000, c_live = False\<rparr>"

record tcp_net =
  CONNS :: "conn list"
  EPHEMERAL :: u16
  ISN :: u32
  OUR_IP :: bytes
  OUR_MAC :: bytes
  now_ticks :: u64
  now_ms :: u64
  nic_accepts :: "bytes \<Rightarrow> bool"
  TX_LOG :: "bytes list"

abbreviation conn_at :: "'a tcp_net_scheme \<Rightarrow> nat \<Rightarrow> conn" where
  "conn_at s i \<equiv> CONNS s ! i"

definition upd_conn :: "nat \<Rightarrow> (conn \<Rightarrow> conn) \<Rightarrow> 'a tcp_net_scheme \<Rightarrow> 'a tcp_net_scheme" where
  "upd_conn i f s = s\<lparr>CONNS := (CONNS s)[i := f (conn_at s i)]\<rparr>"

definition next_isn :: "'a tcp_net_scheme \<Rightarrow> u32 \<times> 'a tcp_net_scheme" where
  "next_isn s = (let t = ucast (now_ticks s) XOR ucast (now_ms s)
                 in (ISN s + t, s\<lparr>ISN := ISN s + (0x102040 + (t AND 0xFFFF))\<rparr>))"

definition next_ephemeral :: "'a tcp_net_scheme \<Rightarrow> u16 \<times> 'a tcp_net_scheme" where
  "next_ephemeral s = (49152 + EPHEMERAL s mod 16384, s\<lparr>EPHEMERAL := EPHEMERAL s + 1\<rparr>)"

definition find_tuple :: "'a tcp_net_scheme \<Rightarrow> u16 \<Rightarrow> u16 \<Rightarrow> bytes \<Rightarrow> nat option" where
  "find_tuple s lport rport peer = find_idx MAX_CONNS (\<lambda>i. let c = conn_at s i in
     c_in_use c \<and> c_local_port c = lport \<and> c_remote_port c = rport \<and> c_peer_ip c = peer)"

definition find_listener :: "'a tcp_net_scheme \<Rightarrow> u16 \<Rightarrow> nat option" where
  "find_listener s lport = find_idx MAX_CONNS (\<lambda>i. let c = conn_at s i in
     c_in_use c \<and> c_state c = LISTEN \<and> c_local_port c = lport)"

definition alloc_conn :: "'a tcp_net_scheme \<Rightarrow> (nat \<times> 'a tcp_net_scheme) option" where
  "alloc_conn s = (case find_idx MAX_CONNS (\<lambda>i. \<not> c_in_use (conn_at s i)) of
     Some i \<Rightarrow> Some (i, upd_conn i (\<lambda>_. CONN_EMPTY\<lparr>c_in_use := True\<rparr>) s)
   | None \<Rightarrow> None)"

section \<open>Segments\<close>

definition tcp_header :: "conn \<Rightarrow> u32 \<Rightarrow> u8 \<Rightarrow> bytes \<Rightarrow> bytes" where
  "tcp_header c seq flags csum =
     be16 (c_local_port c) @ be16 (c_remote_port c) @ be32 seq @ be32 (c_rcv_nxt c) @ [0x50, flags] @
     be16 8192 @ csum @ [0, 0]"

definition pseudo_header :: "bytes \<Rightarrow> bytes \<Rightarrow> nat \<Rightarrow> bytes" where
  "pseudo_header src dst tcp_len = src @ dst @ [0, 6] @ be16 (of_nat tcp_len)"

definition tcp_segment :: "bytes \<Rightarrow> conn \<Rightarrow> u32 \<Rightarrow> u8 \<Rightarrow> bytes \<Rightarrow> bytes" where
  "tcp_segment own_ip c seq flags payload =
     (let tcp_len = TCPH + length payload;
          csum = checksum (pseudo_header own_ip (c_peer_ip c) tcp_len @ tcp_header c seq flags [0, 0] @ payload @
                   (if odd tcp_len then [0] else []))
      in tcp_header c seq flags (be16 csum) @ payload)"

definition ip_header :: "bytes \<Rightarrow> bytes \<Rightarrow> nat \<Rightarrow> bytes" where
  "ip_header src dst tcp_len =
     (let hd0 = [0x45, 0] @ be16 (of_nat (20 + tcp_len)) @ [0, 0, 0, 0, 64, 6];
          csum = checksum (hd0 @ [0, 0] @ src @ dst)
      in hd0 @ be16 csum @ src @ dst)"

definition tx_route :: "bytes \<Rightarrow> 'a tcp_net_scheme \<Rightarrow> bool \<times> 'a tcp_net_scheme" where
  "tx_route frame s = (if nic_accepts s frame then (True, s\<lparr>TX_LOG := TX_LOG s @ [frame]\<rparr>) else (False, s))"

text \<open>The function \<open>input\<close> that a looped segment is handed to.\<close>

type_synonym 'a input_fun = "bytes \<Rightarrow> bytes \<Rightarrow> bytes \<Rightarrow> 'a tcp_net_scheme \<Rightarrow> 'a tcp_net_scheme option"

definition tcp_send_seq :: "'a input_fun \<Rightarrow> nat \<Rightarrow> u32 \<Rightarrow> u8 \<Rightarrow> bytes \<Rightarrow> 'a tcp_net_scheme \<Rightarrow> (bool \<times> 'a tcp_net_scheme) option" where
  "tcp_send_seq inp idx seq flags payload s =
     (let c = conn_at s idx; seg = tcp_segment (OUR_IP s) c seq flags payload
      in if c_peer_ip c = OUR_IP s then map_option (Pair True) (inp (OUR_IP s) (OUR_MAC s) seg s)
         else Some (tx_route (c_remote_mac c @ OUR_MAC s @ [0x08, 0x00] @ ip_header (OUR_IP s) (c_peer_ip c) (length seg) @ seg) s))"

definition tcp_send :: "'a input_fun \<Rightarrow> nat \<Rightarrow> u8 \<Rightarrow> bytes \<Rightarrow> 'a tcp_net_scheme \<Rightarrow> (bool \<times> 'a tcp_net_scheme) option" where
  "tcp_send inp idx flags payload s = tcp_send_seq inp idx (c_snd_nxt (conn_at s idx)) flags payload s"

section \<open>The state machine\<close>

definition apply_ack :: "u32 \<Rightarrow> conn \<Rightarrow> conn" where
  "apply_ack ack c =
     (if ack = 0 \<or> ack - c_snd_una c = 0 then c
      else let c1 = c\<lparr>c_snd_una := ack\<rparr>; covered = ack - c_out_seq c
           in if of_nat (c_out_len c) \<le> covered then c1\<lparr>c_out_len := 0, c_rtt_ms := 1000\<rparr>
              else if covered > 0
              then c1\<lparr>c_out_buf := splice_at (c_out_buf c) 0 (drop (unat covered) (take (c_out_len c) (c_out_buf c))),
                      c_out_len := c_out_len c - unat covered, c_out_seq := ack\<rparr>
              else c1)"

text \<open>The parts of \<open>handle_segment\<close>: sending a bare acknowledgement, taking the payload, and the
  peer's FIN in each state that reacts to it.\<close>

definition send_ack :: "'a input_fun \<Rightarrow> nat \<Rightarrow> 'a tcp_net_scheme \<Rightarrow> 'a tcp_net_scheme option" where
  "send_ack inp idx s = map_option snd (tcp_send inp idx FLAG_ACK [] s)"

definition store_payload :: "bytes \<Rightarrow> conn \<Rightarrow> conn" where
  "store_payload payload c = (let n = min (length payload) (RX_BUF - c_rx_len c) in
     c\<lparr>c_rx_buf := splice_at (c_rx_buf c) (c_rx_len c) (take n payload), c_rx_len := c_rx_len c + n,
       c_rcv_nxt := c_rcv_nxt c + of_nat n\<rparr>)"

definition bump_rcv :: "conn \<Rightarrow> conn" where
  "bump_rcv c = c\<lparr>c_rcv_nxt := c_rcv_nxt c + 1\<rparr>"

definition take_payload :: "'a input_fun \<Rightarrow> nat \<Rightarrow> bytes \<Rightarrow> 'a tcp_net_scheme \<Rightarrow> 'a tcp_net_scheme option" where
  "take_payload inp idx payload s =
     (if payload \<noteq> [] then send_ack inp idx (upd_conn idx (store_payload payload) s) else Some s)"

definition ack_fin_wait1 :: "u32 \<Rightarrow> conn \<Rightarrow> conn" where
  "ack_fin_wait1 ack c = (let c1 = apply_ack ack c in
     if ack - c_snd_una c1 > 0 \<and> ack \<noteq> 0 \<and> c_out_len c1 = 0 \<and> c_state c1 = FIN_WAIT1 then c1\<lparr>c_state := FIN_WAIT2\<rparr> else c1)"

definition handle_segment :: "'a input_fun \<Rightarrow> nat \<Rightarrow> bytes \<Rightarrow> bytes \<Rightarrow> u8 \<Rightarrow> u32 \<Rightarrow> u32 \<Rightarrow> bytes \<Rightarrow> 'a tcp_net_scheme \<Rightarrow> 'a tcp_net_scheme option" where
  "handle_segment inp idx peer_ip peer_mac flags seq ack payload s0 =
     (let s = upd_conn idx (\<lambda>c. c\<lparr>c_remote_mac := peer_mac, c_peer_ip := peer_ip\<rparr>) s0;
          has = (\<lambda>f. flags AND f \<noteq> 0);
          acked = (\<lambda>s. if has FLAG_ACK then upd_conn idx (apply_ack ack) s else s)
      in if has FLAG_RST then Some (upd_conn idx (\<lambda>_. CONN_EMPTY) s)
         else case c_state (conn_at s idx) of
           SYN_SENT \<Rightarrow>
             if has FLAG_SYN \<and> has FLAG_ACK
             then send_ack inp idx (upd_conn idx (\<lambda>c. c\<lparr>c_rcv_nxt := seq + 1, c_snd_una := ack, c_state := ESTABLISHED\<rparr>) s)
             else Some s
         | SYN_RCVD \<Rightarrow>
             Some (if has FLAG_ACK then upd_conn idx (\<lambda>c. c\<lparr>c_snd_una := ack, c_state := ESTABLISHED\<rparr>) s else s)
         | ESTABLISHED \<Rightarrow>
             do { s1 \<leftarrow> take_payload inp idx payload (acked s);
                  if has FLAG_FIN
                  then send_ack inp idx (upd_conn idx (\<lambda>c. (bump_rcv c)\<lparr>c_state := CLOSE_WAIT\<rparr>) s1)
                  else Some s1 }
         | FIN_WAIT1 \<Rightarrow>
             (let s1 = (if has FLAG_ACK then upd_conn idx (ack_fin_wait1 ack) s else s)
              in if has FLAG_FIN
                 then send_ack inp idx (upd_conn idx (\<lambda>c. if c_state c = FIN_WAIT1 then (bump_rcv c)\<lparr>c_state := CLOSING\<rparr> else bump_rcv c) s1)
                 else Some s1)
         | FIN_WAIT2 \<Rightarrow>
             if has FLAG_FIN
             then map_option (upd_conn idx (\<lambda>_. CONN_EMPTY)) (send_ack inp idx (upd_conn idx bump_rcv (acked s)))
             else Some (acked s)
         | CLOSE_WAIT \<Rightarrow>
             Some (if has FLAG_ACK then upd_conn idx (\<lambda>c. let c1 = apply_ack ack c in if c_state c1 = CLOSE_WAIT then c1\<lparr>c_state := LAST_ACK\<rparr> else c1) s else s)
         | LAST_ACK \<Rightarrow> Some (if has FLAG_ACK then upd_conn idx (\<lambda>_. CONN_EMPTY) s else s)
         | CLOSING \<Rightarrow> Some (if has FLAG_ACK then upd_conn idx (\<lambda>_. CONN_EMPTY) s else s)
         | _ \<Rightarrow> Some s)"

text \<open>A SYN for a listening port gets a connection of its own, in \<open>SYN_RCVD\<close>, and a SYN+ACK.\<close>

definition accept_syn :: "'a input_fun \<Rightarrow> bytes \<Rightarrow> bytes \<Rightarrow> u16 \<Rightarrow> u16 \<Rightarrow> u32 \<Rightarrow> 'a tcp_net_scheme \<Rightarrow> 'a tcp_net_scheme option" where
  "accept_syn inp peer_ip peer_mac dport sport seq s =
     (case find_listener s dport of None \<Rightarrow> Some s | Some _ \<Rightarrow>
      (case alloc_conn s of None \<Rightarrow> Some s | Some (nidx, s1) \<Rightarrow>
        let (isn, s2) = next_isn s1;
            s3 = upd_conn nidx (\<lambda>c. c\<lparr>c_local_port := dport, c_remote_port := sport, c_remote_mac := peer_mac,
                   c_peer_ip := peer_ip, c_snd_nxt := isn, c_snd_una := isn, c_rcv_nxt := seq + 1, c_state := SYN_RCVD\<rparr>) s2
        in do { (_, s4) \<leftarrow> tcp_send inp nidx (FLAG_SYN OR FLAG_ACK) [] s3;
                Some (upd_conn nidx (\<lambda>c. c\<lparr>c_snd_nxt := isn + 1\<rparr>) s4) }))"

definition input_step :: "'a input_fun \<Rightarrow> 'a input_fun" where
  "input_step inp peer_ip peer_mac data s =
     (if length data < TCPH then Some s
      else let dport = u16_from (data ! 2) (data ! 3); sport = u16_from (data ! 0) (data ! 1);
               seq = u32_from (take 4 (drop 4 data)); ack = u32_from (take 4 (drop 8 data));
               data_off = unat (drop_bit 4 (data ! 12)); flags = data ! 13;
               payload = drop (data_off * 4) data
           in case find_tuple s dport sport peer_ip of
                Some idx \<Rightarrow> handle_segment inp idx peer_ip peer_mac flags seq ack payload s
              | None \<Rightarrow> if flags AND FLAG_SYN \<noteq> 0 \<and> flags AND FLAG_ACK = 0
                        then accept_syn inp peer_ip peer_mac dport sport seq s else Some s)"

primrec tcp_input :: "nat \<Rightarrow> 'a input_fun" where
  "tcp_input 0 = (\<lambda>_ _ _ _. None)"
| "tcp_input (Suc n) = input_step (tcp_input n)"

section \<open>Calls of the stack\<close>

text \<open>The public calls hand looped segments to \<open>tcp_input\<close> at this depth.\<close>

definition DEPTH :: nat where "DEPTH = 3"

definition tcp_listen :: "u16 \<Rightarrow> 'a tcp_net_scheme \<Rightarrow> nat option \<times> 'a tcp_net_scheme" where
  "tcp_listen port s =
     (if find_listener s port \<noteq> None then (None, s)
      else case alloc_conn s of None \<Rightarrow> (None, s)
        | Some (i, s1) \<Rightarrow> (Some i, upd_conn i (\<lambda>c. c\<lparr>c_state := LISTEN, c_local_port := port\<rparr>) s1))"

text \<open>\<open>connect\<close> up to the address resolution, which polls the network card in between, and from there
  with the Ethernet address it found. For the machine's own address there is nothing to
  resolve.\<close>

definition connect_start :: "bytes \<Rightarrow> u16 \<Rightarrow> 'a tcp_net_scheme \<Rightarrow> (nat \<times> 'a tcp_net_scheme) option" where
  "connect_start peer_ip port s =
     (case alloc_conn s of None \<Rightarrow> None
      | Some (i, s1) \<Rightarrow>
          let (lport, s2) = next_ephemeral s1; (isn, s3) = next_isn s2
          in Some (i, upd_conn i (\<lambda>c. c\<lparr>c_local_port := lport, c_remote_port := port, c_peer_ip := peer_ip,
                 c_snd_nxt := isn, c_snd_una := isn, c_state := SYN_SENT\<rparr>) s3))"

definition connect_finish :: "nat \<Rightarrow> bytes \<Rightarrow> 'a tcp_net_scheme \<Rightarrow> 'a tcp_net_scheme option" where
  "connect_finish i mac s =
     map_option snd (tcp_send (tcp_input DEPTH) i FLAG_SYN [] (upd_conn i (\<lambda>c. c\<lparr>c_remote_mac := mac\<rparr>) s))"

definition connect_own :: "u16 \<Rightarrow> 'a tcp_net_scheme \<Rightarrow> (nat option \<times> 'a tcp_net_scheme) option" where
  "connect_own port s =
     (case connect_start (OUR_IP s) port s of None \<Rightarrow> Some (None, s)
      | Some (i, s1) \<Rightarrow> map_option (Pair (Some i)) (connect_finish i (OUR_MAC s1) s1))"

definition tcp_send_data :: "nat \<Rightarrow> bytes \<Rightarrow> 'a tcp_net_scheme \<Rightarrow> (bool \<times> 'a tcp_net_scheme) option" where
  "tcp_send_data idx data s =
     (let c = conn_at s idx
      in if c_state c \<noteq> ESTABLISHED \<and> c_state c \<noteq> CLOSE_WAIT then Some (False, s)
         else if data = [] then Some (False, s)
         else if length data > 1400 then Some (False, s)
         else if c_out_len c \<noteq> 0 then Some (False, s)
         else let s1 = upd_conn idx (\<lambda>c. c\<lparr>c_out_seq := c_snd_nxt c, c_out_len := length data,
                         c_out_buf := splice_at (c_out_buf c) 0 data, c_last_tx_ms := now_ms s, c_rtt_ms := 1000\<rparr>) s
              in do { (ok, s2) \<leftarrow> tcp_send (tcp_input DEPTH) idx (FLAG_PSH OR FLAG_ACK) data s1;
                      Some (if ok then (True, upd_conn idx (\<lambda>c. c\<lparr>c_snd_nxt := c_snd_nxt c + of_nat (length data)\<rparr>) s2)
                            else (False, upd_conn idx (\<lambda>c. c\<lparr>c_out_len := 0\<rparr>) s2)) })"

definition tcp_recv :: "nat \<Rightarrow> bytes \<Rightarrow> 'a tcp_net_scheme \<Rightarrow> (nat \<times> bytes) \<times> 'a tcp_net_scheme" where
  "tcp_recv idx out s =
     (let c = conn_at s idx; n = min (length out) (c_rx_len c)
      in if c_rx_len c = 0 then ((0, out), s)
         else ((n, splice_at out 0 (take n (c_rx_buf c))),
               upd_conn idx (\<lambda>c. c\<lparr>c_rx_buf := splice_at (c_rx_buf c) 0 (drop n (take (c_rx_len c) (c_rx_buf c))),
                                c_rx_len := c_rx_len c - n\<rparr>) s))"

definition send_fin :: "nat \<Rightarrow> tcp_state \<Rightarrow> 'a tcp_net_scheme \<Rightarrow> 'a tcp_net_scheme option" where
  "send_fin idx st s =
     do { (ok, s1) \<leftarrow> tcp_send (tcp_input DEPTH) idx (FLAG_FIN OR FLAG_ACK) [] s;
          Some (if ok then upd_conn idx (\<lambda>c. c\<lparr>c_snd_nxt := c_snd_nxt c + 1, c_state := st\<rparr>) s1 else s1) }"

definition tcp_close :: "nat \<Rightarrow> 'a tcp_net_scheme \<Rightarrow> 'a tcp_net_scheme option" where
  "tcp_close idx s =
     (case c_state (conn_at s idx) of
        ESTABLISHED \<Rightarrow> send_fin idx FIN_WAIT1 s
      | CLOSE_WAIT \<Rightarrow> send_fin idx LAST_ACK s
      | _ \<Rightarrow> Some (upd_conn idx (\<lambda>_. CONN_EMPTY) s))"

definition is_open :: "nat \<Rightarrow> 'a tcp_net_scheme \<Rightarrow> bool" where
  "is_open idx s \<longleftrightarrow> c_in_use (conn_at s idx) \<and> (c_state (conn_at s idx) = ESTABLISHED \<or> c_state (conn_at s idx) = CLOSE_WAIT)"

definition find_accepted :: "u16 \<Rightarrow> 'a tcp_net_scheme \<Rightarrow> nat option" where
  "find_accepted lport s = find_idx MAX_CONNS (\<lambda>i. let c = conn_at s i in
     c_in_use c \<and> c_local_port c = lport \<and> c_remote_port c \<noteq> 0 \<and> (c_state c = SYN_RCVD \<or> c_state c = ESTABLISHED))"

text \<open>One connection of \<open>check_retransmit\<close>: \<open>u64::saturating_mul(2)\<close> followed by \<open>min(8000)\<close>.\<close>

definition double_rtt :: "u64 \<Rightarrow> u64" where
  "double_rtt r = (if r \<ge> 4000 then 8000 else r * 2)"

definition retransmit_one :: "nat \<Rightarrow> 'a tcp_net_scheme \<Rightarrow> 'a tcp_net_scheme option" where
  "retransmit_one i s =
     (let c = conn_at s i; now = now_ms s
      in if \<not> c_in_use c \<or> c_out_len c = 0 then Some s
         else if now - c_last_tx_ms c > c_rtt_ms c
         then do { (_, s1) \<leftarrow> tcp_send_seq (tcp_input DEPTH) i (c_out_seq c) (FLAG_ACK OR FLAG_PSH) (take (c_out_len c) (c_out_buf c)) s;
                   Some (upd_conn i (\<lambda>c. c\<lparr>c_last_tx_ms := now, c_rtt_ms := double_rtt (c_rtt_ms c)\<rparr>) s1) }
         else Some s)"

definition check_retransmit :: "'a tcp_net_scheme \<Rightarrow> 'a tcp_net_scheme option" where
  "check_retransmit s = fold (\<lambda>i r. Option.bind r (retransmit_one i)) [0..<MAX_CONNS] (Some s)"

section \<open>The invariant, and why the calls end\<close>

definition conn_ok :: "conn \<Rightarrow> bool" where
  "conn_ok c \<longleftrightarrow> length (c_rx_buf c) = RX_BUF \<and> c_rx_len c \<le> RX_BUF \<and> length (c_out_buf c) = 1400 \<and> c_out_len c \<le> 1400 \<and>
     length (c_peer_ip c) = 4 \<and> length (c_remote_mac c) = 6 \<and> c_state c \<noteq> FIN_WAIT2"

definition tcp_ok :: "'a tcp_net_scheme \<Rightarrow> bool" where
  "tcp_ok s \<longleftrightarrow> length (CONNS s) = MAX_CONNS \<and> (\<forall>c\<in>set (CONNS s). conn_ok c) \<and> length (OUR_IP s) = 4 \<and> length (OUR_MAC s) = 6"

text \<open>What a call may change: the table within the invariant, the generators and the log.\<close>

definition tcp_keeps :: "'a tcp_net_scheme \<Rightarrow> 'a tcp_net_scheme \<Rightarrow> bool" where
  "tcp_keeps s s' \<longleftrightarrow> tcp_ok s' \<and> OUR_IP s' = OUR_IP s \<and> OUR_MAC s' = OUR_MAC s \<and> nic_accepts s' = nic_accepts s \<and>
     now_ms s' = now_ms s \<and> now_ticks s' = now_ticks s \<and> tcp_net.more s' = tcp_net.more s"

lemma tcp_keeps_ok: "tcp_keeps s s' \<Longrightarrow> tcp_ok s'"
  by (simp add: tcp_keeps_def)

lemma tcp_keeps_refl: "tcp_ok s \<Longrightarrow> tcp_keeps s s"
  by (simp add: tcp_keeps_def)

lemma tcp_keeps_trans: "tcp_keeps s s1 \<Longrightarrow> tcp_keeps s1 s2 \<Longrightarrow> tcp_keeps s s2"
  by (simp add: tcp_keeps_def)

lemma upd_conn_sel [simp]:
  "CONNS (upd_conn i f s) = (CONNS s)[i := f (conn_at s i)]" "OUR_IP (upd_conn i f s) = OUR_IP s"
  "OUR_MAC (upd_conn i f s) = OUR_MAC s" "nic_accepts (upd_conn i f s) = nic_accepts s" "now_ms (upd_conn i f s) = now_ms s"
  "now_ticks (upd_conn i f s) = now_ticks s" "TX_LOG (upd_conn i f s) = TX_LOG s" "ISN (upd_conn i f s) = ISN s"
  "EPHEMERAL (upd_conn i f s) = EPHEMERAL s" "tcp_net.more (upd_conn i f s) = tcp_net.more s"
  by (simp_all add: upd_conn_def)

lemma tcp_ok_conn: "tcp_ok s \<Longrightarrow> i < MAX_CONNS \<Longrightarrow> conn_ok (conn_at s i)"
  by (simp add: tcp_ok_def)

lemma tcp_keeps_upd:
  assumes "tcp_ok s" and "i < MAX_CONNS \<Longrightarrow> conn_ok (conn_at s i) \<Longrightarrow> conn_ok (f (conn_at s i))"
  shows "tcp_keeps s (upd_conn i f s)"
proof (cases "i < MAX_CONNS")
  case True
  then have "set ((CONNS s)[i := f (conn_at s i)]) \<subseteq> insert (f (conn_at s i)) (set (CONNS s))"
    by (simp add: set_update_subset_insert)
  then show ?thesis using assms tcp_ok_conn [OF assms(1) True] True by (auto simp: tcp_keeps_def tcp_ok_def)
next
  case False
  then show ?thesis using assms(1) by (simp add: tcp_keeps_def tcp_ok_def list_update_beyond)
qed

lemma CONN_EMPTY_ok [simp]: "conn_ok CONN_EMPTY"
  by (simp add: conn_ok_def CONN_EMPTY_def)

lemma apply_ack_ok: "conn_ok c \<Longrightarrow> conn_ok (apply_ack ack c)"
  by (auto simp: apply_ack_def conn_ok_def Let_def)

lemma store_payload_ok: "conn_ok c \<Longrightarrow> conn_ok (store_payload p c)"
  by (auto simp: store_payload_def conn_ok_def Let_def)

text \<open>Acknowledging in \<open>FIN_WAIT1\<close> compares \<open>ack\<close> with \<open>snd_una\<close> after \<open>apply_ack\<close> has made them
  equal, so the step to \<open>FIN_WAIT2\<close> is never taken.\<close>

lemma apply_ack_una: "ack \<noteq> 0 \<Longrightarrow> c_snd_una (apply_ack ack c) = ack"
  by (simp add: apply_ack_def Let_def)

lemma ack_fin_wait1_eq: "ack_fin_wait1 ack = apply_ack ack"
proof
  show "ack_fin_wait1 ack c = apply_ack ack c" for c
    using apply_ack_una [of ack c] by (auto simp: ack_fin_wait1_def Let_def)
qed

text \<open>Functions that end without running out of depth and keep the invariant.\<close>

definition total_step :: "('a tcp_net_scheme \<Rightarrow> 'a tcp_net_scheme option) \<Rightarrow> bool" where
  "total_step f \<longleftrightarrow> (\<forall>s. tcp_ok s \<longrightarrow> (\<exists>s'. f s = Some s' \<and> tcp_keeps s s'))"

lemma total_stepD: "total_step f \<Longrightarrow> tcp_ok s \<Longrightarrow> \<exists>s'. f s = Some s' \<and> tcp_keeps s s'"
  by (simp add: total_step_def)

lemma total_step_after:
  assumes "total_step f" and "tcp_keeps s s1"
  shows "\<exists>s'. f s1 = Some s' \<and> tcp_keeps s s'"
  using assms total_stepD [OF assms(1) tcp_keeps_ok [OF assms(2)]] tcp_keeps_trans by blast

lemma tx_route_keeps: "tcp_ok s \<Longrightarrow> tcp_keeps s (snd (tx_route frame s))"
  by (simp add: tx_route_def tcp_keeps_def tcp_ok_def)

text \<open>A function that takes every looped segment with these flags and this payload.\<close>

definition takes :: "'a input_fun \<Rightarrow> u8 \<Rightarrow> bytes \<Rightarrow> bool" where
  "takes inp flags payload \<longleftrightarrow>
     (\<forall>s c seq. tcp_ok s \<longrightarrow> (\<exists>s'. inp (OUR_IP s) (OUR_MAC s) (tcp_segment (OUR_IP s) c seq flags payload) s = Some s' \<and> tcp_keeps s s'))"

lemma tcp_send_seq_total:
  assumes "takes inp flags payload" and "tcp_ok s"
  shows "\<exists>ok s'. tcp_send_seq inp idx seq flags payload s = Some (ok, s') \<and> tcp_keeps s s'"
proof (cases "c_peer_ip (conn_at s idx) = OUR_IP s")
  case True
  then show ?thesis using assms by (fastforce simp: takes_def tcp_send_seq_def Let_def)
next
  case False
  then show ?thesis using tx_route_keeps [OF assms(2)] by (auto simp: tcp_send_seq_def Let_def intro: prod.collapse [symmetric])
qed

lemma send_ack_total: "takes inp FLAG_ACK [] \<Longrightarrow> total_step (send_ack inp idx)"
  using tcp_send_seq_total unfolding total_step_def send_ack_def tcp_send_def by fastforce

text \<open>The updates of \<open>handle_segment\<close> keep a connection well formed.\<close>

lemma seg_updates_ok:
  assumes "conn_ok c"
  shows "conn_ok (c\<lparr>c_rcv_nxt := a, c_snd_una := b, c_state := ESTABLISHED\<rparr>)"
    "conn_ok (c\<lparr>c_snd_una := b, c_state := ESTABLISHED\<rparr>)" "conn_ok (bump_rcv c)"
    "conn_ok ((bump_rcv c)\<lparr>c_state := CLOSE_WAIT\<rparr>)" "conn_ok ((bump_rcv c)\<lparr>c_state := CLOSING\<rparr>)"
    "conn_ok (c\<lparr>c_state := LAST_ACK\<rparr>)" "conn_ok (c\<lparr>c_snd_nxt := a\<rparr>)"
  using assms by (simp_all add: conn_ok_def bump_rcv_def)

lemma handle_segment_total:
  assumes inp: "takes inp FLAG_ACK []" and ok: "tcp_ok s0" and "length peer_ip = 4" "length peer_mac = 6"
  shows "\<exists>s'. handle_segment inp idx peer_ip peer_mac flags seq ack payload s0 = Some s' \<and> tcp_keeps s0 s'"
proof -
  define s where "s = upd_conn idx (\<lambda>c. c\<lparr>c_remote_mac := peer_mac, c_peer_ip := peer_ip\<rparr>) s0"
  define s1 where "s1 = (if flags AND FLAG_ACK \<noteq> 0 then upd_conn idx (apply_ack ack) s else s)"
  have s: "tcp_keeps s0 s" unfolding s_def using assms(3,4) ok by (intro tcp_keeps_upd) (simp_all add: conn_ok_def)
  have upd: "tcp_keeps s0 (upd_conn i f t)" if "tcp_keeps s0 t" "\<And>c. conn_ok c \<Longrightarrow> conn_ok (f c)" for i f t
    using tcp_keeps_trans [OF that(1) tcp_keeps_upd] that tcp_keeps_ok by blast
  have s1: "tcp_keeps s0 s1" unfolding s1_def using s upd apply_ack_ok by simp
  note A = total_step_after [OF send_ack_total [OF inp]]
  have pay: "\<exists>s'. take_payload inp idx payload s1 = Some s' \<and> tcp_keeps s0 s'"
    using A [OF upd [OF s1 store_payload_ok]] s1 by (simp add: take_payload_def)
  show ?thesis
  proof (cases "flags AND FLAG_RST = 0")
    case False
    then show ?thesis using upd [OF s] by (simp add: handle_segment_def Let_def s_def [symmetric])
  next
    case True
    show ?thesis
    proof (cases "c_state (conn_at s idx)")
      case SYN_SENT
      have "\<exists>s'. send_ack inp idx (upd_conn idx (\<lambda>c. c\<lparr>c_rcv_nxt := seq + 1, c_snd_una := ack, c_state := ESTABLISHED\<rparr>) s) = Some s' \<and>
          tcp_keeps s0 s'" by (rule A [OF upd [OF s]]) (rule seg_updates_ok(1))
      then show ?thesis using True SYN_SENT s by (simp add: handle_segment_def Let_def s_def [symmetric])
    next
      case SYN_RCVD
      then show ?thesis using True s upd [OF s seg_updates_ok(2)] by (simp add: handle_segment_def Let_def s_def [symmetric])
    next
      case ESTABLISHED
      obtain t where t: "take_payload inp idx payload s1 = Some t" "tcp_keeps s0 t" using pay by blast
      have "\<exists>s'. send_ack inp idx (upd_conn idx (\<lambda>c. (bump_rcv c)\<lparr>c_state := CLOSE_WAIT\<rparr>) t) = Some s' \<and> tcp_keeps s0 s'"
        by (rule A [OF upd [OF t(2)]]) (rule seg_updates_ok(4))
      then show ?thesis using True ESTABLISHED t by (simp add: handle_segment_def Let_def s_def [symmetric] s1_def [symmetric])
    next
      case FIN_WAIT1
      have "\<exists>s'. send_ack inp idx (upd_conn idx (\<lambda>c. if c_state c = FIN_WAIT1 then (bump_rcv c)\<lparr>c_state := CLOSING\<rparr> else bump_rcv c) s1) = Some s' \<and>
          tcp_keeps s0 s'" by (rule A [OF upd [OF s1]]) (simp add: seg_updates_ok)
      then show ?thesis using True FIN_WAIT1 s1
        unfolding handle_segment_def Let_def s_def [symmetric] ack_fin_wait1_eq s1_def [symmetric] by simp
    next
      case FIN_WAIT2
      obtain t where "send_ack inp idx (upd_conn idx bump_rcv s1) = Some t" "tcp_keeps s0 t"
        using A [OF upd [where f = bump_rcv, OF s1 seg_updates_ok(3)]] by blast
      then show ?thesis using True FIN_WAIT2 s1 upd [of t]
        by (simp add: handle_segment_def Let_def s_def [symmetric] s1_def [symmetric])
    next
      case CLOSE_WAIT
      then show ?thesis using True s upd [OF s] seg_updates_ok(6) apply_ack_ok
        by (simp add: handle_segment_def Let_def s_def [symmetric])
    qed (use True s upd [OF s] in \<open>simp_all add: handle_segment_def Let_def s_def [symmetric]\<close>)
  qed
qed

section \<open>Segments read back\<close>

lemma length_tcp_header [simp]: "length csum = 2 \<Longrightarrow> length (tcp_header c seq flags csum) = 20"
  by (simp add: tcp_header_def)

lemma length_tcp_segment [simp]: "length (tcp_segment ip c seq flags payload) = 20 + length payload"
  by (simp add: tcp_segment_def Let_def)

text \<open>The fields \<open>input\<close> reads from a segment are those \<open>tcp_send_seq\<close> wrote.\<close>

lemma tcp_header_fields:
  assumes "seg = tcp_header c seq flags csum @ payload" and "length csum = 2"
  shows "u16_from (seg ! 0) (seg ! 1) = c_local_port c" "u16_from (seg ! 2) (seg ! 3) = c_remote_port c"
    "u32_from (take 4 (drop 4 seg)) = seq" "u32_from (take 4 (drop 8 seg)) = c_rcv_nxt c"
    "unat (drop_bit 4 (seg ! 12)) = 5" "seg ! 13 = flags" "drop 20 seg = payload"
proof -
  have cs: "seg = be16 (c_local_port c) @ be16 (c_remote_port c) @ be32 seq @ be32 (c_rcv_nxt c) @ [0x50, flags] @
     be16 8192 @ csum @ [0, 0] @ payload"
    using assms by (simp add: tcp_header_def)
  show "u16_from (seg ! 0) (seg ! 1) = c_local_port c" "u16_from (seg ! 2) (seg ! 3) = c_remote_port c"
    using u16_from_be16 [of "c_local_port c"] u16_from_be16 [of "c_remote_port c"] unfolding cs by (simp_all add: be16_def numeral_eq_Suc)
  show "u32_from (take 4 (drop 4 seg)) = seq" "u32_from (take 4 (drop 8 seg)) = c_rcv_nxt c"
    unfolding cs by simp_all
  have "seg ! 12 = 0x50" unfolding cs by (simp add: nth_append)
  moreover have "unat (drop_bit 4 (0x50 :: u8)) = 5" by simp
  ultimately show "unat (drop_bit 4 (seg ! 12)) = 5" by simp
  show "seg ! 13 = flags" "drop 20 seg = payload" unfolding cs using assms(2) by (simp_all add: nth_append)
qed

lemma tcp_segment_header:
  obtains csum where "length csum = 2" "tcp_segment ip c seq flags payload = tcp_header c seq flags csum @ payload"
  unfolding tcp_segment_def Let_def using length_be(1) by blast

lemma input_header:
  assumes "length csum = 2"
  shows "input_step inp peer_ip peer_mac (tcp_header c seq flags csum @ payload) s =
     (case find_tuple s (c_remote_port c) (c_local_port c) peer_ip of
        Some idx \<Rightarrow> handle_segment inp idx peer_ip peer_mac flags seq (c_rcv_nxt c) payload s
      | None \<Rightarrow> if flags AND FLAG_SYN \<noteq> 0 \<and> flags AND FLAG_ACK = 0
                then accept_syn inp peer_ip peer_mac (c_remote_port c) (c_local_port c) seq s else Some s)"
  using tcp_header_fields [OF refl assms, of c seq flags payload] assms
  by (simp add: input_step_def TCPH_def Let_def split: option.split)

lemma input_segment:
  "input_step inp peer_ip peer_mac (tcp_segment ip c seq flags payload) s =
     (case find_tuple s (c_remote_port c) (c_local_port c) peer_ip of
        Some idx \<Rightarrow> handle_segment inp idx peer_ip peer_mac flags seq (c_rcv_nxt c) payload s
      | None \<Rightarrow> if flags AND FLAG_SYN \<noteq> 0 \<and> flags AND FLAG_ACK = 0
                then accept_syn inp peer_ip peer_mac (c_remote_port c) (c_local_port c) seq s else Some s)"
  by (rule tcp_segment_header [of ip c seq flags payload]) (simp only: input_header)

text \<open>A bare acknowledgement is never answered.\<close>

lemma handle_ack_total:
  assumes ok: "tcp_ok s0" and "length peer_ip = 4" "length peer_mac = 6"
  shows "\<exists>s'. handle_segment inp idx peer_ip peer_mac FLAG_ACK seq ack [] s0 = Some s' \<and> tcp_keeps s0 s'"
proof -
  have "handle_segment inp idx peer_ip peer_mac FLAG_ACK seq ack [] s0 =
      handle_segment (\<lambda>_ _ _ s. Some s) idx peer_ip peer_mac FLAG_ACK seq ack [] s0"
    by (simp add: handle_segment_def Let_def flag_defs take_payload_def split: tcp_state.splits)
  moreover have "takes (\<lambda>_ _ _ s. Some s) FLAG_ACK []" by (simp add: takes_def tcp_keeps_refl)
  ultimately show ?thesis using handle_segment_total assms by metis
qed

lemma takes_ack: "takes (tcp_input (Suc n)) FLAG_ACK []"
  unfolding takes_def
proof (intro allI impI)
  fix s :: "'a tcp_net_scheme" and c seq assume ok: "tcp_ok s"
  then have l: "length (OUR_IP s) = 4" "length (OUR_MAC s) = 6" by (simp_all add: tcp_ok_def)
  show "\<exists>s'. tcp_input (Suc n) (OUR_IP s) (OUR_MAC s) (tcp_segment (OUR_IP s) c seq FLAG_ACK []) s = Some s' \<and> tcp_keeps s s'"
    using handle_ack_total [OF ok l] tcp_keeps_refl [OF ok]
    by (cases "find_tuple s (c_remote_port c) (c_local_port c) (OUR_IP s)") (simp_all add: input_segment flag_defs)
qed

lemma takes_syn_ack: "takes (tcp_input (Suc (Suc n))) (FLAG_SYN OR FLAG_ACK) []"
  unfolding takes_def
proof (intro allI impI)
  fix s :: "'a tcp_net_scheme" and c seq assume ok: "tcp_ok s"
  then have l: "length (OUR_IP s) = 4" "length (OUR_MAC s) = 6" by (simp_all add: tcp_ok_def)
  show "\<exists>s'. tcp_input (Suc (Suc n)) (OUR_IP s) (OUR_MAC s) (tcp_segment (OUR_IP s) c seq (FLAG_SYN OR FLAG_ACK) []) s = Some s' \<and> tcp_keeps s s'"
    using handle_segment_total [OF takes_ack ok l] tcp_keeps_refl [OF ok]
    by (cases "find_tuple s (c_remote_port c) (c_local_port c) (OUR_IP s)") (simp_all add: input_segment flag_defs)
qed

lemma next_isn_keeps: "tcp_ok s \<Longrightarrow> next_isn s = (isn, s') \<Longrightarrow> tcp_keeps s s' \<and> CONNS s' = CONNS s"
  by (auto simp: next_isn_def tcp_keeps_def tcp_ok_def Let_def)

lemma alloc_conn_keeps:
  assumes "tcp_ok s" and "alloc_conn s = Some (i, s')"
  shows "tcp_keeps s s'"
proof -
  have "s' = upd_conn i (\<lambda>_. CONN_EMPTY\<lparr>c_in_use := True\<rparr>) s" using assms(2) by (auto simp: alloc_conn_def split: option.splits)
  then show ?thesis using tcp_keeps_upd [OF assms(1), of i "\<lambda>_. CONN_EMPTY\<lparr>c_in_use := True\<rparr>"] CONN_EMPTY_ok by (simp add: conn_ok_def)
qed

lemma accept_syn_total:
  assumes inp: "takes inp (FLAG_SYN OR FLAG_ACK) []" and ok: "tcp_ok s" and "length peer_ip = 4" "length peer_mac = 6"
  shows "\<exists>s'. accept_syn inp peer_ip peer_mac dport sport seq s = Some s' \<and> tcp_keeps s s'"
proof (cases "find_listener s dport = None \<or> alloc_conn s = None")
  case True
  then show ?thesis using tcp_keeps_refl [OF ok] by (auto simp: accept_syn_def split: option.splits)
next
  case False
  then obtain l nidx s1 where f: "find_listener s dport = Some l" "alloc_conn s = Some (nidx, s1)" by auto
  obtain isn s2 where i: "next_isn s1 = (isn, s2)" by force
  note k1 = alloc_conn_keeps [OF ok f(2)]
  have k2: "tcp_keeps s s2" using next_isn_keeps [OF tcp_keeps_ok [OF k1] i] tcp_keeps_trans [OF k1] by blast
  define s3 where "s3 = upd_conn nidx (\<lambda>c. c\<lparr>c_local_port := dport, c_remote_port := sport, c_remote_mac := peer_mac,
                   c_peer_ip := peer_ip, c_snd_nxt := isn, c_snd_una := isn, c_rcv_nxt := seq + 1, c_state := SYN_RCVD\<rparr>) s2"
  have k3: "tcp_keeps s s3" unfolding s3_def
    by (rule tcp_keeps_trans [OF k2 tcp_keeps_upd [OF tcp_keeps_ok [OF k2]]]) (use assms(3,4) in \<open>simp add: conn_ok_def\<close>)
  obtain b s4 where s4: "tcp_send inp nidx (FLAG_SYN OR FLAG_ACK) [] s3 = Some (b, s4)" "tcp_keeps s3 s4"
    using tcp_send_seq_total [OF inp tcp_keeps_ok [OF k3]] unfolding tcp_send_def by blast
  have "tcp_keeps s4 (upd_conn nidx (\<lambda>c. c\<lparr>c_snd_nxt := isn + 1\<rparr>) s4)"
    by (rule tcp_keeps_upd [OF tcp_keeps_ok [OF s4(2)]]) (rule seg_updates_ok(7))
  then have "tcp_keeps s (upd_conn nidx (\<lambda>c. c\<lparr>c_snd_nxt := isn + 1\<rparr>) s4)"
    using tcp_keeps_trans [OF k3 s4(2)] tcp_keeps_trans by blast
  then show ?thesis using f i s4(1) by (simp add: accept_syn_def s3_def [symmetric])
qed

lemma tcp_input_total:
  assumes "tcp_ok s" and "length peer_ip = 4" and "length peer_mac = 6"
  shows "\<exists>s'. tcp_input (Suc (Suc (Suc n))) peer_ip peer_mac data s = Some s' \<and> tcp_keeps s s'"
proof (cases "length data < TCPH")
  case True
  then show ?thesis using tcp_keeps_refl [OF assms(1)] by (simp add: input_step_def)
next
  case False
  let ?inp = "input_step (input_step (tcp_input n))"
  show ?thesis
    using False tcp_keeps_refl [OF assms(1)] handle_segment_total [OF takes_ack assms, of "Suc n"]
      accept_syn_total [OF takes_syn_ack assms, of n]
    by (simp add: input_step_def [of ?inp] Let_def split: option.splits)
qed

lemma takes_any: "takes (tcp_input DEPTH) flags payload"
proof -
  have "length (OUR_IP s) = 4 \<and> length (OUR_MAC s) = 6" if "tcp_ok s" for s :: "'a tcp_net_scheme"
    using that by (simp add: tcp_ok_def)
  then show ?thesis unfolding takes_def DEPTH_def numeral_3_eq_3 using tcp_input_total by blast
qed

lemma tcp_send_data_total:
  assumes "tcp_ok s"
  shows "\<exists>b s'. tcp_send_data idx data s = Some (b, s') \<and> tcp_keeps s s'"
proof (cases "(c_state (conn_at s idx) \<noteq> ESTABLISHED \<and> c_state (conn_at s idx) \<noteq> CLOSE_WAIT) \<or> data = [] \<or> length data > 1400 \<or> c_out_len (conn_at s idx) \<noteq> 0")
  case True
  then show ?thesis using tcp_keeps_refl [OF assms] by (auto simp: tcp_send_data_def Let_def)
next
  case False
  define s1 where "s1 = upd_conn idx (\<lambda>c. c\<lparr>c_out_seq := c_snd_nxt c, c_out_len := length data,
      c_out_buf := splice_at (c_out_buf c) 0 data, c_last_tx_ms := now_ms s, c_rtt_ms := 1000\<rparr>) s"
  have k1: "tcp_keeps s s1" unfolding s1_def using assms False by (intro tcp_keeps_upd) (auto simp: conn_ok_def)
  obtain b s2 where s2: "tcp_send (tcp_input DEPTH) idx (FLAG_PSH OR FLAG_ACK) data s1 = Some (b, s2)" "tcp_keeps s1 s2"
    using tcp_send_seq_total [OF takes_any tcp_keeps_ok [OF k1]] unfolding tcp_send_def by blast
  have u: "tcp_keeps s (upd_conn idx f s2)" if "\<And>c. conn_ok c \<Longrightarrow> conn_ok (f c)" for f
    using tcp_keeps_trans [OF tcp_keeps_trans [OF k1 s2(2)]] tcp_keeps_upd [OF tcp_keeps_ok [OF s2(2)]] that by blast
  have "tcp_keeps s (upd_conn idx (\<lambda>c. c\<lparr>c_snd_nxt := c_snd_nxt c + of_nat (length data)\<rparr>) s2)"
    "tcp_keeps s (upd_conn idx (\<lambda>c. c\<lparr>c_out_len := 0\<rparr>) s2)" by (rule u, simp add: conn_ok_def)+
  then show ?thesis using False s2(1) by (cases b) (auto simp: tcp_send_data_def Let_def s1_def [symmetric])
qed

lemma send_fin_total:
  assumes "tcp_ok s" and "st \<noteq> FIN_WAIT2"
  shows "\<exists>s'. send_fin idx st s = Some s' \<and> tcp_keeps s s'"
proof -
  obtain b s1 where s1: "tcp_send (tcp_input DEPTH) idx (FLAG_FIN OR FLAG_ACK) [] s = Some (b, s1)" "tcp_keeps s s1"
    using tcp_send_seq_total [OF takes_any assms(1)] unfolding tcp_send_def by blast
  have "tcp_keeps s1 (upd_conn idx (\<lambda>c. c\<lparr>c_snd_nxt := c_snd_nxt c + 1, c_state := st\<rparr>) s1)"
    by (rule tcp_keeps_upd [OF tcp_keeps_ok [OF s1(2)]]) (use assms(2) in \<open>simp add: conn_ok_def\<close>)
  then show ?thesis using s1 tcp_keeps_trans [OF s1(2)] by (cases b) (simp_all add: send_fin_def)
qed

lemma tcp_close_total:
  assumes "tcp_ok s"
  shows "\<exists>s'. tcp_close idx s = Some s' \<and> tcp_keeps s s'"
  using send_fin_total [OF assms, of _ idx] tcp_keeps_upd [OF assms, of idx "\<lambda>_. CONN_EMPTY"]
  by (cases "c_state (conn_at s idx)") (simp_all add: tcp_close_def)

lemma retransmit_one_total:
  assumes "tcp_ok s"
  shows "\<exists>s'. retransmit_one i s = Some s' \<and> tcp_keeps s s'"
proof (cases "\<not> c_in_use (conn_at s i) \<or> c_out_len (conn_at s i) = 0 \<or> \<not> now_ms s - c_last_tx_ms (conn_at s i) > c_rtt_ms (conn_at s i)")
  case True
  then show ?thesis using tcp_keeps_refl [OF assms] by (auto simp: retransmit_one_def Let_def)
next
  case False
  let ?p = "take (c_out_len (conn_at s i)) (c_out_buf (conn_at s i))"
  obtain b s1 where s1: "tcp_send_seq (tcp_input DEPTH) i (c_out_seq (conn_at s i)) (FLAG_ACK OR FLAG_PSH) ?p s = Some (b, s1)" "tcp_keeps s s1"
    using tcp_send_seq_total [OF takes_any assms] by blast
  have "tcp_keeps s1 (upd_conn i (\<lambda>c. c\<lparr>c_last_tx_ms := now_ms s, c_rtt_ms := double_rtt (c_rtt_ms c)\<rparr>) s1)"
    by (rule tcp_keeps_upd [OF tcp_keeps_ok [OF s1(2)]]) (simp add: conn_ok_def)
  then show ?thesis using False s1 tcp_keeps_trans [OF s1(2)] by (simp add: retransmit_one_def Let_def)
qed

lemma check_retransmit_total:
  assumes "tcp_ok s"
  shows "\<exists>s'. check_retransmit s = Some s' \<and> tcp_keeps s s'"
proof -
  have "\<exists>s'. fold (\<lambda>i r. Option.bind r (retransmit_one i)) is (Some s) = Some s' \<and> tcp_keeps s s'" for "is"
  proof (induction "is" rule: rev_induct)
    case Nil
    then show ?case using tcp_keeps_refl [OF assms] by simp
  next
    case (snoc i xs)
    then obtain t where "fold (\<lambda>i r. Option.bind r (retransmit_one i)) xs (Some s) = Some t" "tcp_keeps s t" by blast
    then show ?case using retransmit_one_total [OF tcp_keeps_ok] tcp_keeps_trans by fastforce
  qed
  then show ?thesis by (simp add: check_retransmit_def)
qed

lemma tcp_recv_ok: "tcp_ok s \<Longrightarrow> tcp_ok (snd (tcp_recv idx out s))"
  by (auto simp: tcp_recv_def Let_def conn_ok_def intro!: tcp_keeps_ok [OF tcp_keeps_upd])


section \<open>Loopback\<close>

text \<open>The part of a connection that \<open>find_tuple\<close> looks at.\<close>

definition tuple_key :: "conn \<Rightarrow> bool \<times> u16 \<times> u16 \<times> bytes" where
  "tuple_key c = (c_in_use c, c_local_port c, c_remote_port c, c_peer_ip c)"

lemma find_tuple_cong:
  assumes "map tuple_key (CONNS s') = map tuple_key (CONNS s)" and "length (CONNS s) = MAX_CONNS"
  shows "find_tuple s' = find_tuple s"
proof (intro ext)
  fix l r p
  have "length (CONNS s') = MAX_CONNS" using assms by (metis length_map)
  then have "tuple_key (conn_at s' i) = tuple_key (conn_at s i)" if "i < MAX_CONNS" for i
    using that assms by (metis nth_map)
  then show "find_tuple s' l r p = find_tuple s l r p"
    unfolding find_tuple_def Let_def by (intro find_idx_cong) (simp add: tuple_key_def)
qed

lemma upd_conn_keys:
  assumes "\<And>c. c = conn_at s i \<Longrightarrow> tuple_key (f c) = tuple_key c" and "i < length (CONNS s)"
  shows "map tuple_key (CONNS (upd_conn i f s)) = map tuple_key (CONNS s)"
  using assms by (simp add: map_update) (metis list_update_id nth_map map_update)

lemma upd_conn_twice:
  "i < length (CONNS s) \<Longrightarrow> upd_conn i f (upd_conn i g s) = upd_conn i (\<lambda>c. f (g c)) s"
  by (simp add: upd_conn_def)

definition set_peer :: "bytes \<Rightarrow> bytes \<Rightarrow> conn \<Rightarrow> conn" where
  "set_peer ip mac c = c\<lparr>c_remote_mac := mac, c_peer_ip := ip\<rparr>"

lemma handle_established:
  assumes "c_state (conn_at s idx) = ESTABLISHED" and "idx < length (CONNS s)"
    and "flags AND FLAG_RST = 0" "flags AND FLAG_FIN = 0" "flags AND FLAG_ACK \<noteq> 0"
  shows "handle_segment inp idx ip mac flags seq ack payload s =
    take_payload inp idx payload (upd_conn idx (\<lambda>c. apply_ack ack (set_peer ip mac c)) s)"
  using assms by (simp add: handle_segment_def Let_def set_peer_def [abs_def] upd_conn_twice)

text \<open>A bare acknowledgement from \<open>j\<close> reaches \<open>i\<close>; a data segment from \<open>i\<close> is stored at \<open>j\<close> and
  acknowledged to \<open>i\<close>, all within the one call.\<close>

lemma loop_ack:
  assumes "c_peer_ip (conn_at s j) = OUR_IP s" and "find_tuple s (c_remote_port (conn_at s j)) (c_local_port (conn_at s j)) (OUR_IP s) = Some i"
    and "c_state (conn_at s i) = ESTABLISHED" and "i < length (CONNS s)"
  shows "send_ack (tcp_input (Suc n)) j s =
    Some (upd_conn i (\<lambda>c. apply_ack (c_rcv_nxt (conn_at s j)) (set_peer (OUR_IP s) (OUR_MAC s) c)) s)"
  using assms handle_established [OF assms(3,4), of FLAG_ACK]
  by (simp add: send_ack_def tcp_send_def tcp_send_seq_def Let_def input_segment flag_defs take_payload_def)

lemma apply_ack_keys [simp]:
  "tuple_key (apply_ack a c) = tuple_key c" "c_state (apply_ack a c) = c_state c" "c_rcv_nxt (apply_ack a c) = c_rcv_nxt c"
  "c_snd_nxt (apply_ack a c) = c_snd_nxt c" "c_rx_len (apply_ack a c) = c_rx_len c" "c_rx_buf (apply_ack a c) = c_rx_buf c"
  "c_local_port (apply_ack a c) = c_local_port c" "c_remote_port (apply_ack a c) = c_remote_port c"
  "c_peer_ip (apply_ack a c) = c_peer_ip c" "c_in_use (apply_ack a c) = c_in_use c"
  by (simp_all add: apply_ack_def Let_def tuple_key_def)

lemma store_payload_keys [simp]:
  "tuple_key (store_payload p c) = tuple_key c" "c_state (store_payload p c) = c_state c"
  "c_snd_nxt (store_payload p c) = c_snd_nxt c" "c_snd_una (store_payload p c) = c_snd_una c"
  "c_local_port (store_payload p c) = c_local_port c" "c_remote_port (store_payload p c) = c_remote_port c"
  "c_peer_ip (store_payload p c) = c_peer_ip c" "c_in_use (store_payload p c) = c_in_use c" "c_out_len (store_payload p c) = c_out_len c"
  by (simp_all add: store_payload_def Let_def tuple_key_def)

lemma set_peer_sel [simp]:
  "c_state (set_peer ip mac c) = c_state c" "c_rcv_nxt (set_peer ip mac c) = c_rcv_nxt c" "c_snd_nxt (set_peer ip mac c) = c_snd_nxt c"
  "c_snd_una (set_peer ip mac c) = c_snd_una c" "c_rx_len (set_peer ip mac c) = c_rx_len c" "c_rx_buf (set_peer ip mac c) = c_rx_buf c"
  "c_local_port (set_peer ip mac c) = c_local_port c" "c_remote_port (set_peer ip mac c) = c_remote_port c"
  "c_peer_ip (set_peer ip mac c) = ip" "c_in_use (set_peer ip mac c) = c_in_use c" "c_out_len (set_peer ip mac c) = c_out_len c"
  "c_out_seq (set_peer ip mac c) = c_out_seq c" "c_peer_ip c = ip \<Longrightarrow> tuple_key (set_peer ip mac c) = tuple_key c"
  by (simp_all add: set_peer_def tuple_key_def)

lemma loop_data:
  assumes i: "i < length (CONNS s)" "c_peer_ip (conn_at s i) = OUR_IP s" "c_state (conn_at s i) = ESTABLISHED"
    and j: "j < length (CONNS s)" "c_peer_ip (conn_at s j) = OUR_IP s" "c_state (conn_at s j) = ESTABLISHED" "i \<noteq> j"
    and ij: "find_tuple s (c_remote_port (conn_at s i)) (c_local_port (conn_at s i)) (OUR_IP s) = Some j"
    and ji: "find_tuple s (c_remote_port (conn_at s j)) (c_local_port (conn_at s j)) (OUR_IP s) = Some i"
    and "data \<noteq> []" and len: "length (CONNS s) = MAX_CONNS"
    and room: "c_rx_len (conn_at s j) + length data \<le> RX_BUF"
  shows "tcp_send (tcp_input (Suc (Suc n))) i (FLAG_PSH OR FLAG_ACK) data s =
    Some (True, upd_conn i (\<lambda>c. apply_ack (c_rcv_nxt (conn_at s j) + of_nat (length data)) (set_peer (OUR_IP s) (OUR_MAC s) c))
      (upd_conn j (\<lambda>c. store_payload data (apply_ack (c_rcv_nxt (conn_at s i)) (set_peer (OUR_IP s) (OUR_MAC s) c))) s))"
proof -
  define t where "t = upd_conn j (\<lambda>c. store_payload data (apply_ack (c_rcv_nxt (conn_at s i)) (set_peer (OUR_IP s) (OUR_MAC s) c))) s"
  have keys: "map tuple_key (CONNS t) = map tuple_key (CONNS s)" unfolding t_def using j by (intro upd_conn_keys) simp_all
  have tj: "conn_at t j = store_payload data (apply_ack (c_rcv_nxt (conn_at s i)) (set_peer (OUR_IP s) (OUR_MAC s) (conn_at s j)))"
    using j(1) by (simp add: t_def)
  have ti: "conn_at t i = conn_at s i" "OUR_IP t = OUR_IP s" "OUR_MAC t = OUR_MAC s" "length (CONNS t) = length (CONNS s)"
    using j(4) by (simp_all add: t_def)
  have "c_rcv_nxt (conn_at t j) = c_rcv_nxt (conn_at s j) + of_nat (length data)"
    unfolding tj using room by (simp add: store_payload_def Let_def min_absorb1 le_diff_conv2)
  then have "send_ack (tcp_input (Suc n)) j t =
      Some (upd_conn i (\<lambda>c. apply_ack (c_rcv_nxt (conn_at s j) + of_nat (length data)) (set_peer (OUR_IP s) (OUR_MAC s) c)) t)"
    using loop_ack [of t j i n] find_tuple_cong [OF keys len] i j ji ti by (simp add: tj)
  moreover have "handle_segment (tcp_input (Suc n)) j (OUR_IP s) (OUR_MAC s) (FLAG_PSH OR FLAG_ACK) (c_snd_nxt (conn_at s i)) (c_rcv_nxt (conn_at s i)) data s =
      send_ack (tcp_input (Suc n)) j t"
    using handle_established [OF j(3,1), of "FLAG_PSH OR FLAG_ACK"] \<open>data \<noteq> []\<close> upd_conn_twice [OF j(1)]
    by (simp add: take_payload_def t_def flag_defs)
  ultimately show ?thesis using i(2) ij
    by (simp add: tcp_send_def tcp_send_seq_def Let_def input_segment t_def)
qed

text \<open>The bytes a connection has received and not handed out, and two connections of this machine that
  talk to each other with matching sequence numbers. After the handshake the client's
  \<open>snd_nxt\<close> still is the number of its SYN, one behind.\<close>

definition received :: "conn \<Rightarrow> bytes" where
  "received c = take (c_rx_len c) (c_rx_buf c)"

definition synced :: "conn \<Rightarrow> conn \<Rightarrow> bool" where
  "synced a b \<longleftrightarrow> c_snd_una a = c_rcv_nxt b \<and> (c_snd_nxt a = c_rcv_nxt b \<or> c_snd_nxt a + 1 = c_rcv_nxt b)"

definition paired :: "'a tcp_net_scheme \<Rightarrow> nat \<Rightarrow> nat \<Rightarrow> bool" where
  "paired s i j \<longleftrightarrow> i < MAX_CONNS \<and> j < MAX_CONNS \<and> i \<noteq> j \<and>
     c_state (conn_at s i) = ESTABLISHED \<and> c_state (conn_at s j) = ESTABLISHED \<and>
     c_peer_ip (conn_at s i) = OUR_IP s \<and> c_peer_ip (conn_at s j) = OUR_IP s \<and>
     find_tuple s (c_remote_port (conn_at s i)) (c_local_port (conn_at s i)) (OUR_IP s) = Some j \<and>
     find_tuple s (c_remote_port (conn_at s j)) (c_local_port (conn_at s j)) (OUR_IP s) = Some i \<and>
     synced (conn_at s i) (conn_at s j) \<and> synced (conn_at s j) (conn_at s i) \<and>
     c_out_len (conn_at s i) = 0 \<and> c_out_len (conn_at s j) = 0"

lemma apply_ack_same: "apply_ack (c_snd_una c) c = c"
  by (simp add: apply_ack_def)

lemma apply_ack_all:
  assumes "ack \<noteq> 0" and "ack \<noteq> c_snd_una c" and "of_nat (c_out_len c) \<le> ack - c_out_seq c"
  shows "apply_ack ack c = c\<lparr>c_snd_una := ack, c_out_len := 0, c_rtt_ms := 1000\<rparr>"
  using assms by (simp add: apply_ack_def Let_def)

lemma received_store:
  assumes "conn_ok c" and "c_rx_len c + length p \<le> RX_BUF"
  shows "received (store_payload p c) = received c @ p" "c_rx_len (store_payload p c) = c_rx_len c + length p"
    "c_rcv_nxt (store_payload p c) = c_rcv_nxt c + of_nat (length p)"
  using assms by (simp_all add: received_def store_payload_def Let_def min_absorb1 le_diff_conv2 splice_at_def conn_ok_def)

text \<open>The acknowledgement of \<open>n\<close> bytes, between 1 and 1400, covers them.\<close>

lemma ack_covers:
  assumes "0 < n" "n \<le> 1400" and "sn = rn \<or> sn + 1 = (rn :: u32)"
  shows "of_nat n \<le> rn + of_nat n - sn" and "rn + of_nat n \<noteq> rn"
proof -
  have u: "unat (of_nat n :: u32) = n" "unat (of_nat (Suc n) :: u32) = Suc n"
    using assms(2) by (simp_all add: unat_of_nat take_bit_nat_eq_self del: of_nat_Suc)
  have "rn + of_nat n - sn = of_nat n \<or> rn + of_nat n - sn = of_nat (Suc n)"
    using assms(3) by (auto simp: algebra_simps)
  then show "of_nat n \<le> rn + of_nat n - sn" using u by (auto simp: word_le_nat_alt simp del: of_nat_Suc)
  have "(of_nat n :: u32) \<noteq> 0" using u(1) assms(1) by (metis unat_0 less_irrefl)
  then show "rn + of_nat n \<noteq> rn" by simp
qed

lemma loop_send:
  assumes ok: "tcp_ok s" and P: "paired s i j" and d: "data \<noteq> []" "length data \<le> 1400"
    and room: "c_rx_len (conn_at s j) + length data \<le> RX_BUF" and nz: "c_rcv_nxt (conn_at s j) + of_nat (length data) \<noteq> 0"
  obtains ci cj where "tcp_send_data i data s = Some (True, upd_conn i (\<lambda>_. ci) (upd_conn j (\<lambda>_. cj) s))"
    "tuple_key ci = tuple_key (conn_at s i)" "tuple_key cj = tuple_key (conn_at s j)"
    "c_state ci = ESTABLISHED" "c_state cj = ESTABLISHED" "synced ci cj" "synced cj ci" "c_out_len ci = 0" "c_out_len cj = 0"
    "received cj = received (conn_at s j) @ data" "received ci = received (conn_at s i)"
proof -
  let ?n = "length data" let ?ip = "OUR_IP s" and ?mac = "OUR_MAC s"
  have len: "length (CONNS s) = MAX_CONNS" using ok by (simp add: tcp_ok_def)
  have ij: "i < length (CONNS s)" "j < length (CONNS s)" "i \<noteq> j" using P len by (simp_all add: paired_def)
  define a where "a = (conn_at s i)\<lparr>c_out_seq := c_snd_nxt (conn_at s i), c_out_len := ?n,
      c_out_buf := splice_at (c_out_buf (conn_at s i)) 0 data, c_last_tx_ms := now_ms s, c_rtt_ms := 1000\<rparr>"
  define s1 where "s1 = upd_conn i (\<lambda>_. a) s"
  define ack where "ack = c_rcv_nxt (conn_at s j) + of_nat ?n"
  define a' where "a' = apply_ack ack (set_peer ?ip ?mac a)"
  define b' where "b' = store_payload data (apply_ack (c_rcv_nxt (conn_at s i)) (set_peer ?ip ?mac (conn_at s j)))"
  have keys: "find_tuple s1 = find_tuple s"
    unfolding s1_def using ij(1) len by (intro find_tuple_cong upd_conn_keys) (simp_all add: tuple_key_def a_def)
  have at: "conn_at s1 i = a" "conn_at s1 j = conn_at s j" "OUR_IP s1 = ?ip" "OUR_MAC s1 = ?mac" "length (CONNS s1) = MAX_CONNS"
    using ij len by (simp_all add: s1_def)
  have sel: "c_state a = ESTABLISHED" "c_peer_ip a = ?ip" "c_remote_port a = c_remote_port (conn_at s i)" "c_local_port a = c_local_port (conn_at s i)"
    "c_rcv_nxt a = c_rcv_nxt (conn_at s i)" "c_snd_una a = c_snd_una (conn_at s i)" "c_out_seq a = c_snd_nxt (conn_at s i)" "c_out_len a = ?n"
    "tuple_key a = tuple_key (conn_at s i)" "received a = received (conn_at s i)" "c_snd_nxt a = c_snd_nxt (conn_at s i)"
    using P by (simp_all add: a_def paired_def tuple_key_def received_def)
  have "tcp_send (tcp_input DEPTH) i (FLAG_PSH OR FLAG_ACK) data s1 =
      Some (True, upd_conn i (\<lambda>_. a') (upd_conn j (\<lambda>_. b') s1))"
    unfolding DEPTH_def numeral_3_eq_3
    using loop_data [of i s1 j data "Suc 0"] P ij at keys d(1) room sel
    by (simp add: paired_def a'_def b'_def ack_def upd_conn_def)
  moreover have "upd_conn i f (upd_conn i (\<lambda>_. a') (upd_conn j (\<lambda>_. b') s1)) = upd_conn i (\<lambda>_. f a') (upd_conn j (\<lambda>_. b') s)" for f
    using ij by (simp add: upd_conn_def s1_def list_update_swap [of i j])
  moreover have "upd_conn i (\<lambda>c. c\<lparr>c_out_seq := c_snd_nxt c, c_out_len := ?n, c_out_buf := splice_at (c_out_buf c) 0 data,
      c_last_tx_ms := now_ms s, c_rtt_ms := 1000\<rparr>) s = s1" by (simp add: s1_def upd_conn_def a_def)
  ultimately have R: "tcp_send_data i data s = Some (True, upd_conn i (\<lambda>_. a'\<lparr>c_snd_nxt := c_snd_nxt a' + of_nat ?n\<rparr>) (upd_conn j (\<lambda>_. b') s))"
    using P d by (simp add: tcp_send_data_def Let_def paired_def)
  have sy: "synced (conn_at s i) (conn_at s j)" "synced (conn_at s j) (conn_at s i)" using P by (simp_all add: paired_def)
  have a': "a' = (set_peer ?ip ?mac a)\<lparr>c_snd_una := ack, c_out_len := 0, c_rtt_ms := 1000\<rparr>"
    unfolding a'_def using nz d sel sy(1) ack_covers [of ?n "c_snd_nxt (conn_at s i)" "c_rcv_nxt (conn_at s j)"]
    by (intro apply_ack_all) (auto simp: ack_def synced_def)
  have b': "b' = store_payload data (set_peer ?ip ?mac (conn_at s j))"
    unfolding b'_def using sy(2) apply_ack_same [of "set_peer ?ip ?mac (conn_at s j)"] by (simp add: synced_def)
  let ?a = "a'\<lparr>c_snd_nxt := c_snd_nxt a' + of_nat ?n\<rparr>"
  have "conn_ok (set_peer ?ip ?mac (conn_at s j))"
    using tcp_ok_conn [OF ok] P ok by (simp add: conn_ok_def set_peer_def paired_def tcp_ok_def)
  note B = received_store [OF this, of data, simplified, OF room, folded b']
  have pj: "c_peer_ip (conn_at s j) = ?ip" "c_state (conn_at s j) = ESTABLISHED" "c_out_len (conn_at s j) = 0" using P by (simp_all add: paired_def)
  have "synced ?a b'" "synced b' ?a"
    using sy sel B(3) by (auto simp: synced_def a' ack_def b' algebra_simps)
  moreover have "received ?a = received (conn_at s i)" "received b' = received (conn_at s j) @ data"
    using sel(10) B(1) by (simp_all add: a' received_def)
  moreover have "tuple_key ?a = tuple_key (conn_at s i)" "tuple_key b' = tuple_key (conn_at s j)" "c_state ?a = ESTABLISHED" "c_state b' = ESTABLISHED"
    "c_out_len ?a = 0" "c_out_len b' = 0"
    using sel pj by (simp_all add: a' b' tuple_key_def)
  ultimately show thesis using that [OF R] by blast
qed

lemma paired_after:
  assumes P: "paired s i j" and len: "length (CONNS s) = MAX_CONNS"
    and "tuple_key ci = tuple_key (conn_at s i)" "tuple_key cj = tuple_key (conn_at s j)"
    and "c_state ci = ESTABLISHED" "c_state cj = ESTABLISHED" "synced ci cj" "synced cj ci" "c_out_len ci = 0" "c_out_len cj = 0"
  shows "paired (upd_conn i (\<lambda>_. ci) (upd_conn j (\<lambda>_. cj) s)) i j"
proof -
  let ?s = "upd_conn i (\<lambda>_. ci) (upd_conn j (\<lambda>_. cj) s)"
  have ij: "i < length (CONNS s)" "j < length (CONNS s)" "i \<noteq> j" using P len by (simp_all add: paired_def)
  have "map tuple_key (CONNS ?s) = map tuple_key (CONNS s)"
    using assms(3,4) ij by (simp add: map_update) (metis list_update_id nth_map map_update list_update_swap)
  then have "find_tuple ?s = find_tuple s" using len by (rule find_tuple_cong)
  then show ?thesis using P ij assms(3-10) by (simp add: paired_def tuple_key_def)
qed

text \<open>The handshake on one machine: the SYN+ACK of the accepted connection \<open>j\<close> establishes the client
  \<open>i\<close>, whose acknowledgement establishes \<open>j\<close>.\<close>

lemma loop_syn_ack:
  assumes ij: "i < length (CONNS s)" "j < length (CONNS s)" "i \<noteq> j" and len: "length (CONNS s) = MAX_CONNS"
    and i: "c_peer_ip (conn_at s i) = OUR_IP s" "c_state (conn_at s i) = SYN_SENT"
    and j: "c_peer_ip (conn_at s j) = OUR_IP s" "c_state (conn_at s j) = SYN_RCVD"
    and fi: "find_tuple s (c_remote_port (conn_at s j)) (c_local_port (conn_at s j)) (OUR_IP s) = Some i"
    and fj: "find_tuple s (c_remote_port (conn_at s i)) (c_local_port (conn_at s i)) (OUR_IP s) = Some j"
  shows "tcp_send (tcp_input (Suc (Suc n))) j (FLAG_SYN OR FLAG_ACK) [] s = Some (True,
     upd_conn j (\<lambda>c. (set_peer (OUR_IP s) (OUR_MAC s) c)\<lparr>c_snd_una := c_snd_nxt (conn_at s j) + 1, c_state := ESTABLISHED\<rparr>)
      (upd_conn i (\<lambda>c. (set_peer (OUR_IP s) (OUR_MAC s) c)\<lparr>c_rcv_nxt := c_snd_nxt (conn_at s j) + 1, c_snd_una := c_rcv_nxt (conn_at s j),
         c_state := ESTABLISHED\<rparr>) s))"
proof -
  define t where "t = upd_conn i (\<lambda>c. (set_peer (OUR_IP s) (OUR_MAC s) c)\<lparr>c_rcv_nxt := c_snd_nxt (conn_at s j) + 1,
      c_snd_una := c_rcv_nxt (conn_at s j), c_state := ESTABLISHED\<rparr>) s"
  have keys: "map tuple_key (CONNS t) = map tuple_key (CONNS s)" unfolding t_def using ij i by (intro upd_conn_keys) (simp_all add: tuple_key_def)
  have t: "conn_at t i = (set_peer (OUR_IP s) (OUR_MAC s) (conn_at s i))\<lparr>c_rcv_nxt := c_snd_nxt (conn_at s j) + 1,
      c_snd_una := c_rcv_nxt (conn_at s j), c_state := ESTABLISHED\<rparr>" "conn_at t j = conn_at s j" "OUR_IP t = OUR_IP s" "OUR_MAC t = OUR_MAC s"
    "length (CONNS t) = length (CONNS s)"
    using ij by (simp_all add: t_def)
  have "send_ack (tcp_input (Suc n)) i t =
      Some (upd_conn j (\<lambda>c. (set_peer (OUR_IP s) (OUR_MAC s) c)\<lparr>c_snd_una := c_snd_nxt (conn_at s j) + 1, c_state := ESTABLISHED\<rparr>) t)"
    using fj j t ij find_tuple_cong [OF keys len]
    by (simp add: send_ack_def tcp_send_def tcp_send_seq_def Let_def input_segment handle_segment_def flag_defs upd_conn_twice set_peer_def [abs_def])
  moreover have "handle_segment (tcp_input (Suc n)) i (OUR_IP s) (OUR_MAC s) (FLAG_SYN OR FLAG_ACK) (c_snd_nxt (conn_at s j)) (c_rcv_nxt (conn_at s j)) [] s =
      send_ack (tcp_input (Suc n)) i t"
    using i(2) ij by (simp add: handle_segment_def Let_def flag_defs t_def upd_conn_twice set_peer_def [abs_def])
  ultimately show ?thesis using fi j by (simp add: tcp_send_def tcp_send_seq_def Let_def input_segment t_def)
qed

lemma find_tupleI:
  assumes "k < MAX_CONNS" and "tuple_key (conn_at s k) = (True, l, r, p)"
    and "\<And>m. m < MAX_CONNS \<Longrightarrow> m \<noteq> k \<Longrightarrow> tuple_key (conn_at s m) \<noteq> (True, l, r, p)"
  shows "find_tuple s l r p = Some k"
  unfolding find_tuple_def Let_def
  by (rule find_idx_eq_SomeI) (use assms in \<open>auto simp: tuple_key_def\<close>)

lemma find_tuple_None_iff: "find_tuple s l r p = None \<longleftrightarrow> (\<forall>m<MAX_CONNS. tuple_key (conn_at s m) \<noteq> (True, l, r, p))"
  by (auto simp: find_tuple_def find_idx_None_iff tuple_key_def Let_def)

definition fresh_conn :: "u16 \<Rightarrow> u16 \<Rightarrow> bytes \<Rightarrow> bytes \<Rightarrow> u32 \<Rightarrow> u32 \<Rightarrow> tcp_state \<Rightarrow> conn" where
  "fresh_conn lport rport ip mac isn rcv st = CONN_EMPTY\<lparr>c_in_use := True, c_local_port := lport, c_remote_port := rport, c_remote_mac := mac,
     c_peer_ip := ip, c_snd_nxt := isn, c_snd_una := isn, c_rcv_nxt := rcv, c_state := st\<rparr>"

lemma fresh_conn_sel [simp]:
  "c_in_use (fresh_conn l r ip mac isn rcv st)" "c_local_port (fresh_conn l r ip mac isn rcv st) = l"
  "c_remote_port (fresh_conn l r ip mac isn rcv st) = r" "c_peer_ip (fresh_conn l r ip mac isn rcv st) = ip"
  "c_snd_nxt (fresh_conn l r ip mac isn rcv st) = isn" "c_rcv_nxt (fresh_conn l r ip mac isn rcv st) = rcv"
  "c_state (fresh_conn l r ip mac isn rcv st) = st" "c_out_len (fresh_conn l r ip mac isn rcv st) = 0"
  "c_rx_len (fresh_conn l r ip mac isn rcv st) = 0" "tuple_key (fresh_conn l r ip mac isn rcv st) = (True, l, r, ip)"
  by (simp_all add: fresh_conn_def CONN_EMPTY_def tuple_key_def)

lemma alloc_conn_first:
  assumes "alloc_conn s = Some (i, s1)"
  shows "i < MAX_CONNS" "\<not> c_in_use (conn_at s i)" "s1 = upd_conn i (\<lambda>_. CONN_EMPTY\<lparr>c_in_use := True\<rparr>) s"
  using assms find_idx_SomeD [of MAX_CONNS "\<lambda>i. \<not> c_in_use (conn_at s i)" i] by (auto simp: alloc_conn_def split: option.splits)

lemma alloc_conn_exists:
  assumes "k < MAX_CONNS" and "\<not> c_in_use (conn_at s k)"
  shows "\<exists>i s1. alloc_conn s = Some (i, s1)"
  using find_idx_exists [OF assms(1), of "\<lambda>i. \<not> c_in_use (conn_at s i)"] assms(2) by (auto simp: alloc_conn_def)

lemma send_loop:
  assumes "c_peer_ip (conn_at s i) = OUR_IP s"
    and "find_tuple s (c_remote_port (conn_at s i)) (c_local_port (conn_at s i)) (OUR_IP s) = None"
  shows "tcp_send (tcp_input (Suc n)) i FLAG_SYN [] s = map_option (Pair True)
    (accept_syn (tcp_input n) (OUR_IP s) (OUR_MAC s) (c_remote_port (conn_at s i)) (c_local_port (conn_at s i)) (c_snd_nxt (conn_at s i)) s)"
  using assms by (simp add: tcp_send_def tcp_send_seq_def Let_def input_segment flag_defs)

lemma start_client:
  assumes "connect_start ip port s = Some (i, s1)" and "length (CONNS s) = MAX_CONNS"
  obtains isn where "CONNS (upd_conn i (\<lambda>c. c\<lparr>c_remote_mac := mac\<rparr>) s1) =
      (CONNS s)[i := fresh_conn (49152 + EPHEMERAL s mod 16384) port ip mac isn 0 SYN_SENT]"
    "OUR_IP s1 = OUR_IP s" "OUR_MAC s1 = OUR_MAC s" "i < MAX_CONNS" "\<not> c_in_use (conn_at s i)"
  using assms alloc_conn_first [of s i]
  by (auto simp: connect_start_def next_ephemeral_def next_isn_def Let_def fresh_conn_def CONN_EMPTY_def split: option.splits)

text \<open>The SYN of the client \<open>i\<close> meets a listener and a free slot.\<close>

lemma loop_accept:
  assumes ok: "length (CONNS s) = MAX_CONNS" and i: "i < MAX_CONNS" "conn_at s i = fresh_conn eph port (OUR_IP s) mac isn 0 SYN_SENT"
    and lst: "find_listener s port \<noteq> None" and k: "k < MAX_CONNS" "\<not> c_in_use (conn_at s k)" and ne: "eph \<noteq> port"
    and u: "\<And>m. m < MAX_CONNS \<Longrightarrow> m \<noteq> i \<Longrightarrow> tuple_key (conn_at s m) \<noteq> (True, port, eph, OUR_IP s) \<and> tuple_key (conn_at s m) \<noteq> (True, eph, port, OUR_IP s)"
  obtains j ci cj s' where "tcp_send (tcp_input (Suc (Suc (Suc n)))) i FLAG_SYN [] s = Some (True, s')" "j < MAX_CONNS" "j \<noteq> i" "\<not> c_in_use (conn_at s j)"
    "CONNS s' = (CONNS s)[i := ci, j := cj]" "OUR_IP s' = OUR_IP s" "paired s' i j" "received ci = []" "received cj = []"
    "c_local_port cj = port" "c_snd_nxt ci + 1 = c_rcv_nxt cj"
proof -
  let ?ip = "OUR_IP s" and ?mac = "OUR_MAC s"
  obtain j s1 where a: "alloc_conn s = Some (j, s1)" using alloc_conn_exists [OF k] by blast
  note A = alloc_conn_first [OF a]
  have ji: "j \<noteq> i" using A(2) i(2) by auto
  obtain isn2 s2 where n: "next_isn s1 = (isn2, s2)" by force
  have s2: "CONNS s2 = CONNS s1" "OUR_IP s2 = ?ip" "OUR_MAC s2 = ?mac" using n A(3) by (auto simp: next_isn_def Let_def)
  define b where "b = fresh_conn port eph ?ip ?mac isn2 (isn + 1) SYN_RCVD"
  define s3 where "s3 = upd_conn j (\<lambda>c. c\<lparr>c_local_port := port, c_remote_port := eph, c_remote_mac := ?mac, c_peer_ip := ?ip,
      c_snd_nxt := isn2, c_snd_una := isn2, c_rcv_nxt := isn + 1, c_state := SYN_RCVD\<rparr>) s2"
  have C3: "CONNS s3 = (CONNS s)[j := b]" "OUR_IP s3 = ?ip" "OUR_MAC s3 = ?mac"
    using A s2 ok by (simp_all add: s3_def b_def fresh_conn_def)
  have at3: "conn_at s3 i = conn_at s i" "conn_at s3 j = b" using C3 ji A(1) ok by simp_all
  have key3: "tuple_key (conn_at s3 m) \<noteq> (True, port, eph, ?ip)" if "m < MAX_CONNS" "m \<noteq> j" for m
    using u [of m] that i(2) ne C3(1) by (cases "m = i") auto
  have fj: "find_tuple s3 port eph ?ip = Some j" using find_tupleI [OF A(1), of s3] key3 at3 by (simp add: b_def)
  have key3': "tuple_key (conn_at s3 m) \<noteq> (True, eph, port, ?ip)" if "m < MAX_CONNS" "m \<noteq> i" for m
    using u [of m] that ne C3(1) ok by (cases "m = j") (auto simp: b_def)
  have fi: "find_tuple s3 eph port ?ip = Some i" using find_tupleI [OF i(1), of s3] key3' at3 i(2) by simp
  have L: "i < length (CONNS s3)" "j < length (CONNS s3)" "length (CONNS s3) = MAX_CONNS" using C3 ok i(1) A(1) by simp_all
  define ci where "ci = (set_peer ?ip ?mac (conn_at s i))\<lparr>c_rcv_nxt := isn2 + 1, c_snd_una := isn + 1, c_state := ESTABLISHED\<rparr>"
  define cj where "cj = (set_peer ?ip ?mac b)\<lparr>c_snd_una := isn2 + 1, c_state := ESTABLISHED, c_snd_nxt := isn2 + 1\<rparr>"
  define s4 where "s4 = upd_conn j (\<lambda>c. (set_peer ?ip ?mac c)\<lparr>c_snd_una := isn2 + 1, c_state := ESTABLISHED\<rparr>)
      (upd_conn i (\<lambda>c. (set_peer ?ip ?mac c)\<lparr>c_rcv_nxt := isn2 + 1, c_snd_una := isn + 1, c_state := ESTABLISHED\<rparr>) s3)"
  have snd4: "tcp_send (tcp_input (Suc (Suc n))) j (FLAG_SYN OR FLAG_ACK) [] s3 = Some (True, s4)"
    unfolding s4_def using loop_syn_ack [OF L(1,2) _ L(3), of n] ji i(2) fi fj C3(2,3) at3 by (simp add: b_def)
  define s5 where "s5 = upd_conn j (\<lambda>c. c\<lparr>c_snd_nxt := isn2 + 1\<rparr>) s4"
  have "CONNS s5 = (CONNS s)[j := b, i := ci, j := cj]"
    using ji L C3(1) at3 by (simp add: s5_def s4_def ci_def cj_def)
  then have C5: "CONNS s5 = (CONNS s)[i := ci, j := cj]" by (simp add: list_update_swap [OF ji])
  have ip5: "OUR_IP s5 = ?ip" using C3 by (simp add: s5_def s4_def)
  have "find_tuple s port eph ?ip = None" using u i(2) ne by (auto simp: find_tuple_None_iff) (metis fresh_conn_sel(10) prod.inject)
  then have run: "tcp_send (tcp_input (Suc (Suc (Suc n)))) i FLAG_SYN [] s = Some (True, s5)"
    using i(2) a n lst snd4 send_loop [of s i "Suc (Suc n)"]
    by (auto simp: accept_syn_def s3_def [symmetric] s5_def simp del: tcp_input.simps)
  have at5: "conn_at s5 i = ci" "conn_at s5 j = cj" using C5 ji ok i(1) A(1) by simp_all
  have "map tuple_key (CONNS s5) = map tuple_key (CONNS s3)"
  proof -
    have "tuple_key ci = map tuple_key (CONNS s) ! i" "tuple_key cj = tuple_key b"
      using i(1,2) ok by (simp_all add: ci_def cj_def tuple_key_def b_def)
    then show ?thesis unfolding C5 C3(1) map_update by (simp only: list_update_id)
  qed
  then have ft: "find_tuple s5 = find_tuple s3" using L(3) by (rule find_tuple_cong)
  have "paired s5 i j"
    using ft fi fj ji i A(1) by (simp add: paired_def at5 ip5 synced_def ci_def cj_def b_def)
  then show thesis using that [OF run A(1) ji A(2) C5 ip5] i(2) by (simp add: ci_def cj_def b_def received_def)
qed

lemma connect_own_pairs:
  assumes ok: "tcp_ok s" and lst: "find_listener s port \<noteq> None"
    and k: "k1 < MAX_CONNS" "k2 < MAX_CONNS" "k1 \<noteq> k2" "\<not> c_in_use (conn_at s k1)" "\<not> c_in_use (conn_at s k2)"
    and eph: "eph = 49152 + EPHEMERAL s mod 16384" "eph \<noteq> port"
    and none: "find_tuple s port eph (OUR_IP s) = None" "find_tuple s eph port (OUR_IP s) = None"
  obtains i j s' where "connect_own port s = Some (Some i, s')" "paired s' i j" "received (conn_at s' i) = []" "received (conn_at s' j) = []"
    "c_local_port (conn_at s' j) = port" "c_snd_nxt (conn_at s' i) + 1 = c_rcv_nxt (conn_at s' j)"
    "\<And>k. k \<noteq> i \<Longrightarrow> k \<noteq> j \<Longrightarrow> conn_at s' k = conn_at s k"
proof -
  have len: "length (CONNS s) = MAX_CONNS" using ok by (simp add: tcp_ok_def)
  obtain i s1 where c: "connect_start (OUR_IP s) port s = Some (i, s1)"
    using alloc_conn_exists [OF k(1,4)] by (fastforce simp: connect_start_def split: prod.splits)
  define t where "t = upd_conn i (\<lambda>c. c\<lparr>c_remote_mac := OUR_MAC s\<rparr>) s1"
  obtain isn where t: "CONNS t = (CONNS s)[i := fresh_conn eph port (OUR_IP s) (OUR_MAC s) isn 0 SYN_SENT]" "OUR_IP t = OUR_IP s" "OUR_MAC s1 = OUR_MAC s"
    and i: "i < MAX_CONNS" "\<not> c_in_use (conn_at s i)"
    using start_client [OF c len, of "OUR_MAC s"] unfolding t_def eph(1) by (metis upd_conn_sel(2))
  have ti: "conn_at t i = fresh_conn eph port (OUR_IP s) (OUR_MAC s) isn 0 SYN_SENT" "\<And>m. m \<noteq> i \<Longrightarrow> conn_at t m = conn_at s m"
    "length (CONNS t) = MAX_CONNS" using t(1) i(1) len by simp_all
  obtain l where l: "l < MAX_CONNS" "c_in_use (conn_at s l)" "c_state (conn_at s l) = LISTEN" "c_local_port (conn_at s l) = port"
    using lst by (auto simp: find_listener_def find_idx_None_iff Let_def)
  then have "l \<noteq> i" using i(2) by auto
  then have lst': "find_listener t port \<noteq> None" using l ti(2) by (auto simp: find_listener_def find_idx_None_iff Let_def)
  obtain k where k': "k < MAX_CONNS" "\<not> c_in_use (conn_at t k)" using k ti(2) by metis
  have ti': "conn_at t i = fresh_conn eph port (OUR_IP t) (OUR_MAC s) isn 0 SYN_SENT" using ti(1) t(2) by simp
  have u: "tuple_key (conn_at t m) \<noteq> (True, port, eph, OUR_IP t) \<and> tuple_key (conn_at t m) \<noteq> (True, eph, port, OUR_IP t)"
    if "m < MAX_CONNS" "m \<noteq> i" for m using that none ti(2) t(2) by (simp add: find_tuple_None_iff)
  obtain j ci cj s' where R: "tcp_send (tcp_input DEPTH) i FLAG_SYN [] t = Some (True, s')" "j < MAX_CONNS" "j \<noteq> i"
    "CONNS s' = (CONNS t)[i := ci, j := cj]" "paired s' i j" "received ci = []" "received cj = []" "c_local_port cj = port" "c_snd_nxt ci + 1 = c_rcv_nxt cj"
    unfolding DEPTH_def numeral_3_eq_3 by (rule loop_accept [OF ti(3) i(1) ti' lst' k' eph(2) u]) blast+
  have "connect_own port s = Some (Some i, s')"
    using c R(1) t(3) by (simp add: connect_own_def connect_finish_def t_def)
  moreover have "conn_at s' i = ci" "conn_at s' j = cj" using R(2-4) ti(3) i(1) by simp_all
  moreover have "conn_at s' k = conn_at s k" if "k \<noteq> i" "k \<noteq> j" for k using R(4) t(1) that by simp
  ultimately show thesis using that R by metis
qed

lemma connect_own_ok:
  assumes "tcp_ok s" and "connect_own port s = Some (r, s')"
  shows "tcp_ok s'"
proof (cases "connect_start (OUR_IP s) port s")
  case None
  then show ?thesis using assms by (simp add: connect_own_def)
next
  case (Some q)
  obtain i s1 where q: "q = (i, s1)" by force
  then obtain a where a: "alloc_conn s = Some (i, a)" using Some by (auto simp: connect_start_def split: option.splits prod.splits)
  obtain lport s2 isn s3 where n: "next_ephemeral a = (lport, s2)" "next_isn s2 = (isn, s3)" by (metis prod.exhaust)
  note k1 = alloc_conn_keeps [OF assms(1) a]
  have k2: "tcp_keeps a s2" using n(1) tcp_keeps_ok [OF k1] by (auto simp: next_ephemeral_def tcp_keeps_def tcp_ok_def)
  have k3: "tcp_keeps s s3"
    using next_isn_keeps [OF tcp_keeps_ok [OF k2] n(2)] tcp_keeps_trans [OF tcp_keeps_trans [OF k1 k2]] by blast
  have "s1 = upd_conn i (\<lambda>c. c\<lparr>c_local_port := lport, c_remote_port := port, c_peer_ip := OUR_IP s,
      c_snd_nxt := isn, c_snd_una := isn, c_state := SYN_SENT\<rparr>) s3"
    using Some q a n by (simp add: connect_start_def)
  moreover have "tcp_keeps s3 (upd_conn i (\<lambda>c. c\<lparr>c_local_port := lport, c_remote_port := port, c_peer_ip := OUR_IP s,
      c_snd_nxt := isn, c_snd_una := isn, c_state := SYN_SENT\<rparr>) s3)"
    by (rule tcp_keeps_upd [OF tcp_keeps_ok [OF k3]]) (use assms(1) in \<open>simp add: conn_ok_def tcp_ok_def\<close>)
  ultimately have "tcp_ok s1" by (simp add: tcp_keeps_ok)
  then have "tcp_ok (upd_conn i (\<lambda>c. c\<lparr>c_remote_mac := OUR_MAC s1\<rparr>) s1)"
    by (intro tcp_keeps_ok [OF tcp_keeps_upd]) (auto simp: conn_ok_def tcp_ok_def)
  from tcp_send_seq_total [OF takes_any this] obtain b t
    where "tcp_send (tcp_input DEPTH) i FLAG_SYN [] (upd_conn i (\<lambda>c. c\<lparr>c_remote_mac := OUR_MAC s1\<rparr>) s1) = Some (b, t)" "tcp_ok t"
    unfolding tcp_send_def using tcp_keeps_ok by blast
  then show ?thesis using assms(2) Some q by (simp add: connect_own_def connect_finish_def)
qed

text \<open>A segment reads back as it was written and its checksum verifies: for every connection, sequence
  number, flags and payload, the ports, numbers, flags and payload that \<open>input\<close> reads are those
  the sender put in, and the checksum over the pseudo header, the segment and the padding of an
  odd length is zero.\<close>

theorem tcp_segment_roundtrip:
  assumes "seg = tcp_segment ip c seq flags payload"
    and "length ip = 4" and "length (c_peer_ip c) = 4" and "length payload \<le> 1400"
  shows "u16_from (seg ! 0) (seg ! 1) = c_local_port c \<and> u16_from (seg ! 2) (seg ! 3) = c_remote_port c \<and>
    u32_from (take 4 (drop 4 seg)) = seq \<and> u32_from (take 4 (drop 8 seg)) = c_rcv_nxt c \<and> seg ! 13 = flags \<and>
    drop (unat (drop_bit 4 (seg ! 12)) * 4) seg = payload \<and>
    checksum (pseudo_header ip (c_peer_ip c) (length seg) @ seg @ (if odd (length seg) then [0] else [])) = 0"
proof -
  let ?pad = "if odd (length seg) then [0] else [] :: bytes"
  let ?pre = "pseudo_header ip (c_peer_ip c) (length seg) @ be16 (c_local_port c) @ be16 (c_remote_port c) @ be32 seq @
      be32 (c_rcv_nxt c) @ [0x50, flags] @ be16 8192"
  let ?post = "[0, 0] @ payload @ ?pad"
  have "length ?pre = 28" using assms(2,3) by (simp add: pseudo_header_def)
  then have v: "checksum (?pre @ be16 (checksum (?pre @ [0, 0] @ ?post)) @ ?post) = 0"
    using assms(4) by (intro checksum_verifies) simp_all
  define cs where "cs = checksum (?pre @ [0, 0] @ ?post)"
  have "seg = tcp_header c seq flags (be16 cs) @ payload"
    using assms(1) by (simp add: tcp_segment_def Let_def tcp_header_def TCPH_def cs_def)
  then have "pseudo_header ip (c_peer_ip c) (length seg) @ seg @ ?pad = ?pre @ be16 cs @ ?post"
    by (simp add: tcp_header_def)
  with v have "checksum (pseudo_header ip (c_peer_ip c) (length seg) @ seg @ ?pad) = 0" by (simp only: cs_def [symmetric])
  then show ?thesis using tcp_header_fields [OF \<open>seg = tcp_header c seq flags (be16 cs) @ payload\<close>] by simp
qed

text \<open>C10: TCP works between two programs of the machine: when a port is listened on, two slots are free
  and the new local port is not in use with it, \<open>connect\<close> to the own address returns a
  connection that is established together with a new one on that port, no other connection
  changes, and any data of up to 1400 bytes that is sent arrives at the other end exactly and is
  acknowledged at once (unless the acknowledgement number wraps to exactly 0), leaving the pair
  ready for the next call. The client's own sequence number stays one behind, at the number of
  its SYN.\<close>

theorem loopback_works:
  assumes "tcp_ok s" and "find_listener s port \<noteq> None"
    and "k1 < MAX_CONNS" and "k2 < MAX_CONNS" and "k1 \<noteq> k2" and "\<not> c_in_use (conn_at s k1)" and "\<not> c_in_use (conn_at s k2)"
    and "eph = 49152 + EPHEMERAL s mod 16384" and "eph \<noteq> port"
    and "find_tuple s port eph (OUR_IP s) = None" and "find_tuple s eph port (OUR_IP s) = None"
  shows "\<exists>i j s1. connect_own port s = Some (Some i, s1) \<and> paired s1 i j \<and> c_local_port (conn_at s1 j) = port \<and>
    (\<forall>k. k \<noteq> i \<longrightarrow> k \<noteq> j \<longrightarrow> conn_at s1 k = conn_at s k) \<and> c_snd_nxt (conn_at s1 i) + 1 = c_rcv_nxt (conn_at s1 j) \<and>
    (\<forall>data. data \<noteq> [] \<and> length data \<le> 1400 \<and> c_rcv_nxt (conn_at s1 j) + of_nat (length data) \<noteq> 0 \<longrightarrow>
      (\<exists>s2. tcp_send_data i data s1 = Some (True, s2) \<and> received (conn_at s2 j) = data \<and> paired s2 i j))"
proof -
  obtain i j s1 where c: "connect_own port s = Some (Some i, s1)" "paired s1 i j" "received (conn_at s1 i) = []" "received (conn_at s1 j) = []"
    "c_local_port (conn_at s1 j) = port" "c_snd_nxt (conn_at s1 i) + 1 = c_rcv_nxt (conn_at s1 j)"
    "\<And>k. k \<noteq> i \<Longrightarrow> k \<noteq> j \<Longrightarrow> conn_at s1 k = conn_at s k"
    using connect_own_pairs [OF assms] by metis
  have ok: "tcp_ok s1" using connect_own_ok [OF assms(1) c(1)] .
  then have len: "length (CONNS s1) = MAX_CONNS" by (simp add: tcp_ok_def)
  have j: "j < MAX_CONNS" "j \<noteq> i" "i < MAX_CONNS" using c(2) by (simp_all add: paired_def)
  have "c_rx_len (conn_at s1 j) = 0"
    using c(4) tcp_ok_conn [OF ok j(1)] by (auto simp: received_def conn_ok_def RX_BUF_def)
  then have "\<exists>s2. tcp_send_data i data s1 = Some (True, s2) \<and> received (conn_at s2 j) = data \<and> paired s2 i j"
    if d: "data \<noteq> []" "length data \<le> 1400" "c_rcv_nxt (conn_at s1 j) + of_nat (length data) \<noteq> 0" for data
    by (rule_tac loop_send [OF ok c(2) d(1,2) _ d(3)]) (use d(2) c(4) paired_after [OF c(2) len] j len in \<open>simp_all add: RX_BUF_def\<close>)
  then show ?thesis using c by blast
qed

section \<open>Behaviour towards other machines\<close>

lemma send_ack_remote:
  assumes "c_peer_ip (conn_at s idx) \<noteq> OUR_IP s"
  obtains s' where "send_ack inp idx s = Some s'" "CONNS s' = CONNS s" "OUR_IP s' = OUR_IP s"
  using assms by (auto simp: send_ack_def tcp_send_def tcp_send_seq_def Let_def tx_route_def)

text \<open>A segment from the peer of connection \<open>i\<close>: built from the peer's side \<open>p\<close> of the connection.\<close>

lemma input_from_peer:
  assumes "find_tuple s (c_remote_port p) (c_local_port p) ip = Some i"
  shows "tcp_input DEPTH ip mac (tcp_segment ip p seq flags payload) s =
      handle_segment (tcp_input (DEPTH - 1)) i ip mac flags seq (c_rcv_nxt p) payload s"
    and "length csum = 2 \<Longrightarrow> tcp_input DEPTH ip mac (tcp_header p seq flags csum @ payload) s =
      handle_segment (tcp_input (DEPTH - 1)) i ip mac flags seq (c_rcv_nxt p) payload s"
  using assms by (simp_all add: DEPTH_def numeral_eq_Suc input_segment input_header)

lemma peer_found:
  assumes "find_tuple s l r ip = Some i"
  shows "i < MAX_CONNS" "tuple_key (conn_at s i) = (True, l, r, ip)"
  using assms find_idx_SomeD [of MAX_CONNS _ i] by (fastforce simp: find_tuple_def tuple_key_def Let_def)+

text \<open>A connection the machine closes first stays in the table: when the peer acknowledges the FIN, the
  connection remains in \<open>FIN_WAIT1\<close> (the step to \<open>FIN_WAIT2\<close> is dead code); the peer's own FIN
  then moves it to \<open>CLOSING\<close>, still occupying its slot and waiting for one more
  acknowledgement, which a peer whose FIN has been acknowledged does not send.\<close>

theorem active_close_leaks:
  assumes "length (CONNS s) = MAX_CONNS" and "find_tuple s (c_remote_port p) (c_local_port p) ip = Some i"
    and "c_state (conn_at s i) = FIN_WAIT1" and "ip \<noteq> OUR_IP s"
  shows "\<exists>s1 s2. tcp_input DEPTH ip mac (tcp_segment ip p seq FLAG_ACK []) s = Some s1 \<and>
    tcp_input DEPTH ip mac (tcp_segment ip p seq (FLAG_FIN OR FLAG_ACK) []) s1 = Some s2 \<and>
    c_state (conn_at s1 i) = FIN_WAIT1 \<and> c_state (conn_at s2 i) = CLOSING \<and> c_in_use (conn_at s2 i)"
proof -
  let ?a = "\<lambda>c. apply_ack (c_rcv_nxt p) (set_peer ip mac c)"
  note F = peer_found [OF assms(2)]
  have i: "i < length (CONNS s)" using F(1) assms(1) by simp
  have ack: "handle_segment inp i ip mac FLAG_ACK seq (c_rcv_nxt p) [] t = Some (upd_conn i ?a t)"
    if "i < length (CONNS t)" "c_state (conn_at t i) = FIN_WAIT1" for inp and t :: "'a tcp_net_scheme"
    using that by (simp add: handle_segment_def Let_def flag_defs ack_fin_wait1_eq upd_conn_twice set_peer_def [abs_def])
  define s1 where "s1 = upd_conn i ?a s"
  have s1: "conn_at s1 i = ?a (conn_at s i)" "length (CONNS s1) = MAX_CONNS" "OUR_IP s1 = OUR_IP s"
    using i assms(1) by (simp_all add: s1_def)
  have keys: "find_tuple s1 = find_tuple s" unfolding s1_def using i F(2) assms(1)
    by (intro find_tuple_cong upd_conn_keys) (simp_all add: tuple_key_def)
  define t where "t = upd_conn i (\<lambda>c. (bump_rcv (?a c))\<lparr>c_state := CLOSING\<rparr>) s1"
  have ti: "conn_at t i = (bump_rcv (?a (conn_at s1 i)))\<lparr>c_state := CLOSING\<rparr>" using s1(2) F(1) by (simp add: t_def)
  have fin: "handle_segment inp i ip mac (FLAG_FIN OR FLAG_ACK) seq (c_rcv_nxt p) [] s1 = send_ack inp i t" for inp
    using s1 assms(3) F(1)
    by (simp add: handle_segment_def Let_def flag_defs ack_fin_wait1_eq upd_conn_twice set_peer_def [abs_def] t_def upd_conn_def)
  have "c_peer_ip (conn_at t i) \<noteq> OUR_IP t" using assms(4) s1(3) by (simp add: ti bump_rcv_def) (simp add: t_def)
  then obtain s2 where s2: "send_ack (tcp_input (DEPTH - 1)) i t = Some s2" "CONNS s2 = CONNS t" by (rule send_ack_remote)
  have "tcp_input DEPTH ip mac (tcp_segment ip p seq FLAG_ACK []) s = Some s1"
    using input_from_peer(1) [OF assms(2)] ack [OF i assms(3)] by (simp add: s1_def)
  moreover have "tcp_input DEPTH ip mac (tcp_segment ip p seq (FLAG_FIN OR FLAG_ACK) []) s1 = Some s2"
    using input_from_peer(1) [of s1 p ip i] keys assms(2) fin s2(1) by simp
  ultimately show ?thesis using s1(1) s2(2) ti assms(3) F(2) by (simp add: tuple_key_def bump_rcv_def)
qed

text \<open>The sequence number of a segment is not looked at: a data segment that the peer sends again, because
  our acknowledgement was late, is delivered to the program a second time.\<close>

lemma established_stores:
  assumes "tcp_ok s" and "find_tuple s (c_remote_port p) (c_local_port p) ip = Some i" and "c_state (conn_at s i) = ESTABLISHED"
    and "ip \<noteq> OUR_IP s" and "payload \<noteq> []" and "c_rx_len (conn_at s i) + length payload \<le> RX_BUF"
    and "length ip = 4" and "length mac = 6" and "length csum = 2"
    and fl: "flags AND FLAG_RST = 0" "flags AND FLAG_FIN = 0" "flags AND FLAG_ACK \<noteq> 0"
  obtains s' where "tcp_input DEPTH ip mac (tcp_header p seq flags csum @ payload) s = Some s'" "tcp_ok s'"
    "received (conn_at s' i) = received (conn_at s i) @ payload" "c_rx_len (conn_at s' i) = c_rx_len (conn_at s i) + length payload"
    "find_tuple s' = find_tuple s" "c_state (conn_at s' i) = ESTABLISHED" "OUR_IP s' = OUR_IP s"
proof -
  let ?a = "\<lambda>c. store_payload payload (apply_ack (c_rcv_nxt p) (set_peer ip mac c))"
  note F = peer_found [OF assms(2)]
  have len: "length (CONNS s) = MAX_CONNS" using assms(1) by (simp add: tcp_ok_def)
  then have i: "i < length (CONNS s)" using F(1) by simp
  define t where "t = upd_conn i ?a s"
  have t: "conn_at t i = ?a (conn_at s i)" "OUR_IP t = OUR_IP s" using i by (simp_all add: t_def)
  have keys: "map tuple_key (CONNS t) = map tuple_key (CONNS s)" unfolding t_def using i F(2)
    by (intro upd_conn_keys) (simp_all add: tuple_key_def)
  have "c_peer_ip (conn_at t i) \<noteq> OUR_IP t" using assms(4) t by simp
  then obtain s' where s': "send_ack (tcp_input (DEPTH - 1)) i t = Some s'" "CONNS s' = CONNS t" "OUR_IP s' = OUR_IP t" by (rule send_ack_remote)
  have run: "tcp_input DEPTH ip mac (tcp_header p seq flags csum @ payload) s = Some s'"
    using input_from_peer(2) [OF assms(2,9)] handle_established [OF assms(3) i fl] s'(1) assms(5) i
    by (simp add: take_payload_def upd_conn_twice t_def)
  have ft: "find_tuple s' = find_tuple s" using keys s'(2) len by (intro find_tuple_cong) simp_all
  have "conn_ok (apply_ack (c_rcv_nxt p) (set_peer ip mac (conn_at s i)))"
    using tcp_ok_conn [OF assms(1) F(1)] assms(7,8) by (intro apply_ack_ok) (simp add: conn_ok_def set_peer_def)
  note B = received_store [OF this, of payload, simplified, OF assms(6)]
  have "tcp_ok s'" using run tcp_input_total [OF assms(1,7,8), of 0] tcp_keeps_ok unfolding DEPTH_def numeral_3_eq_3 by (metis option.inject)
  then show thesis using that [OF run] B ft s' t assms(3) by (simp add: received_def)
qed

lemma retransmission_duplicates:
  assumes "tcp_ok s" and "find_tuple s (c_remote_port p) (c_local_port p) ip = Some i" and "c_state (conn_at s i) = ESTABLISHED"
    and "ip \<noteq> OUR_IP s" and "payload \<noteq> []" and "c_rx_len (conn_at s i) + 2 * length payload \<le> RX_BUF"
    and "length ip = 4" and "length mac = 6" and seg: "seg = tcp_segment ip p seq (FLAG_PSH OR FLAG_ACK) payload"
  shows "\<exists>s1 s2. tcp_input DEPTH ip mac seg s = Some s1 \<and> tcp_input DEPTH ip mac seg s1 = Some s2 \<and>
    received (conn_at s2 i) = received (conn_at s i) @ payload @ payload"
proof -
  obtain cs where cs: "length cs = 2" "seg = tcp_header p seq (FLAG_PSH OR FLAG_ACK) cs @ payload"
    unfolding seg by (rule tcp_segment_header)
  have r: "c_rx_len (conn_at s i) + length payload \<le> RX_BUF" using assms(6) by simp
  have fl: "(FLAG_PSH OR FLAG_ACK) AND FLAG_RST = 0" "(FLAG_PSH OR FLAG_ACK) AND FLAG_FIN = 0" "(FLAG_PSH OR FLAG_ACK) AND FLAG_ACK \<noteq> 0"
    by (simp_all add: flag_defs)
  obtain s1 where s1: "tcp_input DEPTH ip mac seg s = Some s1" "tcp_ok s1"
    "received (conn_at s1 i) = received (conn_at s i) @ payload" "c_rx_len (conn_at s1 i) = c_rx_len (conn_at s i) + length payload"
    "find_tuple s1 = find_tuple s" "c_state (conn_at s1 i) = ESTABLISHED" "OUR_IP s1 = OUR_IP s"
    unfolding cs(2) by (rule established_stores [OF assms(1-5) r assms(7,8) cs(1) fl])
  obtain s2 where "tcp_input DEPTH ip mac seg s1 = Some s2" "received (conn_at s2 i) = received (conn_at s1 i) @ payload"
    unfolding cs(2)
    by (rule established_stores [where s = s1 and p = p and ip = ip and i = i and mac = mac and payload = payload and seq = seq, OF _ _ _ _ _ _ _ _ cs(1) fl])
      (use assms s1 in simp_all)
  then show ?thesis using s1(1,3) by simp
qed

section \<open>A concrete stack\<close>

text \<open>One listener on port 9100, and one connection to another machine that has been closed here.\<close>

definition demo_tcp :: tcp_net where
  "demo_tcp = \<lparr>CONNS = [CONN_EMPTY\<lparr>c_in_use := True, c_state := LISTEN, c_local_port := 9100\<rparr>,
       fresh_conn 50000 80 [1, 1, 1, 1] (replicate 6 2) 7 9 FIN_WAIT1] @ replicate 6 CONN_EMPTY,
     EPHEMERAL = 0, ISN = 100, OUR_IP = [10, 0, 2, 15], OUR_MAC = replicate 6 1, now_ticks = 0, now_ms = 0,
     nic_accepts = (\<lambda>_. True), TX_LOG = []\<rparr>"

lemma demo_tcp_sel:
  "CONNS demo_tcp = [CONN_EMPTY\<lparr>c_in_use := True, c_state := LISTEN, c_local_port := 9100\<rparr>,
       fresh_conn 50000 80 [1, 1, 1, 1] (replicate 6 2) 7 9 FIN_WAIT1] @ replicate 6 CONN_EMPTY"
  "OUR_IP demo_tcp = [10, 0, 2, 15]" "OUR_MAC demo_tcp = replicate 6 1" "EPHEMERAL demo_tcp = 0"
  by (simp_all add: demo_tcp_def)

lemma empty_keys: "tuple_key CONN_EMPTY = (False, 0, 0, replicate 4 0)" "c_in_use CONN_EMPTY = False"
  by (simp_all add: tuple_key_def CONN_EMPTY_def)

lemma upt_conns: "[0..<MAX_CONNS] = [0, 1, 2, 3, 4, 5, 6, 7]"
  by (simp add: MAX_CONNS_def upt_rec)

lemma demo_tcp_ok: "tcp_ok demo_tcp"
  by (simp add: tcp_ok_def demo_tcp_sel MAX_CONNS_def conn_ok_def fresh_conn_def CONN_EMPTY_def)

lemma demo_tcp_conns:
  "find_listener demo_tcp 9100 \<noteq> None" "\<not> c_in_use (conn_at demo_tcp 2)" "\<not> c_in_use (conn_at demo_tcp 3)"
  "find_tuple demo_tcp 9100 49152 [10, 0, 2, 15] = None" "find_tuple demo_tcp 49152 9100 [10, 0, 2, 15] = None"
  "find_tuple demo_tcp 50000 80 [1, 1, 1, 1] = Some 1" "c_state (conn_at demo_tcp 1) = FIN_WAIT1"
  by (simp_all add: find_listener_def find_tuple_def find_idx_def upt_conns demo_tcp_sel numeral_eq_Suc empty_keys Let_def)
     (simp_all add: CONN_EMPTY_def)


theorem tcp_segment_roundtrip_witness:
  "drop (unat (drop_bit 4 (tcp_segment [10, 0, 2, 15] CONN_EMPTY 5 FLAG_ACK [1, 2, 3] ! 12)) * 4)
     (tcp_segment [10, 0, 2, 15] CONN_EMPTY 5 FLAG_ACK [1, 2, 3]) = [1, 2, 3]"
proof -
  have "length (c_peer_ip CONN_EMPTY) = 4" by (simp add: CONN_EMPTY_def)
  then show ?thesis using tcp_segment_roundtrip [OF refl, of "[10, 0, 2, 15]" CONN_EMPTY "[1, 2, 3]" 5 FLAG_ACK] by simp
qed

theorem loopback_works_witness:
  "\<exists>i j s1. connect_own 9100 demo_tcp = Some (Some i, s1) \<and> paired s1 i j"
  using loopback_works [OF demo_tcp_ok demo_tcp_conns(1), of 2 3 49152] demo_tcp_conns
  by (auto simp: demo_tcp_sel MAX_CONNS_def)

theorem active_close_leaks_witness:
  "\<exists>s1 s2. tcp_input DEPTH [1, 1, 1, 1] (replicate 6 2) (tcp_segment [1, 1, 1, 1] (fresh_conn 80 50000 [10, 0, 2, 15] (replicate 6 1) 9 8 ESTABLISHED) 9 FLAG_ACK []) demo_tcp = Some s1 \<and>
     tcp_input DEPTH [1, 1, 1, 1] (replicate 6 2) (tcp_segment [1, 1, 1, 1] (fresh_conn 80 50000 [10, 0, 2, 15] (replicate 6 1) 9 8 ESTABLISHED) 9 (FLAG_FIN OR FLAG_ACK) []) s1 = Some s2 \<and>
     c_state (conn_at s2 1) = CLOSING"
  using active_close_leaks [of demo_tcp "fresh_conn 80 50000 [10, 0, 2, 15] (replicate 6 1) 9 8 ESTABLISHED" "[1, 1, 1, 1]" 1 "replicate 6 2" 9]
    demo_tcp_conns demo_tcp_ok by (simp add: tcp_ok_def demo_tcp_sel(2)) blast

end
