(* ===== verification/Net.thy ===== *)
theory Net
  imports Tcp
begin

text \<open>
  The network layer below TCP, \<open>kernel/src/driver/net.rs\<close> and \<open>udp.rs\<close>: the ARP cache, the dispatch
  of received Ethernet frames (\<open>input_frame\<close>), ARP and ICMP replies, sending and receiving UDP
  datagrams, address resolution, and \<open>connect\<close> of the TCP stack to other machines.

  The network card and the clock are outside: a function that polls takes the frames the card
  hands over as an argument, one list for each turn of its waiting loop until the deadline. The
  result is \<open>None\<close> where the source panics or reads beyond the frame. Device registers, serial
  output and the software tests are left out.
\<close>

section \<open>State\<close>

record arp_entry =
  ae_ip :: bytes
  ae_mac :: bytes
  ae_valid :: bool

definition ARP_CACHE :: nat where "ARP_CACHE = 8"
definition UDP_HDR :: nat where "UDP_HDR = 8"
definition UDP_BUF :: nat where "UDP_BUF = 1514"

record net = tcp_net +
  ARP_ENTRIES :: "arp_entry list"
  ARP_VICTIM :: u64
  OUR_GATEWAY :: bytes
  OUR_NETMASK :: bytes
  OUR_DNS :: bytes
  IP_ID :: u16
  RX_VALID :: bool
  RX_SRC_IP :: bytes
  RX_SRC_MAC :: bytes
  RX_SPORT :: u16
  RX_DPORT :: u16
  RX_LEN :: nat
  UDP_RX_BUF :: bytes

section \<open>The ARP cache\<close>

definition arp_hit :: "bytes \<Rightarrow> arp_entry \<Rightarrow> bool" where
  "arp_hit ip e \<longleftrightarrow> ae_valid e \<and> ae_ip e = ip"

definition arp_lookup :: "net \<Rightarrow> bytes \<Rightarrow> bytes option" where
  "arp_lookup s ip = map_option ae_mac (List.find (arp_hit ip) (ARP_ENTRIES s))"

definition arp_learn :: "bytes \<Rightarrow> bytes \<Rightarrow> net \<Rightarrow> net" where
  "arp_learn ip mac s =
     (let es = ARP_ENTRIES s; new = \<lparr>ae_ip = ip, ae_mac = mac, ae_valid = True\<rparr>
      in case position (arp_hit ip) es of
           Some i \<Rightarrow> s\<lparr>ARP_ENTRIES := es[i := (es ! i)\<lparr>ae_mac := mac\<rparr>]\<rparr>
         | None \<Rightarrow> (case position (\<lambda>e. \<not> ae_valid e) es of
             Some i \<Rightarrow> s\<lparr>ARP_ENTRIES := es[i := new]\<rparr>
           | None \<Rightarrow> s\<lparr>ARP_ENTRIES := es[unat (ARP_VICTIM s) mod ARP_CACHE := new], ARP_VICTIM := ARP_VICTIM s + 1\<rparr>))"

section \<open>Frames\<close>

definition slice :: "nat \<Rightarrow> nat \<Rightarrow> bytes \<Rightarrow> bytes" where
  "slice a b xs = take (b - a) (drop a xs)"

definition arp_packet :: "bytes \<Rightarrow> bytes \<Rightarrow> bytes \<Rightarrow> u8 \<Rightarrow> bytes \<Rightarrow> bytes \<Rightarrow> bytes" where
  "arp_packet eth_dst mac ip op tmac tip =
     eth_dst @ mac @ [0x08, 0x06] @ [0x00, 0x01, 0x08, 0x00, 6, 4, 0x00, op] @ mac @ ip @ tmac @ tip"

definition build_arp_reply :: "net \<Rightarrow> bytes \<Rightarrow> bytes \<Rightarrow> bytes" where
  "build_arp_reply s sender_mac sender_ip = arp_packet sender_mac (OUR_MAC s) (OUR_IP s) 2 sender_mac sender_ip"

definition send_arp_request :: "bytes \<Rightarrow> net \<Rightarrow> bool \<times> net" where
  "send_arp_request target_ip s = tx_route (arp_packet (replicate 6 0xFF) (OUR_MAC s) (OUR_IP s) 1 (replicate 6 0) target_ip) s"

text \<open>An IPv4 header with its checksum filled in.\<close>

definition ipv4_header :: "u16 \<Rightarrow> bytes \<Rightarrow> u8 \<Rightarrow> bytes \<Rightarrow> bytes \<Rightarrow> bytes" where
  "ipv4_header total_len id_frag proto src dst =
     (let hd0 = [0x45, 0] @ be16 total_len @ id_frag @ [64, proto]
      in hd0 @ be16 (ip_checksum (hd0 @ [0, 0] @ src @ dst)) @ src @ dst)"

definition build_icmp_reply :: "net \<Rightarrow> bytes \<Rightarrow> bytes \<Rightarrow> bytes \<Rightarrow> bytes \<Rightarrow> bytes" where
  "build_icmp_reply s sender_mac ip_src rest payload =
     sender_mac @ OUR_MAC s @ [0x08, 0x00] @
     ipv4_header (20 + 8 + of_nat (length payload)) [0, 0, 0, 0] 1 (OUR_IP s) ip_src @
     [0, 0] @ be16 (ip_checksum ([0, 0, 0, 0] @ rest @ payload)) @ rest @ payload"

definition send_icmp_ping :: "bytes \<Rightarrow> net \<Rightarrow> bool \<times> net" where
  "send_icmp_ping target_ip s =
     tx_route (replicate 6 0xFF @ OUR_MAC s @ [0x08, 0x00] @ ipv4_header 28 [0, 0, 0, 0] 1 (OUR_IP s) target_ip @
       [8, 0] @ be16 (ip_checksum [8, 0, 0, 0, 0, 0, 0, 0]) @ [0, 0, 0, 0]) s"

definition udp_frame :: "net \<Rightarrow> bytes \<Rightarrow> bytes \<Rightarrow> bytes \<Rightarrow> u16 \<Rightarrow> u16 \<Rightarrow> bytes \<Rightarrow> bytes" where
  "udp_frame s src_ip dst_mac dst_ip src_port dst_port payload =
     dst_mac @ OUR_MAC s @ [0x08, 0x00] @
     ipv4_header (of_nat (28 + length payload)) (be16 (IP_ID s) @ [0x40, 0]) 17 src_ip dst_ip @
     be16 src_port @ be16 dst_port @ be16 (of_nat (8 + length payload)) @
     be16 (udp_checksum src_ip dst_ip src_port dst_port payload) @ payload"

definition send_udp :: "bytes \<Rightarrow> bytes \<Rightarrow> bytes \<Rightarrow> u16 \<Rightarrow> u16 \<Rightarrow> bytes \<Rightarrow> net \<Rightarrow> bool \<times> net" where
  "send_udp src_ip dst_mac dst_ip src_port dst_port payload s =
     (let s1 = s\<lparr>IP_ID := IP_ID s + 1\<rparr>
      in if 14 + (20 + (8 + length payload)) > 1514 \<or> length payload > 1472 then (False, s1)
         else tx_route (udp_frame s src_ip dst_mac dst_ip src_port dst_port payload) s1)"

section \<open>Receiving\<close>

definition udp_input :: "bytes \<Rightarrow> bytes \<Rightarrow> bytes \<Rightarrow> net \<Rightarrow> net" where
  "udp_input data src_ip src_mac s =
     (if length data < 34 + UDP_HDR then s
      else let udp = slice 34 (34 + UDP_HDR) data;
               ulen = unat (u16_from (udp ! 4) (udp ! 5));
               plen = min (ulen - UDP_HDR) UDP_BUF;
               n = min plen (length data - 42)
           in s\<lparr>RX_VALID := True, RX_SRC_IP := src_ip, RX_SRC_MAC := src_mac, RX_SPORT := u16_from (udp ! 0) (udp ! 1),
                RX_DPORT := u16_from (udp ! 2) (udp ! 3), RX_LEN := plen,
                UDP_RX_BUF := (if drop 42 data \<noteq> [] then splice_at (UDP_RX_BUF s) 0 (slice 42 (42 + n) data) else UDP_RX_BUF s)\<rparr>)"

definition rx_clear :: "net \<Rightarrow> net" where
  "rx_clear s = s\<lparr>RX_VALID := False\<rparr>"

definition rx_payload :: "net \<Rightarrow> bytes" where
  "rx_payload s = take (RX_LEN s) (UDP_RX_BUF s)"

definition arp_input :: "bytes \<Rightarrow> net \<Rightarrow> net" where
  "arp_input data s =
     (let op = u16_from (data ! 21) (data ! 20); smac = slice 22 28 data; sip = slice 28 32 data; tip = slice 38 42 data;
          s1 = (if op = 0x0100 \<and> tip = OUR_IP s then arp_learn sip smac (snd (tx_route (build_arp_reply s smac sip) s)) else s)
      in if op = 0x0200 \<and> tip = OUR_IP s then arp_learn sip smac s1 else s1)"

definition icmp_input :: "bytes \<Rightarrow> net \<Rightarrow> net option" where
  "icmp_input data s =
     (if length data \<le> 34 then None
      else if data ! 34 \<noteq> 8 then Some s
      else if length data < 42 \<or> length data > 1514 then None
      else Some (snd (tx_route (build_icmp_reply s (slice 6 12 data) (slice 26 30 data) (slice 38 42 data) (drop 42 data)) s)))"

definition is_ours :: "bytes \<Rightarrow> net \<Rightarrow> bool" where
  "is_ours data s \<longleftrightarrow> (let dst = slice 30 34 data in dst = OUR_IP s \<or> dst = replicate 4 255 \<or> dst = replicate 4 0) \<or>
     data ! 23 = 17 \<and> length data \<ge> 34 + 8 \<and> u16_from (data ! 36) (data ! 37) = 68"

definition ip_input :: "bytes \<Rightarrow> net \<Rightarrow> net option" where
  "ip_input data s =
     (if \<not> is_ours data s then Some s
      else let src = slice 26 30 data; smac = slice 6 12 data; proto = data ! 23;
               s1 = (if src \<noteq> replicate 4 0 then arp_learn src smac s else s)
           in if proto = 6 then tcp_input DEPTH src smac (drop 34 data) s1
              else if proto = 17 then Some (udp_input data src smac s1)
              else if proto = 1 then icmp_input data s1
              else Some s1)"

definition input_frame :: "bytes \<Rightarrow> net \<Rightarrow> net option" where
  "input_frame data s =
     (if length data < 14 then Some s
      else let ether_type = u16_from (data ! 13) (data ! 12);
               s1 = (if ether_type = 0x0608 \<and> length data \<ge> 42 then arp_input data s else s)
           in if ether_type = 0x0008 \<and> length data \<ge> 34 then ip_input data s1 else Some s1)"

fun poll :: "bytes list \<Rightarrow> net \<Rightarrow> net option" where
  "poll [] s = Some s"
| "poll (f # fs) s = Option.bind (input_frame f s) (poll fs)"

section \<open>Resolving and connecting\<close>

fun resolve_loop :: "bytes \<Rightarrow> bytes list list \<Rightarrow> net \<Rightarrow> (bytes option \<times> net) option" where
  "resolve_loop ip [] s = Some (None, s)"
| "resolve_loop ip (fs # rest) s =
     do { s1 \<leftarrow> poll fs s;
          case arp_lookup s1 ip of Some m \<Rightarrow> Some (Some m, s1) | None \<Rightarrow> resolve_loop ip rest s1 }"

definition resolve :: "bytes list list \<Rightarrow> bytes \<Rightarrow> net \<Rightarrow> (bytes option \<times> net) option" where
  "resolve polls ip s =
     (case arp_lookup s ip of Some m \<Rightarrow> Some (Some m, s)
      | None \<Rightarrow> let (ok, s1) = send_arp_request ip s in if ok then resolve_loop ip polls s1 else Some (None, s1))"

definition in_subnet :: "net \<Rightarrow> bytes \<Rightarrow> bool" where
  "in_subnet s ip \<longleftrightarrow> list_all (\<lambda>i. ip ! i AND OUR_NETMASK s ! i = OUR_IP s ! i AND OUR_NETMASK s ! i) [0..<4]"

definition udp_send :: "bytes list list \<Rightarrow> bytes \<Rightarrow> bytes \<Rightarrow> u16 \<Rightarrow> u16 \<Rightarrow> bytes \<Rightarrow> net \<Rightarrow> (bool \<times> net) option" where
  "udp_send polls src_ip dst_ip src_port dst_port payload s =
     (if dst_ip = replicate 4 255 then Some (send_udp src_ip (replicate 6 0xFF) dst_ip src_port dst_port payload s)
      else do { (m, s1) \<leftarrow> resolve polls (if in_subnet s dst_ip then dst_ip else OUR_GATEWAY s) s;
                Some (send_udp src_ip (case m of Some m \<Rightarrow> m | None \<Rightarrow> replicate 6 0xFF) dst_ip src_port dst_port payload s1) })"

text \<open>The Ethernet address \<open>connect\<close> sends to: its own, the gateway's for another network, or the
  peer's, with the gateway and then broadcast to fall back on.\<close>

definition connect_mac :: "bytes list list \<Rightarrow> bytes list list \<Rightarrow> bytes \<Rightarrow> net \<Rightarrow> (bytes \<times> net) option" where
  "connect_mac polls polls2 peer_ip s =
     (let bcast = replicate 6 0xFF; or_bcast = map_option (map_prod (\<lambda>m. case m of Some m \<Rightarrow> m | None \<Rightarrow> bcast) id)
      in if peer_ip = OUR_IP s then Some (OUR_MAC s, s)
         else if \<not> in_subnet s peer_ip then or_bcast (resolve polls (OUR_GATEWAY s) s)
         else case arp_lookup s peer_ip of Some m \<Rightarrow> Some (m, s)
              | None \<Rightarrow> do { (m, s1) \<leftarrow> resolve polls peer_ip s;
                             case m of Some m \<Rightarrow> Some (m, s1) | None \<Rightarrow> or_bcast (resolve polls2 (OUR_GATEWAY s) s1) })"

definition tcp_connect :: "bytes list list \<Rightarrow> bytes list list \<Rightarrow> bytes \<Rightarrow> u16 \<Rightarrow> net \<Rightarrow> (nat option \<times> net) option" where
  "tcp_connect polls polls2 peer_ip port s =
     (case connect_start peer_ip port s of None \<Rightarrow> Some (None, s)
      | Some (i, s1) \<Rightarrow> do { (mac, s2) \<leftarrow> connect_mac polls polls2 peer_ip s1;
                              map_option (Pair (Some i)) (connect_finish i mac s2) })"

text \<open>Waiting: each turn of the loops has the time it reads and the frames the card has received by then;
  the list holds the turns until the deadline.\<close>

definition pump :: "bytes list \<Rightarrow> net \<Rightarrow> net option" where
  "pump frames s = Option.bind (poll frames s) check_retransmit"

fun wait_established :: "nat \<Rightarrow> u64 \<Rightarrow> (u64 \<times> bytes list) list \<Rightarrow> net \<Rightarrow> (bool \<times> net) option" where
  "wait_established idx last_syn [] s = Some (False, s)"
| "wait_established idx last_syn ((now, frames) # turns) s =
     (let st = c_state (conn_at s idx); s1 = s\<lparr>now_ms := now\<rparr>
      in if st = ESTABLISHED then Some (True, s)
         else if st = CLOSED then Some (False, s)
         else if (st = SYN_SENT \<or> st = SYN_RCVD) \<and> now - last_syn > 1000
         then do { (_, s2) \<leftarrow> tcp_send (tcp_input DEPTH) idx FLAG_SYN [] s1; s3 \<leftarrow> pump frames s2; wait_established idx now turns s3 }
         else do { s3 \<leftarrow> pump frames s1; wait_established idx last_syn turns s3 })"

fun wait_closed :: "nat \<Rightarrow> (u64 \<times> bytes list) list \<Rightarrow> net \<Rightarrow> (bool \<times> net) option" where
  "wait_closed idx [] s = Some (False, s)"
| "wait_closed idx ((now, frames) # turns) s =
     (if \<not> c_in_use (conn_at s idx) then Some (True, s)
      else do { s1 \<leftarrow> pump frames (s\<lparr>now_ms := now\<rparr>); wait_closed idx turns s1 })"

section \<open>What the cache learns\<close>

lemma arp_learn_lookup:
  assumes "length (ARP_ENTRIES s) = ARP_CACHE"
  shows "arp_lookup (arp_learn ip mac s) ip = Some mac"
proof -
  let ?es = "ARP_ENTRIES s" and ?new = "\<lparr>ae_ip = ip, ae_mac = mac, ae_valid = True\<rparr>"
  have put: "map_option ae_mac (List.find (arp_hit ip) (?es[i := ?new])) = Some mac"
    if "i < length ?es" "\<forall>e\<in>set ?es. \<not> arp_hit ip e" for i
  proof -
    have "List.find (arp_hit ip) (?es[i := ?new]) = Some ?new"
      unfolding find_Some_iff by (rule exI [of _ i]) (use that in \<open>auto simp: arp_hit_def nth_list_update\<close>)
    then show ?thesis by simp
  qed
  show ?thesis
  proof (cases "position (arp_hit ip) ?es")
    case None
    then have n: "\<forall>e\<in>set ?es. \<not> arp_hit ip e" by (simp add: position_None_iff)
    have v: "unat (ARP_VICTIM s) mod ARP_CACHE < length ?es" using assms by (simp add: ARP_CACHE_def)
    show ?thesis
    proof (cases "position (\<lambda>e. \<not> ae_valid e) ?es")
      case (Some i)
      then show ?thesis using None put [OF _ n] position_SomeD(1) [OF Some] by (simp add: arp_learn_def arp_lookup_def Let_def)
    qed (use None put [OF v n] in \<open>simp add: arp_learn_def arp_lookup_def Let_def\<close>)
  next
    case (Some i)
    note P = position_SomeD [OF Some]
    have "List.find (arp_hit ip) (?es[i := (?es ! i)\<lparr>ae_mac := mac\<rparr>]) = Some ((?es ! i)\<lparr>ae_mac := mac\<rparr>)"
      unfolding find_Some_iff by (rule exI [of _ i]) (use P in \<open>auto simp: arp_hit_def nth_list_update\<close>)
    then show ?thesis using Some by (simp add: arp_learn_def arp_lookup_def Let_def)
  qed
qed

lemma arp_learn_sel [simp]:
  "OUR_IP (arp_learn ip mac s) = OUR_IP s" "OUR_MAC (arp_learn ip mac s) = OUR_MAC s" "UDP_RX_BUF (arp_learn ip mac s) = UDP_RX_BUF s"
  "CONNS (arp_learn ip mac s) = CONNS s" "TX_LOG (arp_learn ip mac s) = TX_LOG s" "nic_accepts (arp_learn ip mac s) = nic_accepts s"
  by (simp_all add: arp_learn_def Let_def split: option.splits)

section \<open>Datagrams\<close>

lemma length_ipv4_header [simp]: "length idf = 4 \<Longrightarrow> length src = 4 \<Longrightarrow> length dst = 4 \<Longrightarrow> length (ipv4_header len idf pr src dst) = 20"
  by (simp add: ipv4_header_def Let_def)

lemma ipv4_header_verifies:
  assumes "length idf = 4" "length src = 4" "length dst = 4"
  shows "checksum (ipv4_header len idf pr src dst) = 0"
  using checksum_verifies [of "[0x45, 0] @ be16 len @ idf @ [64, pr]" "src @ dst"] assms
  by (simp add: ipv4_header_def Let_def ip_checksum_eq)

text \<open>The fields of an IPv4 frame where \<open>input_frame\<close> looks for them.\<close>

lemma ip_frame_fields:
  assumes f: "f = dmac @ smac @ [0x08, 0x00] @ ipv4_header len idf pr src dst @ rest"
    and l: "length dmac = 6" "length smac = 6" "length idf = 4" "length src = 4" "length dst = 4"
  shows "length f = 34 + length rest" "u16_from (f ! 13) (f ! 12) = 0x0008" "f ! 23 = pr" "slice 6 12 f = smac" "slice 26 30 f = src"
    "slice 30 34 f = dst" "drop 34 f = rest" "slice 14 34 f = ipv4_header len idf pr src dst"
proof -
  obtain cs where h: "ipv4_header len idf pr src dst = ([0x45, 0] @ be16 len @ idf @ [64, pr]) @ be16 cs @ src @ dst"
    by (simp add: ipv4_header_def Let_def)
  show "length f = 34 + length rest" using l by (simp add: f)
  have "f ! 13 = 0x00" "f ! 12 = 0x08" using l by (simp_all add: f nth_append)
  then show "u16_from (f ! 13) (f ! 12) = 0x0008" by (simp add: u16_from_def)
  show "f ! 23 = pr" unfolding f h using l by (simp add: nth_append)
  show "slice 6 12 f = smac" "drop 34 f = rest" "slice 14 34 f = ipv4_header len idf pr src dst" using l by (simp_all add: f slice_def)
  show "slice 26 30 f = src" "slice 30 34 f = dst" unfolding f h slice_def using l by simp_all
qed

text \<open>C30: A UDP datagram arrives as it was sent: the frame one machine sends for up to 1472 bytes carries
  valid IP and UDP checksums, and given to another machine that has the destination address it
  fills the receive slot with exactly the payload, the ports and the source address, and the
  sender's Ethernet address is in the ARP cache.\<close>

theorem udp_roundtrip:
  assumes "f = udp_frame a src_ip dst_mac (OUR_IP b) sport dport payload" and "length payload \<le> 1472"
    and "length src_ip = 4" and "length dst_mac = 6" and "length (OUR_MAC a) = 6" and "length (OUR_IP b) = 4"
    and "length (UDP_RX_BUF b) = UDP_BUF" and "length (ARP_ENTRIES b) = ARP_CACHE" and "src_ip \<noteq> replicate 4 0" and "nic_accepts a f"
  shows "(\<exists>a'. send_udp src_ip dst_mac (OUR_IP b) sport dport payload a = (True, a') \<and> TX_LOG a' = TX_LOG a @ [f]) \<and>
    (\<exists>b'. input_frame f b = Some b' \<and> RX_VALID b' \<and> rx_payload b' = payload \<and> RX_SRC_IP b' = src_ip \<and>
       RX_SPORT b' = sport \<and> RX_DPORT b' = dport \<and> arp_lookup b' src_ip = Some (OUR_MAC a)) \<and>
    checksum (slice 14 34 f) = 0 \<and>
    checksum (src_ip @ OUR_IP b @ [0, 17] @ be16 (of_nat (8 + length payload)) @ drop 34 f) = 0"
proof -
  let ?l = "of_nat (8 + length payload) :: u16" let ?c = "udp_checksum src_ip (OUR_IP b) sport dport payload"
  let ?rest = "be16 sport @ be16 dport @ be16 ?l @ be16 ?c @ payload"
  have f: "f = dst_mac @ OUR_MAC a @ [0x08, 0x00] @ ipv4_header (of_nat (28 + length payload)) (be16 (IP_ID a) @ [0x40, 0]) 17 src_ip (OUR_IP b) @ ?rest"
    by (simp add: assms(1) udp_frame_def)
  note F = ip_frame_fields [OF f assms(4,5) _ assms(3,6), simplified]
  have l: "unat ?l = 8 + length payload" using assms(2) by (simp add: unat_of_nat take_bit_nat_eq_self del: of_nat_add)
  have hdr: "slice 34 42 f = be16 sport @ be16 dport @ be16 ?l @ be16 ?c" "drop 42 f = payload"
  proof -
    have "drop 42 f = drop 8 (drop 34 f)" by simp
    then show "drop 42 f = payload" by (simp only: F(7)) simp
    show "slice 34 42 f = be16 sport @ be16 dport @ be16 ?l @ be16 ?c" by (simp add: slice_def F(7))
  qed
  have h: "u16_from (slice 34 42 f ! 0) (slice 34 42 f ! Suc 0) = sport" "u16_from (slice 34 42 f ! 2) (slice 34 42 f ! 3) = dport"
    "u16_from (slice 34 42 f ! 4) (slice 34 42 f ! 5) = ?l"
    unfolding hdr using u16_from_be16 [of sport] u16_from_be16 [of dport] u16_from_be16 [of ?l] by (simp_all add: be16_def numeral_eq_Suc)
  define b1 where "b1 = arp_learn src_ip (OUR_MAC a) b"
  define b' where "b' = udp_input f src_ip (OUR_MAC a) b1"
  have "input_frame f b = Some b'"
    using F assms(9) by (simp add: input_frame_def ip_input_def is_ours_def Let_def b'_def b1_def)
  moreover have "RX_VALID b'" "RX_SRC_IP b' = src_ip" "RX_SPORT b' = sport" "RX_DPORT b' = dport" "arp_lookup b' src_ip = arp_lookup b1 src_ip"
    using F(1) h by (simp_all add: b'_def udp_input_def UDP_HDR_def Let_def arp_lookup_def)
  moreover have "rx_payload b' = payload"
  proof -
    have n: "min (unat ?l - 8) 1514 = length payload" using l assms(2) by simp
    have "slice 42 (42 + length payload) f = payload" using hdr(2) by (simp add: slice_def)
    then have "RX_LEN b' = length payload" "UDP_RX_BUF b' = splice_at (UDP_RX_BUF b) 0 payload"
      using F(1) h(3) n hdr(2) by (auto simp: b'_def b1_def udp_input_def UDP_HDR_def UDP_BUF_def Let_def)
    then show ?thesis by (simp add: rx_payload_def)
  qed
  moreover have "checksum (slice 14 34 f) = 0" unfolding F(8) by (rule ipv4_header_verifies) (use assms in simp_all)
  moreover have "checksum (src_ip @ OUR_IP b @ [0, 17] @ be16 ?l @ drop 34 f) = 0"
    unfolding F(7) using udp_checksum_verifies [OF assms(3,6,2), of sport dport] by simp
  moreover have "\<exists>a'. send_udp src_ip dst_mac (OUR_IP b) sport dport payload a = (True, a') \<and> TX_LOG a' = TX_LOG a @ [f]"
    using assms(1,2,10) by (simp add: send_udp_def tx_route_def Let_def)
  ultimately show ?thesis using arp_learn_lookup [OF assms(8), of src_ip "OUR_MAC a"] by (auto simp: b1_def)
qed

section \<open>Every Ethernet frame is handled\<close>

definition net_ok :: "net \<Rightarrow> bool" where
  "net_ok s \<longleftrightarrow> tcp_ok s \<and> length (ARP_ENTRIES s) = ARP_CACHE \<and> (\<forall>e\<in>set (ARP_ENTRIES s). ae_valid e \<longrightarrow> length (ae_mac e) = 6) \<and>
     length (UDP_RX_BUF s) = UDP_BUF \<and> RX_LEN s \<le> UDP_BUF"

lemma net_ok_tcp: "net_ok s \<Longrightarrow> tcp_keeps s s' \<Longrightarrow> net_ok s'"
  by (cases s; cases s') (simp add: net_ok_def tcp_keeps_def)

lemma arp_learn_ok:
  assumes "net_ok s" and "length mac = 6"
  shows "net_ok (arp_learn ip mac s)"
proof -
  have "length (ae_mac e) = 6" if "e \<in> set ((ARP_ENTRIES s)[i := e'])" "ae_valid e" "length (ae_mac e') = 6" for i e e'
    using assms(1) that set_update_subset_insert [of "ARP_ENTRIES s" i e'] unfolding net_ok_def by auto
  then show ?thesis using assms
    by (auto simp: net_ok_def arp_learn_def Let_def tcp_ok_def split: option.splits)
qed

lemma tx_route_ok: "net_ok s \<Longrightarrow> net_ok (snd (tx_route f s))"
  using tx_route_keeps [of s f] net_ok_tcp net_ok_def by blast

lemma length_slice: "b \<le> length xs \<Longrightarrow> a \<le> b \<Longrightarrow> length (slice a b xs) = b - a"
  by (simp add: slice_def)

lemma udp_input_ok: "net_ok s \<Longrightarrow> net_ok (udp_input data src_ip src_mac s)"
  by (auto simp: udp_input_def net_ok_def Let_def tcp_ok_def slice_def UDP_HDR_def UDP_BUF_def)

lemma ip_input_ok:
  assumes "net_ok s" and "42 \<le> length data" and "length data \<le> 1514"
  shows "\<exists>s'. ip_input data s = Some s' \<and> net_ok s'"
proof -
  let ?src = "slice 26 30 data" and ?mac = "slice 6 12 data"
  have L: "length ?src = 4" "length ?mac = 6" using assms(2) by (simp_all add: length_slice)
  define s1 where "s1 = (if ?src \<noteq> replicate 4 0 then arp_learn ?src ?mac s else s)"
  have ok: "net_ok s1" unfolding s1_def using assms(1) arp_learn_ok L(2) by simp
  then have "tcp_ok s1" by (simp add: net_ok_def)
  from tcp_input_total [OF this L, of 0 "drop 34 data"]
  have t: "\<exists>s'. tcp_input DEPTH ?src ?mac (drop 34 data) s1 = Some s' \<and> net_ok s'"
    unfolding DEPTH_def numeral_3_eq_3 using net_ok_tcp [OF ok] by blast
  have i: "\<exists>s'. icmp_input data s1 = Some s' \<and> net_ok s'"
    using assms(2,3) ok tx_route_ok [OF ok] by (simp add: icmp_input_def)
  show ?thesis
  proof (cases "is_ours data s")
    case True
    then show ?thesis using t i ok udp_input_ok [OF ok] by (simp add: ip_input_def Let_def s1_def [symmetric])
  qed (use assms(1) in \<open>simp add: ip_input_def\<close>)
qed

lemma arp_input_ok:
  assumes "net_ok s" and "42 \<le> length data"
  shows "net_ok (arp_input data s)"
proof -
  have "length (slice 22 28 data) = 6" using assms(2) by (simp add: length_slice)
  then show ?thesis using assms(1) arp_learn_ok tx_route_ok by (simp add: arp_input_def Let_def)
qed

lemma input_frame_ok:
  assumes "net_ok s" and "42 \<le> length data" and "length data \<le> 1514"
  shows "\<exists>s'. input_frame data s = Some s' \<and> net_ok s'"
  using assms arp_input_ok ip_input_ok by (simp add: input_frame_def Let_def)

lemma poll_ok:
  assumes "net_ok s" and "\<forall>f\<in>set frames. 42 \<le> length f \<and> length f \<le> 1514"
  shows "\<exists>s'. poll frames s = Some s' \<and> net_ok s'"
  using assms
proof (induction frames arbitrary: s)
  case (Cons f fs)
  obtain s1 where "input_frame f s = Some s1" "net_ok s1" using input_frame_ok [of s f] Cons.prems by auto
  then show ?case using Cons.IH [of s1] Cons.prems(2) by simp
qed simp


lemma pump_ok:
  assumes "net_ok s" and "\<forall>f\<in>set frames. 42 \<le> length f \<and> length f \<le> 1514"
  shows "\<exists>s'. pump frames s = Some s' \<and> net_ok s'"
proof -
  obtain s1 where s1: "poll frames s = Some s1" "net_ok s1" using poll_ok [OF assms] by blast
  then have "tcp_ok s1" by (simp add: net_ok_def)
  then show ?thesis using check_retransmit_total net_ok_tcp [OF s1(2)] s1(1) by (fastforce simp: pump_def)
qed

lemma net_ok_time: "net_ok s \<Longrightarrow> net_ok (s\<lparr>now_ms := t\<rparr>)"
  by (simp add: net_ok_def tcp_ok_def)

lemma wait_established_ok:
  assumes "net_ok s" and "\<forall>(now, frames)\<in>set turns. \<forall>f\<in>set frames. 42 \<le> length f \<and> length f \<le> 1514"
  shows "\<exists>b s'. wait_established idx last_syn turns s = Some (b, s') \<and> net_ok s'"
  using assms
proof (induction turns arbitrary: last_syn s)
  case (Cons q turns)
  obtain now frames where q: "q = (now, frames)" by force
  have ok: "net_ok (s\<lparr>now_ms := now\<rparr>)" using Cons.prems(1) by (rule net_ok_time)
  then have t: "tcp_ok (s\<lparr>now_ms := now\<rparr>)" by (simp add: net_ok_def)
  obtain b s2 where s2: "tcp_send (tcp_input DEPTH) idx FLAG_SYN [] (s\<lparr>now_ms := now\<rparr>) = Some (b, s2)" "net_ok s2"
    using tcp_send_seq_total [OF takes_any t] net_ok_tcp [OF ok] unfolding tcp_send_def by blast
  have "\<exists>s3. pump frames t = Some s3 \<and> net_ok s3" if "net_ok t" for t
    using pump_ok [OF that] Cons.prems(2) q by simp
  then obtain s3 s4 where "pump frames s2 = Some s3" "net_ok s3" "pump frames (s\<lparr>now_ms := now\<rparr>) = Some s4" "net_ok s4"
    using s2(2) ok by blast
  then show ?case using Cons.IH Cons.prems s2(1) q by (simp add: Let_def) blast
qed auto

section \<open>Ping\<close>

text \<open>A ping is answered: an ICMP echo request of up to 1472 bytes for this machine makes it send one
  frame back, to the sender's Ethernet and IP address, of type echo reply, with the same
  identifier, sequence number and data, and with valid IP and ICMP checksums.\<close>

theorem echo_reply:
  assumes "f = dmac @ smac @ [0x08, 0x00] @ ipv4_header len idf 1 src (OUR_IP s) @ [8, code, c1, c2] @ ident @ payload"
    and "length dmac = 6" and "length smac = 6" and "length idf = 4" and "length src = 4" and "length (OUR_IP s) = 4" and "length (OUR_MAC s) = 6"
    and "length ident = 4" and "length payload \<le> 1472" and "\<forall>r. nic_accepts s r"
  shows "\<exists>s' r. input_frame f s = Some s' \<and> TX_LOG s' = TX_LOG s @ [r] \<and> slice 0 6 r = smac \<and> slice 26 30 r = OUR_IP s \<and>
    slice 30 34 r = src \<and> r ! 34 = 0 \<and> drop 38 r = ident @ payload \<and> checksum (slice 14 34 r) = 0 \<and> checksum (drop 34 r) = 0"
proof -
  note F = ip_frame_fields [OF assms(1-6)]
  have parts: "f ! 34 = 8" "slice 38 42 f = ident" "drop 42 f = payload"
  proof -
    have "f ! 34 = drop 34 f ! 0" using F(1) by simp
    then show "f ! 34 = 8" by (simp only: F(7)) simp
    have d: "drop 38 f = drop 4 (drop 34 f)" "drop 42 f = drop 8 (drop 34 f)" by simp_all
    then show "slice 38 42 f = ident" "drop 42 f = payload" unfolding slice_def d F(7) using assms(8) by simp_all
  qed
  define s1 where "s1 = (if src \<noteq> replicate 4 0 then arp_learn src smac s else s)"
  have s1: "OUR_IP s1 = OUR_IP s" "OUR_MAC s1 = OUR_MAC s" "TX_LOG s1 = TX_LOG s" "nic_accepts s1 = nic_accepts s" by (simp_all add: s1_def)
  let ?cs = "ip_checksum ([0, 0, 0, 0] @ ident @ payload)"
  let ?len = "20 + 8 + of_nat (length payload) :: u16"
  define r where "r = build_icmp_reply s1 smac src ident payload"
  have r: "r = smac @ OUR_MAC s @ [0x08, 0x00] @ ipv4_header ?len [0, 0, 0, 0] 1 (OUR_IP s) src @ [0, 0] @ be16 ?cs @ ident @ payload"
    by (simp add: r_def build_icmp_reply_def s1)
  note R = ip_frame_fields [OF r assms(3,7) _ assms(6,5), simplified]
  have "input_frame f s = Some (snd (tx_route r s1))"
    using F parts assms(8,9) by (simp add: input_frame_def ip_input_def is_ours_def icmp_input_def Let_def s1_def [symmetric] r_def)
  moreover have "TX_LOG (snd (tx_route r s1)) = TX_LOG s @ [r]" using assms(10) s1 by (simp add: tx_route_def)
  moreover have "slice 0 6 r = smac" using assms(3) by (simp add: r slice_def)
  moreover have "r ! 34 = 0" "drop 38 r = ident @ payload"
  proof -
    have "r ! 34 = drop 34 r ! 0" using R(1) by simp
    then show "r ! 34 = 0" by (simp only: R(7)) simp
    have "drop 38 r = drop 4 (drop 34 r)" by simp
    then show "drop 38 r = ident @ payload" by (simp only: R(7)) (simp add: be16_def)
  qed
  moreover have "checksum (slice 14 34 r) = 0" unfolding R(8) by (rule ipv4_header_verifies) (use assms in simp_all)
  moreover have "checksum (drop 34 r) = 0"
    unfolding R(7) using checksum_verifies [of "[0, 0]" "ident @ payload"] assms(8,9) by (simp add: ip_checksum_eq)
  ultimately show ?thesis using R(5,6) by blast
qed

section \<open>Padding\<close>

text \<open>The length field of the IP header is not looked at: a bare acknowledgement in a frame padded to
  Ethernet's minimum of 60 bytes hands its six bytes of padding to the program as data.\<close>

lemma padding_becomes_data:
  assumes "net_ok s" and f: "f = dmac @ smac @ [0x08, 0x00] @ ipv4_header 40 idf 6 src (OUR_IP s) @ tcp_segment src p seq FLAG_ACK [] @ replicate 6 0"
    and l: "length dmac = 6" "length smac = 6" "length idf = 4" "length src = 4" "length (OUR_IP s) = 4"
    and "find_tuple s (c_remote_port p) (c_local_port p) src = Some i" and "c_state (conn_at s i) = ESTABLISHED"
    and "src \<noteq> OUR_IP s" and "src \<noteq> replicate 4 0" and "c_rx_len (conn_at s i) + 6 \<le> RX_BUF"
  shows "\<exists>s'. input_frame f s = Some s' \<and> received (conn_at s' i) = received (conn_at s i) @ replicate 6 0"
proof -
  note F = ip_frame_fields [OF f l]
  define s1 where "s1 = arp_learn src smac s"
  have ok: "tcp_ok s1" using arp_learn_ok [OF assms(1) l(2)] by (simp add: s1_def net_ok_def)
  have s1: "CONNS s1 = CONNS s" "OUR_IP s1 = OUR_IP s" by (simp_all add: s1_def)
  have ft: "find_tuple s1 (c_remote_port p) (c_local_port p) src = Some i" using assms(8) s1(1) by (simp add: find_tuple_def)
  obtain cs where cs: "length cs = 2" "tcp_segment src p seq FLAG_ACK [] = tcp_header p seq FLAG_ACK cs @ []" by (rule tcp_segment_header)
  have fl: "FLAG_ACK AND FLAG_RST = 0" "FLAG_ACK AND FLAG_FIN = 0" "FLAG_ACK AND FLAG_ACK \<noteq> 0" by (simp_all add: flag_defs)
  obtain s' where "tcp_input DEPTH src smac (tcp_header p seq FLAG_ACK cs @ replicate 6 0) s1 = Some s'"
    "received (conn_at s' i) = received (conn_at s1 i) @ replicate 6 0"
    by (rule established_stores [where s = s1 and payload = "replicate 6 0" and seq = seq, OF ok ft _ _ _ _ l(4,2) cs(1) fl])
      (use assms(9,10,12) s1 in simp_all)
  then show ?thesis using F cs(2) assms(11) s1(1)
    by (simp add: input_frame_def ip_input_def is_ours_def Let_def s1_def [symmetric])
qed

section \<open>A concrete machine\<close>

definition demo_net :: net where
  "demo_net = \<lparr>CONNS = replicate MAX_CONNS CONN_EMPTY, EPHEMERAL = 0, ISN = 100, OUR_IP = [10, 0, 2, 15], OUR_MAC = replicate 6 1,
     now_ticks = 0, now_ms = 0, nic_accepts = (\<lambda>_. True), TX_LOG = [],
     ARP_ENTRIES = replicate ARP_CACHE \<lparr>ae_ip = replicate 4 0, ae_mac = replicate 6 0, ae_valid = False\<rparr>, ARP_VICTIM = 0,
     OUR_GATEWAY = [10, 0, 2, 2], OUR_NETMASK = [255, 255, 255, 0], OUR_DNS = [10, 0, 2, 3], IP_ID = 0, RX_VALID = False,
     RX_SRC_IP = replicate 4 0, RX_SRC_MAC = replicate 6 0, RX_SPORT = 0, RX_DPORT = 0, RX_LEN = 0, UDP_RX_BUF = replicate UDP_BUF 0\<rparr>"

lemma demo_net_sel:
  "OUR_IP demo_net = [10, 0, 2, 15]" "OUR_MAC demo_net = replicate 6 1" "nic_accepts demo_net = (\<lambda>_. True)" "length (UDP_RX_BUF demo_net) = UDP_BUF"
  "length (ARP_ENTRIES demo_net) = ARP_CACHE" "TX_LOG demo_net = []"
  by (simp_all add: demo_net_def)

lemma demo_net_ok: "net_ok demo_net"
  by (simp add: net_ok_def demo_net_def tcp_ok_def MAX_CONNS_def ARP_CACHE_def)


theorem udp_roundtrip_witness:
  "\<exists>b'. input_frame (udp_frame demo_net [10, 0, 2, 3] (replicate 6 1) [10, 0, 2, 15] 53 1024 [7, 8, 9]) demo_net = Some b' \<and> rx_payload b' = [7, 8, 9]"
proof -
  have "hd [10, 0, 2, 3] \<noteq> hd (replicate 4 (0 :: u8))" by simp
  then have "[10, 0, 2, 3] \<noteq> replicate 4 (0 :: u8)" by metis
  then show ?thesis
    using udp_roundtrip [OF refl, of "[7, 8, 9]" "[10, 0, 2, 3]" "replicate 6 1" demo_net demo_net 53 1024]
    by (auto simp: demo_net_sel)
qed

theorem echo_reply_witness:
  "\<exists>s' r. input_frame (replicate 6 1 @ replicate 6 2 @ [0x08, 0x00] @ ipv4_header 29 [0, 0, 0, 0] 1 [10, 0, 2, 2] [10, 0, 2, 15] @ [8, 0, 0, 0] @ [1, 2, 3, 4] @ [5]) demo_net = Some s' \<and>
     TX_LOG s' = [r] \<and> drop 38 r = [1, 2, 3, 4, 5]"
  using echo_reply [OF refl, of "replicate 6 1" "replicate 6 2" "[0, 0, 0, 0]" "[10, 0, 2, 2]" demo_net "[1, 2, 3, 4]" "[5]" 29 0 0 0]
  by (auto simp: demo_net_sel)

end
