(* ===== verification/Dns.thy ===== *)
theory Dns
  imports Net
begin

text \<open>
  The resolver, \<open>kernel/src/driver/dns.rs\<close>: encoding a name into labels, the query, and the search of
  the answers of a reply for an address, over the UDP layer of \<open>Net\<close>.

  A function that can panic has an outer \<open>option\<close>, \<open>None\<close> for the panic. A waiting loop takes one
  entry per turn until its deadline: the time it reads, the frames the card hands over, and the
  polls of an address resolution for a repeated query. Serial output is left out.
\<close>

section \<open>Names\<close>

definition DNS_PORT :: u16 where "DNS_PORT = 53"
definition DNS_MAX :: nat where "DNS_MAX = 512"

text \<open>One turn of the loop of \<open>encode_name\<close> at index \<open>i\<close> with the length of the current label; the bytes
  written so far stand for \<open>out[..pos]\<close>. The buffer has \<open>cap\<close> bytes. Writing \<open>out[pos]\<close> panics
  when the buffer is full.\<close>

function encode_loop :: "bytes \<Rightarrow> nat \<Rightarrow> nat \<Rightarrow> nat \<Rightarrow> bytes \<Rightarrow> bytes option option" where
  "encode_loop name cap i label out =
     (if i > length name then Some None
      else let fin = (i = length name); c = (if fin then 0 else name ! i) in
        if fin \<or> c = 0x2E then
          if length out + 1 + label > cap then Some None
          else if label = 0 \<and> \<not> fin then Some None
          else let out1 = out @ [of_nat label] @ take label (drop (i - label) name) in
            if fin then (if length out1 \<ge> cap then None else Some (Some (out1 @ [0])))
            else encode_loop name cap (i + 1) 0 out1
        else encode_loop name cap (i + 1) (label + 1) out)"
  by pat_completeness auto
termination by (relation "measure (\<lambda>(name, cap, i, label, out). Suc (length name) - i)") auto

declare encode_loop.simps [simp del]

definition encode_name :: "bytes \<Rightarrow> nat \<Rightarrow> bytes option option" where
  "encode_name name cap = encode_loop name cap 0 0 []"

definition rd16 :: "bytes \<Rightarrow> nat \<Rightarrow> u16 option" where
  "rd16 pkt off = (if off + 1 < length pkt then Some (u16_from (pkt ! off) (pkt ! (off + 1))) else None)"

function read_qname_loop :: "bytes \<Rightarrow> nat \<Rightarrow> nat \<Rightarrow> nat option" where
  "read_qname_loop pkt off tot =
     (if off \<ge> length pkt then None
      else let len = pkt ! off in
        if len = 0 then Some (tot + 1)
        else if len AND 0xC0 = 0xC0 then Some (tot + 2)
        else read_qname_loop pkt (off + (1 + unat len)) (tot + (1 + unat len)))"
  by pat_completeness auto
termination by (relation "measure (\<lambda>(pkt, off, tot). length pkt - off)") auto

declare read_qname_loop.simps [simp del]

definition read_qname_len :: "bytes \<Rightarrow> nat \<Rightarrow> nat option" where
  "read_qname_len pkt off = read_qname_loop pkt off 0"

section \<open>Queries\<close>

definition next_dns_id :: "u16 \<Rightarrow> u16 \<Rightarrow> u16" where
  "next_dns_id t i = i + 1 + t"

definition dns_query :: "u16 \<Rightarrow> bytes \<Rightarrow> bytes" where
  "dns_query i qname = be16 i @ [0x01, 0x00, 0x00, 0x01] @ replicate 6 0 @ qname @ be16 1 @ be16 1"

section \<open>Replies\<close>

definition default_0 :: "nat option \<Rightarrow> nat" where
  "default_0 x = (case x of Some n \<Rightarrow> n | None \<Rightarrow> 0)"

primrec parse_answers :: "bytes \<Rightarrow> nat \<Rightarrow> nat \<Rightarrow> bytes option option" where
  "parse_answers pl 0 off = Some None"
| "parse_answers pl (Suc n) off =
     (if off + 10 > length pl then Some None
      else let t = pl ! off;
               name_skip = (if t AND 0xC0 = 0xC0 then 2 else default_0 (read_qname_len pl off));
               rr = off + name_skip
           in if rr + 10 > length pl then Some None
              else do { rtype \<leftarrow> rd16 pl rr; rdlen \<leftarrow> rd16 pl (rr + 8);
                        let rr = rr + 10; rdlen = unat rdlen in
                        if rtype = 1 \<and> rdlen = 4 \<and> rr + 4 \<le> length pl then Some (Some (slice rr (rr + 4) pl))
                        else parse_answers pl n (rr + rdlen) })"

text \<open>What \<open>resolve\<close> does with a pending datagram: keep it and go on, drop it and go on, or return.\<close>

datatype verdict = Keep | Clear | Answer bytes

definition dns_reply :: "u16 \<Rightarrow> bytes \<Rightarrow> verdict option" where
  "dns_reply dns_id pl =
     (if length pl < 12 then Some Keep
      else do { i \<leftarrow> rd16 pl 0;
                if i \<noteq> dns_id then Some Clear
                else do { ancount \<leftarrow> rd16 pl 6;
                          if ancount = 0 then Some Clear
                          else case read_qname_len pl 12 of
                            None \<Rightarrow> Some Keep
                          | Some qlen \<Rightarrow>
                              map_option (\<lambda>r. case r of Some ip \<Rightarrow> Answer ip | None \<Rightarrow> Keep)
                                (parse_answers pl (unat ancount) (12 + qlen + 4)) } })"

fun dns_wait :: "bytes \<Rightarrow> u16 \<Rightarrow> u16 \<Rightarrow> bytes \<Rightarrow> u64 \<Rightarrow> (u64 \<times> bytes list \<times> bytes list list) list \<Rightarrow> net \<Rightarrow>
    (bytes option \<times> net) option" where
  "dns_wait dns_ip dns_id src_port query last_send [] s = Some (None, s)"
| "dns_wait dns_ip dns_id src_port query last_send ((now, frames, arp) # turns) s =
     do { s1 \<leftarrow> poll frames (s\<lparr>now_ms := now\<rparr>);
          (lst, s2) \<leftarrow> (if now - last_send \<ge> 1000
                        then map_option (\<lambda>(_, s2). (now, s2)) (udp_send arp (OUR_IP s1) dns_ip src_port DNS_PORT query s1)
                        else Some (last_send, s1));
          if \<not> RX_VALID s2 then dns_wait dns_ip dns_id src_port query lst turns s2
          else do { v \<leftarrow> dns_reply dns_id (rx_payload s2);
                    case v of
                      Answer ip \<Rightarrow> Some (Some ip, s2)
                    | Keep \<Rightarrow> dns_wait dns_ip dns_id src_port query lst turns s2
                    | Clear \<Rightarrow> dns_wait dns_ip dns_id src_port query lst turns (rx_clear s2) } }"

text \<open>\<open>resolve\<close>: \<open>t1\<close> and \<open>t2\<close> are the clock bits mixed into the query id and the source port, \<open>arp\<close> the
  polls while the first query resolves the server's Ethernet address. The second result is
  \<open>DNS_NEXT_ID\<close>.\<close>

definition dns_resolve :: "u16 \<Rightarrow> u16 \<Rightarrow> bytes list list \<Rightarrow> (u64 \<times> bytes list \<times> bytes list list) list \<Rightarrow> bytes \<Rightarrow> u16 \<Rightarrow> net \<Rightarrow>
    (bytes option \<times> u16 \<times> net) option" where
  "dns_resolve t1 t2 arp turns name next_id s =
     do { q \<leftarrow> encode_name name 255;
          case q of None \<Rightarrow> Some (None, next_id, s)
          | Some qname \<Rightarrow>
              if OUR_DNS s = replicate 4 0 then Some (None, next_id, s)
              else let dns_ip = OUR_DNS s; dns_id = next_dns_id t1 next_id; r = next_dns_id t2 dns_id;
                       src_port = 0x8000 OR (r AND 0x7FFF); query = dns_query dns_id qname
                   in do { (ok, s1) \<leftarrow> udp_send arp (OUR_IP s) dns_ip src_port DNS_PORT query (rx_clear s);
                           if \<not> ok then Some (None, r, s1)
                           else map_option (\<lambda>(a, s2). (a, r, s2))
                                  (dns_wait dns_ip dns_id src_port query (now_ms s1) turns s1) } }"

section \<open>Names in wire format\<close>

fun dotted :: "bytes list \<Rightarrow> bytes" where
  "dotted [] = []"
| "dotted [l] = l"
| "dotted (l # ls) = l @ 0x2E # dotted ls"

definition wire_name :: "bytes list \<Rightarrow> bytes" where
  "wire_name ls = concat (map (\<lambda>l. of_nat (length l) # l) ls) @ [0]"

definition label_ok :: "bytes \<Rightarrow> bool" where
  "label_ok l \<longleftrightarrow> l \<noteq> [] \<and> 0x2E \<notin> set l"

lemma encode_loop_label:
  assumes "name = pre @ l @ post" and "0x2E \<notin> set l" and "j \<le> length l"
  shows "encode_loop name cap (length pre + j) j out = encode_loop name cap (length pre + length l) (length l) out"
  using assms(3)
proof (induction "length l - j" arbitrary: j)
  case (Suc k)
  then have j: "j < length l" by simp
  then have "name ! (length pre + j) = l ! j" "length pre + j < length name"
    using assms(1) by (simp_all add: nth_append)
  moreover have "l ! j \<noteq> 0x2E" using assms(2) j nth_mem by metis
  ultimately have "encode_loop name cap (length pre + j) j out = encode_loop name cap (length pre + Suc j) (Suc j) out"
    by (subst encode_loop.simps) simp
  also have "\<dots> = encode_loop name cap (length pre + length l) (length l) out"
    by (rule Suc.hyps(1)) (use Suc.hyps(2) j in simp_all)
  finally show ?case .
qed simp

lemma encode_loop_dotted:
  assumes "name = pre @ dotted ls" and "ls \<noteq> []" and "\<forall>l\<in>set ls. label_ok l"
    and "length out + length (dotted ls) + 2 \<le> cap"
  shows "encode_loop name cap (length pre) 0 out = Some (Some (out @ wire_name ls))"
  using assms
proof (induction ls arbitrary: pre out rule: dotted.induct)
  case (2 l)
  have l: "encode_loop name cap (length pre) 0 out = encode_loop name cap (length pre + length l) (length l) out"
    using encode_loop_label [of name pre l "[]" 0 cap out] 2 by (simp add: label_ok_def)
  show ?case unfolding l using 2 by (subst encode_loop.simps) (simp add: wire_name_def)
next
  case (3 l m ls)
  let ?rest = "dotted (m # ls)"
  have l: "encode_loop name cap (length pre) 0 out = encode_loop name cap (length pre + length l) (length l) out"
    using encode_loop_label [of name pre l "0x2E # ?rest" 0 cap out] 3 by (simp add: label_ok_def)
  also have "\<dots> = encode_loop name cap (length (pre @ l @ [0x2E])) 0 (out @ of_nat (length l) # l)"
    using 3 by (subst encode_loop.simps) (simp add: label_ok_def nth_append)
  also have "\<dots> = Some (Some ((out @ of_nat (length l) # l) @ wire_name (m # ls)))"
    by (rule 3) (use 3 in auto)
  finally show ?case by (simp add: wire_name_def)
qed simp

lemma length_wire_name: "ls \<noteq> [] \<Longrightarrow> length (wire_name ls) = length (dotted ls) + 2"
  by (induction ls rule: dotted.induct) (auto simp: wire_name_def)

lemma encode_loop_panics:
  assumes "encode_loop name cap i label out = None" and "length out + label = i"
  shows "length name + 1 = cap"
  using assms
proof (induction name cap i label out rule: encode_loop.induct)
  case (1 name cap i label out)
  show ?case
    using 1 by (subst (asm) (3) encode_loop.simps) (auto simp: Let_def split: if_splits)
qed

lemma unat_numeral_192: "unat (0xC0 :: u8) = 192"
  by simp

lemma not_pointer: "unat (b :: u8) < 192 \<Longrightarrow> b AND 0xC0 \<noteq> 0xC0"
  by (metis not_less unat_numeral_192 word_and_le2 word_le_nat_alt)

lemma read_qname_wire:
  assumes "\<forall>l\<in>set ls. l \<noteq> [] \<and> length l < 192"
  shows "read_qname_loop (pre @ wire_name ls @ post) (length pre) t = Some (t + length (wire_name ls))"
  using assms
proof (induction ls arbitrary: pre t)
  case (Cons l ls)
  have u: "unat (of_nat (length l) :: u8) = length l" using Cons.prems by (simp add: unat_of_nat take_bit_nat_eq_self)
  have "(of_nat (length l) :: u8) \<noteq> 0" using u Cons.prems by (metis length_0_conv list.set_intros(1) unat_0)
  moreover have "(of_nat (length l) :: u8) AND 0xC0 \<noteq> 0xC0" using u Cons.prems by (intro not_pointer) simp
  moreover have "pre @ wire_name (l # ls) @ post = (pre @ of_nat (length l) # l) @ wire_name ls @ post"
    by (simp add: wire_name_def)
  ultimately show ?case
    using Cons.IH [of "pre @ of_nat (length l) # l" "t + (1 + length l)"] Cons.prems u
    by (subst read_qname_loop.simps) (simp add: nth_append wire_name_def)
qed (subst read_qname_loop.simps, simp add: wire_name_def nth_append)

section \<open>Safety\<close>

lemma rd16_Some: "off + 1 < length pkt \<Longrightarrow> \<exists>v. rd16 pkt off = Some v"
  by (simp add: rd16_def)

lemma parse_answers_total: "\<exists>r. parse_answers pl n off = Some r"
proof (induction n arbitrary: off)
  case (Suc n)
  show ?case using Suc by (auto simp: Let_def rd16_def)
qed simp

lemma dns_reply_total: "\<exists>v. dns_reply i pl = Some v"
  using parse_answers_total
  by (auto simp: dns_reply_def rd16_def split: option.split)

abbreviation frames_ok :: "bytes list \<Rightarrow> bool" where
  "frames_ok fs \<equiv> \<forall>f\<in>set fs. 42 \<le> length f \<and> length f \<le> 1514"

lemma resolve_loop_ok:
  assumes "net_ok s" and "\<forall>fs\<in>set polls. frames_ok fs"
  shows "\<exists>m s'. resolve_loop ip polls s = Some (m, s') \<and> net_ok s'"
  using assms
proof (induction polls arbitrary: s)
  case (Cons fs rest)
  obtain s1 where "poll fs s = Some s1" "net_ok s1" using poll_ok [of s fs] Cons.prems by auto
  then show ?case using Cons.IH [of s1] Cons.prems(2) by (auto split: option.split)
qed simp

lemma send_udp_ok: "net_ok s \<Longrightarrow> net_ok (snd (send_udp src m dst sp dp pl s))"
  using tx_route_ok [of "s\<lparr>IP_ID := IP_ID s + 1\<rparr>"]
  by (simp add: send_udp_def Let_def net_ok_def tcp_ok_def)

lemma resolve_ok:
  assumes "net_ok s" and "\<forall>fs\<in>set polls. frames_ok fs"
  shows "\<exists>m s'. resolve polls ip s = Some (m, s') \<and> net_ok s'"
proof -
  obtain ok s1 where r: "send_arp_request ip s = (ok, s1)" by force
  then have "net_ok s1" using tx_route_ok [OF assms(1)] by (metis send_arp_request_def snd_conv)
  then show ?thesis using assms resolve_loop_ok [of s1 polls ip] r
    by (auto simp: resolve_def split: option.split)
qed

lemma udp_send_ok:
  assumes "net_ok s" and "\<forall>fs\<in>set polls. frames_ok fs"
  shows "\<exists>b s'. udp_send polls src dst sp dp pl s = Some (b, s') \<and> net_ok s'"
proof -
  obtain m s1 where "resolve polls (if in_subnet s dst then dst else OUR_GATEWAY s) s = Some (m, s1)" "net_ok s1"
    using resolve_ok [OF assms] by blast
  then show ?thesis using assms(1) send_udp_ok by (auto simp: udp_send_def) (metis prod.collapse)+
qed

definition turn_ok :: "u64 \<times> bytes list \<times> bytes list list \<Rightarrow> bool" where
  "turn_ok t \<longleftrightarrow> frames_ok (fst (snd t)) \<and> (\<forall>fs\<in>set (snd (snd t)). frames_ok fs)"

lemma net_ok_clear: "net_ok s \<Longrightarrow> net_ok (rx_clear s)"
  by (simp add: net_ok_def rx_clear_def tcp_ok_def)

lemma dns_wait_ok:
  assumes "net_ok s" and "\<forall>t\<in>set turns. turn_ok t"
  shows "\<exists>a s'. dns_wait ip i port q lst turns s = Some (a, s') \<and> net_ok s'"
  using assms
proof (induction turns arbitrary: lst s)
  case (Cons t turns)
  obtain now frames arp where t: "t = (now, frames, arp)" using prod_cases3 by blast
  have f: "frames_ok frames" "\<forall>fs\<in>set arp. frames_ok fs" using Cons.prems(2) t by (simp_all add: turn_ok_def)
  obtain s1 where s1: "poll frames (s\<lparr>now_ms := now\<rparr>) = Some s1" "net_ok s1"
    using poll_ok [OF net_ok_time f(1)] Cons.prems(1) by blast
  obtain b s2 where s2: "udp_send arp (OUR_IP s1) ip port DNS_PORT q s1 = Some (b, s2)" "net_ok s2"
    using udp_send_ok [OF s1(2) f(2)] by blast
  have step: "\<exists>a s'. (if \<not> RX_VALID u then dns_wait ip i port q l turns u
      else do { v \<leftarrow> dns_reply i (rx_payload u);
                case v of Answer ip' \<Rightarrow> Some (Some ip', u)
                | Keep \<Rightarrow> dns_wait ip i port q l turns u
                | Clear \<Rightarrow> dns_wait ip i port q l turns (rx_clear u) }) = Some (a, s') \<and> net_ok s'"
    if "net_ok u" for u l
  proof -
    obtain v where "dns_reply i (rx_payload u) = Some v" using dns_reply_total by blast
    then show ?thesis using Cons.IH [of u] Cons.IH [of "rx_clear u"] Cons.prems(2) that net_ok_clear
      by (auto split: verdict.split)
  qed
  show ?case using s1 s2 step [of s2 now] step [of s1 lst] by (auto simp: t)
qed simp

section \<open>Properties\<close>

text \<open>C31: Names go to the wire and back: a name of nonempty labels shorter than 192 bytes, 253 bytes at most in
  all, is encoded as its labels, each after its length, and a final 0, and \<open>read_qname_len\<close>, which
  the parser of replies uses to step over a name, skips exactly these bytes wherever they stand.\<close>

theorem dns_name_roundtrip:
  assumes "ls \<noteq> []" and "\<forall>l\<in>set ls. label_ok l \<and> length l < 192" and "length (dotted ls) \<le> 253"
  shows "encode_name (dotted ls) 255 = Some (Some (wire_name ls)) \<and>
    read_qname_len (pre @ wire_name ls @ post) (length pre) = Some (length (wire_name ls)) \<and>
    length (wire_name ls) = length (dotted ls) + 2"
proof -
  have "encode_loop (dotted ls) 255 (length ([] :: bytes)) 0 [] = Some (Some ([] @ wire_name ls))"
    by (rule encode_loop_dotted) (use assms in auto)
  moreover have "read_qname_loop (pre @ wire_name ls @ post) (length pre) 0 = Some (0 + length (wire_name ls))"
    by (rule read_qname_wire) (use assms(2) in \<open>auto simp: label_ok_def\<close>)
  ultimately show ?thesis using length_wire_name [OF assms(1)] by (simp add: encode_name_def read_qname_len_def)
qed

text \<open>\<open>resolve\<close> is safe: whatever frames arrive while it waits, and whatever bytes a reply holds, it
  returns without a panic or an access outside the datagram and leaves the network state well
  formed, for every name that does not have exactly 254 bytes.\<close>

theorem dns_resolve_safe:
  assumes "net_ok s" and "\<forall>fs\<in>set arp. frames_ok fs" and "\<forall>t\<in>set turns. turn_ok t" and "length name \<noteq> 254"
  shows "\<exists>a r s'. dns_resolve t1 t2 arp turns name next_id s = Some (a, r, s') \<and> net_ok s'"
proof -
  have "encode_name name 255 \<noteq> None" using encode_loop_panics [of name 255 0 0 "[]"] assms(4) by (auto simp: encode_name_def)
  then obtain q where q: "encode_name name 255 = Some q" by blast
  let ?i = "next_dns_id t1 next_id"
  let ?port = "0x8000 OR (next_dns_id t2 ?i AND 0x7FFF)" and ?q = "dns_query ?i (the q)"
  obtain b s1 where s1: "udp_send arp (OUR_IP s) (OUR_DNS s) ?port DNS_PORT ?q (rx_clear s) = Some (b, s1)" "net_ok s1"
    using udp_send_ok [OF net_ok_clear [OF assms(1)] assms(2)] by blast
  obtain a s2 where "dns_wait (OUR_DNS s) ?i ?port ?q (now_ms s1) turns s1 = Some (a, s2)" "net_ok s2"
    using dns_wait_ok [OF s1(2) assms(3)] by blast
  then show ?thesis using q s1 assms(1)
    by (cases q; cases b) (auto simp: dns_resolve_def Let_def)
qed

lemma rd16_append: "rd16 (pre @ u # v # post) (length pre) = Some (u16_from u v)"
  by (simp add: rd16_def nth_append)

text \<open>A resource record for the name of the question: type, class and lifetime, data.\<close>

definition record_bytes :: "u16 \<times> bytes \<times> bytes \<Rightarrow> bytes" where
  "record_bytes r = [0xC0, 0x0C] @ be16 (fst r) @ fst (snd r) @ be16 (of_nat (length (snd (snd r)))) @ snd (snd r)"

definition record_ok :: "u16 \<times> bytes \<times> bytes \<Rightarrow> bool" where
  "record_ok r \<longleftrightarrow> length (fst (snd r)) = 6 \<and> length (snd (snd r)) < 65536"

lemma be16_nth: "be16 v ! 0 = ucast (drop_bit 8 v)" "be16 v ! Suc 0 = ucast v"
  by (simp_all add: be16_def)

lemma rd16_be16: "rd16 (pre @ be16 v @ post) (length pre) = Some v"
  using u16_from_be16 [of v] by (simp add: rd16_def nth_append)

lemma parse_pointer:
  assumes "off + 10 \<le> length p" and "p ! off AND 0xC0 = 0xC0" and "rr = off + 2" and "rr + 10 \<le> length p"
    and "rd16 p rr = Some ty" and "rd16 p (rr + 8) = Some dl"
  shows "parse_answers p (Suc n) off =
    (if ty = 1 \<and> unat dl = 4 \<and> rr + 10 + 4 \<le> length p then Some (Some (slice (rr + 10) (rr + 10 + 4) p))
     else parse_answers p n (rr + 10 + unat dl))"
proof -
  have "\<not> off + 10 > length p" "\<not> rr + 10 > length p" using assms(1,4) by simp_all
  then show ?thesis
    by (simp only: parse_answers.simps Let_def assms(2,5,6) assms(3) [symmetric] bind.simps if_True if_False simp_thms)
qed

lemma parse_record:
  assumes "record_ok (ty, mid, data)"
  shows "parse_answers (pre @ record_bytes (ty, mid, data) @ post) (Suc n) (length pre) =
    (if ty = 1 \<and> length data = 4 then Some (Some data)
     else parse_answers (pre @ record_bytes (ty, mid, data) @ post) n (length (pre @ record_bytes (ty, mid, data))))"
proof -
  define p where "p = pre @ record_bytes (ty, mid, data) @ post"
  let ?n = "of_nat (length data) :: u16" and ?k = "length pre"
  have l: "length mid = 6" "unat ?n = length data"
    using assms by (simp_all add: record_ok_def unat_of_nat take_bit_nat_eq_self)
  have t: "rd16 p (?k + 2) = Some ty"
    using rd16_be16 [of "pre @ [0xC0, 0x0C]" ty "mid @ be16 ?n @ data @ post"] by (simp add: p_def record_bytes_def)
  have d: "rd16 p (?k + 2 + 8) = Some ?n"
    using rd16_be16 [of "pre @ [0xC0, 0x0C] @ be16 ty @ mid" ?n "data @ post"] l(1)
    by (simp add: p_def record_bytes_def add.commute)
  have s: "slice (?k + 2 + 10) (?k + 2 + 10 + 4) p = data" if "length data = 4"
    using that l by (simp add: slice_def p_def record_bytes_def)
  have c: "p ! ?k = 0xC0" and len: "length p = ?k + 2 + 10 + length data + length post"
    using l(1) by (simp_all add: p_def record_bytes_def nth_append)
  have e: "length (pre @ record_bytes (ty, mid, data)) = ?k + 2 + 10 + length data"
    using l(1) by (simp add: record_bytes_def)
  have "parse_answers p (Suc n) ?k =
      (if ty = 1 \<and> length data = 4 then Some (Some data) else parse_answers p n (?k + 2 + 10 + length data))"
    using parse_pointer [OF _ _ refl _ t d, of n] s c l(2) by (simp add: len)
  then show ?thesis unfolding p_def [symmetric] e .
qed

lemma parse_records:
  assumes "\<forall>r\<in>set rs. record_ok r \<and> fst r \<noteq> 1" and "record_ok (1, mid, ip)" and "length ip = 4" and "length rs < n"
  shows "parse_answers (pre @ concat (map record_bytes rs) @ record_bytes (1, mid, ip) @ post) n (length pre) = Some (Some ip)"
  using assms(1,4)
proof (induction rs arbitrary: pre n)
  case Nil
  then obtain k where "n = Suc k" by (cases n) auto
  then show ?case using parse_record [OF assms(2)] assms(3) by simp
next
  case (Cons r rs)
  obtain k where k: "n = Suc k" using Cons.prems(2) by (cases n) auto
  obtain ty m d where r: "r = (ty, m, d)" using prod_cases3 by blast
  let ?rest = "concat (map record_bytes rs) @ record_bytes (1, mid, ip) @ post"
  have "parse_answers (pre @ record_bytes r @ ?rest) (Suc k) (length pre) =
      parse_answers ((pre @ record_bytes r) @ ?rest) k (length (pre @ record_bytes r))"
    using parse_record [of ty m d pre ?rest k] Cons.prems(1) r by simp
  also have "\<dots> = Some (Some ip)" by (rule Cons.IH) (use Cons.prems k in auto)
  finally show ?case using k by simp
qed

text \<open>A reply is understood: a datagram with the id of the query, any flags, the question, and answers
  among which is an address record, yields the address of the first such record; records of other
  types before it, such as aliases, are stepped over.\<close>

theorem dns_reply_answer:
  assumes "\<forall>l\<in>set ls. l \<noteq> [] \<and> length l < 192" and "length flags = 2" and "length counts = 4" and "length qtype = 4"
    and "\<forall>r\<in>set rs. record_ok r \<and> fst r \<noteq> 1" and "length mid = 6" and "length ip = 4" and "length rs < unat n"
  shows "dns_reply i (be16 i @ flags @ [0, 1] @ be16 n @ counts @ wire_name ls @ qtype @
     concat (map record_bytes rs) @ record_bytes (1, mid, ip) @ rest) = Some (Answer ip)"
proof -
  let ?h = "be16 i @ flags @ [0, 1] @ be16 n @ counts"
  let ?a = "concat (map record_bytes rs) @ record_bytes (1, mid, ip) @ rest"
  let ?p = "?h @ wire_name ls @ qtype @ ?a"
  have h: "length ?h = 12" using assms(2,3) by simp
  have "rd16 ?p 0 = Some i" using rd16_be16 [of "[]" i] by simp
  moreover have "rd16 ?p 6 = Some n"
    using rd16_be16 [of "be16 i @ flags @ [0, 1]" n "counts @ wire_name ls @ qtype @ ?a"] assms(2) by simp
  ultimately have r: "rd16 ?p 0 = Some i" "rd16 ?p 6 = Some n" by blast+
  have q: "read_qname_len ?p 12 = Some (length (wire_name ls))"
    using read_qname_wire [OF assms(1), of ?h "qtype @ ?a" 0] h by (simp add: read_qname_len_def)
  have "parse_answers ((?h @ wire_name ls @ qtype) @ ?a) (unat n) (length (?h @ wire_name ls @ qtype)) = Some (Some ip)"
    by (rule parse_records) (use assms in \<open>simp_all add: record_ok_def\<close>)
  moreover have "(?h @ wire_name ls @ qtype) @ ?a = ?p"
    "length (?h @ wire_name ls @ qtype) = 12 + length (wire_name ls) + 4" using h assms(4) by simp_all
  ultimately have "parse_answers ?p (unat n) (12 + length (wire_name ls) + 4) = Some (Some ip)" by (simp only:)
  moreover have "n \<noteq> 0" "12 \<le> length ?p" using assms(8) h by auto
  ultimately have "dns_reply i ?p = Some (Answer ip)"
    unfolding dns_reply_def r q by simp
  then show ?thesis by simp
qed

text \<open>The name length at which \<open>encode_name\<close> writes beyond its buffer, and the name of a machine
  with a final dot, which gets a second 0 byte that shifts the rest of the query.\<close>

lemma encode_name_panics:
  assumes "length l = 254" and "0x2E \<notin> set l"
  shows "encode_name l 255 = None"
proof -
  have "encode_name l 255 = encode_loop l 255 254 254 []"
    using encode_loop_label [of l "[]" l "[]" 0 255 "[]"] assms by (simp add: encode_name_def)
  then show ?thesis using assms by (subst (asm) encode_loop.simps) simp
qed

lemma final_dot_breaks: "encode_name [97, 0x2E] 255 = Some (Some [1, 97, 0, 0])"
  by code_simp

theorem dns_name_roundtrip_witness:
  "encode_name [97, 0x2E, 98, 99] 255 = Some (Some [1, 97, 2, 98, 99, 0]) \<and>
   read_qname_len ([9] @ [1, 97, 2, 98, 99, 0] @ [7]) 1 = Some 6"
  using dns_name_roundtrip [of "[[97], [98, 99]]" "[9]" "[7]"] by (simp add: label_ok_def wire_name_def)

theorem dns_resolve_safe_witness:
  "\<exists>a r s'. dns_resolve 5 6 [] [(10, [replicate 60 1], [[replicate 60 2]]), (2000, [], [])] [97, 0x2E, 98] 0x1234 demo_net = Some (a, r, s')"
proof -
  have "\<forall>t\<in>set [(10, [replicate 60 1], [[replicate 60 2]]), (2000, [], [])]. turn_ok t" by (simp add: turn_ok_def)
  from dns_resolve_safe [OF demo_net_ok _ this, of "[]" "[97, 0x2E, 98]" 5 6 "0x1234"] show ?thesis by auto
qed

theorem dns_reply_answer_witness:
  "dns_reply 7 (be16 7 @ [0x81, 0x80] @ [0, 1] @ be16 2 @ [0, 0, 0, 0] @ wire_name [[97], [98]] @ [0, 1, 0, 1] @
     record_bytes (5, [0, 1, 0, 0, 0, 60], [1, 99, 0]) @ record_bytes (1, [0, 1, 0, 0, 0, 60], [10, 0, 2, 3])) = Some (Answer [10, 0, 2, 3])"
  using dns_reply_answer [of "[[97], [98]]" "[0x81, 0x80]" "[0, 0, 0, 0]" "[0, 1, 0, 1]" "[(5, [0, 1, 0, 0, 0, 60], [1, 99, 0])]"
      "[0, 1, 0, 0, 0, 60]" "[10, 0, 2, 3]" 2 7 "[]"] by (simp add: record_ok_def)

end
