(* ===== verification/Http.thy ===== *)
theory Http
  imports Dns Vfs
begin

text \<open>
  The HTTP client, \<open>kernel/src/wget.rs\<close>: addresses of the form \<open>http://host:port/path\<close>, IPv4 literals, the
  request, receiving a reply (the end of the headers, the status, chunked bodies), redirections, and
  the fetch that ties them to the resolver, the TCP calls and the file system.

  Waiting loops run over the turns of the clock, as in \<open>Net\<close> and \<open>Dns\<close>: each turn holds the time it reads and the
  frames the card has received by then; the list ends at the deadline. What a fetch meets of time and
  frames is the record \<open>turns\<close>. The serial log is left out; the terminal is the field \<open>screen\<close>.
\<close>

section \<open>Addresses\<close>

definition HTTP_PORT :: u16 where "HTTP_PORT = 80"

definition is_dec :: "u8 \<Rightarrow> bool" where
  "is_dec c \<longleftrightarrow> 0x30 \<le> c \<and> c \<le> 0x39"

definition strip_scheme :: "bytes \<Rightarrow> bytes" where
  "strip_scheme url = (if length url > 7 \<and> take 7 url = ascii ''http://'' then drop 7 url else url)"

definition port_value :: "bytes \<Rightarrow> u32" where
  "port_value ps = fold (\<lambda>c v. v * 10 + ucast (c - 0x30)) ps 0"

definition split_port :: "bytes \<Rightarrow> bytes \<times> u16" where
  "split_port hostport =
     (case rposition (\<lambda>c. c = 0x3A) hostport of
        None \<Rightarrow> (hostport, HTTP_PORT)
      | Some cp \<Rightarrow>
          (let ps = drop (cp + 1) hostport; v = port_value ps in
           if ps \<noteq> [] \<and> list_all is_dec ps \<and> v > 0 \<and> v \<le> 65535 then (take cp hostport, ucast v) else (hostport, HTTP_PORT)))"

definition parse_url :: "bytes \<Rightarrow> bytes \<times> u16 \<times> bytes" where
  "parse_url url =
     (let u = strip_scheme url;
          (hostport, path) = (case position (\<lambda>c. c = 0x2F) u of Some pos \<Rightarrow> (take pos u, drop pos u) | None \<Rightarrow> (u, [0x2F]));
          (host, port) = split_port hostport
      in (host, port, path))"

text \<open>The loop of \<open>parse_ipv4\<close> over the bytes and a final dot: the numbers read, the value of the current one and
  its count of digits.\<close>

fun ipv4_loop :: "bytes \<Rightarrow> bytes \<Rightarrow> nat \<Rightarrow> nat \<Rightarrow> bytes option" where
  "ipv4_loop [] out val digits = Some out"
| "ipv4_loop (c # cs) out val digits =
     (if is_dec c
      then (let v = val * 10 + unat (c - 0x30) in
            if v > 255 \<or> digits + 1 > 3 then None else ipv4_loop cs out v (digits + 1))
      else if c = 0x2E
      then (if digits = 0 \<or> length out \<ge> 4 then None else ipv4_loop cs (out @ [of_nat val]) 0 0)
      else None)"

definition parse_ipv4 :: "bytes \<Rightarrow> bytes option" where
  "parse_ipv4 s = (case ipv4_loop (s @ [0x2E]) [] 0 0 of Some out \<Rightarrow> if length out = 4 then Some out else None | None \<Rightarrow> None)"

section \<open>The request\<close>

text \<open>The digits of the port from 10000 down, without leading zeros.\<close>

primrec port_digits :: "u16 list \<Rightarrow> bool \<Rightarrow> u16 \<Rightarrow> bytes" where
  "port_digits [] started port = []"
| "port_digits (dv # rest) started port =
     (let d = ucast (port div dv) :: u8 in
      if d \<noteq> 0 \<or> started \<or> dv = 1 then (0x30 + d) # port_digits rest True (port mod dv)
      else port_digits rest started (port mod dv))"

definition http_request :: "bytes \<Rightarrow> u16 \<Rightarrow> bytes \<Rightarrow> bytes" where
  "http_request host port path =
     take 511 (ascii ''GET '' @ path @ ascii '' HTTP/1.0'' @ [0x0D, 0x0A] @ ascii ''Host: '' @ host @
       (if port \<noteq> HTTP_PORT then 0x3A # port_digits [10000, 1000, 100, 10, 1] False port else []) @
       [0x0D, 0x0A] @ ascii ''Connection: close'' @ [0x0D, 0x0A, 0x0D, 0x0A])"

section \<open>The reply\<close>

definition header_end :: "bytes \<Rightarrow> nat" where
  "header_end raw = (case find_idx (length raw - 3) (\<lambda>i. take 4 (drop i raw) = [0x0D, 0x0A, 0x0D, 0x0A]) of Some i \<Rightarrow> i + 4 | None \<Rightarrow> 0)"

definition status_of :: "bytes \<Rightarrow> u16" where
  "status_of raw =
     (if length raw \<ge> 12 \<and> raw ! 0 = 0x48
      then fold (\<lambda>c v. if is_dec c then v * 10 + ucast (c - 0x30) else v) (take 3 (drop 9 raw)) 0 else 0)"

definition is_chunked :: "bytes \<Rightarrow> nat \<Rightarrow> bool" where
  "is_chunked raw hdr_end \<longleftrightarrow> find_idx (hdr_end - 7) (\<lambda>i. map (\<lambda>c. c OR 0x20) (take 7 (drop i raw)) = ascii ''chunked'') \<noteq> None"

text \<open>The length of a chunk: hexadecimal digits up to a semicolon, other bytes are passed over; the value
  wraps.\<close>

fun chunk_len :: "bytes \<Rightarrow> u64 \<Rightarrow> u64" where
  "chunk_len [] n = n"
| "chunk_len (c # cs) n =
     (if is_dec c then chunk_len cs (n * 16 + ucast (c - 0x30))
      else if 0x61 \<le> c OR 0x20 \<and> c OR 0x20 \<le> 0x66 then chunk_len cs (n * 16 + ucast ((c OR 0x20) - 0x61 + 10))
      else if c = 0x3B then n else chunk_len cs n)"

text \<open>The end of the line that starts at \<open>p\<close>: its carriage return, or the last byte.\<close>

definition line_stop :: "bytes \<Rightarrow> nat \<Rightarrow> nat" where
  "line_stop body p =
     p + (case find_idx (length body - 1 - p) (\<lambda>i. body ! (p + i) = 0x0D \<and> body ! (p + i + 1) = 0x0A) of
            Some i \<Rightarrow> i | None \<Rightarrow> length body - 1 - p)"

function dechunk :: "bytes \<Rightarrow> nat \<Rightarrow> nat \<Rightarrow> bytes \<Rightarrow> bytes" where
  "dechunk body cap p out =
     (if p \<ge> length body \<or> length out \<ge> cap then out
      else let e = line_stop body p in
        if e + 1 \<ge> length body then out
        else let len = unat (chunk_len (take (e - p) (drop p body)) 0); q = e + 2 in
          if len = 0 then out
          else let tk = min (min len (length body - q)) (cap - length out); out1 = out @ take tk (drop q body) in
            if tk < len then out1
            else dechunk body cap (if q + len + 1 < length body \<and> body ! (q + len) = 0x0D then q + len + 2 else q + len) out1)"
  by pat_completeness auto
termination
proof (relation "measure (\<lambda>(body, cap, p, out). length body - p)", goal_cases)
  case (2 body cap p out e len q tk out1)
  have "p \<le> e" unfolding 2(2) by (simp add: line_stop_def)
  then have "p < q" unfolding 2(5) by simp
  then have "p < (if q + len + 1 < length body \<and> body ! (q + len) = 0x0D then q + len + 2 else q + len)" by (cases "q + len + 1 < length body \<and> body ! (q + len) = 0x0D") simp_all
  moreover have "p < length body" using 2(1) by simp
  ultimately show ?case by (simp only: in_measure prod.case diff_less_mono2)
qed simp

declare dechunk.simps [simp del]

text \<open>A reply as it was received: the body (as much as the buffer of \<open>cap\<close> bytes holds), the status, and the headers.\<close>

definition parse_reply :: "bytes \<Rightarrow> nat \<Rightarrow> nat \<Rightarrow> bytes \<times> u16 \<times> bytes" where
  "parse_reply raw cap hdr_cap =
     (let hdr_end = header_end raw in
      if raw = [] \<or> hdr_end = 0 then ([], 0, [])
      else let body = drop hdr_end raw in
        (if is_chunked raw hdr_end then dechunk body cap 0 [] else take cap body, status_of raw, take (min hdr_end hdr_cap) raw))"

section \<open>Redirections\<close>

definition blank_char :: "u8 \<Rightarrow> bool" where
  "blank_char c \<longleftrightarrow> c = 0x20 \<or> c = 9"

definition find_location :: "bytes \<Rightarrow> bytes option" where
  "find_location hdr =
     (case find_idx (length hdr - 9)
             (\<lambda>i. map (\<lambda>c. c OR 0x20) (take 8 (drop i hdr)) = ascii ''location'' \<and> hdr ! (i + 8) = 0x3A) of
        None \<Rightarrow> None
      | Some i \<Rightarrow>
          (let v = take 255 (takeWhile (\<lambda>c. c \<noteq> 0x0D \<and> c \<noteq> 0x0A) (dropWhile blank_char (drop (i + 9) hdr)))
           in Some (rev (dropWhile blank_char (rev v)))))"

definition resolve_redirect :: "bytes \<Rightarrow> bytes \<Rightarrow> bytes" where
  "resolve_redirect base loc =
     (if length loc \<ge> 7 \<and> take 7 loc = ascii ''http://'' then take 256 loc
      else if loc \<noteq> [] \<and> loc ! 0 = 0x2F
      then (let skip = (if length base > 7 \<and> take 7 base = ascii ''http://'' then 7 else 0);
                host_end = skip + length (takeWhile (\<lambda>c. c \<noteq> 0x2F) (drop skip base))
            in take 256 (take host_end base @ loc))
      else take 256 loc)"

section \<open>Fetching\<close>

record turns =
  t_id :: u16
  t_port :: u16
  dns_arp :: "bytes list list"
  dns_turns :: "(u64 \<times> bytes list \<times> bytes list list) list"
  con_arp :: "bytes list list"
  con_arp2 :: "bytes list list"
  con_turns :: "(u64 \<times> bytes list) list"
  rx_turns :: "(u64 \<times> bytes list) list"
  rx_extra :: "(u64 \<times> bytes list) list"

record 'd web =
  wnet :: net
  dns_next :: u16
  wfiles :: "'d vfs"
  screen :: bytes

text \<open>Waiting for the connection: \<open>None\<close> inside when the time is over.\<close>

fun wait_open :: "nat \<Rightarrow> (u64 \<times> bytes list) list \<Rightarrow> net \<Rightarrow> (bool \<times> net) option" where
  "wait_open idx [] s = Some (False, s)"
| "wait_open idx ((now, frames) # rest) s =
     do { s1 \<leftarrow> poll frames (s\<lparr>now_ms := now\<rparr>); if is_open idx s1 then Some (True, s1) else wait_open idx rest s1 }"

definition host_ip :: "turns \<Rightarrow> bytes \<Rightarrow> 'd web \<Rightarrow> (bytes option \<times> 'd web) option" where
  "host_ip t host w =
     (case parse_ipv4 host of
        Some ip \<Rightarrow> Some (Some ip, w)
      | None \<Rightarrow> map_option (\<lambda>(a, r, s). (a, w\<lparr>wnet := s, dns_next := r\<rparr>))
                 (dns_resolve (t_id t) (t_port t) (dns_arp t) (dns_turns t) host (dns_next w) (wnet w)))"

definition http_connect :: "turns \<Rightarrow> bytes \<Rightarrow> u16 \<Rightarrow> 'd web \<Rightarrow> (nat option \<times> 'd web) option" where
  "http_connect t host port w =
     do { (a, w1) \<leftarrow> host_ip t host w;
          case a of None \<Rightarrow> Some (None, w1)
          | Some ip \<Rightarrow>
              do { (c, s) \<leftarrow> tcp_connect (con_arp t) (con_arp2 t) ip port (wnet w1);
                   case c of None \<Rightarrow> Some (None, w1\<lparr>wnet := s\<rparr>)
                   | Some i \<Rightarrow>
                       do { (ok, s1) \<leftarrow> wait_open i (con_turns t) s;
                            if ok then Some (Some i, w1\<lparr>wnet := s1\<rparr>)
                            else map_option (\<lambda>s2. (None, w1\<lparr>wnet := s2\<rparr>)) (tcp_close i s1) } } }"

definition RAW_CAP :: nat where "RAW_CAP = 66560"

text \<open>What is still received after the peer has closed.\<close>

fun recv_rest :: "nat \<Rightarrow> (u64 \<times> bytes list) list \<Rightarrow> bytes \<Rightarrow> net \<Rightarrow> (bytes \<times> net) option" where
  "recv_rest idx [] raw s = Some (raw, s)"
| "recv_rest idx ((now, frames) # rest) raw s =
     do { s1 \<leftarrow> pump frames (s\<lparr>now_ms := now\<rparr>);
          let ((n, tmp), s2) = tcp_recv idx (replicate 2048 0) s1
          in if n > 0 then recv_rest idx rest (raw @ take (min n (RAW_CAP - length raw)) tmp) s2 else Some (raw, s2) }"

fun recv_raw :: "nat \<Rightarrow> (u64 \<times> bytes list) list \<Rightarrow> (u64 \<times> bytes list) list \<Rightarrow> bytes \<Rightarrow> net \<Rightarrow> (bytes \<times> net) option" where
  "recv_raw idx extra [] raw s = Some (raw, s)"
| "recv_raw idx extra ((now, frames) # rest) raw s =
     do { s1 \<leftarrow> pump frames (s\<lparr>now_ms := now\<rparr>);
          let ((n, tmp), s2) = tcp_recv idx (replicate 2048 0) s1; raw1 = raw @ take (min n (RAW_CAP - length raw)) tmp
          in if n > 0 \<and> length raw1 \<ge> RAW_CAP then Some (raw1, s2)
             else if \<not> is_open idx s2 \<and> (n = 0 \<or> raw1 \<noteq> []) then recv_rest idx extra raw1 s2
             else recv_raw idx extra rest raw1 s2 }"

datatype fetch_result = Done bool | Redirect bytes

text \<open>The end of a fetch: print the body, or write it to a new file.\<close>

definition deliver :: "bytes \<Rightarrow> bytes \<Rightarrow> 'd web \<Rightarrow> fetch_result \<times> 'd web" where
  "deliver file_path body w =
     (if file_path = [] then (Done True, w\<lparr>screen := screen w @ body\<rparr>)
      else let (ffd, v) = vfs_open file_path (0x200 OR 0x100) (wfiles w) in
        if ffd < 0 then (Done False, w\<lparr>wfiles := v\<rparr>)
        else let v1 = snd (vfs_write ffd body v); v2 = snd (vfs_close ffd v1)
          in (Done True, w\<lparr>wfiles := v2, screen := screen w @ file_path\<rparr>))"

definition is_redirect :: "u16 \<Rightarrow> bool" where
  "is_redirect st \<longleftrightarrow> st = 301 \<or> st = 302 \<or> st = 307 \<or> st = 308"

definition on_reply :: "bytes \<Rightarrow> bytes \<Rightarrow> bytes \<times> u16 \<times> bytes \<Rightarrow> 'd web \<Rightarrow> fetch_result \<times> 'd web" where
  "on_reply url file_path reply w =
     (let (body, status, hdr) = reply in
      if is_redirect status
      then (case find_location hdr of Some loc \<Rightarrow> (Redirect (resolve_redirect url loc), w) | None \<Rightarrow> (Done False, w))
      else if body = [] \<or> status \<noteq> 200 \<and> status \<noteq> 0 then (Done False, w)
      else deliver file_path body w)"

definition fetch_once :: "turns \<Rightarrow> bytes \<Rightarrow> bytes \<Rightarrow> 'd web \<Rightarrow> (fetch_result \<times> 'd web) option" where
  "fetch_once t url file_path w =
     (let (host, port, path) = parse_url url in
      do { (c, w1) \<leftarrow> http_connect t host port w;
           case c of None \<Rightarrow> Some (Done False, w1)
           | Some i \<Rightarrow>
               do { (ok, s) \<leftarrow> tcp_send_data i (http_request host port path) (wnet w1);
                    if \<not> ok then map_option (\<lambda>s1. (Done False, w1\<lparr>wnet := s1\<rparr>)) (tcp_close i s)
                    else do { (raw, s1) \<leftarrow> recv_raw i (rx_extra t) (rx_turns t) [] s;
                              s2 \<leftarrow> tcp_close i s1;
                              Some (on_reply url file_path (parse_reply raw 65536 2048) (w1\<lparr>wnet := s2\<rparr>)) } } })"

text \<open>At most four fetches; each has its own turns.\<close>

fun hops :: "turns list \<Rightarrow> bytes \<Rightarrow> bytes \<Rightarrow> 'd web \<Rightarrow> (bool \<times> 'd web) option" where
  "hops [] cur file_path w = Some (False, w)"
| "hops (t # ts) cur file_path w =
     do { (r, w1) \<leftarrow> fetch_once t cur file_path w;
          case r of Done ok \<Rightarrow> Some (ok, w1) | Redirect nxt \<Rightarrow> hops ts nxt file_path w1 }"

definition wget :: "(nat \<Rightarrow> turns) \<Rightarrow> bytes \<Rightarrow> bytes \<Rightarrow> 'd web \<Rightarrow> (bool \<times> 'd web) option" where
  "wget ts url file_path w = hops (map ts [0..<4]) (take 256 url) file_path w"

end
