(* ===== verification/Page_Interface.thy ===== *)
theory Page_Interface
  imports Prelude
begin

text \<open>
  What the kernel's page-table code, heap and scheduler rely on when they take physical
  pages from the allocator of \<open>memory.rs\<close>: a page handed out was free, is no longer free
  and is never the null address, and a page given back is free again.
\<close>

locale page_allocator =
  fixes alloc :: "'s \<Rightarrow> u64 \<times> 's"
    and release :: "u64 \<Rightarrow> 's \<Rightarrow> 's"
    and avail :: "'s \<Rightarrow> u64 set"
    and managed :: "'s \<Rightarrow> u64 set"
    and invar :: "'s \<Rightarrow> bool"
  assumes alloc_page: "invar s \<Longrightarrow> alloc s = (p, s') \<Longrightarrow> p \<noteq> 0 \<Longrightarrow>
      p \<in> avail s \<and> avail s' = avail s - {p} \<and> managed s' = managed s \<and> invar s'"
    and alloc_none: "invar s \<Longrightarrow> alloc s = (0, s') \<Longrightarrow> s' = s \<and> avail s = {}"
    and release_page: "invar s \<Longrightarrow> p \<in> managed s \<Longrightarrow>
      avail (release p s) = insert p (avail s) \<and> managed (release p s) = managed s \<and>
      invar (release p s)"
    and avail_managed: "invar s \<Longrightarrow> avail s \<subseteq> managed s"
    and null_not_managed: "invar s \<Longrightarrow> 0 \<notin> managed s"
    and managed_finite: "invar s \<Longrightarrow> finite (managed s)"
begin

text \<open>Taking \<open>n\<close> pages one after the other, as \<open>grow_heap\<close> and the page-table walk do.\<close>

fun alloc_many :: "nat \<Rightarrow> 's \<Rightarrow> u64 list \<times> 's" where
  "alloc_many 0 s = ([], s)"
| "alloc_many (Suc n) s =
     (let (p, s1) = alloc s
      in if p = 0 then ([], s1)
         else let (ps, s2) = alloc_many n s1 in (p # ps, s2))"

lemma alloc_invar: "invar s \<Longrightarrow> alloc s = (p, s') \<Longrightarrow> invar s'"
  using alloc_page [of s p s'] alloc_none [of s s'] by (cases "p = 0") auto

lemma alloc_many_spec:
  assumes "invar s" and "alloc_many n s = (ps, s')"
  shows "distinct ps \<and> set ps \<subseteq> avail s \<and> avail s' = avail s - set ps \<and> invar s' \<and>
    managed s' = managed s \<and> length ps = min n (card (avail s))"
  using assms
proof (induction n arbitrary: s ps s')
  case 0
  then show ?case by simp
next
  case (Suc n)
  have fin: "finite (avail s)"
    using Suc.prems(1) avail_managed managed_finite finite_subset by blast
  obtain p s1 where a: "alloc s = (p, s1)" by force
  show ?case
  proof (cases "p = 0")
    case True
    then have "ps = []" "s' = s1" using Suc.prems(2) a by auto
    moreover have "s1 = s \<and> avail s = {}"
      using alloc_none [OF Suc.prems(1), of s1] a True by simp
    ultimately show ?thesis using Suc.prems(1) by simp
  next
    case False
    obtain qs s2 where b: "alloc_many n s1 = (qs, s2)" by force
    then have ps: "ps = p # qs" "s' = s2" using Suc.prems(2) a False by auto
    have p: "p \<in> avail s" "avail s1 = avail s - {p}" "managed s1 = managed s" "invar s1"
      using alloc_page [OF Suc.prems(1) a False] by auto
    have card: "card (avail s) = Suc (card (avail s1))"
      using p(1,2) fin by (metis card_Suc_Diff1)
    have IH: "distinct qs" "set qs \<subseteq> avail s1" "avail s2 = avail s1 - set qs" "invar s2"
        "managed s2 = managed s1" "length qs = min n (card (avail s1))"
      using Suc.IH [OF p(4) b] by simp_all
    have "p \<notin> set qs" and "set qs \<subseteq> avail s" using IH(2) p(2) by auto
    moreover have "avail s2 = avail s - insert p (set qs)" using IH(3) p(2) by auto
    ultimately show ?thesis using IH p(1,3) ps card by simp
  qed
qed

lemma alloc_release:
  assumes "invar s" and "alloc s = (p, s')" and "p \<noteq> 0"
  shows "avail (release p s') = avail s" and "invar (release p s')"
proof -
  have p: "p \<in> avail s" "avail s' = avail s - {p}" "managed s' = managed s" "invar s'"
    using alloc_page [OF assms] by auto
  then have "p \<in> managed s'" using avail_managed assms(1) by blast
  then show "avail (release p s') = avail s" and "invar (release p s')"
    using release_page [OF p(4)] p by auto
qed

text \<open>Releasing a list of pages, as \<open>pfree_n\<close> does for a run.\<close>

lemma release_fold:
  assumes "invar s" and "set ps \<subseteq> managed s"
  shows "avail (fold release ps s) = avail s \<union> set ps \<and> managed (fold release ps s) = managed s \<and>
    invar (fold release ps s)"
  using assms
proof (induction ps arbitrary: s)
  case (Cons p ps)
  have r: "avail (release p s) = insert p (avail s)" "managed (release p s) = managed s" "invar (release p s)"
    using release_page [of s p] Cons.prems by auto
  show ?case using Cons.IH [OF r(3)] r(1,2) Cons.prems(2) by simp
qed simp

end

end
