(* ===== verification/Phys_Memory.thy ===== *)
theory Phys_Memory
  imports Page_Interface
begin

text \<open>
  The physical page allocator of \<open>kernel/src/memory.rs\<close>: a bitmap with one bit per page
  (0 free, 1 used), a count of free pages and a hint \<open>first_page\<close> where the search
  starts. The bytes the bitmap pointer designates are the function \<open>bitmap\<close> (byte \<open>i\<close>
  is the byte at \<open>bitmap_addr + i\<close>); a null pointer is the address 0. Interrupts are off in
  every operation (\<open>with_irqs_off\<close>), so each one is a single step.
\<close>

section \<open>State\<close>

definition PAGE_SIZE :: nat where "PAGE_SIZE = 4096"

declare PAGE_SIZE_def [simp]

record phys_allocator =
  bitmap_addr :: u64
  bitmap :: "nat \<Rightarrow> u8"
  phys_start :: u64
  total_pages :: nat
  free_pages :: nat
  first_page :: nat

definition ALLOC_empty :: phys_allocator where
  "ALLOC_empty = \<lparr>bitmap_addr = 0, bitmap = (\<lambda>_. 0), phys_start = 0, total_pages = 0,
     free_pages = 0, first_page = 0\<rparr>"

datatype memory_type = CONVENTIONAL | OTHER_MEMORY nat

record memory_descriptor =
  ty :: memory_type
  region_start :: u64
  page_count :: u64

section \<open>Operations\<close>

definition bit_test :: "(nat \<Rightarrow> u8) \<Rightarrow> nat \<Rightarrow> u8" where
  "bit_test bm n = drop_bit (n AND 7) (bm (drop_bit 3 n)) AND 1"

definition bit_set :: "(nat \<Rightarrow> u8) \<Rightarrow> nat \<Rightarrow> u8 \<Rightarrow> (nat \<Rightarrow> u8)" where
  "bit_set bm n val =
     (let p = drop_bit 3 n in
      if val \<noteq> 0 then bm(p := bm p OR push_bit (n AND 7) 1)
      else bm(p := bm p AND NOT (push_bit (n AND 7) 1)))"

text \<open>The loop of \<open>init\<close> over the UEFI memory map, which keeps the largest conventional
  region seen so far.\<close>

fun best_region :: "memory_descriptor list \<Rightarrow> u64 \<Rightarrow> u64 \<Rightarrow> u64 \<times> u64" where
  "best_region [] best_start best_pages = (best_start, best_pages)"
| "best_region (e # es) best_start best_pages =
     (if ty e = CONVENTIONAL \<and> page_count e > best_pages
      then best_region es (region_start e) (page_count e)
      else best_region es best_start best_pages)"

text \<open>\<open>init\<close>: the memory map is what the firmware's \<open>boot::memory_map\<close> returned (\<open>None\<close>
  when the call failed), \<open>mem\<close> the bytes that the chosen bitmap area holds before.\<close>

definition init :: "memory_descriptor list option \<Rightarrow> (nat \<Rightarrow> u8) \<Rightarrow> phys_allocator \<Rightarrow> phys_allocator" where
  "init mmap mem a =
     (case mmap of
        None \<Rightarrow> a
      | Some es \<Rightarrow>
          (let (best_start, best_pages) = best_region es 0 0 in
           if best_pages = 0 \<or> best_start = 0 then a
           else
             (let bitmap_bytes = (best_pages + 7) div 8;
                  bitmap_pages = (bitmap_bytes + of_nat PAGE_SIZE - 1) div of_nat PAGE_SIZE;
                  region = best_start + bitmap_pages * of_nat PAGE_SIZE;
                  region_pages = best_pages - bitmap_pages
              in \<lparr>bitmap_addr = best_start,
                  bitmap = (\<lambda>i. if i < unat bitmap_bytes then 0 else mem i),
                  phys_start = region,
                  total_pages = unat region_pages,
                  free_pages = unat region_pages,
                  first_page = 0\<rparr>)))"

definition page_addr :: "phys_allocator \<Rightarrow> nat \<Rightarrow> u64" where
  "page_addr a i = phys_start a + of_nat i * of_nat PAGE_SIZE"

definition palloc :: "phys_allocator \<Rightarrow> u64 \<times> phys_allocator" where
  "palloc a =
     (if free_pages a = 0 \<or> bitmap_addr a = 0 then (0, a)
      else case List.find (\<lambda>i. bit_test (bitmap a) i = 0) [first_page a..<total_pages a] of
        Some i \<Rightarrow> (page_addr a i,
          a\<lparr>bitmap := bit_set (bitmap a) i 1, free_pages := free_pages a - 1, first_page := i + 1\<rparr>)
      | None \<Rightarrow>
          (case List.find (\<lambda>i. bit_test (bitmap a) i = 0) [0..<first_page a] of
             Some i \<Rightarrow> (page_addr a i,
               a\<lparr>bitmap := bit_set (bitmap a) i 1, free_pages := free_pages a - 1\<rparr>)
           | None \<Rightarrow> (0, a)))"

text \<open>The scanning loop of \<open>palloc_n\<close> over the remaining values of its counter, with
  \<open>run_start\<close> and \<open>run_len\<close>; \<open>Some s\<close> when a run of \<open>n\<close> free pages starting at \<open>s\<close> was
  counted.\<close>

fun palloc_n_scan :: "(nat \<Rightarrow> u8) \<Rightarrow> nat \<Rightarrow> nat \<Rightarrow> nat list \<Rightarrow> nat \<Rightarrow> nat \<Rightarrow> nat option" where
  "palloc_n_scan bm tot n [] run_start run_len = None"
| "palloc_n_scan bm tot n (i # is) run_start run_len =
     (let idx = (if i \<ge> tot then i - tot else i) in
      if bit_test bm idx = 0 then
        (let run_start' = (if run_len = 0 then idx else run_start);
             run_len' = run_len + 1
         in if run_len' \<ge> n then Some run_start'
            else palloc_n_scan bm tot n is run_start' run_len')
      else palloc_n_scan bm tot n is run_start 0)"

definition set_run :: "(nat \<Rightarrow> u8) \<Rightarrow> nat \<Rightarrow> nat \<Rightarrow> (nat \<Rightarrow> u8)" where
  "set_run bm s n = fold (\<lambda>j b. bit_set b j 1) [s..<s + n] bm"

definition palloc_n :: "nat \<Rightarrow> phys_allocator \<Rightarrow> u64 \<times> phys_allocator" where
  "palloc_n n a =
     (if free_pages a < n \<or> bitmap_addr a = 0 then (0, a)
      else case palloc_n_scan (bitmap a) (total_pages a) n
                  [first_page a..<total_pages a + first_page a] (first_page a) 0 of
        Some s \<Rightarrow> (page_addr a s,
          a\<lparr>bitmap := set_run (bitmap a) s n, free_pages := free_pages a - n,
            first_page := s + n\<rparr>)
      | None \<Rightarrow> (0, a))"

definition pfree :: "u64 \<Rightarrow> phys_allocator \<Rightarrow> phys_allocator" where
  "pfree phys a =
     (if phys < phys_start a then a
      else
        (let page = unat ((phys - phys_start a) div of_nat PAGE_SIZE) in
         if page \<ge> total_pages a \<or> bitmap_addr a = 0 then a
         else if bit_test (bitmap a) page = 0 then a
         else a\<lparr>bitmap := bit_set (bitmap a) page 0, free_pages := free_pages a + 1,
                first_page := (if page < first_page a then page else first_page a)\<rparr>))"

definition pfree_n :: "u64 \<Rightarrow> nat \<Rightarrow> phys_allocator \<Rightarrow> phys_allocator" where
  "pfree_n phys n a = fold (\<lambda>i. pfree (phys + of_nat i * of_nat PAGE_SIZE)) [0..<n] a"

definition free_count :: "phys_allocator \<Rightarrow> nat" where
  "free_count a = free_pages a"

text \<open>\<open>used as u64 * 100\<close> is 64-bit arithmetic; the quotient is capped at 100 and truncated
  to \<open>u8\<close>.\<close>

definition pressure :: "phys_allocator \<Rightarrow> u8" where
  "pressure a =
     (if total_pages a = 0 then 100
      else
        (let used = total_pages a - free_pages a in
         of_nat (min 100 (unat ((of_nat used * 100 :: u64) div of_nat (total_pages a))))))"

definition memset_phys :: "(u64 \<Rightarrow> u8) \<Rightarrow> u64 \<Rightarrow> u8 \<Rightarrow> nat \<Rightarrow> (u64 \<Rightarrow> u8)" where
  "memset_phys mem phys val sz = fold (\<lambda>i m. m(phys + of_nat i := val)) [0..<sz] mem"

section \<open>Bits\<close>

lemma and_7_nat: "(n :: nat) AND 7 = n mod 8"
proof -
  have "(7 :: nat) = mask 3" by (simp add: mask_eq_exp_minus_1)
  then show ?thesis by (simp only: take_bit_eq_mask [symmetric]) (simp add: take_bit_eq_mod)
qed

lemma drop_3_nat: "drop_bit 3 (n :: nat) = n div 8"
  by (simp add: drop_bit_eq_div)

lemma bit_test_eq: "bit_test bm i = of_bool (bit (bm (i div 8)) (i mod 8))"
proof -
  have "drop_bit k w AND 1 = (of_bool (bit w k) :: u8)" for w :: u8 and k
    by (rule bit_word_eqI) (auto simp: bit_simps)
  then show ?thesis by (simp add: bit_test_def and_7_nat drop_3_nat)
qed

lemma bit_test_set [simp]:
  "bit_test (bit_set bm i v) j = (if i = j then of_bool (v \<noteq> 0) else bit_test bm j)"
proof -
  have m: "i mod 8 < 8" "j mod 8 < 8" by simp_all
  have eq: "i = j \<longleftrightarrow> i div 8 = j div 8 \<and> i mod 8 = j mod 8"
    by (metis div_mult_mod_eq)
  show ?thesis
    by (auto simp: bit_test_eq bit_set_def and_7_nat drop_3_nat Let_def bit_simps m eq)
qed

lemma bit_test_set_run [simp]:
  "bit_test (set_run bm s n) j = (if s \<le> j \<and> j < s + n then 1 else bit_test bm j)"
proof -
  have "bit_test (fold (\<lambda>j b. bit_set b j 1) js bm) j =
      (if j \<in> set js then 1 else bit_test bm j)" for js
    by (induction js arbitrary: bm) auto
  then show ?thesis by (auto simp: set_run_def)
qed

section \<open>Invariant and abstraction\<close>

text \<open>\<open>free_set\<close> is what the allocator promises to its clients: the page numbers it can
  still hand out.\<close>

definition free_set :: "phys_allocator \<Rightarrow> nat set" where
  "free_set a = {i. i < total_pages a \<and> bit_test (bitmap a) i = 0}"

definition alloc_inv :: "phys_allocator \<Rightarrow> bool" where
  "alloc_inv a \<longleftrightarrow> bitmap_addr a \<noteq> 0 \<and> phys_start a \<noteq> 0 \<and>
     unat (phys_start a) + PAGE_SIZE * total_pages a \<le> 2 ^ 64 \<and>
     free_pages a = card (free_set a) \<and> first_page a \<le> total_pages a"

lemma finite_free_set [simp]: "finite (free_set a)"
  by (simp add: free_set_def)

lemma free_set_lt: "i \<in> free_set a \<Longrightarrow> i < total_pages a"
  by (simp add: free_set_def)

lemma page_offset_unat:
  assumes "alloc_inv a" and "i < total_pages a"
  shows "unat (of_nat i * of_nat PAGE_SIZE :: u64) = PAGE_SIZE * i"
proof -
  have "PAGE_SIZE * i < 2 ^ 64" using assms by (simp add: alloc_inv_def)
  then have "unat (of_nat (i * PAGE_SIZE) :: u64) = PAGE_SIZE * i"
    by (subst unat_of_nat64) (simp_all add: mult.commute)
  then show ?thesis by simp
qed

lemma page_addr_unat:
  assumes "alloc_inv a" and "i < total_pages a"
  shows "unat (page_addr a i) = unat (phys_start a) + PAGE_SIZE * i"
proof -
  have "unat (phys_start a) + PAGE_SIZE * i < 2 ^ 64"
    using assms by (simp add: alloc_inv_def)
  then show ?thesis
    using page_offset_unat [OF assms] by (simp add: page_addr_def unat_word_ariths)
qed

lemma page_addr_inj:
  assumes "alloc_inv a" and "i < total_pages a" and "j < total_pages a"
    and "page_addr a i = page_addr a j"
  shows "i = j"
proof -
  have "unat (page_addr a i) = unat (page_addr a j)" by (simp only: assms(4))
  then show ?thesis
    unfolding page_addr_unat [OF assms(1,2)] page_addr_unat [OF assms(1,3)] by simp
qed

lemma page_addr_nonnull:
  assumes "alloc_inv a" and "i < total_pages a"
  shows "page_addr a i \<noteq> 0"
proof -
  have "0 < unat (phys_start a)"
    using assms(1) by (simp add: alloc_inv_def unat_gt_0)
  then have "0 < unat (page_addr a i)" using page_addr_unat [OF assms] by simp
  then show ?thesis by (simp add: unat_gt_0)
qed

text \<open>\<open>pfree\<close> recovers the page number from an address \<open>palloc\<close> returned.\<close>

lemma page_of_addr:
  assumes "alloc_inv a" and "i < total_pages a"
  shows "\<not> page_addr a i < phys_start a"
    and "unat ((page_addr a i - phys_start a) div of_nat PAGE_SIZE) = i"
proof -
  show "\<not> page_addr a i < phys_start a"
    using page_addr_unat [OF assms] by (simp add: word_less_nat_alt)
  have "page_addr a i - phys_start a = of_nat i * of_nat PAGE_SIZE"
    by (simp add: page_addr_def)
  then show "unat ((page_addr a i - phys_start a) div of_nat PAGE_SIZE) = i"
    using page_offset_unat [OF assms] by (simp add: unat_div PAGE_SIZE_def)
qed

lemma free_set_take:
  assumes "i \<in> free_set a"
  shows "free_set (a\<lparr>bitmap := bit_set (bitmap a) i 1, free_pages := f, first_page := k\<rparr>) =
    free_set a - {i}"
  using assms by (auto simp: free_set_def split: if_splits)

section \<open>Allocating and freeing single pages\<close>

text \<open>The search of \<open>palloc\<close>, from the hint to the end and then from the start to the
  hint, finds a free page whenever there is one.\<close>

lemma palloc_Some:
  assumes inv: "alloc_inv a" and "free_set a \<noteq> {}"
  obtains i k where "i \<in> free_set a" and "k \<le> total_pages a"
    and "palloc a = (page_addr a i, a\<lparr>bitmap := bit_set (bitmap a) i 1,
           free_pages := free_pages a - 1, first_page := k\<rparr>)"
proof -
  let ?P = "\<lambda>i. bit_test (bitmap a) i = 0"
  have ne: "free_pages a \<noteq> 0" "bitmap_addr a \<noteq> 0"
    using assms by (auto simp: alloc_inv_def)
  have fp: "first_page a \<le> total_pages a" using inv by (simp add: alloc_inv_def)
  show ?thesis
  proof (cases "List.find ?P [first_page a..<total_pages a]")
    case (Some i)
    then have "i < total_pages a" "?P i" by (auto dest: find_upt_SomeD)
    then show ?thesis
      using that [of i "i + 1"] ne Some by (simp add: palloc_def free_set_def)
  next
    case None
    obtain j where j: "j < total_pages a" "?P j" using assms(2) by (auto simp: free_set_def)
    then have "j < first_page a" using None by (auto simp: find_upt_None_iff not_less)
    then obtain i where i: "List.find ?P [0..<first_page a] = Some i"
      using j(2) by (cases "List.find ?P [0..<first_page a]") (auto simp: find_upt_None_iff)
    then have "i < first_page a" "?P i" by (auto dest: find_upt_SomeD)
    then have "i \<in> free_set a" using fp by (simp add: free_set_def)
    moreover have "palloc a = (page_addr a i, a\<lparr>bitmap := bit_set (bitmap a) i 1,
           free_pages := free_pages a - 1, first_page := first_page a\<rparr>)"
      using ne None i by (simp add: palloc_def)
    ultimately show ?thesis using that [of i "first_page a"] fp by blast
  qed
qed

lemma palloc_None:
  assumes "alloc_inv a" and "free_set a = {}"
  shows "palloc a = (0, a)"
  using assms by (simp add: palloc_def alloc_inv_def)

lemma palloc_cases:
  assumes inv: "alloc_inv a" and eq: "palloc a = (p, a')"
  shows "p = 0 \<and> a' = a \<and> free_set a = {} \<or>
    (\<exists>i \<in> free_set a. p = page_addr a i \<and> p \<noteq> 0 \<and> free_set a' = free_set a - {i} \<and>
       alloc_inv a' \<and> total_pages a' = total_pages a \<and> phys_start a' = phys_start a)"
proof (cases "free_set a = {}")
  case True
  then show ?thesis using palloc_None [OF inv] eq by simp
next
  case False
  obtain i k where i: "i \<in> free_set a" and k: "k \<le> total_pages a"
    and e: "palloc a = (page_addr a i, a\<lparr>bitmap := bit_set (bitmap a) i 1,
           free_pages := free_pages a - 1, first_page := k\<rparr>)"
    by (rule palloc_Some [OF inv False])
  have a': "a' = a\<lparr>bitmap := bit_set (bitmap a) i 1, free_pages := free_pages a - 1,
      first_page := k\<rparr>" and p: "p = page_addr a i"
    using e eq by auto
  have fs: "free_set a' = free_set a - {i}" using free_set_take [OF i] a' by simp
  have "alloc_inv a'" using inv k i fs a' by (simp add: alloc_inv_def card_Diff_singleton)
  moreover have "p \<noteq> 0" using page_addr_nonnull [OF inv free_set_lt [OF i]] p by simp
  ultimately show ?thesis using i p fs a' by (intro disjI2 bexI [of _ i]) simp_all
qed

lemma pfree_used:
  assumes inv: "alloc_inv a" and i: "i < total_pages a" and "i \<notin> free_set a"
  shows "free_set (pfree (page_addr a i) a) = insert i (free_set a)"
    and "alloc_inv (pfree (page_addr a i) a)"
proof -
  let ?a = "pfree (page_addr a i) a"
  have used: "bit_test (bitmap a) i \<noteq> 0" using assms by (simp add: free_set_def)
  have e: "?a = a\<lparr>bitmap := bit_set (bitmap a) i 0, free_pages := free_pages a + 1,
      first_page := (if i < first_page a then i else first_page a)\<rparr>"
    using page_of_addr [OF inv i] i used inv by (simp add: pfree_def Let_def alloc_inv_def)
  show fs: "free_set ?a = insert i (free_set a)"
    unfolding e using i by (auto simp: free_set_def split: if_splits)
  show "alloc_inv ?a"
    using inv i assms(3) fs unfolding e by (simp add: alloc_inv_def)
qed

lemma pfree_free:
  assumes inv: "alloc_inv a" and i: "i \<in> free_set a"
  shows "pfree (page_addr a i) a = a"
  using page_of_addr [OF inv free_set_lt [OF i]] i by (simp add: pfree_def Let_def free_set_def)

lemma pfree_frame [simp]:
  "total_pages (pfree p a) = total_pages a" "phys_start (pfree p a) = phys_start a"
  by (auto simp: pfree_def Let_def)

lemma pfree_inv:
  assumes "alloc_inv a" and "i < total_pages a"
  shows "free_set (pfree (page_addr a i) a) = insert i (free_set a)"
    and "alloc_inv (pfree (page_addr a i) a)"
  using pfree_used [OF assms] pfree_free [OF assms(1), of i] assms
  by (cases "i \<in> free_set a"; auto)+

section \<open>The allocator provides the page interface\<close>

definition free_pages_of :: "phys_allocator \<Rightarrow> u64 set" where
  "free_pages_of a = page_addr a ` free_set a"

definition managed_pages :: "phys_allocator \<Rightarrow> u64 set" where
  "managed_pages a = page_addr a ` {i. i < total_pages a}"

lemma page_addr_frame:
  "phys_start b = phys_start a \<Longrightarrow> page_addr b = page_addr a"
  by (simp add: page_addr_def fun_eq_iff)

interpretation pm: page_allocator palloc pfree free_pages_of managed_pages alloc_inv
proof (unfold_locales, goal_cases)
  case (1 a p a')
  then obtain i where i: "i \<in> free_set a" "p = page_addr a i" "free_set a' = free_set a - {i}"
    "alloc_inv a'" "total_pages a' = total_pages a" "phys_start a' = phys_start a"
    using palloc_cases [of a p a'] by blast
  have inj: "inj_on (page_addr a) (free_set a)"
    using page_addr_inj [OF 1(1)] by (auto simp: inj_on_def free_set_def)
  have "page_addr a ` (free_set a - {i}) = page_addr a ` free_set a - {page_addr a i}"
    using inj i(1) by (simp add: inj_on_image_set_diff)
  then show ?case
    using i page_addr_frame [OF i(6)] by (simp add: free_pages_of_def managed_pages_def)
next
  case (2 a a')
  then show ?case using palloc_cases [of a 0 a'] by (auto simp: free_pages_of_def)
next
  case (3 a p)
  then obtain i where "i < total_pages a" "p = page_addr a i" by (auto simp: managed_pages_def)
  then show ?case
    using pfree_inv [OF 3(1)] page_addr_frame [of "pfree p a" a]
    by (simp add: free_pages_of_def managed_pages_def)
next
  case (4 a)
  then show ?case by (auto simp: free_pages_of_def managed_pages_def free_set_def)
next
  case (5 a)
  then show ?case using page_addr_nonnull by (fastforce simp: managed_pages_def)
next
  case (6 a)
  then show ?case by (simp add: managed_pages_def)
qed

section \<open>Runs of pages\<close>

definition wrap_idx :: "nat \<Rightarrow> nat \<Rightarrow> nat" where
  "wrap_idx tot i = (if i \<ge> tot then i - tot else i)"

lemma palloc_n_scan_step:
  "palloc_n_scan bm tot n (i # is) rs rl =
     (if bit_test bm (wrap_idx tot i) = 0
      then if n \<le> rl + 1 then Some (if rl = 0 then wrap_idx tot i else rs)
           else palloc_n_scan bm tot n is (if rl = 0 then wrap_idx tot i else rs) (rl + 1)
      else palloc_n_scan bm tot n is rs 0)"
  by (simp add: Let_def wrap_idx_def)

declare palloc_n_scan.simps(2) [simp del]

text \<open>What the scan has counted: the last \<open>run_len\<close> counter values, reduced modulo the size
  of the region, are free pages and \<open>run_start\<close> is the first of them.\<close>

lemma palloc_n_scan_sound:
  assumes "palloc_n_scan bm tot n [i..<m] rs rl = Some s" and "rl < n" and "rl \<le> i"
    and "\<forall>c. i - rl \<le> c \<and> c < i \<longrightarrow> bit_test bm (wrap_idx tot c) = 0"
    and "rl > 0 \<longrightarrow> rs = wrap_idx tot (i - rl)"
  shows "\<exists>c. c + n \<le> m \<and> i - rl \<le> c \<and> s = wrap_idx tot c \<and>
    (\<forall>d. c \<le> d \<and> d < c + n \<longrightarrow> bit_test bm (wrap_idx tot d) = 0)"
  using assms
proof (induction "m - i" arbitrary: i rs rl)
  case 0
  then show ?case by simp
next
  case (Suc k)
  then have lt: "i < m" by simp
  have upt: "[i..<m] = i # [Suc i..<m]" using lt by (simp add: upt_conv_Cons)
  have k: "k = m - Suc i" using Suc.hyps(2) by simp
  show ?case
  proof (cases "bit_test bm (wrap_idx tot i) = 0")
    case True
    let ?rs = "if rl = 0 then wrap_idx tot i else rs"
    have rs: "?rs = wrap_idx tot (i - rl)" using Suc.prems(5) by auto
    have free: "\<forall>c. i - rl \<le> c \<and> c < Suc i \<longrightarrow> bit_test bm (wrap_idx tot c) = 0"
      using Suc.prems(4) True by (auto simp: less_Suc_eq)
    show ?thesis
    proof (cases "rl + 1 \<ge> n")
      case True
      then have "s = ?rs" and "n = rl + 1"
        using Suc.prems(1,2) upt \<open>bit_test bm (wrap_idx tot i) = 0\<close>
        by (auto simp: palloc_n_scan_step)
      then show ?thesis
        using rs free lt Suc.prems(3) by (intro exI [of _ "i - rl"]) auto
    next
      case False
      then have "palloc_n_scan bm tot n [Suc i..<m] ?rs (rl + 1) = Some s"
        using Suc.prems(1) upt True by (simp add: palloc_n_scan_step)
      from Suc.hyps(1) [OF k this] show ?thesis
        using False free rs Suc.prems(3) by simp
    qed
  next
    case False
    then have "palloc_n_scan bm tot n [Suc i..<m] rs 0 = Some s"
      using Suc.prems(1) upt False by (simp add: palloc_n_scan_step)
    then have "\<exists>c. c + n \<le> m \<and> Suc i - 0 \<le> c \<and> s = wrap_idx tot c \<and>
      (\<forall>d. c \<le> d \<and> d < c + n \<longrightarrow> bit_test bm (wrap_idx tot d) = 0)"
      by (rule Suc.hyps(1) [OF k]) (use Suc.prems(2) in auto)
    then show ?thesis by (elim exE conjE, intro exI conjI) auto
  qed
qed

lemma palloc_n_scan_complete:
  assumes "palloc_n_scan bm tot n [i..<tot] rs rl = None" and "rl < n" and "rl \<le> i"
    and "i - rl \<le> s" and "s + n \<le> tot"
  shows "\<exists>j. s \<le> j \<and> j < s + n \<and> bit_test bm j \<noteq> 0"
  using assms
proof (induction "tot - i" arbitrary: i rs rl)
  case 0
  then show ?case by simp
next
  case (Suc k)
  have upt: "[i..<tot] = i # [Suc i..<tot]" and k: "k = tot - Suc i" and lt: "i < tot"
    using Suc.hyps(2) by (simp_all add: upt_conv_Cons)
  show ?case
  proof (cases "bit_test bm i = 0")
    case True
    then have "palloc_n_scan bm tot n [Suc i..<tot] (if rl = 0 then i else rs) (rl + 1) = None"
      and "rl + 1 < n"
      using Suc.prems(1) upt lt by (auto simp: palloc_n_scan_step wrap_idx_def split: if_splits)
    from Suc.hyps(1) [OF k this] show ?thesis using Suc.prems by simp
  next
    case False
    then have "palloc_n_scan bm tot n [Suc i..<tot] rs 0 = None"
      using Suc.prems(1) upt lt False by (simp add: palloc_n_scan_step wrap_idx_def)
    then show ?thesis
      using Suc.hyps(1) [OF k, of rs 0] Suc.prems(2-) False by (cases "s \<le> i") auto
  qed
qed

lemma free_set_run:
  assumes "{s..<s + n} \<subseteq> free_set a"
  shows "free_set (a\<lparr>bitmap := set_run (bitmap a) s n, free_pages := f, first_page := k\<rparr>) =
    free_set a - {s..<s + n}"
  using assms by (auto simp: free_set_def split: if_splits)

lemma palloc_n_run:
  assumes inv: "alloc_inv a" and n: "0 < n" and eq: "palloc_n n a = (p, a')" and p: "p \<noteq> 0"
  obtains c where "first_page a \<le> c" "c + n \<le> total_pages a + first_page a"
    "\<forall>d. c \<le> d \<and> d < c + n \<longrightarrow> bit_test (bitmap a) (wrap_idx (total_pages a) d) = 0"
    "p = page_addr a (wrap_idx (total_pages a) c)"
    "a' = a\<lparr>bitmap := set_run (bitmap a) (wrap_idx (total_pages a) c) n,
            free_pages := free_pages a - n, first_page := wrap_idx (total_pages a) c + n\<rparr>"
proof -
  let ?t = "total_pages a" and ?f = "first_page a"
  obtain s where s: "palloc_n_scan (bitmap a) ?t n [?f..<?t + ?f] ?f 0 = Some s"
    and r: "p = page_addr a s" "a' = a\<lparr>bitmap := set_run (bitmap a) s n,
            free_pages := free_pages a - n, first_page := s + n\<rparr>"
    using eq p by (auto simp: palloc_n_def split: if_splits option.splits)
  have "\<exists>c. c + n \<le> ?t + ?f \<and> ?f - 0 \<le> c \<and> s = wrap_idx ?t c \<and>
    (\<forall>d. c \<le> d \<and> d < c + n \<longrightarrow> bit_test (bitmap a) (wrap_idx ?t d) = 0)"
    by (rule palloc_n_scan_sound [OF s n]) auto
  then obtain c where "c + n \<le> ?t + ?f" "?f \<le> c" "s = wrap_idx ?t c"
    "\<forall>d. c \<le> d \<and> d < c + n \<longrightarrow> bit_test (bitmap a) (wrap_idx ?t d) = 0"
    by auto
  then show ?thesis using that r by blast
qed

lemma palloc_n_inside:
  assumes inv: "alloc_inv a" and n: "0 < n" and eq: "palloc_n n a = (p, a')" and p: "p \<noteq> 0"
  obtains s where "p = page_addr a s" "first_page a' = s + n"
    "s + n \<le> total_pages a \<Longrightarrow> {s..<s + n} \<subseteq> free_set a \<and>
       free_set a' = free_set a - {s..<s + n} \<and> alloc_inv a'"
    "first_page a = 0 \<Longrightarrow> s + n \<le> total_pages a"
proof -
  let ?t = "total_pages a"
  obtain c where le: "c + n \<le> ?t + first_page a" and c: "\<forall>d. c \<le> d \<and> d < c + n \<longrightarrow> bit_test (bitmap a) (wrap_idx ?t d) = 0"
    and pc: "p = page_addr a (wrap_idx ?t c)"
    and a': "a' = a\<lparr>bitmap := set_run (bitmap a) (wrap_idx ?t c) n,
            free_pages := free_pages a - n, first_page := wrap_idx ?t c + n\<rparr>"
    by (rule palloc_n_run [OF assms]) blast
  define s where "s = wrap_idx ?t c"
  have in_region: "{s..<s + n} \<subseteq> free_set a \<and> free_set a' = free_set a - {s..<s + n} \<and> alloc_inv a'"
    if le: "s + n \<le> ?t"
  proof -
    have free: "bit_test (bitmap a) j = 0" if "s \<le> j" "j < s + n" for j
    proof (cases "c \<ge> ?t")
      case True
      then have "c \<le> j + ?t \<and> j + ?t < c + n" using that by (auto simp: s_def wrap_idx_def)
      then show ?thesis using c [rule_format, of "j + ?t"] by (simp add: wrap_idx_def)
    next
      case False
      then show ?thesis using c [rule_format, of j] that le by (simp add: s_def wrap_idx_def)
    qed
    then have sub: "{s..<s + n} \<subseteq> free_set a" using le by (auto simp: free_set_def)
    moreover have fs: "free_set a' = free_set a - {s..<s + n}"
      using free_set_run [OF sub] a' s_def by simp
    moreover have "alloc_inv a'"
      using inv le sub fs a' s_def card_Diff_subset [OF _ sub] by (simp add: alloc_inv_def)
    ultimately show ?thesis by blast
  qed
  have "s + n \<le> ?t" if "first_page a = 0"
    using that le n by (simp add: s_def wrap_idx_def)
  then show ?thesis using that [of s] pc a' s_def in_region by simp
qed

lemma palloc_n_from_start:
  assumes inv: "alloc_inv a" and n: "0 < n" and f0: "first_page a = 0"
    and eq: "palloc_n n a = (p, a')"
  shows "p = 0 \<and> a' = a \<and> (\<forall>s. \<not> {s..<s + n} \<subseteq> free_set a) \<or>
    (\<exists>s. p = page_addr a s \<and> p \<noteq> 0 \<and> s + n \<le> total_pages a \<and> {s..<s + n} \<subseteq> free_set a \<and>
      free_set a' = free_set a - {s..<s + n} \<and> alloc_inv a')"
proof (cases "p = 0")
  case False
  obtain s where "p = page_addr a s" "s + n \<le> total_pages a"
    "{s..<s + n} \<subseteq> free_set a \<and> free_set a' = free_set a - {s..<s + n} \<and> alloc_inv a'"
    by (rule palloc_n_inside [OF inv n eq False]) (use f0 in blast)
  then show ?thesis using False by blast
next
  case True
  have none: "palloc_n_scan (bitmap a) (total_pages a) n [0..<total_pages a] 0 0 = None"
    if "n \<le> free_pages a"
  proof (rule ccontr)
    assume "\<not> ?thesis"
    then obtain s where s: "palloc_n_scan (bitmap a) (total_pages a) n [0..<total_pages a] 0 0 = Some s"
      by blast
    have "\<exists>c. c + n \<le> total_pages a \<and> 0 - 0 \<le> c \<and> s = wrap_idx (total_pages a) c \<and>
      (\<forall>d. c \<le> d \<and> d < c + n \<longrightarrow> bit_test (bitmap a) (wrap_idx (total_pages a) d) = 0)"
      by (rule palloc_n_scan_sound [OF s n]) auto
    then have "s < total_pages a" using n by (auto simp: wrap_idx_def)
    then show False
      using page_addr_nonnull [OF inv] s that eq True f0 inv
      by (auto simp: palloc_n_def alloc_inv_def)
  qed
  have "\<not> {s..<s + n} \<subseteq> free_set a" for s
  proof
    assume sub: "{s..<s + n} \<subseteq> free_set a"
    then have "s + n - 1 \<in> free_set a" using n by auto
    then have "s + n \<le> total_pages a" using n by (auto dest: free_set_lt)
    moreover have "n \<le> free_pages a"
      using card_mono [OF _ sub] inv by (simp add: alloc_inv_def)
    ultimately show False
      using palloc_n_scan_complete [OF none, of s] n sub by (fastforce simp: free_set_def)
  qed
  moreover have "a' = a"
    using none eq True f0 inv by (auto simp: palloc_n_def alloc_inv_def not_less split: if_splits)
  ultimately show ?thesis using True by blast
qed

section \<open>Initialisation and statistics\<close>

lemma init_unfold:
  assumes "best_region es 0 0 = (st, n)" and "st \<noteq> 0" and "n \<noteq> 0"
    and fits: "unat st + PAGE_SIZE * unat n < 2 ^ 64"
  defines "B \<equiv> (unat n + 7) div 8"
  defines "P \<equiv> (B + 4095) div 4096"
  shows "init (Some es) mem a = \<lparr>bitmap_addr = st, bitmap = (\<lambda>i. if i < B then 0 else mem i),
      phys_start = st + of_nat (4096 * P), total_pages = unat n - P, free_pages = unat n - P,
      first_page = 0\<rparr>"
    and "P \<le> unat n" and "unat (st + of_nat (4096 * P)) = unat st + 4096 * P"
    and "0 < unat st"
proof -
  have n: "0 < unat n" using assms(3) by (simp add: unat_gt_0)
  show "0 < unat st" using assms(2) by (simp add: unat_gt_0)
  show P: "P \<le> unat n" unfolding P_def B_def using n by linarith
  have small: "unat n < 2 ^ 52" using fits by simp
  have "4096 * P \<le> 4096 * unat n" using P by simp
  then have lt: "unat st + 4096 * P < 2 ^ 64" using fits by simp
  show st': "unat (st + of_nat (4096 * P)) = unat st + 4096 * P"
    using unat_add_nat64 [OF lt] .
  have b: "unat ((n + 7) div 8) = B"
    using small by (simp add: unat_div unat_word_ariths B_def)
  have "B < 2 ^ 50" using small unfolding B_def by simp
  then have p: "unat (((n + 7) div 8 + of_nat PAGE_SIZE - 1) div of_nat PAGE_SIZE) = P"
    using b by (simp add: unat_div unat_word_ariths P_def add.assoc [symmetric] flip: add_diff_eq)
  then have p': "((n + 7) div 8 + of_nat PAGE_SIZE - 1) div of_nat PAGE_SIZE = of_nat P"
    by (rule word_eq_of_natI)
  have r: "unat (n - of_nat P) = unat n - P"
    using P p p' by (metis unat_sub word_le_nat_alt)
  have e: "of_nat P * of_nat PAGE_SIZE = (of_nat (4096 * P) :: u64)" by (simp add: mult.commute)
  show "init (Some es) mem a = \<lparr>bitmap_addr = st, bitmap = (\<lambda>i. if i < B then 0 else mem i),
      phys_start = st + of_nat (4096 * P), total_pages = unat n - P, free_pages = unat n - P,
      first_page = 0\<rparr>"
    by (simp only: init_def option.case assms(1) case_prod_conv Let_def p' b r e assms(2,3)
        simp_thms if_False)
qed

lemma init_free_set:
  assumes "best_region es 0 0 = (st, n)" and "st \<noteq> 0" and "n \<noteq> 0"
    and "unat st + PAGE_SIZE * unat n < 2 ^ 64"
  shows "free_set (init (Some es) mem a) = {..<total_pages (init (Some es) mem a)}"
proof -
  let ?B = "(unat n + 7) div 8"
  have "bit_test (\<lambda>i. if i < ?B then 0 else mem i) i = 0" if "i < unat n - p" for i p
  proof -
    have "i div 8 < ?B" using that by linarith
    then show ?thesis by (simp add: bit_test_eq)
  qed
  then show ?thesis unfolding init_unfold(1) [OF assms] by (auto simp: free_set_def)
qed

lemma pressure_unat:
  assumes "alloc_inv a" and "total_pages a \<noteq> 0"
  shows "unat (pressure a) = 100 * (total_pages a - card (free_set a)) div total_pages a"
proof -
  let ?t = "total_pages a" and ?u = "total_pages a - free_pages a"
  have t: "?t < 2 ^ 53" and fp: "free_pages a = card (free_set a)"
    using assms(1) by (auto simp: alloc_inv_def)
  have "unat (of_nat (?u * 100) :: u64) = ?u * 100" and "unat (of_nat ?t :: u64) = ?t"
    using t by (intro unat_of_nat64; simp)+
  then have q: "unat ((of_nat ?u * 100 :: u64) div of_nat ?t) = ?u * 100 div ?t"
    by (simp add: unat_div)
  have "?u * 100 div ?t \<le> ?t * 100 div ?t" by (rule div_le_mono) simp
  then have le: "?u * 100 div ?t \<le> 100" using assms(2) by simp
  then have "unat (of_nat (min 100 (?u * 100 div ?t)) :: u8) = ?u * 100 div ?t"
    by (simp add: unat_of_nat take_bit_nat_eq_self min_def)
  then show ?thesis
    using assms(2) q fp unfolding pressure_def Let_def by (simp add: mult.commute)
qed

section \<open>Correctness of the allocator\<close>

text \<open>A freshly initialised allocator of \<open>n\<close> pages, on which the statements below are
  exercised.\<close>

definition fresh_pool :: "nat \<Rightarrow> phys_allocator" where
  "fresh_pool n = \<lparr>bitmap_addr = 4096, bitmap = (\<lambda>_. 0), phys_start = 8192, total_pages = n,
     free_pages = n, first_page = 0\<rparr>"

lemma fresh_pool_free [simp]: "free_set (fresh_pool n) = {..<n}"
  by (auto simp: free_set_def fresh_pool_def bit_test_eq)

lemma fresh_pool_fields [simp]:
  "bitmap (fresh_pool n) = (\<lambda>_. 0)" "total_pages (fresh_pool n) = n"
  "free_pages (fresh_pool n) = n" "first_page (fresh_pool n) = 0"
  "bitmap_addr (fresh_pool n) = 4096" "phys_start (fresh_pool n) = 8192"
  by (simp_all add: fresh_pool_def)

lemma bit_test_clear [simp]: "bit_test (\<lambda>_. 0) i = 0"
  by (simp add: bit_test_eq)

lemma fresh_pool_inv: "n < 2 ^ 40 \<Longrightarrow> alloc_inv (fresh_pool n)"
  unfolding alloc_inv_def fresh_pool_free by simp

text \<open>C26: \<open>palloc\<close> fails exactly when no page is free and then changes nothing; otherwise it
  returns the address of a page that was free, marks that page and no other, and keeps the
  free count equal to the number of clear bits.\<close>

theorem palloc_correct:
  assumes "alloc_inv a" and "palloc a = (p, a')"
  shows "if free_set a = {} then p = 0 \<and> a' = a
    else \<exists>i. i \<in> free_set a \<and> p = page_addr a i \<and> p \<noteq> 0 \<and> free_set a' = free_set a - {i} \<and>
      free_count a' = card (free_set a) - 1 \<and> alloc_inv a'"
proof -
  have "free_count a' = card (free_set a')" if "alloc_inv a'"
    using that by (simp add: free_count_def alloc_inv_def)
  then show ?thesis using palloc_cases [OF assms] by (auto simp: card_Diff_singleton)
qed

theorem palloc_correct_witness:
  "\<exists>i. i \<in> {..<(6::nat)} \<and> fst (palloc (fresh_pool 6)) = page_addr (fresh_pool 6) i \<and>
     free_set (snd (palloc (fresh_pool 6))) = {..<6} - {i}"
proof -
  have inv: "alloc_inv (fresh_pool 6)" by (rule fresh_pool_inv) simp
  have "\<exists>i. i \<in> free_set (fresh_pool 6) \<and> fst (palloc (fresh_pool 6)) = page_addr (fresh_pool 6) i \<and>
      free_set (snd (palloc (fresh_pool 6))) = free_set (fresh_pool 6) - {i}"
    using palloc_correct [OF inv, of "fst (palloc (fresh_pool 6))" "snd (palloc (fresh_pool 6))"]
    by (auto simp: lessThan_empty_iff split: if_splits)
  then show ?thesis by simp
qed

text \<open>Freeing the page just allocated restores the set of free pages, and freeing it a
  second time is ignored.\<close>

theorem palloc_pfree_roundtrip:
  assumes "alloc_inv a" and "palloc a = (p, a')" and "p \<noteq> 0"
  shows "free_set (pfree p a') = free_set a \<and> alloc_inv (pfree p a') \<and>
    free_count (pfree p a') = free_count a \<and> pfree p (pfree p a') = pfree p a'"
proof -
  obtain i where i: "i \<in> free_set a" "p = page_addr a i" "free_set a' = free_set a - {i}"
    "alloc_inv a'" "total_pages a' = total_pages a" "phys_start a' = phys_start a"
    using palloc_cases [OF assms(1,2)] assms(3) by blast
  have pa: "page_addr a' = page_addr a" by (rule page_addr_frame [OF i(6)])
  have fs: "free_set (pfree p a') = free_set a" and inv: "alloc_inv (pfree p a')"
    using pfree_inv [OF i(4), of i] i pa free_set_lt [OF i(1)] by (auto simp: insert_absorb)
  moreover have "pfree p (pfree p a') = pfree p a'"
    using pfree_free [OF inv, of i] fs i(1,2) pa page_addr_frame [of "pfree p a'" a'] by simp
  ultimately show ?thesis using assms(1) by (simp add: free_count_def alloc_inv_def)
qed

theorem palloc_pfree_roundtrip_witness:
  "let (p, a') = palloc (fresh_pool 6) in free_set (pfree p a') = {..<6} \<and> free_count (pfree p a') = 6"
proof -
  have inv: "alloc_inv (fresh_pool 6)" by (rule fresh_pool_inv) simp
  obtain p a' where pa: "palloc (fresh_pool 6) = (p, a')" by force
  have "p \<noteq> 0" using palloc_cases [OF inv pa] by (auto simp: lessThan_empty_iff)
  from palloc_pfree_roundtrip [OF inv pa this] show ?thesis
    using pa by (simp add: free_count_def)
qed

text \<open>With the hint at the start of the region, \<open>palloc_n\<close> is complete and sound: it
  returns null, changing nothing, only if no run of \<open>n\<close> free pages exists, and otherwise
  takes exactly such a run inside the region.\<close>

theorem palloc_n_first_fit:
  assumes "alloc_inv a" and "0 < n" and "first_page a = 0" and "palloc_n n a = (p, a')"
  shows "if \<exists>s. {s..<s + n} \<subseteq> free_set a
    then \<exists>s. p = page_addr a s \<and> p \<noteq> 0 \<and> s + n \<le> total_pages a \<and> {s..<s + n} \<subseteq> free_set a \<and>
      free_set a' = free_set a - {s..<s + n} \<and> alloc_inv a'
    else p = 0 \<and> a' = a"
  using palloc_n_from_start [OF assms] by auto

theorem palloc_n_first_fit_witness:
  "\<exists>s. fst (palloc_n 4 (fresh_pool 6)) = page_addr (fresh_pool 6) s \<and>
     free_set (snd (palloc_n 4 (fresh_pool 6))) = {..<6} - {s..<s + 4}"
proof -
  have inv: "alloc_inv (fresh_pool 6)" by (rule fresh_pool_inv) simp
  have "\<exists>s. {s..<s + 4} \<subseteq> free_set (fresh_pool 6)" by (rule exI [of _ 0]) auto
  then show ?thesis
    using palloc_n_first_fit [OF inv, of 4 "fst (palloc_n 4 (fresh_pool 6))"
        "snd (palloc_n 4 (fresh_pool 6))"]
    by (auto split: if_splits)
qed

text \<open>\<open>init\<close> on a firmware map whose largest conventional region lies inside the address
  space establishes the invariant with every page free, keeps the bitmap below the first
  managed page and large enough for every page.\<close>

theorem init_establishes:
  assumes "best_region es 0 0 = (st, n)" and "st \<noteq> 0" and "n \<noteq> 0"
    and "unat st + PAGE_SIZE * unat n < 2 ^ 64"
  shows "let a' = init (Some es) mem a; B = (unat n + 7) div 8 in
    alloc_inv a' \<and> free_set a' = {..<total_pages a'} \<and> total_pages a' \<le> 8 * B \<and>
    unat (bitmap_addr a') + B \<le> unat (phys_start a') \<and>
    unat (phys_start a') + PAGE_SIZE * total_pages a' = unat st + PAGE_SIZE * unat n"
proof -
  let ?B = "(unat n + 7) div 8"
  let ?P = "(?B + 4095) div 4096"
  note u = init_unfold [OF assms]
  have fs: "free_set (init (Some es) mem a) = {..<total_pages (init (Some es) mem a)}"
    by (rule init_free_set [OF assms])
  have nz: "st + of_nat (4096 * ?P) \<noteq> 0"
    using u(3,4) by (metis add_is_0 less_numeral_extra(3) unat_0)
  have "unat st + PAGE_SIZE * unat n < 2 ^ 64" by (rule assms(4))
  then have le: "unat (st + of_nat (4096 * ?P)) + PAGE_SIZE * (unat n - ?P) =
      unat st + PAGE_SIZE * unat n"
    using u(2) unfolding u(3) by (simp add: diff_mult_distrib2)
  have "alloc_inv (init (Some es) mem a)"
    unfolding alloc_inv_def fs
    using assms(2,4) nz le unfolding u(1) by simp
  moreover have "unat n - ?P \<le> 8 * ?B" "?B \<le> 4096 * ?P" by linarith+
  ultimately show ?thesis
    using fs le unfolding Let_def u(1) u(3) by (simp add: u(3) [simplified])
qed

theorem init_establishes_witness:
  "let a' = init (Some [\<lparr>ty = CONVENTIONAL, region_start = 0x100000, page_count = 16\<rparr>])
        (\<lambda>_. 255) ALLOC_empty
   in alloc_inv a' \<and> free_set a' = {..<15}"
proof -
  let ?es = "[\<lparr>ty = CONVENTIONAL, region_start = 0x100000, page_count = 16\<rparr>]"
  have b: "best_region ?es 0 0 = (0x100000, 16)" by simp
  have "total_pages (init (Some ?es) (\<lambda>_. 255) ALLOC_empty) = 15"
    by (simp add: init_def)
  then show ?thesis using init_establishes [OF b, of "\<lambda>_. 255" ALLOC_empty] by (simp add: Let_def)
qed

text \<open>The wrap-around of \<open>palloc_n\<close> counts the first pages of the region as a continuation
  of the last ones. In a region of six pages, two single allocations, one free and a run of
  two leave pages 0, 4 and 5 free; a request for three pages is then answered with pages 4, 5
  and 6, of which page 6 lies behind the region, while page 0 stays free and the free count
  says that nothing is left.\<close>

theorem palloc_n_leaves_region:
  "let a0 = fresh_pool 6;
       (p0, a1) = palloc a0;
       (p1, a2) = palloc a1;
       a3 = pfree p0 a2;
       (r, a4) = palloc_n 2 a3;
       (q, a5) = palloc_n 3 a4
   in r = page_addr a0 2 \<and> free_set a4 = {0, 4, 5} \<and> alloc_inv a4 \<and>
      q = page_addr a0 4 \<and> q + 2 * of_nat PAGE_SIZE \<notin> managed_pages a0 \<and>
      free_set a5 = {0} \<and> free_count a5 = 0 \<and> \<not> alloc_inv a5"
proof -
  let ?a0 = "fresh_pool 6"
  let ?a3 = "?a0\<lparr>bitmap := bit_set (bit_set (bit_set (\<lambda>_. 0) 0 1) 1 1) 0 0, free_pages := 5,
     first_page := 0\<rparr>"
  let ?a4 = "?a0\<lparr>bitmap := set_run (bitmap ?a3) 2 2, free_pages := 3, first_page := 4\<rparr>"
  let ?a5 = "?a0\<lparr>bitmap := set_run (bitmap ?a4) 4 3, free_pages := 0, first_page := 7\<rparr>"
  have small: "i < 6 \<longleftrightarrow> i = 0 \<or> i = 1 \<or> i = 2 \<or> i = 3 \<or> i = 4 \<or> i = (5::nat)" for i by arith
  have e1: "palloc ?a0 = (page_addr ?a0 0, ?a0\<lparr>bitmap := bit_set (\<lambda>_. 0) 0 1, free_pages := 5,
      first_page := 1\<rparr>)"
    by (simp add: palloc_def upt_conv_Cons)
  have e2: "palloc (snd (palloc ?a0)) = (page_addr ?a0 1, ?a0\<lparr>bitmap := bit_set (bit_set (\<lambda>_. 0) 0 1) 1 1,
      free_pages := 4, first_page := 2\<rparr>)"
    unfolding e1 by (simp add: palloc_def page_addr_def upt_conv_Cons)
  have e3: "pfree (page_addr ?a0 0) (snd (palloc (snd (palloc ?a0)))) = ?a3"
    unfolding e2 by (simp add: pfree_def page_addr_def)
  have e4: "palloc_n 2 ?a3 = (page_addr ?a0 2, ?a4)"
    by (simp add: palloc_n_def palloc_n_scan_step wrap_idx_def page_addr_def upt_conv_Cons)
      (simp add: eval_nat_numeral)
  have e5: "palloc_n 3 ?a4 = (page_addr ?a0 4, ?a5)"
    by (simp add: palloc_n_def palloc_n_scan_step wrap_idx_def page_addr_def upt_conv_Cons)
  have f4: "free_set ?a4 = {0, 4, 5}" by (auto simp: free_set_def small)
  have f5: "free_set ?a5 = {0}" by (auto simp: free_set_def small)
  have "page_addr ?a0 4 + 2 * of_nat PAGE_SIZE \<notin> managed_pages ?a0"
    by (auto simp: managed_pages_def page_addr_def small)
  moreover have "alloc_inv ?a4" unfolding alloc_inv_def f4 by simp
  moreover have "\<not> alloc_inv ?a5" by (simp add: alloc_inv_def)
  ultimately show ?thesis
    using e1 e2 e3 e4 e5 f4 f5 by (simp add: free_count_def)
qed

end
