(* ===== verification/Paging.thy ===== *)
theory Paging
  imports Phys_Memory
begin

text \<open>
  The page tables of \<open>kernel/src/vm.rs\<close>: four levels (PML4, PDPT, PD, PT) in physical
  memory, with table pages taken from the allocator of \<open>Phys_Memory\<close>. The machine state
  is that allocator together with the 64-bit words of physical memory; the page-table code
  runs identity-mapped, so a table pointer is a physical address and entry \<open>i\<close> of the table
  at \<open>t\<close> is the word at \<open>t + 8 * i\<close>. TLB invalidation (\<open>invlpg\<close>) and the interrupt flag
  have no counterpart in the state.
\<close>

section \<open>State and entry bits\<close>

record machine =
  alloc :: phys_allocator
  mem :: "u64 \<Rightarrow> u64"

definition PAGE_MASK :: u64 where "PAGE_MASK = 0xFFFFFFFFF000"

definition PTE_PRESENT :: u64 where "PTE_PRESENT = push_bit 0 1"
definition PTE_WRITABLE :: u64 where "PTE_WRITABLE = push_bit 1 1"
definition PTE_USER :: u64 where "PTE_USER = push_bit 2 1"
definition PTE_CACHE_DISABLE :: u64 where "PTE_CACHE_DISABLE = push_bit 4 1"
definition PTE_ACCESSED :: u64 where "PTE_ACCESSED = push_bit 5 1"
definition PTE_DIRTY :: u64 where "PTE_DIRTY = push_bit 6 1"
definition PTE_HUGE :: u64 where "PTE_HUGE = push_bit 7 1"
definition PTE_GLOBAL :: u64 where "PTE_GLOBAL = push_bit 8 1"

lemmas pte_flag_defs = PTE_PRESENT_def PTE_WRITABLE_def PTE_USER_def PTE_CACHE_DISABLE_def
  PTE_ACCESSED_def PTE_DIRTY_def PTE_HUGE_def PTE_GLOBAL_def

definition phys_from_pte :: "u64 \<Rightarrow> u64" where
  "phys_from_pte entry = entry AND PAGE_MASK"

definition pte_from_phys :: "u64 \<Rightarrow> u64" where
  "pte_from_phys phys = phys AND PAGE_MASK"

definition pte_addr :: "u64 \<Rightarrow> nat \<Rightarrow> u64" where
  "pte_addr table index = table + of_nat (8 * index)"

definition get_pte :: "(u64 \<Rightarrow> u64) \<Rightarrow> u64 \<Rightarrow> nat \<Rightarrow> u64" where
  "get_pte m table index = m (pte_addr table index)"

definition set_pte :: "(u64 \<Rightarrow> u64) \<Rightarrow> u64 \<Rightarrow> nat \<Rightarrow> u64 \<Rightarrow> (u64 \<Rightarrow> u64)" where
  "set_pte m table index value = m(pte_addr table index := value)"

definition pml4_index :: "u64 \<Rightarrow> nat" where "pml4_index virt = unat (drop_bit 39 virt AND 0x1FF)"
definition pdpt_index :: "u64 \<Rightarrow> nat" where "pdpt_index virt = unat (drop_bit 30 virt AND 0x1FF)"
definition pd_index :: "u64 \<Rightarrow> nat" where "pd_index virt = unat (drop_bit 21 virt AND 0x1FF)"
definition pt_index :: "u64 \<Rightarrow> nat" where "pt_index virt = unat (drop_bit 12 virt AND 0x1FF)"

text \<open>\<open>core::ptr::write_bytes(page, 0, 512)\<close> on a page of words.\<close>

definition zero_page :: "(u64 \<Rightarrow> u64) \<Rightarrow> u64 \<Rightarrow> (u64 \<Rightarrow> u64)" where
  "zero_page m page = (\<lambda>a. if a - page < 4096 then 0 else m a)"

section \<open>The walk\<close>

text \<open>The step that every level of \<open>walk_or_create\<close> repeats for an entry that is not
  present: give up when not creating, otherwise install a zeroed table page. \<open>None\<close> is
  the early return of \<open>(0, 0)\<close>, with the state it leaves.\<close>

definition ensure_table :: "machine \<Rightarrow> u64 \<Rightarrow> nat \<Rightarrow> bool \<Rightarrow> machine \<times> bool" where
  "ensure_table s table i create =
     (if get_pte (mem s) table i AND PTE_PRESENT = 0 then
        (if \<not> create then (s, False)
         else
           (let (page, a') = palloc (alloc s) in
            if page = 0 then (s\<lparr>alloc := a'\<rparr>, False)
            else (s\<lparr>alloc := a',
                    mem := set_pte (zero_page (mem s) page) table i
                             (page OR PTE_PRESENT OR PTE_WRITABLE OR PTE_USER)\<rparr>, True)))
      else (s, True))"

text \<open>Splitting a 2 MB page into 512 entries of a new page table.\<close>

definition fill_split :: "(u64 \<Rightarrow> u64) \<Rightarrow> u64 \<Rightarrow> u64 \<Rightarrow> u64 \<Rightarrow> (u64 \<Rightarrow> u64)" where
  "fill_split m pt huge_base huge_flags =
     fold (\<lambda>i m. set_pte m pt i ((huge_base + of_nat i * 4096) OR huge_flags)) [0..<512] m"

definition split_huge :: "machine \<Rightarrow> u64 \<Rightarrow> nat \<Rightarrow> u64 \<Rightarrow> machine \<times> bool" where
  "split_huge s pd i2 e2 =
     (let (pt_page, a') = palloc (alloc s) in
      if pt_page = 0 then (s\<lparr>alloc := a'\<rparr>, False)
      else
        (let huge_base = phys_from_pte e2;
             huge_flags = e2 AND NOT (PAGE_MASK OR PTE_HUGE OR PTE_ACCESSED OR PTE_DIRTY);
             m1 = fill_split (zero_page (mem s) pt_page) pt_page huge_base huge_flags
         in (s\<lparr>alloc := a',
               mem := set_pte m1 pd i2 (pt_page OR PTE_PRESENT OR PTE_WRITABLE OR PTE_USER
                                          OR (e2 AND PTE_GLOBAL))\<rparr>, True)))"

definition walk_or_create :: "machine \<Rightarrow> u64 \<Rightarrow> u64 \<Rightarrow> bool \<Rightarrow> machine \<times> (u64 \<times> u64)" where
  "walk_or_create s pml4 virt create =
     (let i0 = pml4_index virt; i1 = pdpt_index virt; i2 = pd_index virt; i3 = pt_index virt;
          (s0, ok0) = ensure_table s pml4 i0 create
      in if \<not> ok0 then (s0, (0, 0))
      else
        (let pdpt = phys_from_pte (get_pte (mem s0) pml4 i0);
             e1 = get_pte (mem s0) pdpt i1;
             (s1, ok1) = ensure_table s0 pdpt i1 create
         in if \<not> ok1 then (s1, (0, 0))
         else if e1 AND PTE_HUGE \<noteq> 0 then (s1, (0, 0))
         else
           (let pd = phys_from_pte (get_pte (mem s1) pdpt i1);
                e2 = get_pte (mem s1) pd i2
            in if e2 AND PTE_HUGE \<noteq> 0 \<and> \<not> create then (s1, (pte_addr pd i2, e2))
            else
              (let (s2, ok2) = (if e2 AND PTE_HUGE \<noteq> 0 then split_huge s1 pd i2 e2
                                else ensure_table s1 pd i2 create)
               in if \<not> ok2 then (s2, (0, 0))
               else
                 (let pt = phys_from_pte (get_pte (mem s2) pd i2)
                  in (s2, (pte_addr pt i3, get_pte (mem s2) pt i3)))))))"

section \<open>Operations on address spaces\<close>

definition map_page :: "machine \<Rightarrow> u64 \<Rightarrow> u64 \<Rightarrow> u64 \<Rightarrow> u64 \<Rightarrow> machine \<times> u64" where
  "map_page s pml4 phys virt flags =
     (let (s', (addr, existing)) = walk_or_create s pml4 virt True
      in if addr = 0 then (s', NOT 0)
         else (s'\<lparr>mem := (mem s')(addr := pte_from_phys phys OR PTE_PRESENT OR flags)\<rparr>, 0))"

definition unmap_page :: "machine \<Rightarrow> u64 \<Rightarrow> u64 \<Rightarrow> machine" where
  "unmap_page s pml4 virt =
     (let (s', (addr, existing)) = walk_or_create s pml4 virt False
      in if addr = 0 \<or> existing AND PTE_PRESENT = 0 then s'
         else s'\<lparr>mem := (mem s')(addr := 0)\<rparr>)"

definition virt_to_phys :: "machine \<Rightarrow> u64 \<Rightarrow> u64 \<Rightarrow> u64" where
  "virt_to_phys s pml4 virt =
     (let (s', (addr, pte)) = walk_or_create s pml4 virt False
      in if addr = 0 \<or> pte AND PTE_PRESENT = 0 then 0
         else if pte AND PTE_HUGE \<noteq> 0 then phys_from_pte pte OR (virt AND 0x1FFFFF)
         else phys_from_pte pte OR (virt AND 0xFFF))"

text \<open>The loop of \<open>is_user_range_mapped\<close>; the caller has checked that all addresses are below
  \<open>2 ^ 47\<close>, so the counter does not wrap.\<close>

function user_pages_mapped :: "machine \<Rightarrow> u64 \<Rightarrow> nat \<Rightarrow> nat \<Rightarrow> bool" where
  "user_pages_mapped s pml4 addr end_page =
     (if addr < end_page then
        (let (s', (pa, pte)) = walk_or_create s pml4 (of_nat addr) False
         in if pa = 0 \<or> pte AND PTE_PRESENT = 0 \<or> pte AND PTE_USER = 0 then False
            else user_pages_mapped s pml4 (addr + 4096) end_page)
      else True)"
  by pat_completeness auto
termination
  by (relation "measure (\<lambda>(s, pml4, addr, end_page). end_page - addr)") auto

definition is_user_range_mapped :: "machine \<Rightarrow> u64 \<Rightarrow> u64 \<Rightarrow> nat \<Rightarrow> bool" where
  "is_user_range_mapped s pml4 virt len =
     (if len = 0 then True
      else if pml4 = 0 then False
      else if unat virt + len \<ge> 2 ^ 64 then False
      else
        (let end' = virt + of_nat len in
         if virt \<ge> 0x800000000000 \<or> end' > 0x800000000000 then False
         else user_pages_mapped s pml4 (unat (virt AND NOT 0xFFF))
                (unat ((end' + 0xFFF) AND NOT 0xFFF))))"

definition create_address_space :: "machine \<Rightarrow> machine \<times> u64" where
  "create_address_space s =
     (let (phys, a') = palloc (alloc s) in
      if phys = 0 then (s\<lparr>alloc := a'\<rparr>, 0)
      else (s\<lparr>alloc := a', mem := zero_page (mem s) phys\<rparr>, phys))"

definition clone_high_half :: "machine \<Rightarrow> u64 \<Rightarrow> u64 \<Rightarrow> machine" where
  "clone_high_half s src dst =
     s\<lparr>mem := fold (\<lambda>i m. let v = get_pte m src i in
                 if v AND PTE_PRESENT \<noteq> 0 then set_pte m dst i v else m) [256..<512] (mem s)\<rparr>"

definition clone_kernel_mappings :: "machine \<Rightarrow> u64 \<Rightarrow> u64 \<Rightarrow> machine" where
  "clone_kernel_mappings s src_pml4 dst_pml4 =
     s\<lparr>mem := fold (\<lambda>i m. let src_pte = get_pte m src_pml4 i in
                 if src_pte AND PTE_PRESENT \<noteq> 0 then set_pte m dst_pml4 i src_pte else m)
              [256..<512] (mem s)\<rparr>"

text \<open>\<open>destroy_address_space\<close>: the nested loops free the PT, PD and PDPT pages of the lower
  half and finally the PML4 page; data pages and huge pages stay.\<close>

definition destroy_pd :: "(u64 \<Rightarrow> u64) \<Rightarrow> u64 \<Rightarrow> phys_allocator \<Rightarrow> phys_allocator" where
  "destroy_pd m pd =
     fold (\<lambda>k a. let e2 = get_pte m pd k in
             if e2 AND PTE_PRESENT = 0 then a
             else if e2 AND PTE_HUGE \<noteq> 0 then a
             else pfree (phys_from_pte e2) a) [0..<512]"

definition destroy_pdpt :: "(u64 \<Rightarrow> u64) \<Rightarrow> u64 \<Rightarrow> phys_allocator \<Rightarrow> phys_allocator" where
  "destroy_pdpt m pdpt =
     fold (\<lambda>j a. let e1 = get_pte m pdpt j in
             if e1 AND PTE_PRESENT = 0 then a
             else if e1 AND PTE_HUGE \<noteq> 0 then a
             else pfree (phys_from_pte e1) (destroy_pd m (phys_from_pte e1) a)) [0..<512]"

definition destroy_address_space :: "machine \<Rightarrow> u64 \<Rightarrow> machine" where
  "destroy_address_space s pml4 =
     s\<lparr>alloc := pfree pml4
        (fold (\<lambda>i a. let e0 = get_pte (mem s) pml4 i in
             if e0 AND PTE_PRESENT = 0 then a
             else if e0 AND PTE_HUGE \<noteq> 0 then pfree (phys_from_pte e0) a
             else pfree (phys_from_pte e0) (destroy_pdpt (mem s) (phys_from_pte e0) a))
           [0..<256] (alloc s))\<rparr>"

text \<open>\<open>identity_map_2mb\<close>. The loop counter is a 64-bit word that wraps, so the loop need not
  end for a range at the top of the address space: \<open>None\<close> is a run that does not return.\<close>

definition ensure_kernel_table :: "machine \<Rightarrow> u64 \<Rightarrow> nat \<Rightarrow> machine \<times> u64" where
  "ensure_kernel_table s table i =
     (let e = get_pte (mem s) table i in
      if e AND PTE_PRESENT = 0 then
        (let (page, a') = palloc (alloc s) in
         if page = 0 then (s\<lparr>alloc := a'\<rparr>, 0)
         else (s\<lparr>alloc := a', mem := set_pte (zero_page (mem s) page) table i
                    (page OR PTE_PRESENT OR PTE_WRITABLE)\<rparr>, page))
      else (s, phys_from_pte e))"

partial_function (option) identity_map_loop ::
    "machine \<Rightarrow> u64 \<Rightarrow> nat \<Rightarrow> u64 \<Rightarrow> u64 \<Rightarrow> u64 \<Rightarrow> (machine \<times> bool) option" where
  "identity_map_loop s pml4 i0 addr end' extra_flags =
     (if addr < end' then
        (let (s0, pdpt) = ensure_kernel_table s pml4 i0 in
         if get_pte (mem s) pml4 i0 AND PTE_PRESENT = 0 \<and> pdpt = 0 then Some (s0, False)
         else
           (let i1 = pdpt_index addr; e1 = get_pte (mem s0) pdpt i1 in
            if e1 AND PTE_PRESENT \<noteq> 0 \<and> e1 AND PTE_HUGE \<noteq> 0
            then identity_map_loop s0 pml4 i0 (addr + 0x40000000) end' extra_flags
            else
              (let (s1, pd) = ensure_kernel_table s0 pdpt i1 in
               if e1 AND PTE_PRESENT = 0 \<and> pd = 0 then Some (s1, False)
               else
                 identity_map_loop
                   (s1\<lparr>mem := set_pte (mem s1) pd (pd_index addr)
                      ((addr AND 0xFFFFFFE00000) OR PTE_PRESENT OR PTE_HUGE OR extra_flags)\<rparr>)
                   pml4 i0 (addr + 0x200000) end' extra_flags)))
      else Some (s, True))"

definition identity_map_2mb :: "machine \<Rightarrow> u64 \<Rightarrow> u64 \<Rightarrow> u64 \<Rightarrow> u64 \<Rightarrow> (machine \<times> bool) option" where
  "identity_map_2mb s pml4 start end' extra_flags =
     identity_map_loop s pml4 (pml4_index start) (start AND NOT 0x1FFFFF) end' extra_flags"

text \<open>\<open>map_mmio\<close>, with the same reading of a loop that does not end.\<close>

partial_function (option) map_mmio_loop :: "machine \<Rightarrow> u64 \<Rightarrow> u64 \<Rightarrow> u64 \<Rightarrow> (machine \<times> u64) option" where
  "map_mmio_loop s pml4 addr end' =
     (if addr < end' then
        (let (s', r) = map_page s pml4 addr addr (PTE_WRITABLE OR PTE_CACHE_DISABLE) in
         if r \<noteq> 0 then Some (s', NOT 0)
         else map_mmio_loop s' pml4 (addr + 4096) end')
      else Some (s, 0))"

definition map_mmio :: "machine \<Rightarrow> u64 \<Rightarrow> u64 \<Rightarrow> nat \<Rightarrow> (machine \<times> u64) option" where
  "map_mmio s KERNEL_PML4 phys sz =
     (if sz = 0 then Some (s, NOT 0)
      else if KERNEL_PML4 = 0 then Some (s, NOT 0)
      else map_mmio_loop s KERNEL_PML4 (phys AND NOT 0xFFF)
             ((phys + of_nat sz + 0xFFF) AND NOT 0xFFF))"

text \<open>\<open>vm::init\<close>, given the value of CR3: it becomes \<open>KERNEL_PML4\<close>, the local APIC is mapped
  twice and the I/O APIC once (the results are ignored), and the entry of the firmware's page
  table area is made writable. Toggling \<open>CR0.WP\<close> has no counterpart.\<close>

definition LAPIC_HH_VIRT :: u64 where "LAPIC_HH_VIRT = 0xFFFFFFFFFEE00000"

definition vm_init :: "machine \<Rightarrow> u64 \<Rightarrow> machine \<times> u64" where
  "vm_init s current_pml4 =
     (let f = PTE_WRITABLE OR PTE_CACHE_DISABLE;
          s1 = fst (map_page s current_pml4 0xFEE00000 LAPIC_HH_VIRT f);
          s2 = fst (map_page s1 current_pml4 0xFEE00000 0xFEE00000 f);
          s3 = fst (map_page s2 current_pml4 0xFEC00000 0xFEC00000 f);
          pdpt = phys_from_pte (get_pte (mem s3) current_pml4 0);
          pd = phys_from_pte (get_pte (mem s3) pdpt 0);
          i = pd_index 0xF800000
      in (s3\<lparr>mem := set_pte (mem s3) pd i (get_pte (mem s3) pd i OR PTE_WRITABLE)\<rparr>, current_pml4))"

section \<open>Entry bits and table addresses\<close>

lemma bit_shifted_one: "k < 64 \<Longrightarrow> bit (push_bit k 1 :: u64) n \<longleftrightarrow> n = k"
  by (auto simp: bit_exp_iff)

lemma bit_shifted_mask: "k + m \<le> 64 \<Longrightarrow> bit (push_bit k (mask m) :: u64) n \<longleftrightarrow> k \<le> n \<and> n < k + m"
  by (auto simp: bit_push_bit_iff bit_mask_iff)

lemma and_shifted_one: "k < 64 \<Longrightarrow> (e :: u64) AND push_bit k 1 = 0 \<longleftrightarrow> \<not> bit e k"
  by (simp add: and_exp_eq_0_iff_not_bit)

lemma bit_PAGE_MASK: "bit PAGE_MASK n \<longleftrightarrow> 12 \<le> n \<and> n < 48"
proof -
  have "PAGE_MASK = push_bit 12 (mask 36)"
    by (simp add: PAGE_MASK_def push_bit_eq_mult mask_eq_exp_minus_1)
  then show ?thesis using bit_shifted_mask [of 12 36 n] by (simp only:) simp
qed

lemma bit_flags:
  "bit PTE_PRESENT n \<longleftrightarrow> n = 0" "bit PTE_WRITABLE n \<longleftrightarrow> n = 1" "bit PTE_USER n \<longleftrightarrow> n = 2"
  "bit PTE_CACHE_DISABLE n \<longleftrightarrow> n = 4" "bit PTE_ACCESSED n \<longleftrightarrow> n = 5" "bit PTE_DIRTY n \<longleftrightarrow> n = 6"
  "bit PTE_HUGE n \<longleftrightarrow> n = 7" "bit PTE_GLOBAL n \<longleftrightarrow> n = 8"
  unfolding pte_flag_defs by (rule bit_shifted_one; simp)+

lemma flag_clear_iff:
  "e AND PTE_PRESENT = 0 \<longleftrightarrow> \<not> bit e 0" "e AND PTE_USER = 0 \<longleftrightarrow> \<not> bit e 2"
  "e AND PTE_HUGE = 0 \<longleftrightarrow> \<not> bit e 7"
  unfolding pte_flag_defs by (rule and_shifted_one; simp)+

lemma bit_phys_from_pte: "bit (phys_from_pte e) n \<longleftrightarrow> bit e n \<and> 12 \<le> n \<and> n < 48"
  by (simp add: phys_from_pte_def bit_simps bit_PAGE_MASK)

definition page_aligned :: "u64 \<Rightarrow> bool" where
  "page_aligned t \<longleftrightarrow> take_bit 12 t = 0"

lemma phys_from_pte_aligned [simp]: "page_aligned (phys_from_pte e)"
  by (auto simp: page_aligned_def bit_eq_iff bit_simps bit_phys_from_pte)

lemma phys_from_pte_table:
  assumes "p AND PAGE_MASK = p" and "\<And>n. bit f n \<Longrightarrow> n < 12"
  shows "phys_from_pte (p OR f) = p"
proof (rule bit_word_eqI)
  fix n :: nat
  assume "n < LENGTH(64)"
  have "bit p n \<longleftrightarrow> bit p n \<and> 12 \<le> n \<and> n < 48"
    using assms(1) by (metis bit_and_iff bit_PAGE_MASK)
  moreover have "12 \<le> n \<Longrightarrow> \<not> bit f n" using assms(2) by force
  ultimately show "bit (phys_from_pte (p OR f)) n \<longleftrightarrow> bit p n"
    by (auto simp: bit_phys_from_pte bit_simps)
qed

lemma masked_aligned: "p AND PAGE_MASK = p \<Longrightarrow> page_aligned p"
  by (metis phys_from_pte_aligned phys_from_pte_def)

lemma masked_low_bits: "p AND PAGE_MASK = p \<Longrightarrow> n < 12 \<Longrightarrow> \<not> bit p n"
  by (metis bit_PAGE_MASK bit_and_iff not_le)

lemma aligned_unat: "page_aligned t \<longleftrightarrow> unat t mod 4096 = 0"
proof -
  have "unat (take_bit 12 t) = unat t mod 4096"
    by (simp add: take_bit_eq_mod unat_mod_distrib)
  then show ?thesis by (metis page_aligned_def unat_0 unat_eq_zero)
qed

lemma aligned_room:
  assumes "page_aligned t"
  shows "unat t + 4096 \<le> 2 ^ 64"
proof -
  have "unat t mod 4096 = 0" using assms by (simp add: aligned_unat)
  moreover have "unat t < 2 ^ 64" using unsigned_less [of t] by simp
  ultimately show ?thesis by (auto simp: mod_eq_0_iff_dvd elim!: dvdE)
qed

lemma pte_addr_unat:
  assumes "page_aligned t" and "i < 512"
  shows "unat (pte_addr t i) = unat t + 8 * i"
  using aligned_room [OF assms(1)] assms(2)
  unfolding pte_addr_def by (intro unat_add_nat64) simp

lemma pte_addr_eq_iff:
  assumes "page_aligned t" "page_aligned u" "i < 512" "j < 512"
  shows "pte_addr t i = pte_addr u j \<longleftrightarrow> t = u \<and> i = j"
proof
  assume "pte_addr t i = pte_addr u j"
  then have eq: "unat t + 8 * i = unat u + 8 * j"
    using pte_addr_unat assms by metis
  have t: "unat t = 4096 * (unat t div 4096)" and u: "unat u = 4096 * (unat u div 4096)"
    using assms(1,2) by (auto simp: aligned_unat)
  have "unat t div 4096 = (unat t + 8 * i) div 4096" using t assms(3) by linarith
  moreover have "unat u div 4096 = (unat u + 8 * j) div 4096" using u assms(4) by linarith
  ultimately have "unat t = unat u" using eq t u by simp
  then show "t = u \<and> i = j" using eq by (simp add: word_unat_eq_iff)
qed simp

lemma get_set_pte:
  assumes "page_aligned t" "page_aligned u" "i < 512" "j < 512"
  shows "get_pte (set_pte m t i v) u j = (if t = u \<and> i = j then v else get_pte m u j)"
  using pte_addr_eq_iff [OF assms] by (auto simp: get_pte_def set_pte_def)

lemma get_zero_page:
  assumes "page_aligned p" "page_aligned u" "j < 512"
  shows "get_pte (zero_page m p) u j = (if p = u then 0 else get_pte m u j)"
proof -
  have a: "unat (pte_addr u j) = unat u + 8 * j" by (rule pte_addr_unat [OF assms(2,3)])
  have p: "unat p = 4096 * (unat p div 4096)" and u: "unat u = 4096 * (unat u div 4096)"
    using assms(1,2) by (auto simp: aligned_unat)
  have "pte_addr u j - p < 4096 \<longleftrightarrow> p = u"
  proof (cases "unat p \<le> unat u + 8 * j")
    case True
    then have d: "unat (pte_addr u j - p) = unat u + 8 * j - unat p"
      using a by (simp add: unat_sub word_le_nat_alt)
    have block: "4096 * y + 8 * j - 4096 * x < 4096 \<longleftrightarrow> 4096 * x = 4096 * y"
      if "4096 * x \<le> 4096 * y + 8 * j" for x y :: nat
      using that assms(3) by (cases x y rule: linorder_cases) auto
    have "unat u + 8 * j - unat p < 4096 \<longleftrightarrow> unat p = unat u"
      using block [of "unat p div 4096" "unat u div 4096"] True
      unfolding p [symmetric] u [symmetric] .
    then have "unat (pte_addr u j - p) < 4096 \<longleftrightarrow> unat p = unat u" unfolding d .
    then show ?thesis by (simp only: word_less_nat_alt word_unat_eq_iff) simp
  next
    case False
    then have d: "unat (pte_addr u j - p) = unat u + 8 * j + 2 ^ 64 - unat p"
      using a by (simp add: unat_sub_if')
    have "\<not> unat (pte_addr u j - p) < 4096"
      unfolding d using aligned_room [OF assms(1)] by linarith
    moreover have "p \<noteq> u" using False by auto
    ultimately show ?thesis by (simp add: word_less_nat_alt)
  qed
  then show ?thesis by (simp add: get_pte_def zero_page_def)
qed

lemma get_fill_split:
  assumes "page_aligned p" "page_aligned u" "j < 512"
  shows "get_pte (fill_split m p b f) u j =
    (if p = u then (b + of_nat j * 4096) OR f else get_pte m u j)"
proof -
  let ?w = "\<lambda>i m. set_pte m p i ((b + of_nat i * 4096) OR f)"
  have "get_pte (fold ?w [0..<n] m) u j =
      (if p = u \<and> j < n then (b + of_nat j * 4096) OR f else get_pte m u j)" if "n \<le> 512" for n
    using that
  proof (induction n)
    case (Suc n)
    then show ?case
      using get_set_pte [OF assms(1,2) _ assms(3), of n] by (auto simp: less_Suc_eq)
  qed simp
  then show ?thesis using assms(3) by (simp add: fill_split_def)
qed

lemma index_bounds [simp]:
  "pml4_index v < 512" "pdpt_index v < 512" "pd_index v < 512" "pt_index v < 512"
proof -
  have "unat (x AND 0x1FF) < 512" for x :: u64
  proof -
    have "unat (x AND 0x1FF) \<le> unat (0x1FF :: u64)"
      by (rule word_and_le1 [THEN word_le_nat_alt [THEN iffD1]])
    then show ?thesis by simp
  qed
  then show "pml4_index v < 512" "pdpt_index v < 512" "pd_index v < 512" "pt_index v < 512"
    by (simp_all add: pml4_index_def pdpt_index_def pd_index_def pt_index_def)
qed

end
