(* ===== verification/Paging_Correct.thy ===== *)
theory Paging_Correct
  imports Paging
begin

text \<open>
  Correctness of the page-table code of \<open>Paging\<close>. The reference view of an address space
  is \<open>table_at\<close>, the table that the indices of an address lead to at each level; the
  well-formedness invariant \<open>tree_ok\<close> says that these tables form a tree of allocated
  pages. Installing a table (\<open>ensure_table\<close>) and splitting a 2 MB page (\<open>split_huge\<close>) are
  both instances of one \<open>link\<close> step, which keeps the invariant; the properties of
  \<open>map_page\<close>, \<open>unmap_page\<close> and \<open>is_user_range_mapped\<close> follow.
\<close>

section \<open>The tree of tables\<close>

definition lvl_index :: "nat \<Rightarrow> u64 \<Rightarrow> nat" where
  "lvl_index k v = (if k = 0 then pml4_index v else if k = 1 then pdpt_index v
     else if k = 2 then pd_index v else pt_index v)"

text \<open>Whether an entry of a table at level \<open>k\<close> leads to a further table.\<close>

definition descends :: "nat \<Rightarrow> u64 \<Rightarrow> bool" where
  "descends k e \<longleftrightarrow> bit e 0 \<and> (k = 0 \<or> \<not> bit e 7)"

primrec table_at :: "(u64 \<Rightarrow> u64) \<Rightarrow> u64 \<Rightarrow> nat \<Rightarrow> u64 \<Rightarrow> u64 option" where
  "table_at m pml4 0 v = Some pml4"
| "table_at m pml4 (Suc k) v =
     (case table_at m pml4 k v of
        None \<Rightarrow> None
      | Some t \<Rightarrow> (if descends k (get_pte m t (lvl_index k v))
                  then Some (phys_from_pte (get_pte m t (lvl_index k v))) else None))"

definition same_path :: "nat \<Rightarrow> u64 \<Rightarrow> u64 \<Rightarrow> bool" where
  "same_path k v w \<longleftrightarrow> (\<forall>i<k. lvl_index i v = lvl_index i w)"

text \<open>Two addresses lie in the same 4 KB page when all four indices agree.\<close>

abbreviation same_page :: "u64 \<Rightarrow> u64 \<Rightarrow> bool" where
  "same_page v w \<equiv> same_path 4 v w"

definition tree_ok :: "machine \<Rightarrow> u64 \<Rightarrow> bool" where
  "tree_ok s pml4 \<longleftrightarrow>
     alloc_inv (alloc s) \<and> (\<forall>p\<in>managed_pages (alloc s). p AND PAGE_MASK = p) \<and>
     page_aligned pml4 \<and>
     (\<forall>k v t. k \<le> 3 \<longrightarrow> table_at (mem s) pml4 k v = Some t \<longrightarrow>
        t \<noteq> 0 \<and> t \<notin> free_pages_of (alloc s)) \<and>
     (\<forall>k l v w t. k \<le> 3 \<longrightarrow> l \<le> 3 \<longrightarrow> table_at (mem s) pml4 k v = Some t \<longrightarrow>
        table_at (mem s) pml4 l w = Some t \<longrightarrow> k = l \<and> same_path k v w) \<and>
     (\<forall>v t. table_at (mem s) pml4 2 v = Some t \<longrightarrow> bit (get_pte (mem s) t (pd_index v)) 7 \<longrightarrow>
        get_pte (mem s) t (pd_index v) AND 0x1FF000 = 0)"

lemma lvl_index_bound [simp]: "lvl_index k v < 512"
  by (simp add: lvl_index_def)

lemma same_path_refl [simp]: "same_path k v v"
  by (simp add: same_path_def)

lemma same_path_sym: "same_path k v w \<Longrightarrow> same_path k w v"
  by (simp add: same_path_def)

lemma same_path_mono: "same_path k v w \<Longrightarrow> j \<le> k \<Longrightarrow> same_path j v w"
  by (simp add: same_path_def)

lemma same_path_Suc: "same_path (Suc k) v w \<longleftrightarrow> same_path k v w \<and> lvl_index k v = lvl_index k w"
  by (auto simp: same_path_def less_Suc_eq)

lemma table_at_same_path: "same_path k v w \<Longrightarrow> table_at m pml4 k v = table_at m pml4 k w"
  by (induction k) (auto simp: same_path_Suc split: option.splits)

lemma table_at_aligned: "page_aligned pml4 \<Longrightarrow> table_at m pml4 k v = Some t \<Longrightarrow> page_aligned t"
  by (cases k) (auto split: option.splits if_splits)

lemma table_at_prefix:
  "table_at m pml4 k v = Some t \<Longrightarrow> j \<le> k \<Longrightarrow> \<exists>u. table_at m pml4 j v = Some u"
proof (induction k arbitrary: t)
  case (Suc k)
  then show ?case by (cases "j = Suc k") (auto split: option.splits)
qed simp

lemma tree_ok_alloc: "tree_ok s pml4 \<Longrightarrow> alloc_inv (alloc s)"
  and tree_ok_pages: "tree_ok s pml4 \<Longrightarrow> p \<in> managed_pages (alloc s) \<Longrightarrow> p AND PAGE_MASK = p"
  and tree_ok_root: "tree_ok s pml4 \<Longrightarrow> page_aligned pml4"
  and tree_ok_table: "tree_ok s pml4 \<Longrightarrow> table_at (mem s) pml4 k v = Some t \<Longrightarrow> k \<le> 3 \<Longrightarrow>
    t \<noteq> 0 \<and> t \<notin> free_pages_of (alloc s)"
  and tree_ok_inj: "tree_ok s pml4 \<Longrightarrow> table_at (mem s) pml4 k v = Some t \<Longrightarrow>
    table_at (mem s) pml4 l w = Some t \<Longrightarrow> k \<le> 3 \<Longrightarrow> l \<le> 3 \<Longrightarrow> k = l \<and> same_path k v w"
  and tree_ok_huge: "tree_ok s pml4 \<Longrightarrow> table_at (mem s) pml4 2 v = Some t \<Longrightarrow>
    bit (get_pte (mem s) t (pd_index v)) 7 \<Longrightarrow> get_pte (mem s) t (pd_index v) AND 0x1FF000 = 0"
  unfolding tree_ok_def by blast+

section \<open>Linking a new table\<close>

text \<open>The common effect of installing a page \<open>p\<close> below the entry of \<open>v\<close> at level \<open>k\<close>: that
  entry, which led nowhere, now leads to \<open>p\<close>; the entries of \<open>p\<close> are \<open>c\<close>; nothing else
  changed.\<close>

definition link :: "(u64 \<Rightarrow> u64) \<Rightarrow> (u64 \<Rightarrow> u64) \<Rightarrow> u64 \<Rightarrow> nat \<Rightarrow> u64 \<Rightarrow> u64 \<Rightarrow> u64 \<Rightarrow> (nat \<Rightarrow> u64) \<Rightarrow> bool" where
  "link m m' pml4 k v t p c \<longleftrightarrow>
     table_at m pml4 k v = Some t \<and> \<not> descends k (get_pte m t (lvl_index k v)) \<and>
     descends k (get_pte m' t (lvl_index k v)) \<and> phys_from_pte (get_pte m' t (lvl_index k v)) = p \<and>
     (\<forall>j<512. get_pte m' p j = c j) \<and> (k < 2 \<longrightarrow> (\<forall>j<512. \<not> bit (c j) 0 \<and> \<not> bit (c j) 7)) \<and>
     (\<forall>u j. page_aligned u \<longrightarrow> u \<noteq> p \<longrightarrow> j < 512 \<longrightarrow> \<not> (u = t \<and> j = lvl_index k v) \<longrightarrow>
        get_pte m' u j = get_pte m u j)"

lemma link_frame:
  assumes "link m m' pml4 k v t p c" and "page_aligned u" and "u \<noteq> p" and "j < 512"
    and "\<not> (u = t \<and> j = lvl_index k v)"
  shows "get_pte m' u j = get_pte m u j"
  using assms by (simp add: link_def)

text \<open>An entry other than the rewritten one keeps its value.\<close>

lemma link_entry:
  assumes ok: "tree_ok s pml4" and l: "link (mem s) m' pml4 k v t p c" and k: "k \<le> 2"
    and p: "p \<in> free_pages_of (alloc s)" and u: "table_at (mem s) pml4 j w = Some u" and j: "j \<le> 3"
    and ne: "\<not> (j = k \<and> same_path (Suc k) v w)"
  shows "get_pte m' u (lvl_index j w) = get_pte (mem s) u (lvl_index j w)"
proof (rule link_frame [OF l])
  show "page_aligned u" by (rule table_at_aligned [OF tree_ok_root [OF ok] u])
  show "u \<noteq> p" using tree_ok_table [OF ok u j] p by auto
  have t: "table_at (mem s) pml4 k v = Some t" using l by (simp add: link_def)
  show "\<not> (u = t \<and> lvl_index j w = lvl_index k v)"
  proof
    assume same: "u = t \<and> lvl_index j w = lvl_index k v"
    have "j = k \<and> same_path j w v"
      by (rule tree_ok_inj [OF ok u]) (use same t j k in auto)
    then show False using ne same by (auto simp: same_path_Suc same_path_sym)
  qed
qed simp

lemma link_table_at:
  assumes ok: "tree_ok s pml4" and l: "link (mem s) m' pml4 k v t p c" and k: "k \<le> 2"
    and p: "p \<in> free_pages_of (alloc s)" and j: "j \<le> 3"
  shows "table_at m' pml4 j w =
    (if same_path (Suc k) v w \<and> k < j then (if j = Suc k then Some p else None)
     else table_at (mem s) pml4 j w)"
  using j
proof (induction j)
  case (Suc j)
  let ?m = "mem s"
  have t: "table_at ?m pml4 k v = Some t" using l by (simp add: link_def)
  have IH: "table_at m' pml4 j w =
    (if same_path (Suc k) v w \<and> k < j then (if j = Suc k then Some p else None)
     else table_at ?m pml4 j w)" using Suc by simp
  have entry: "get_pte m' u (lvl_index j w) = get_pte ?m u (lvl_index j w)"
    if "table_at ?m pml4 j w = Some u" and "\<not> (j = k \<and> same_path (Suc k) v w)" for u
    by (rule link_entry [OF ok l k p]) (use that Suc.prems in auto)
  consider (below) "same_path (Suc k) v w" "k < j" | (here) "same_path (Suc k) v w" "j = k"
    | (above) "\<not> (same_path (Suc k) v w \<and> k \<le> j)" by linarith
  then show ?case
  proof cases
    case below
    show ?thesis
    proof (cases "j = Suc k")
      case True
      then have "\<not> bit (get_pte m' p (lvl_index j w)) 0"
        using l Suc.prems by (auto simp: link_def)
      then show ?thesis using below IH True by (simp add: descends_def)
    qed (use below IH in auto)
  next
    case here
    have "table_at ?m pml4 k w = Some t"
      using t table_at_same_path [of k v w] here by (simp add: same_path_Suc)
    then show ?thesis using IH here l by (auto simp: link_def same_path_Suc)
  next
    case above
    then have "table_at m' pml4 j w = table_at ?m pml4 j w" using IH by auto
    then show ?thesis using above entry by (auto split: option.splits)
  qed
qed simp



lemma link_tree_ok:
  assumes ok: "tree_ok s pml4" and l: "link (mem s) m' pml4 k v t p c" and k: "k \<le> 2"
    and pal: "palloc (alloc s) = (p, a')" and p0: "p \<noteq> 0"
  shows "tree_ok (s\<lparr>alloc := a', mem := m'\<rparr>) pml4"
proof -
  have p: "p \<in> free_pages_of (alloc s)" and fr: "free_pages_of a' = free_pages_of (alloc s) - {p}"
    and mg: "managed_pages a' = managed_pages (alloc s)" and inv: "alloc_inv a'"
    using pm.alloc_page [OF tree_ok_alloc [OF ok] pal p0] by auto
  note at = link_table_at [OF ok l k p]
  have old: "u \<noteq> p" if "table_at (mem s) pml4 j w = Some u" "j \<le> 3" for j w u
    using tree_ok_table [OF ok that] p by auto
  have inj: "j = i \<and> same_path j w x"
    if "table_at m' pml4 j w = Some u" "table_at m' pml4 i x = Some u" "j \<le> 3" "i \<le> 3" for j i w x u
  proof -
    have new: "table_at m' pml4 h y = Some p \<longleftrightarrow> h = Suc k \<and> same_path (Suc k) v y" if "h \<le> 3" for h y
      using at [OF that, of y] old [of h y p] that by (auto split: if_splits)
    show ?thesis
    proof (cases "u = p")
      case True
      then show ?thesis using that new [of j w] new [of i x]
        by (auto simp: same_path_def)
    next
      case False
      have "table_at (mem s) pml4 j w = Some u" using that False at [of j w] by (auto split: if_splits)
      moreover have "table_at (mem s) pml4 i x = Some u"
        using that False at [of i x] by (auto split: if_splits)
      ultimately show ?thesis using tree_ok_inj [OF ok] that by blast
    qed
  qed
  have huge: "get_pte m' u (pd_index w) AND 0x1FF000 = 0"
    if u: "table_at m' pml4 2 w = Some u" and b: "bit (get_pte m' u (pd_index w)) 7" for w u
  proof -
    have i2: "pd_index w = lvl_index 2 w" by (simp add: lvl_index_def)
    show ?thesis
    proof (cases "same_path (Suc k) v w \<and> k = 1")
      case True
      then have "u = p" using at [of 2 w] u by auto
      then show ?thesis using l True b by (auto simp: link_def)
    next
      case False
      then have old2: "table_at (mem s) pml4 2 w = Some u"
        using at [of 2 w] u k by (auto split: if_splits)
      show ?thesis
      proof (cases "k = 2 \<and> same_path (Suc k) v w")
        case True
        then have "u = t" "pd_index w = lvl_index k v"
          using l old2 table_at_same_path [of 2 v w] same_path_mono [of 3 v w 2]
          by (auto simp: link_def i2 same_path_def)
        then show ?thesis using l b True by (auto simp: link_def descends_def)
      next
        case False
        then have "get_pte m' u (pd_index w) = get_pte (mem s) u (pd_index w)"
          unfolding i2 by (intro link_entry [OF ok l k p old2]) auto
        then show ?thesis using tree_ok_huge [OF ok old2] b by simp
      qed
    qed
  qed
  have tab: "u \<noteq> 0 \<and> u \<notin> free_pages_of a'" if "table_at m' pml4 j w = Some u" "j \<le> 3" for j w u
    using at [OF that(2), of w] that p0 fr tree_ok_table [OF ok, of j w u] by (auto split: if_splits)
  show ?thesis
    unfolding tree_ok_def using inv mg tree_ok_pages [OF ok] tree_ok_root [OF ok] tab inj huge
    by simp
qed

section \<open>Translation\<close>

text \<open>What a leaf entry says about an address below it, and the reference translation.\<close>

definition leaf :: "u64 \<Rightarrow> u64 \<Rightarrow> u64" where
  "leaf e v = (if \<not> bit e 0 then 0
     else if bit e 7 then phys_from_pte e OR (v AND 0x1FFFFF)
     else phys_from_pte e OR (v AND 0xFFF))"

definition translate :: "(u64 \<Rightarrow> u64) \<Rightarrow> u64 \<Rightarrow> u64 \<Rightarrow> u64" where
  "translate m pml4 v =
     (case table_at m pml4 3 v of
        Some pt \<Rightarrow> leaf (get_pte m pt (pt_index v)) v
      | None \<Rightarrow> (case table_at m pml4 2 v of
          Some pd \<Rightarrow> leaf (get_pte m pd (pd_index v)) v
        | None \<Rightarrow> 0))"

lemma link_translate:
  assumes ok: "tree_ok s pml4" and l: "link (mem s) m' pml4 k v t p c" and k: "k \<le> 2"
    and p: "p \<in> free_pages_of (alloc s)"
    and same: "k = 2 \<Longrightarrow> (\<And>w. same_path 3 v w \<Longrightarrow>
      leaf (c (pt_index w)) w = leaf (get_pte (mem s) t (pd_index v)) w)"
  shows "translate m' pml4 w = translate (mem s) pml4 w"
proof -
  note at = link_table_at [OF ok l k p]
  have i2: "pd_index x = lvl_index 2 x" and i3: "pt_index x = lvl_index 3 x" for x
    by (simp_all add: lvl_index_def)
  have c: "get_pte m' p j = c j" if "j < 512" for j using l that by (simp add: link_def)
  have t: "table_at (mem s) pml4 k v = Some t" "\<not> descends k (get_pte (mem s) t (lvl_index k v))"
    using l by (simp_all add: link_def)
  show ?thesis
  proof (cases "same_path (Suc k) v w")
    case True
    then have tw: "table_at (mem s) pml4 k w = Some t"
      using t(1) table_at_same_path [of k v w] by (simp add: same_path_Suc)
    moreover have "\<not> descends k (get_pte (mem s) t (lvl_index k w))"
      using t(2) True by (simp add: same_path_Suc)
    ultimately have none: "table_at (mem s) pml4 (Suc k) w = None" by simp
    show ?thesis
    proof (cases "k = 2")
      case True
      with \<open>same_path (Suc k) v w\<close> have "same_path 3 v w" by simp
      moreover have "pd_index w = pd_index v"
        using \<open>same_path (Suc k) v w\<close> True by (simp add: i2 same_path_def)
      ultimately show ?thesis
        using at [of 3 w] none tw same True c [of "pt_index w"]
        by (simp add: translate_def numeral_3_eq_3)
    next
      case False
      then have kk: "k < 2" using k by simp
      have z: "\<not> bit (c j) 0" if "j < 512" for j using l kk that by (simp add: link_def)
      have "table_at (mem s) pml4 2 w = None"
        using none table_at_prefix [of "mem s" pml4 2 w _ "Suc k"] kk
        by (cases "table_at (mem s) pml4 2 w") auto
      then have "translate (mem s) pml4 w = 0"
        using table_at_prefix [of "mem s" pml4 3 w _ 2]
        by (cases "table_at (mem s) pml4 3 w") (auto simp: translate_def)
      moreover have "translate m' pml4 w = 0"
        using at [of 3 w] at [of 2 w] \<open>same_path (Suc k) v w\<close> kk c [of "pd_index w"] z
        by (auto simp: translate_def leaf_def)
      ultimately show ?thesis by simp
    qed
  next
    case False
    have e: "get_pte m' u (lvl_index j w) = get_pte (mem s) u (lvl_index j w)"
      if "table_at (mem s) pml4 j w = Some u" "j \<le> 3" for j u
      by (rule link_entry [OF ok l k p that]) (use False in simp)
    show ?thesis
      using at [of 3 w] at [of 2 w] False e [of 3] e [of 2]
      by (auto simp: translate_def i2 i3 split: option.splits)
  qed
qed

section \<open>The steps of the walk\<close>

text \<open>A step that may install tables but changes no translation.\<close>

definition keeps :: "machine \<Rightarrow> machine \<Rightarrow> u64 \<Rightarrow> bool" where
  "keeps s s' pml4 \<longleftrightarrow> tree_ok s' pml4 \<and> (\<forall>w. translate (mem s') pml4 w = translate (mem s) pml4 w)"

lemma keeps_refl: "tree_ok s pml4 \<Longrightarrow> keeps s s pml4"
  by (simp add: keeps_def)

lemma keeps_trans: "keeps s s1 pml4 \<Longrightarrow> keeps s1 s2 pml4 \<Longrightarrow> keeps s s2 pml4"
  by (simp add: keeps_def)

lemma keeps_ok: "keeps s s' pml4 \<Longrightarrow> tree_ok s' pml4"
  by (simp add: keeps_def)

lemma link_keeps:
  assumes "tree_ok s pml4" "link (mem s) m' pml4 k v t p c" "k \<le> 2"
    and "palloc (alloc s) = (p, a')" "p \<noteq> 0"
    and "k = 2 \<Longrightarrow> (\<And>w. same_path 3 v w \<Longrightarrow>
      leaf (c (pt_index w)) w = leaf (get_pte (mem s) t (pd_index v)) w)"
  shows "keeps s (s\<lparr>alloc := a', mem := m'\<rparr>) pml4 \<and> table_at m' pml4 (Suc k) v = Some p"
proof -
  have p: "p \<in> free_pages_of (alloc s)"
    using pm.alloc_page [OF tree_ok_alloc [OF assms(1)] assms(4,5)] by auto
  show ?thesis
    using link_tree_ok [OF assms(1-5)] link_translate [OF assms(1-3) p assms(6)]
      link_table_at [OF assms(1-3) p, of "Suc k" v] assms(3)
    by (simp add: keeps_def)
qed

lemma palloc_failed: "palloc a = (0, a') \<Longrightarrow> alloc_inv a \<Longrightarrow> a' = a \<and> free_pages_of a = {}"
  using pm.alloc_none [of a a'] by simp

lemma new_table_page:
  assumes "tree_ok s pml4" and "palloc (alloc s) = (p, a')" and "p \<noteq> 0"
  shows "p \<in> free_pages_of (alloc s)" and "p AND PAGE_MASK = p" and "page_aligned p"
proof -
  show "p \<in> free_pages_of (alloc s)"
    using pm.alloc_page [OF tree_ok_alloc [OF assms(1)] assms(2,3)] by auto
  then show "p AND PAGE_MASK = p"
    using tree_ok_pages [OF assms(1)] pm.avail_managed [OF tree_ok_alloc [OF assms(1)]] by blast
  then show "page_aligned p" by (rule masked_aligned)
qed

lemma table_entry_bits:
  assumes "p AND PAGE_MASK = p" and "\<And>n. bit f n \<Longrightarrow> n < 12" and "\<not> bit f 7" and "bit f 0"
  shows "descends k (p OR f)" and "phys_from_pte (p OR f) = p"
proof -
  show "descends k (p OR f)" using assms(3,4) masked_low_bits [OF assms(1)]
    by (simp add: descends_def bit_simps)
  show "phys_from_pte (p OR f) = p" by (rule phys_from_pte_table [OF assms(1,2)])
qed

lemma ensure_table_spec:
  assumes ok: "tree_ok s pml4" and t: "table_at (mem s) pml4 k v = Some t" and k: "k \<le> 2"
    and run: "ensure_table s t (lvl_index k v) True = (s', r)"
  shows "keeps s s' pml4" and "table_at (mem s') pml4 k v = Some t"
    and "\<not> r \<Longrightarrow> free_pages_of (alloc s') = {}"
    and "r \<Longrightarrow> s' = s \<or> (\<forall>j<512. get_pte (mem s') (phys_from_pte (get_pte (mem s') t (lvl_index k v))) j = 0)"
    and "r \<Longrightarrow> k = 0 \<or> \<not> bit (get_pte (mem s) t (lvl_index k v)) 7 \<Longrightarrow>
      table_at (mem s') pml4 (Suc k) v = Some (phys_from_pte (get_pte (mem s') t (lvl_index k v)))"
proof -
  let ?i = "lvl_index k v" let ?e = "get_pte (mem s) t ?i"
  obtain p a' where pal: "palloc (alloc s) = (p, a')" by force
  have "keeps s s' pml4 \<and> table_at (mem s') pml4 k v = Some t \<and>
    (\<not> r \<longrightarrow> free_pages_of (alloc s') = {}) \<and>
    (r \<longrightarrow> s' = s \<or> (\<forall>j<512. get_pte (mem s') (phys_from_pte (get_pte (mem s') t ?i)) j = 0)) \<and>
    (r \<and> (k = 0 \<or> \<not> bit ?e 7) \<longrightarrow> table_at (mem s') pml4 (Suc k) v = Some (phys_from_pte (get_pte (mem s') t ?i)))"
  proof (cases "bit ?e 0")
    case True
    then have "s' = s" "r" using run by (auto simp: ensure_table_def flag_clear_iff)
    then show ?thesis using keeps_refl [OF ok] t True by (simp add: descends_def)
  next
    case False
    show ?thesis
    proof (cases "p = 0")
      case True
      then have a: "a' = alloc s" "free_pages_of (alloc s) = {}"
        using palloc_failed [of "alloc s" a'] pal tree_ok_alloc [OF ok] by auto
      then have "s' = s" "\<not> r" using run False True pal by (auto simp: ensure_table_def flag_clear_iff)
      then show ?thesis using keeps_refl [OF ok] t a by simp
    next
      case pn: False
      let ?f = "PTE_PRESENT OR PTE_WRITABLE OR PTE_USER"
      let ?m = "set_pte (zero_page (mem s) p) t ?i (p OR ?f)"
      have s': "s' = s\<lparr>alloc := a', mem := ?m\<rparr>" "r"
        using run False pn pal by (auto simp: ensure_table_def flag_clear_iff)
      note np = new_table_page [OF ok pal pn]
      have ta: "page_aligned t" by (rule table_at_aligned [OF tree_ok_root [OF ok] t])
      have tp: "t \<noteq> p" using tree_ok_table [OF ok t] k np(1) by auto
      have get: "get_pte ?m u j = (if u = t \<and> j = ?i then p OR ?f
          else if u = p then 0 else get_pte (mem s) u j)" if "page_aligned u" "j < 512" for u j
        using get_set_pte [OF ta that(1) lvl_index_bound that(2)] get_zero_page [OF np(3) that]
        by auto
      have bits: "descends k (p OR ?f)" "phys_from_pte (p OR ?f) = p"
        by (rule table_entry_bits [OF np(2)]; auto simp: bit_or_iff bit_flags)+
      have l: "link (mem s) ?m pml4 k v t p (\<lambda>_. 0)"
        using t False bits tp get ta np(3) by (simp add: link_def descends_def)
      have "keeps s s' pml4 \<and> table_at ?m pml4 (Suc k) v = Some p"
        unfolding s' by (rule link_keeps [OF ok l k pal pn])
          (use False in \<open>auto simp: leaf_def lvl_index_def\<close>)
      moreover have "table_at ?m pml4 k v = Some t"
        using link_table_at [OF ok l k np(1), of k v] k t by simp
      ultimately show ?thesis
        using s' get [OF ta lvl_index_bound] get [OF np(3)] tp bits by simp
    qed
  qed
  then show "keeps s s' pml4" and "table_at (mem s') pml4 k v = Some t"
    and "\<not> r \<Longrightarrow> free_pages_of (alloc s') = {}"
    and "r \<Longrightarrow> s' = s \<or> (\<forall>j<512. get_pte (mem s') (phys_from_pte (get_pte (mem s') t ?i)) j = 0)"
    and "r \<Longrightarrow> k = 0 \<or> \<not> bit ?e 7 \<Longrightarrow>
      table_at (mem s') pml4 (Suc k) v = Some (phys_from_pte (get_pte (mem s') t ?i))"
    by blast+
qed

subsection \<open>Splitting a 2 MB page\<close>

declare bit_numeral_word_iff [simp del]

lemmas bit_ops = bit_and_iff bit_or_iff bit_not_iff bit_push_bit_iff bit_drop_bit_eq bit_mask_iff

lemma bit_offset_masks:
  "bit (0xFFF :: u64) n \<longleftrightarrow> n < 12" "bit (0x1FFFFF :: u64) n \<longleftrightarrow> n < 21"
  "bit (0x1FF000 :: u64) n \<longleftrightarrow> 12 \<le> n \<and> n < 21"
proof -
  have eq: "(0xFFF :: u64) = mask 12" "(0x1FFFFF :: u64) = mask 21" "(0x1FF000 :: u64) = push_bit 12 (mask 9)"
    by (simp_all add: mask_eq_exp_minus_1 push_bit_eq_mult)
  show "bit (0xFFF :: u64) n \<longleftrightarrow> n < 12" "bit (0x1FFFFF :: u64) n \<longleftrightarrow> n < 21"
    unfolding eq by (auto simp: bit_mask_iff)
  show "bit (0x1FF000 :: u64) n \<longleftrightarrow> 12 \<le> n \<and> n < 21"
    using bit_shifted_mask [of 12 9 n] unfolding eq by simp
qed

lemma pt_index_offset: "(of_nat (pt_index w) * 4096 :: u64) = w AND 0x1FF000"
proof -
  have "(of_nat (pt_index w) * 4096 :: u64) = push_bit 12 (drop_bit 12 w AND 0x1FF)"
    by (simp add: pt_index_def push_bit_eq_mult)
  moreover have "(0x1FF :: u64) = mask 9" by (simp add: mask_eq_exp_minus_1)
  ultimately show ?thesis
    by (auto simp: bit_eq_iff bit_ops bit_offset_masks)
qed

definition split_flags :: "u64 \<Rightarrow> u64" where
  "split_flags e = e AND NOT (PAGE_MASK OR PTE_HUGE OR PTE_ACCESSED OR PTE_DIRTY)"

lemma split_leaf:
  assumes "bit e 7" and "e AND 0x1FF000 = 0"
  shows "leaf ((phys_from_pte e + of_nat (pt_index w) * 4096) OR split_flags e) w = leaf e w"
proof -
  define x where "x = (phys_from_pte e + of_nat (pt_index w) * 4096) OR split_flags e"
  have low: "\<not> (bit e n \<and> 12 \<le> n \<and> n < 21)" for n
    using assms(2) by (metis bit_and_iff bit_offset_masks(3) bit_0_eq bot_apply bot_bool_def)
  then have "phys_from_pte e AND (w AND 0x1FF000) = 0"
    by (auto simp: bit_eq_iff bit_ops bit_phys_from_pte bit_offset_masks)
  then have "x = (phys_from_pte e OR (w AND 0x1FF000)) OR split_flags e"
    unfolding x_def by (simp only: pt_index_offset disjunctive_add_eq_or)
  then have bit_x: "bit x n \<longleftrightarrow>
      bit e n \<and> n \<noteq> 5 \<and> n \<noteq> 6 \<and> n \<noteq> 7 \<or> bit w n \<and> 12 \<le> n \<and> n < 21" for n
    by (auto simp: split_flags_def bit_ops bit_phys_from_pte bit_offset_masks bit_PAGE_MASK bit_flags
        dest: bit_imp_le_length)
  have "phys_from_pte x OR (w AND 0xFFF) = phys_from_pte e OR (w AND 0x1FFFFF)"
    by (rule bit_word_eqI) (auto simp: bit_ops bit_phys_from_pte bit_x bit_offset_masks)
  then show ?thesis
    using assms(1) bit_x [of 0] bit_x [of 7] unfolding x_def [symmetric] by (simp add: leaf_def)
qed

lemma split_huge_spec:
  assumes ok: "tree_ok s pml4" and t: "table_at (mem s) pml4 2 v = Some t"
    and huge: "bit (get_pte (mem s) t (pd_index v)) 7"
    and run: "split_huge s t (pd_index v) (get_pte (mem s) t (pd_index v)) = (s', r)"
  shows "keeps s s' pml4" and "\<not> r \<Longrightarrow> free_pages_of (alloc s') = {}"
    and "r \<Longrightarrow> table_at (mem s') pml4 3 v = Some (phys_from_pte (get_pte (mem s') t (pd_index v)))"
proof -
  let ?i = "pd_index v" let ?e = "get_pte (mem s) t ?i"
  obtain p a' where pal: "palloc (alloc s) = (p, a')" by force
  have i2: "lvl_index 2 v = ?i" by (simp add: lvl_index_def)
  have "keeps s s' pml4 \<and> (\<not> r \<longrightarrow> free_pages_of (alloc s') = {}) \<and>
    (r \<longrightarrow> table_at (mem s') pml4 3 v = Some (phys_from_pte (get_pte (mem s') t ?i)))"
  proof (cases "p = 0")
    case True
    then have a: "a' = alloc s" "free_pages_of (alloc s) = {}"
      using palloc_failed [of "alloc s" a'] pal tree_ok_alloc [OF ok] by auto
    then have "s' = s" "\<not> r" using run True pal by (auto simp: split_huge_def)
    then show ?thesis using keeps_refl [OF ok] a by simp
  next
    case pn: False
    let ?f = "PTE_PRESENT OR PTE_WRITABLE OR PTE_USER OR (?e AND PTE_GLOBAL)"
    let ?c = "\<lambda>j. (phys_from_pte ?e + of_nat j * 4096) OR split_flags ?e"
    let ?m = "set_pte (fill_split (zero_page (mem s) p) p (phys_from_pte ?e) (split_flags ?e)) t ?i (p OR ?f)"
    have s': "s' = s\<lparr>alloc := a', mem := ?m\<rparr>" "r"
      using run pn pal by (auto simp: split_huge_def Let_def split_flags_def)
    note np = new_table_page [OF ok pal pn]
    have ta: "page_aligned t" by (rule table_at_aligned [OF tree_ok_root [OF ok] t])
    have tp: "t \<noteq> p" using tree_ok_table [OF ok t] np(1) by auto
    have get: "get_pte ?m u j = (if u = t \<and> j = ?i then p OR ?f
        else if u = p then ?c j else get_pte (mem s) u j)" if "page_aligned u" "j < 512" for u j
      using get_set_pte [OF ta that(1) index_bounds(3) that(2)] get_fill_split [OF np(3) that]
        get_zero_page [OF np(3) that] by auto
    have bits: "descends 2 (p OR ?f)" "phys_from_pte (p OR ?f) = p"
      by (rule table_entry_bits [OF np(2)]; auto simp: bit_or_iff bit_and_iff bit_flags)+
    have l: "link (mem s) ?m pml4 2 v t p ?c"
      using t huge bits tp get ta np(3) by (simp add: link_def descends_def i2)
    have "keeps s s' pml4 \<and> table_at ?m pml4 (Suc 2) v = Some p"
      unfolding s'
      by (rule link_keeps [OF ok l _ pal pn])
        (use split_leaf [OF huge tree_ok_huge [OF ok t huge]] in simp_all)
    then show ?thesis using s' get [OF ta index_bounds(3)] bits by (simp add: numeral_3_eq_3)
  qed
  then show "keeps s s' pml4" and "\<not> r \<Longrightarrow> free_pages_of (alloc s') = {}"
    and "r \<Longrightarrow> table_at (mem s') pml4 3 v = Some (phys_from_pte (get_pte (mem s') t ?i))"
    by blast+
qed

section \<open>The walk\<close>

lemma table_at_levels:
  "table_at m pml4 (Suc 0) v = (let e = get_pte m pml4 (pml4_index v) in
     if bit e 0 then Some (phys_from_pte e) else None)"
  "table_at m pml4 2 v = (case table_at m pml4 (Suc 0) v of None \<Rightarrow> None
     | Some t \<Rightarrow> (let e = get_pte m t (pdpt_index v) in
         if bit e 0 \<and> \<not> bit e 7 then Some (phys_from_pte e) else None))"
  "table_at m pml4 3 v = (case table_at m pml4 2 v of None \<Rightarrow> None
     | Some t \<Rightarrow> (let e = get_pte m t (pd_index v) in
         if bit e 0 \<and> \<not> bit e 7 then Some (phys_from_pte e) else None))"
  by (auto simp: numeral_3_eq_3 numeral_2_eq_2 descends_def lvl_index_def Let_def split: option.splits)

lemma walk_read_only: "fst (walk_or_create s pml4 v False) = s"
  by (simp add: walk_or_create_def ensure_table_def Let_def)

text \<open>A walk that does not create returns the leaf entry and where it is.\<close>

lemma walk_lookup:
  "walk_or_create s pml4 v False = (s,
     case table_at (mem s) pml4 2 v of
       None \<Rightarrow> (0, 0)
     | Some pd \<Rightarrow>
         (let e = get_pte (mem s) pd (pd_index v) in
          if bit e 7 then (pte_addr pd (pd_index v), e)
          else case table_at (mem s) pml4 3 v of
            None \<Rightarrow> (0, 0)
          | Some pt \<Rightarrow> (pte_addr pt (pt_index v), get_pte (mem s) pt (pt_index v))))"
  by (simp add: walk_or_create_def ensure_table_def table_at_levels Let_def flag_clear_iff
      del: table_at.simps(2))

lemma pte_addr_nonzero: "page_aligned t \<Longrightarrow> t \<noteq> 0 \<Longrightarrow> i < 512 \<Longrightarrow> pte_addr t i \<noteq> 0"
  using pte_addr_unat [of t i] by (metis add_is_0 unat_0 unat_eq_zero)

lemma table_pte_nonzero:
  assumes "tree_ok s pml4" and "table_at (mem s) pml4 k v = Some t" and "k \<le> 3" and "i < 512"
  shows "pte_addr t i \<noteq> 0"
  using tree_ok_table [OF assms(1-3)] table_at_aligned [OF tree_ok_root [OF assms(1)] assms(2)] assms(4)
  by (simp add: pte_addr_nonzero)

lemma virt_to_phys_translate:
  assumes ok: "tree_ok s pml4"
  shows "virt_to_phys s pml4 v = translate (mem s) pml4 v"
proof -
  note nz = table_pte_nonzero [OF ok, of _ v]
  show ?thesis
  proof (cases "table_at (mem s) pml4 2 v")
    case None
    then show ?thesis by (simp add: virt_to_phys_def walk_lookup translate_def table_at_levels(3))
  next
    case (Some pd)
    let ?e = "get_pte (mem s) pd (pd_index v)"
    show ?thesis
    proof (cases "bit ?e 0 \<and> \<not> bit ?e 7")
      case True
      then have "table_at (mem s) pml4 3 v = Some (phys_from_pte ?e)"
        using Some by (simp add: table_at_levels(3))
      then show ?thesis using Some True nz [of 3]
        by (simp add: virt_to_phys_def walk_lookup translate_def leaf_def flag_clear_iff Let_def)
    next
      case False
      then have "table_at (mem s) pml4 3 v = None" using Some by (simp add: table_at_levels(3) Let_def)
      then show ?thesis using Some False nz [of 2]
        by (auto simp: virt_to_phys_def walk_lookup translate_def leaf_def flag_clear_iff Let_def)
    qed
  qed
qed

text \<open>The 1 GB pages of the firmware's map, which the walk cannot split.\<close>

definition giant_page :: "machine \<Rightarrow> u64 \<Rightarrow> u64 \<Rightarrow> bool" where
  "giant_page s pml4 v \<longleftrightarrow> (\<exists>t. table_at (mem s) pml4 (Suc 0) v = Some t \<and> bit (get_pte (mem s) t (pdpt_index v)) 7)"

lemma walk_create:
  assumes ok: "tree_ok s pml4" and run: "walk_or_create s pml4 v True = (s', (a, e))"
  shows "keeps s s' pml4"
    and "a = 0 \<Longrightarrow> free_pages_of (alloc s') = {} \<or> giant_page s pml4 v"
    and "a \<noteq> 0 \<Longrightarrow> \<exists>pt. table_at (mem s') pml4 3 v = Some pt \<and> a = pte_addr pt (pt_index v)"
proof -
  have ix: "lvl_index 0 v = pml4_index v" "lvl_index (Suc 0) v = pdpt_index v" "lvl_index 2 v = pd_index v"
    by (simp_all add: lvl_index_def)
  have "keeps s s' pml4 \<and> (a = 0 \<longrightarrow> free_pages_of (alloc s') = {} \<or> giant_page s pml4 v) \<and>
    (a \<noteq> 0 \<longrightarrow> (\<exists>pt. table_at (mem s') pml4 3 v = Some pt \<and> a = pte_addr pt (pt_index v)))"
  proof -
    obtain s0 r0 where e0: "ensure_table s pml4 (pml4_index v) True = (s0, r0)" by force
    have t0: "table_at (mem s) pml4 0 v = Some pml4" by simp
    note S0 = ensure_table_spec [OF ok t0 _ e0 [folded ix(1)]]
    show ?thesis
    proof (cases r0)
      case False
      then show ?thesis using S0 run e0 by (auto simp: walk_or_create_def Let_def)
    next
      case r0: True
      let ?t1 = "phys_from_pte (get_pte (mem s0) pml4 (pml4_index v))"
      let ?e1 = "get_pte (mem s0) ?t1 (pdpt_index v)"
      obtain s1 r1 where e1: "ensure_table s0 ?t1 (pdpt_index v) True = (s1, r1)" by force
      have t1: "table_at (mem s0) pml4 (Suc 0) v = Some ?t1" using S0(5) r0 by (simp add: ix)
      have ok0: "tree_ok s0 pml4" by (rule keeps_ok [OF S0(1)]) simp
      have huge: "giant_page s pml4 v" if "bit ?e1 7"
        using S0(4) r0 that t1 unfolding giant_page_def ix by (auto simp del: table_at.simps(2))
      note S1 = ensure_table_spec [OF ok0 t1 _ e1 [folded ix(2)]]
      have k1: "keeps s s1 pml4" by (rule keeps_trans [OF S0(1) S1(1)]) simp_all
      show ?thesis
      proof (cases "r1 \<and> \<not> bit ?e1 7")
        case False
        then have "s' = s1" "a = 0" using run e0 e1 r0
          by (auto simp: walk_or_create_def Let_def flag_clear_iff split: if_splits)
        then show ?thesis using S1(3) False k1 huge by auto
      next
        case r1: True
        let ?t2 = "phys_from_pte (get_pte (mem s1) ?t1 (pdpt_index v))"
        let ?e2 = "get_pte (mem s1) ?t2 (pd_index v)"
        have t2: "table_at (mem s1) pml4 2 v = Some ?t2"
          using S1(5) r1 by (simp add: ix numeral_2_eq_2)
        have ok1: "tree_ok s1 pml4" by (rule keeps_ok [OF k1])
        have t3: "table_at (mem s1) pml4 (Suc (Suc 0)) v = Some ?t2" using t2 by (simp add: numeral_2_eq_2)
        obtain s2 r2 where e2: "(if bit ?e2 7 then split_huge s1 ?t2 (pd_index v) ?e2
            else ensure_table s1 ?t2 (pd_index v) True) = (s2, r2)" by force
        have "keeps s1 s2 pml4 \<and> (\<not> r2 \<longrightarrow> free_pages_of (alloc s2) = {}) \<and> (r2 \<longrightarrow>
          table_at (mem s2) pml4 3 v = Some (phys_from_pte (get_pte (mem s2) ?t2 (pd_index v))))"
        proof (cases "bit ?e2 7")
          case True
          then show ?thesis using split_huge_spec [OF ok1 t2 True, of s2 r2] e2 by simp
        next
          case False
          then show ?thesis using ensure_table_spec [OF ok1 t2, of s2 r2] e2 ix
            by (simp add: numeral_3_eq_3 numeral_2_eq_2)
        qed
        moreover have "keeps s s2 pml4" if "keeps s1 s2 pml4" by (rule keeps_trans [OF k1 that])
        moreover have "pte_addr pt (pt_index v) \<noteq> 0"
          if "keeps s1 s2 pml4" "table_at (mem s2) pml4 3 v = Some pt" for pt
          by (rule table_pte_nonzero [OF keeps_ok [OF that(1)] that(2)]) simp_all
        ultimately show ?thesis using run e0 e1 e2 r0 r1
          by (auto simp: walk_or_create_def Let_def flag_clear_iff split: if_splits)
      qed
    qed
  qed
  then show "keeps s s' pml4"
    and "a = 0 \<Longrightarrow> free_pages_of (alloc s') = {} \<or> giant_page s pml4 v"
    and "a \<noteq> 0 \<Longrightarrow> \<exists>pt. table_at (mem s') pml4 3 v = Some pt \<and> a = pte_addr pt (pt_index v)"
    by blast+
qed

section \<open>Writing a leaf entry\<close>

lemma same_path_index:
  "same_path 3 v w \<Longrightarrow> pd_index v = pd_index w" "same_path 4 v w \<Longrightarrow> pt_index v = pt_index w"
  by (auto simp: same_path_def lvl_index_def dest: spec [of _ 2] spec [of _ 3])

lemma table_at_3_None:
  "table_at m pml4 2 v = Some t \<Longrightarrow> \<not> descends 2 (get_pte m t (lvl_index 2 v)) \<Longrightarrow>
    same_path 3 v w \<Longrightarrow> table_at m pml4 3 w = None"
  using table_at_same_path [of 2 v w m pml4] same_path_mono [of 3 v w 2] same_path_index(1) [of v w]
  by (simp add: table_at_levels(3) descends_def lvl_index_def Let_def)

lemma translate_at:
  assumes "table_at m pml4 n v = Some t" and "n = 2 \<and> \<not> descends 2 (get_pte m t (lvl_index n v)) \<or> n = 3"
    and "same_path (Suc n) v w"
  shows "translate m pml4 w = leaf (get_pte m t (lvl_index n v)) w"
proof -
  have "table_at m pml4 n w = Some t"
    using assms(1,3) table_at_same_path [of n v w m pml4] by (simp add: same_path_Suc)
  then show ?thesis
    using assms table_at_3_None [of m pml4 v t w] same_path_index [of v w]
    by (auto simp: translate_def lvl_index_def)
qed

lemma leaf_write:
  assumes ok: "tree_ok s pml4" and t: "table_at (mem s) pml4 k v = Some t" and k: "k = 2 \<or> k = 3"
    and old: "k = 2 \<Longrightarrow> \<not> descends 2 (get_pte (mem s) t (lvl_index k v))"
    and new: "k = 2 \<Longrightarrow> \<not> descends 2 e \<and> \<not> bit e 7"
  defines "m' \<equiv> set_pte (mem s) t (lvl_index k v) e"
  shows "tree_ok (s\<lparr>mem := m'\<rparr>) pml4"
    and "translate m' pml4 w = (if same_path (Suc k) v w then leaf e w else translate (mem s) pml4 w)"
proof -
  have ta: "page_aligned t" by (rule table_at_aligned [OF tree_ok_root [OF ok] t])
  have get: "get_pte m' u (lvl_index j w) =
      (if j = k \<and> same_path (Suc k) v w then e else get_pte (mem s) u (lvl_index j w))"
    if "table_at (mem s) pml4 j w = Some u" "j \<le> 3" for j w u
  proof -
    have "t = u \<and> lvl_index k v = lvl_index j w \<longleftrightarrow> j = k \<and> same_path (Suc k) v w"
      using tree_ok_inj [OF ok t, of j w] that k t table_at_same_path [of k v w "mem s" pml4]
      by (auto simp: same_path_Suc)
    then show ?thesis unfolding m'_def
      using get_set_pte [OF ta table_at_aligned [OF tree_ok_root [OF ok] that(1)], of "lvl_index k v" "lvl_index j w"]
      by simp
  qed
  have at: "table_at m' pml4 j w = table_at (mem s) pml4 j w" if "j \<le> 3" for j w
    using that
  proof (induction j)
    case (Suc j)
    have "descends j (get_pte m' u (lvl_index j w)) = descends j (get_pte (mem s) u (lvl_index j w)) \<and>
        (descends j (get_pte (mem s) u (lvl_index j w)) \<longrightarrow>
          get_pte m' u (lvl_index j w) = get_pte (mem s) u (lvl_index j w))"
      if u: "table_at (mem s) pml4 j w = Some u" for u
    proof (cases "j = k \<and> same_path (Suc k) v w")
      case True
      then have k2: "k = 2" using k Suc.prems by auto
      have "u = t" "lvl_index j w = lvl_index k v"
        using u t True table_at_same_path [of k v w "mem s" pml4] by (auto simp: same_path_Suc)
      then show ?thesis using get [OF u] True old new k2 by simp
    qed (use get [OF u] Suc.prems in auto)
    then show ?case using Suc by (auto split: option.splits)
  qed simp
  have huge: "get_pte m' u (pd_index w) AND 0x1FF000 = 0"
    if u: "table_at (mem s) pml4 2 w = Some u" and b: "bit (get_pte m' u (pd_index w)) 7" for w u
    using get [OF u] b tree_ok_huge [OF ok u] new by (auto simp: lvl_index_def split: if_splits)
  show "tree_ok (s\<lparr>mem := m'\<rparr>) pml4"
    unfolding tree_ok_def
    using tree_ok_alloc [OF ok] tree_ok_pages [OF ok] tree_ok_root [OF ok] tree_ok_table [OF ok]
      tree_ok_inj [OF ok] huge at
    by simp
  have g3: "get_pte m' u (pt_index w) =
      (if k = 3 \<and> same_path 4 v w then e else get_pte (mem s) u (pt_index w))"
    if "table_at (mem s) pml4 3 w = Some u" for u
    using get [OF that] by (auto simp: lvl_index_def)
  have g2: "get_pte m' u (pd_index w) =
      (if k = 2 \<and> same_path 3 v w then e else get_pte (mem s) u (pd_index w))"
    if "table_at (mem s) pml4 2 w = Some u" for u
    using get [OF that] by (auto simp: lvl_index_def)
  have same: "table_at (mem s) pml4 k w = Some t" if "same_path (Suc k) v w"
    using t table_at_same_path [of k v w "mem s" pml4] that by (simp add: same_path_Suc)
  have below: "table_at (mem s) pml4 3 w = None" if "k = 2" "same_path (Suc k) v w"
    using table_at_3_None [of "mem s" pml4 v t w] t old that by simp
  show "translate m' pml4 w = (if same_path (Suc k) v w then leaf e w else translate (mem s) pml4 w)"
    using k
  proof
    assume k2: "k = 2"
    then show ?thesis using at g2 g3 same below
      by (auto simp: translate_def split: option.splits)
  next
    assume k3: "k = 3"
    then show ?thesis using at g2 g3 same
      by (auto simp: translate_def split: option.splits)
  qed
qed

section \<open>Properties\<close>

lemma map_page_spec:
  assumes "tree_ok s pml4" and "flags AND (PAGE_MASK OR PTE_HUGE) = 0"
    and "map_page s pml4 phys v flags = (s', r)"
  shows "tree_ok s' pml4 \<and>
    (\<forall>w. virt_to_phys s' pml4 w =
      (if r = 0 \<and> same_page v w then (phys AND PAGE_MASK) OR (w AND 0xFFF)
       else virt_to_phys s pml4 w)) \<and>
    (r \<noteq> 0 \<longrightarrow> r = NOT 0 \<and> (free_pages_of (alloc s') = {} \<or> giant_page s pml4 v))"
proof -
  obtain s1 a e where w: "walk_or_create s pml4 v True = (s1, (a, e))" by (metis surj_pair)
  note W = walk_create [OF assms(1) w]
  note tr = virt_to_phys_translate
  show ?thesis
  proof (cases "a = 0")
    case True
    then have "s' = s1" "r = NOT 0" using assms(3) w by (auto simp: map_page_def)
    then show ?thesis using W(1,2) True tr [OF assms(1)] tr [OF keeps_ok [OF W(1)]]
      by (simp add: keeps_def)
  next
    case False
    obtain pt where pt: "table_at (mem s1) pml4 3 v = Some pt" "a = pte_addr pt (pt_index v)"
      using W(3) False by auto
    let ?e = "pte_from_phys phys OR PTE_PRESENT OR flags"
    let ?m = "set_pte (mem s1) pt (lvl_index 3 v) ?e"
    have s': "s' = s1\<lparr>mem := ?m\<rparr>" "r = 0"
      using assms(3) w False pt(2) by (auto simp: map_page_def set_pte_def lvl_index_def)
    have ok1: "tree_ok s1 pml4" by (rule keeps_ok [OF W(1)])
    note L = leaf_write [OF ok1 pt(1), where e = ?e]
    have ok': "tree_ok s' pml4" unfolding s' by (rule L) simp_all
    have fl: "\<not> (bit flags n \<and> (12 \<le> n \<and> n < 48 \<or> n = 7))" for n
    proof -
      have "\<not> bit (flags AND (PAGE_MASK OR PTE_HUGE)) n" using assms(2) by simp
      then show ?thesis by (auto simp: bit_and_iff bit_or_iff bit_PAGE_MASK bit_flags)
    qed
    have pe: "phys_from_pte ?e = phys AND PAGE_MASK"
      by (rule bit_word_eqI) (use fl in \<open>auto simp: bit_ops bit_phys_from_pte bit_flags bit_PAGE_MASK pte_from_phys_def\<close>)
    have "bit ?e 0" "\<not> bit ?e 7"
      using fl [of 7] by (auto simp: bit_ops bit_flags bit_PAGE_MASK pte_from_phys_def)
    then have "leaf ?e w = (phys AND PAGE_MASK) OR (w AND 0xFFF)" for w
      unfolding leaf_def pe by simp
    moreover have "translate ?m pml4 w = (if same_path 4 v w then leaf ?e w else translate (mem s1) pml4 w)" for w
      using L(2) [of w] by simp
    ultimately show ?thesis
      using ok' s'(2) tr [OF ok'] tr [OF assms(1)] W(1) s'(1) by (simp add: keeps_def)
  qed
qed

lemma palloc_tree_ok:
  assumes "tree_ok m t" and "palloc (alloc m) = (p, a)"
  shows "tree_ok (m\<lparr>alloc := a\<rparr>) t"
proof (cases "p = 0")
  case True
  then have "a = alloc m" using palloc_failed [of "alloc m" a] assms tree_ok_alloc by auto
  then show ?thesis using assms(1) by simp
next
  case False
  then have "managed_pages a = managed_pages (alloc m)" "alloc_inv a" "free_pages_of a \<subseteq> free_pages_of (alloc m)"
    using pm.alloc_page [OF tree_ok_alloc [OF assms(1)] assms(2) False] by auto
  then show ?thesis using assms(1) unfolding tree_ok_def by (auto 0 3)
qed

lemma virt_to_phys_alloc [simp]: "virt_to_phys (m\<lparr>alloc := a\<rparr>) t v = virt_to_phys m t v"
proof -
  have "mem (m\<lparr>alloc := a\<rparr>) = mem m" by simp
  then show ?thesis by (simp only: virt_to_phys_def walk_lookup Let_def prod.case)
qed

lemma same_page_offset:
  assumes "4096 dvd unat e" and "i < 4096"
  shows "same_page (e + of_nat i) w = same_page e w"
proof -
  have i: "unat (of_nat i :: u64) = i" using assms(2) by (intro unat_of_nat64) simp
  have "unat e + i < 2 ^ 64"
  proof -
    obtain q where q: "unat e = 4096 * q" using assms(1) by blast
    then have "q < 2 ^ 52" using unsigned_less [of e, where ?'a = nat] by simp
    then show ?thesis using q assms(2) by simp
  qed
  then have "unat (e + of_nat i) = unat e + i" using i by (simp add: unat_word_ariths)
  then have "unat (e + of_nat i) div 4096 = unat e div 4096" using assms by (auto elim!: dvdE)
  then have "unat (drop_bit 12 (e + of_nat i)) = unat (drop_bit 12 e)"
    by (simp add: drop_bit_eq_div unat_div)
  then have d: "drop_bit 12 (e + of_nat i) = drop_bit 12 e" by (simp add: word_unat_eq_iff)
  have "drop_bit (12 + k) (e + of_nat i) = drop_bit (12 + k) e" for k
    using arg_cong [OF d, of "drop_bit k"] by (simp add: drop_bit_drop_bit add.commute)
  from d this [of 27] this [of 18] this [of 9] show ?thesis
    by (simp add: same_path_def lvl_index_def pml4_index_def pdpt_index_def pd_index_def pt_index_def)
qed

text \<open>C1: \<open>map_page\<close> on a well-formed address space: on success every address of the page
  translates to the given frame plus its offset, every address of any other page (including
  the rest of a 2 MB page that had to be split) translates as before, and the tables stay
  well formed; on failure (\<open>!0\<close>) no translation changed, and the reason is that memory ran
  out or that a 1 GB page covers the address.\<close>

theorem map_page_correct:
  assumes "tree_ok s pml4" and "flags AND (PAGE_MASK OR PTE_HUGE) = 0"
    and "map_page s pml4 phys v flags = (s', r)"
  shows "tree_ok s' pml4 \<and>
    (\<forall>w. virt_to_phys s' pml4 w =
      (if r = 0 \<and> same_page v w then (phys AND PAGE_MASK) OR (w AND 0xFFF)
       else virt_to_phys s pml4 w)) \<and>
    (r \<noteq> 0 \<longrightarrow> r = NOT 0 \<and> (free_pages_of (alloc s') = {} \<or> giant_page s pml4 v))"
  by (rule map_page_spec [OF assms])

text \<open>C20: \<open>unmap_page\<close> removes exactly one leaf entry: afterwards the address does not
  translate, nothing is allocated, and every address outside the removed entry's range (the
  4 KB page, or the whole 2 MB page when the entry is a huge one) translates as before.\<close>

theorem unmap_page_correct:
  assumes "tree_ok s pml4"
  shows "tree_ok (unmap_page s pml4 v) pml4 \<and> virt_to_phys (unmap_page s pml4 v) pml4 v = 0 \<and>
    alloc (unmap_page s pml4 v) = alloc s \<and>
    (\<forall>w. virt_to_phys (unmap_page s pml4 v) pml4 w =
      (if same_path (case table_at (mem s) pml4 3 v of Some _ \<Rightarrow> 4 | None \<Rightarrow> 3) v w then 0
       else virt_to_phys s pml4 w))"
proof -
  note tr = virt_to_phys_translate
  define n where "n = (case table_at (mem s) pml4 3 v of Some _ \<Rightarrow> (3::nat) | None \<Rightarrow> 2)"
  have n: "(case table_at (mem s) pml4 3 v of Some _ \<Rightarrow> 4 | None \<Rightarrow> (3::nat)) = Suc n"
    by (simp add: n_def split: option.splits)
  have key: "tree_ok (unmap_page s pml4 v) pml4 \<and> alloc (unmap_page s pml4 v) = alloc s \<and>
    (\<forall>w. translate (mem (unmap_page s pml4 v)) pml4 w =
       (if same_path (Suc n) v w then 0 else translate (mem s) pml4 w))"
  proof (cases "table_at (mem s) pml4 n v")
    case None
    then have "table_at (mem s) pml4 2 v = None" by (auto simp: n_def split: option.splits)
    then have "unmap_page s pml4 v = s" and "translate (mem s) pml4 w = 0" if "same_path 2 v w" for w
      using that table_at_same_path [of 2 v w "mem s" pml4]
      by (simp_all add: unmap_page_def walk_lookup translate_def table_at_levels(3))
    from this(1) [OF same_path_refl] this(2) show ?thesis using assms same_path_mono [of "Suc n" v _ 2]
      by (auto simp: n_def split: option.splits)
  next
    case (Some t)
    let ?e = "get_pte (mem s) t (lvl_index n v)"
    have n23: "n = 2 \<or> n = 3" by (auto simp: n_def split: option.splits)
    have nd: "\<not> descends 2 ?e" if "n = 2"
      using Some that n_def
      by (auto simp: table_at_levels(3) Let_def descends_def lvl_index_def split: option.splits if_splits)
    have run: "unmap_page s pml4 v =
      (if bit ?e 0 then s\<lparr>mem := set_pte (mem s) t (lvl_index n v) 0\<rparr> else s)"
    proof (cases "n = 2")
      case True
      then show ?thesis using Some nd table_pte_nonzero [OF assms Some]
        by (auto simp: unmap_page_def walk_lookup Let_def flag_clear_iff lvl_index_def descends_def
            table_at_levels(3) set_pte_def)
    next
      case False
      then have n3: "n = 3" using n23 by simp
      then obtain pd where pd: "table_at (mem s) pml4 2 v = Some pd" "\<not> bit (get_pte (mem s) pd (pd_index v)) 7"
        using Some by (auto simp: table_at_levels(3) Let_def split: option.splits if_splits)
      then show ?thesis using Some n3 table_pte_nonzero [OF assms Some]
        by (auto simp: unmap_page_def walk_lookup Let_def flag_clear_iff lvl_index_def set_pte_def)
    qed
    show ?thesis
    proof (cases "bit ?e 0")
      case True
      then show ?thesis using run leaf_write [OF assms Some n23 nd, of 0]
        by (simp add: descends_def leaf_def)
    next
      case False
      have "translate (mem s) pml4 w = 0" if "same_path (Suc n) v w" for w
        using translate_at [OF Some _ that] n23 nd False by (auto simp: leaf_def)
      then show ?thesis using run False assms by simp
    qed
  qed
  then show ?thesis unfolding n using tr [OF assms] tr [of "unmap_page s pml4 v" pml4] by simp
qed

section \<open>User ranges\<close>

text \<open>The leaf entry of an address exists, is present and allows user access.\<close>

definition user_leaf :: "machine \<Rightarrow> u64 \<Rightarrow> u64 \<Rightarrow> bool" where
  "user_leaf s pml4 v =
     (let (pa, pte) = snd (walk_or_create s pml4 v False)
      in pa \<noteq> 0 \<and> pte AND PTE_PRESENT \<noteq> 0 \<and> pte AND PTE_USER \<noteq> 0)"

lemma user_pages_mapped_iff:
  "user_pages_mapped s pml4 a b \<longleftrightarrow> (\<forall>i. a + 4096 * i < b \<longrightarrow> user_leaf s pml4 (of_nat (a + 4096 * i)))"
proof (induction s pml4 a b rule: user_pages_mapped.induct)
  case (1 s pml4 a b)
  show ?case
  proof (cases "a < b")
    case True
    obtain s' pa pte where w: "walk_or_create s pml4 (of_nat a) False = (s', (pa, pte))"
      by (metis surj_pair)
    have all: "All Q \<longleftrightarrow> Q 0 \<and> (\<forall>j. Q (Suc j))" for Q
      by (metis nat.exhaust)
    have step: "a + 4096 + 4096 * i = a + 4096 * Suc i" for i by simp
    have "user_pages_mapped s pml4 a b \<longleftrightarrow>
      user_leaf s pml4 (of_nat a) \<and> user_pages_mapped s pml4 (a + 4096) b"
      using True w by (subst user_pages_mapped.simps) (auto simp: user_leaf_def)
    also have "\<dots> \<longleftrightarrow> user_leaf s pml4 (of_nat a) \<and>
      (\<forall>i. a + 4096 * Suc i < b \<longrightarrow> user_leaf s pml4 (of_nat (a + 4096 * Suc i)))"
    proof (cases "user_leaf s pml4 (of_nat a)")
      case u: True
      then have "\<not> (pa = 0 \<or> pte AND PTE_PRESENT = 0 \<or> pte AND PTE_USER = 0)"
        using w by (simp add: user_leaf_def)
      from 1 [OF True w [symmetric] refl refl this] show ?thesis using u unfolding step by simp
    qed simp
    finally show ?thesis using True
      by (subst all [of "\<lambda>i. a + 4096 * i < b \<longrightarrow> user_leaf s pml4 (of_nat (a + 4096 * i))"]) simp
  qed (simp add: user_pages_mapped.simps)
qed

lemma same_frame_index:
  assumes "drop_bit 12 v = drop_bit 12 w"
  shows "pml4_index v = pml4_index w" "pdpt_index v = pdpt_index w" "pd_index v = pd_index w"
    "pt_index v = pt_index w"
proof -
  have d: "drop_bit (k + 12) u = drop_bit k (drop_bit 12 u)" for k and u :: u64
    by (simp only: drop_bit_drop_bit)
  have "drop_bit (k + 12) v = drop_bit (k + 12) w" for k
    unfolding d assms ..
  from this [of 27] this [of 18] this [of 9] this [of 0]
  show "pml4_index v = pml4_index w" "pdpt_index v = pdpt_index w" "pd_index v = pd_index w"
    "pt_index v = pt_index w"
    by (simp_all add: pml4_index_def pdpt_index_def pd_index_def pt_index_def)
qed

lemma user_leaf_frame:
  assumes "drop_bit 12 v = drop_bit 12 w"
  shows "user_leaf s pml4 v = user_leaf s pml4 w"
  using same_frame_index [OF assms] by (simp add: user_leaf_def walk_or_create_def)

lemma unat_page_base: "unat ((x :: u64) AND NOT 0xFFF) = 4096 * (unat x div 4096)"
proof -
  have m: "(0xFFF :: u64) = mask 12" by (simp add: mask_eq_exp_minus_1)
  have "x AND NOT (mask 12) = push_bit 12 (drop_bit 12 x)"
    by (rule bit_word_eqI) (auto simp: bit_ops)
  also have "\<dots> = drop_bit 12 x * 4096" by (simp add: push_bit_eq_mult)
  finally have "x AND NOT 0xFFF = drop_bit 12 x * 4096" unfolding m .
  also have "unat \<dots> = unat (drop_bit 12 x) * 4096 mod 2 ^ 64"
    by (simp add: unat_word_ariths)
  also have "unat (drop_bit 12 x) = unat x div 4096"
    by (simp only: unat_drop_bit_eq) (simp add: drop_bit_eq_div)
  also have "unat x div 4096 * 4096 mod 2 ^ 64 = unat x div 4096 * 4096"
    using unsigned_less [of x] by (intro mod_less le_less_trans [OF div_times_less_eq_dividend]) simp
  finally show ?thesis by simp
qed

lemma drop_bit_of_nat_eq:
  assumes "a < 2 ^ 64" and "b < 2 ^ 64" and "a div 4096 = b div 4096"
  shows "drop_bit 12 (of_nat a :: u64) = drop_bit 12 (of_nat b)"
proof -
  have "unat (drop_bit 12 (of_nat x :: u64)) = x div 4096" if "x < 2 ^ 64" for x
    by (simp only: unat_drop_bit_eq unat_of_nat64 [OF that]) (simp add: drop_bit_eq_div)
  then show ?thesis using assms by (metis word_unat_eq_iff)
qed

text \<open>C21: \<open>is_user_range_mapped\<close> accepts a range exactly when it is empty, or when it lies below
  \<open>2 ^ 47\<close> (so no wrap-around in \<open>virt + len\<close>) and the leaf entry of every single byte
  address in it exists, is present and is a user entry.\<close>

theorem is_user_range_mapped_iff:
  "is_user_range_mapped s pml4 virt len \<longleftrightarrow>
    len = 0 \<or> pml4 \<noteq> 0 \<and> unat virt + len \<le> 2 ^ 47 \<and>
      (\<forall>a. unat virt \<le> a \<and> a < unat virt + len \<longrightarrow> user_leaf s pml4 (of_nat a))"
proof (cases "len = 0 \<or> pml4 = 0 \<or> unat virt + len \<ge> 2 ^ 64")
  case True
  then show ?thesis unfolding is_user_range_mapped_def by (cases "len = 0"; cases "pml4 = 0"; simp)
next
  case False
  let ?v = "unat virt" and ?e = "unat virt + len"
  have e: "unat (virt + of_nat len) = ?e" using False by (intro unat_add_nat64) simp
  have c: "(0x800000000000 :: u64) = of_nat (2 ^ 47)" by simp
  have cmp: "virt \<ge> 0x800000000000 \<or> virt + of_nat len > 0x800000000000 \<longleftrightarrow> ?e > 2 ^ 47"
    using False e by (auto simp: word_le_nat_alt word_less_nat_alt)
  show ?thesis
  proof (cases "?e > 2 ^ 47")
    case True
    then show ?thesis using False cmp by (auto simp: is_user_range_mapped_def Let_def)
  next
    case le: False
    have e': "unat (virt + of_nat len + 0xFFF) = ?e + 4095"
      using e le by (simp add: unat_word_ariths)
    let ?a = "4096 * (?v div 4096)" and ?b = "4096 * ((?e + 4095) div 4096)"
    have "is_user_range_mapped s pml4 virt len \<longleftrightarrow> user_pages_mapped s pml4 ?a ?b"
      using False cmp le unat_page_base [of virt] unat_page_base [of "virt + of_nat len + 0xFFF"] e'
      by (simp add: is_user_range_mapped_def Let_def)
    also have "\<dots> \<longleftrightarrow> (\<forall>i. ?a + 4096 * i < ?b \<longrightarrow> user_leaf s pml4 (of_nat (?a + 4096 * i)))"
      by (rule user_pages_mapped_iff)
    also have "\<dots> \<longleftrightarrow> (\<forall>a. ?v \<le> a \<and> a < ?e \<longrightarrow> user_leaf s pml4 (of_nat a))"
    proof (intro iffI allI impI)
      fix a assume H: "\<forall>i. ?a + 4096 * i < ?b \<longrightarrow> user_leaf s pml4 (of_nat (?a + 4096 * i))"
        and a: "?v \<le> a \<and> a < ?e"
      let ?i = "a div 4096 - ?v div 4096"
      have vd: "?v div 4096 \<le> a div 4096" using a by (simp add: div_le_mono)
      then have base: "?a + 4096 * ?i = 4096 * (a div 4096)" by (simp add: algebra_simps)
      have "4096 * (a div 4096) < ?b" using a by linarith
      then have "user_leaf s pml4 (of_nat (4096 * (a div 4096)))" using H [rule_format, of ?i] base by simp
      moreover have "drop_bit 12 (of_nat (4096 * (a div 4096)) :: u64) = drop_bit 12 (of_nat a)"
        using a le by (intro drop_bit_of_nat_eq) auto
      ultimately show "user_leaf s pml4 (of_nat a)" using user_leaf_frame by blast
    next
      fix i assume H: "\<forall>a. ?v \<le> a \<and> a < ?e \<longrightarrow> user_leaf s pml4 (of_nat a)"
        and i: "?a + 4096 * i < ?b"
      define x where "x = (if i = 0 then ?v else ?a + 4096 * i)"
      have up: "4096 * q < n" if "4096 * q < 4096 * ((n + 4095) div 4096)" for q n :: nat
      proof -
        have "q < (n + 4095) div 4096" using that by simp
        then show ?thesis by linarith
      qed
      have "?a + 4096 * i < ?e" using up [of "?v div 4096 + i" ?e] i by (simp add: algebra_simps)
      moreover have vlt: "?v < ?a + 4096" using mod_less_divisor [of 4096 ?v] mult_div_mod_eq [of 4096 ?v]
        by linarith
      moreover have "?v \<le> ?a + 4096 * i" if "i \<noteq> 0"
        using vlt that by (cases i) auto
      ultimately have x: "?v \<le> x" "x < ?e" "x div 4096 = (?a + 4096 * i) div 4096"
        using False by (auto simp: x_def)
      have "drop_bit 12 (of_nat (?a + 4096 * i) :: u64) = drop_bit 12 (of_nat x)"
        using i x le by (intro drop_bit_of_nat_eq) auto
      then show "user_leaf s pml4 (of_nat (?a + 4096 * i))"
        using H x user_leaf_frame by blast
    qed
    finally show ?thesis using False le by simp
  qed
qed

section \<open>Concrete address spaces\<close>

definition demo_mapped :: machine where
  "demo_mapped = \<lparr>alloc = fresh_pool 6, mem = (\<lambda>_. 0)(0x100000 := 0x101007, 0x101000 := 0x102007, 0x102010 := 0x103007, 0x103000 := 0x7007)\<rparr>"


lemma demo_user_leaf: "user_leaf demo_mapped 0x100000 0x400000"
  by (simp add: user_leaf_def walk_or_create_def demo_mapped_def ensure_table_def get_pte_def pte_addr_def
      pml4_index_def pdpt_index_def pd_index_def pt_index_def PTE_PRESENT_def PTE_USER_def PTE_HUGE_def
      phys_from_pte_def PAGE_MASK_def Let_def)


theorem is_user_range_mapped_iff_witness:
  "is_user_range_mapped demo_mapped 0x100000 0x400010 100"
proof -
  have "user_leaf demo_mapped 0x100000 (of_nat a)" if "0x400010 \<le> a \<and> a < 0x400010 + 100" for a
  proof -
    have "drop_bit 12 (of_nat a :: u64) = drop_bit 12 (of_nat 0x400000)"
    proof (rule drop_bit_of_nat_eq)
      have "a div 4096 = 1024" using that by (intro div_nat_eqI) auto
      then show "a div 4096 = 0x400000 div 4096" by simp
    qed (use that in simp_all)
    then have "user_leaf demo_mapped 0x100000 (of_nat a) = user_leaf demo_mapped 0x100000 (of_nat 0x400000)"
      by (rule user_leaf_frame)
    then show ?thesis using demo_user_leaf by simp
  qed
  then show ?thesis by (subst is_user_range_mapped_iff) simp
qed

definition demo_space :: machine where
  "demo_space = \<lparr>alloc = fresh_pool 6, mem = (\<lambda>_. 0)\<rparr>"

lemma demo_space_ok: "tree_ok demo_space 0x100000"
proof -
  have at: "table_at (\<lambda>_. 0) 0x100000 k v = Some t \<longleftrightarrow> k = 0 \<and> t = 0x100000" for k v t
    by (induction k arbitrary: t) (auto simp: get_pte_def descends_def split: option.splits)
  have pg: "page_addr (fresh_pool 6) i \<noteq> 0x100000 \<and> page_addr (fresh_pool 6) i AND PAGE_MASK = page_addr (fresh_pool 6) i"
    if "i < 6" for i
  proof -
    have "i \<in> {0, 1, 2, 3, 4, 5}" using that by auto
    then show ?thesis by (auto simp: page_addr_def PAGE_MASK_def)
  qed
  have "alloc_inv (fresh_pool 6)" by (rule fresh_pool_inv) simp
  moreover have "page_aligned 0x100000" by (simp add: page_aligned_def take_bit_eq_mod)
  ultimately show ?thesis
    using pg by (auto simp: tree_ok_def demo_space_def at managed_pages_def free_pages_of_def same_path_def)
qed

theorem map_page_correct_witness:
  "let s = fst (map_page demo_space 0x100000 0x7000 0x400000 PTE_USER) in
     tree_ok s 0x100000 \<and> virt_to_phys s 0x100000 0x400123 = 0x7123"
proof -
  let ?r = "map_page demo_space 0x100000 0x7000 0x400000 PTE_USER"
  have "snd ?r = 0" by code_simp
  then have "?r = (fst ?r, 0)" by (simp add: prod_eq_iff)
  moreover have "PTE_USER AND (PAGE_MASK OR PTE_HUGE) = 0"
    by (simp add: PTE_USER_def PAGE_MASK_def PTE_HUGE_def)
  moreover have "same_page 0x400000 0x400123"
    by (simp add: same_path_def lvl_index_def pml4_index_def pdpt_index_def pd_index_def pt_index_def)
  ultimately show ?thesis
    using map_page_correct [OF demo_space_ok, where flags = PTE_USER and phys = "0x7000"
        and v = "0x400000" and s' = "fst ?r" and r = 0]
    by (simp add: PAGE_MASK_def Let_def)
qed

theorem unmap_page_correct_witness:
  "tree_ok (unmap_page demo_space 0x100000 0x400000) 0x100000 \<and>
    virt_to_phys (unmap_page demo_space 0x100000 0x400000) 0x100000 0x400000 = 0"
  using unmap_page_correct [OF demo_space_ok] by simp

end
