(* ===== verification/Heap.thy ===== *)
theory Heap
  imports Paging_Correct
begin

text \<open>
  The kernel heap, \<open>kernel/src/heap.rs\<close>: a first-fit allocator over a virtual region that grows by
  pages of the physical allocator, mapped with \<open>map_page\<close>. Every block starts with a header of 8
  bytes (size and used flag); the payload of a free block holds its links in the doubly linked
  free list.

  The heap memory is a map from addresses to 8-byte cells: every header and every link lies at a
  multiple of 8, a header is one cell (size in the low half, then the used flag and the padding)
  and a free node is two (next and prev), so blocks that overlap do overlap in the model. The
  loops follow the links and would not end on a cyclic list; they are partial functions into
  \<open>option\<close>, and the lemmas show that they end on a list. Interrupt masking and the serial output
  are left out.
\<close>

section \<open>State\<close>

definition PAGE_SIZE :: u64 where "PAGE_SIZE = 4096"
definition HEAP_BASE :: u64 where "HEAP_BASE = 0x0000100000000000"
definition HEAP_MAX_SIZE :: u64 where "HEAP_MAX_SIZE = 256 * 1024 * 1024"
definition MIN_ALIGN :: u64 where "MIN_ALIGN = 16"
definition MIN_BLOCK :: u64 where "MIN_BLOCK = 32"

definition HDR :: u64 where "HDR = 8"

record heap =
  HEAP_READY :: bool
  HEAP_START :: u64
  HEAP_END :: u64
  FREE_LIST :: u64
  cells :: "u64 \<Rightarrow> u64"
  vm :: machine
  KERNEL_PML4 :: u64

definition h_size :: "heap \<Rightarrow> u64 \<Rightarrow> u32" where "h_size s h = ucast (cells s h)"
definition h_used :: "heap \<Rightarrow> u64 \<Rightarrow> u16" where "h_used s h = ucast (drop_bit 32 (cells s h))"
definition n_next :: "heap \<Rightarrow> u64 \<Rightarrow> u64" where "n_next s n = cells s n"
definition n_prev :: "heap \<Rightarrow> u64 \<Rightarrow> u64" where "n_prev s n = cells s (n + 8)"

definition put :: "u64 \<Rightarrow> u64 \<Rightarrow> heap \<Rightarrow> heap" where "put a v s = s\<lparr>cells := (cells s)(a := v)\<rparr>"
definition set_next :: "u64 \<Rightarrow> u64 \<Rightarrow> heap \<Rightarrow> heap" where "set_next n v = put n v"
definition set_prev :: "u64 \<Rightarrow> u64 \<Rightarrow> heap \<Rightarrow> heap" where "set_prev n v = put (n + 8) v"

definition set_size :: "u64 \<Rightarrow> u32 \<Rightarrow> heap \<Rightarrow> heap" where
  "set_size h n s = put h ((cells s h AND NOT 0xFFFFFFFF) OR ucast n) s"

definition set_used :: "u64 \<Rightarrow> u16 \<Rightarrow> heap \<Rightarrow> heap" where
  "set_used h u s = put h ((cells s h AND NOT 0xFFFF00000000) OR push_bit 32 (ucast u)) s"

definition set_pad :: "u64 \<Rightarrow> u16 \<Rightarrow> heap \<Rightarrow> heap" where
  "set_pad h p s = put h ((cells s h AND 0xFFFFFFFFFFFF) OR push_bit 48 (ucast p)) s"

definition set_header :: "u64 \<Rightarrow> u64 \<Rightarrow> heap \<Rightarrow> heap" where
  "set_header h n s = set_pad h 0 (set_used h 0 (set_size h (ucast n) s))"

definition align_up :: "u64 \<Rightarrow> u64" where
  "align_up n = (n + MIN_ALIGN - 1) AND NOT (MIN_ALIGN - 1)"

definition block_total :: "u64 \<Rightarrow> u64" where
  "block_total n = align_up n + HDR"

definition payload_to_header :: "u64 \<Rightarrow> u64" where
  "payload_to_header p = p - HDR"

definition header_to_payload :: "u64 \<Rightarrow> u64" where
  "header_to_payload h = h + HDR"

definition total_of :: "heap \<Rightarrow> u64 \<Rightarrow> u64" where
  "total_of s h = block_total (ucast (h_size s h))"

definition block_next :: "heap \<Rightarrow> u64 \<Rightarrow> u64" where
  "block_next s h = h + total_of s h"

section \<open>The free list\<close>

definition free_list_remove :: "u64 \<Rightarrow> heap \<Rightarrow> heap" where
  "free_list_remove node s =
     (if node = 0 then s
      else let s1 = (if n_prev s node \<noteq> 0 then set_next (n_prev s node) (n_next s node) s
                     else s\<lparr>FREE_LIST := n_next s node\<rparr>)
           in if n_next s1 node \<noteq> 0 then set_prev (n_next s1 node) (n_prev s1 node) s1 else s1)"

definition free_list_insert :: "u64 \<Rightarrow> heap \<Rightarrow> heap" where
  "free_list_insert node s =
     (let s1 = set_next node (FREE_LIST s) (set_prev node 0 s);
          s2 = (if FREE_LIST s \<noteq> 0 then set_prev (FREE_LIST s) node s1 else s1)
      in s2\<lparr>FREE_LIST := node\<rparr>)"

section \<open>Growing\<close>

primrec grow_pages :: "nat \<Rightarrow> u64 \<Rightarrow> heap \<Rightarrow> u64 \<times> heap" where
  "grow_pages 0 allocated s = (allocated, s)"
| "grow_pages (Suc n) allocated s =
     (let (phys, a1) = palloc (alloc (vm s)); s1 = s\<lparr>vm := (vm s)\<lparr>alloc := a1\<rparr>\<rparr> in
      if phys = 0 then (allocated, s1)
      else let (m2, ret) = map_page (vm s1) (KERNEL_PML4 s1) phys (HEAP_END s + allocated) (PTE_WRITABLE OR PTE_GLOBAL)
           in if ret \<noteq> 0 then (allocated, s1\<lparr>vm := m2\<lparr>alloc := pfree phys (alloc m2)\<rparr>\<rparr>)
              else grow_pages n (allocated + 1) (s1\<lparr>vm := m2\<rparr>))"

definition pages_to_grow :: "u64 \<Rightarrow> u64 \<Rightarrow> u64" where
  "pages_to_grow current_size min_pages =
     (let quarter = current_size div PAGE_SIZE div 4;
          pages = (if quarter > min_pages then quarter else min_pages);
          pages = (if pages < 4 then 4 else pages)
      in if current_size + pages * PAGE_SIZE > HEAP_MAX_SIZE then (HEAP_MAX_SIZE - current_size) div PAGE_SIZE else pages)"

definition grow_heap :: "u64 \<Rightarrow> heap \<Rightarrow> bool \<times> heap" where
  "grow_heap min_pages s =
     (let pages = pages_to_grow (HEAP_END s - HEAP_BASE) min_pages in
      if pages = 0 then (False, s)
      else let (allocated, s1) = grow_pages (unat pages) 0 s in
        if allocated = 0 then (False, s1)
        else let new_end = HEAP_END s + allocated * PAGE_SIZE; offset = HEAP_END s;
                 payload_size = new_end - offset - HDR;
                 s2 = (if offset + block_total 0 \<le> new_end \<and> payload_size \<ge> MIN_BLOCK
                       then free_list_insert (header_to_payload offset) (set_header offset payload_size s1) else s1)
             in (True, s2\<lparr>HEAP_END := new_end\<rparr>))"

text \<open>The loop of \<open>init\<close> ignores what \<open>map_page\<close> returns.\<close>

primrec init_pages :: "nat \<Rightarrow> u64 \<Rightarrow> heap \<Rightarrow> u64 \<times> heap" where
  "init_pages 0 base s = (base, s)"
| "init_pages (Suc n) base s =
     (let (phys, a1) = palloc (alloc (vm s)); s1 = s\<lparr>vm := (vm s)\<lparr>alloc := a1\<rparr>\<rparr> in
      if phys = 0 then (base, s1)
      else init_pages n (base + PAGE_SIZE)
             (s1\<lparr>vm := fst (map_page (vm s1) (KERNEL_PML4 s1) phys base (PTE_WRITABLE OR PTE_GLOBAL))\<rparr>))"

definition heap_init :: "nat \<Rightarrow> heap \<Rightarrow> heap" where
  "heap_init heap_pages s =
     (if heap_pages = 0 then s
      else let (base, s1) = init_pages heap_pages HEAP_BASE s;
               s2 = s1\<lparr>HEAP_START := HEAP_BASE, HEAP_END := base, FREE_LIST := 0\<rparr>;
               s3 = set_header HEAP_BASE (base - HEAP_BASE - HDR) s2
           in (free_list_insert (header_to_payload HEAP_BASE) s3)\<lparr>HEAP_READY := True\<rparr>)"

section \<open>Allocating\<close>

partial_function (option) find_fit :: "heap \<Rightarrow> u64 \<Rightarrow> u64 \<Rightarrow> u64 option" where
  "find_fit s tot node =
     (if node = 0 then Some 0
      else if total_of s (payload_to_header node) \<ge> tot then Some node
      else find_fit s tot (n_next s node))"

text \<open>Taking a block that is large enough off the list, with the tail split off when it can hold a
  block of its own.\<close>

definition take_block :: "u64 \<Rightarrow> u64 \<Rightarrow> heap \<Rightarrow> heap" where
  "take_block sz node s =
     (let hdr = payload_to_header node; blk_total = total_of s hdr;
          s1 = free_list_remove node s; remaining = blk_total - block_total sz;
          s2 = (if remaining \<ge> block_total 0 + MIN_BLOCK
                then let new_hdr = hdr + block_total sz
                     in free_list_insert (header_to_payload new_hdr)
                          (set_size hdr (ucast sz) (set_header new_hdr (remaining - HDR) s1))
                else s1)
      in set_used hdr 1 s2)"

partial_function (option) kmalloc :: "u64 \<Rightarrow> heap \<Rightarrow> (u64 \<times> heap) option" where
  "kmalloc sz s =
     (if sz = 0 \<or> \<not> HEAP_READY s then Some (0, s)
      else case find_fit s (block_total sz) (FREE_LIST s) of
        None \<Rightarrow> None
      | Some node \<Rightarrow>
          if node \<noteq> 0 then Some (header_to_payload (payload_to_header node), take_block sz node s)
          else let (grown, s1) = grow_heap ((block_total sz + PAGE_SIZE - 1) div PAGE_SIZE) s
               in if \<not> grown then Some (0, s1) else kmalloc sz s1)"

text \<open>\<open>write_bytes(ptr, 0, n)\<close>: whole cells become 0, and the low bytes of a last partial cell.\<close>

definition write_zero :: "u64 \<Rightarrow> u64 \<Rightarrow> heap \<Rightarrow> heap" where
  "write_zero p n s = s\<lparr>cells := (\<lambda>a. let d = a - p in
     if d < n then (if n - d \<ge> 8 then 0 else cells s a AND NOT (mask (8 * unat (n - d)))) else cells s a)\<rparr>"

definition kzalloc :: "u64 \<Rightarrow> heap \<Rightarrow> (u64 \<times> heap) option" where
  "kzalloc sz s = map_option (\<lambda>(p, s1). (p, if p \<noteq> 0 then write_zero p sz s1 else s1)) (kmalloc sz s)"

section \<open>Freeing\<close>

definition join_next :: "u64 \<Rightarrow> heap \<Rightarrow> heap" where
  "join_next hdr s =
     (let nx = block_next s hdr in
      if nx < HEAP_END s \<and> h_used s nx = 0
      then let s1 = free_list_remove (header_to_payload nx) s; combined = total_of s1 hdr + total_of s1 nx
           in set_size hdr (ucast (combined - HDR)) s1
      else s)"

partial_function (option) find_prev :: "heap \<Rightarrow> u64 \<Rightarrow> u64 \<Rightarrow> u64 option" where
  "find_prev s hdr n =
     (if n = 0 then Some 0
      else let h = payload_to_header n in
        if block_next s h = hdr \<and> h_used s h = 0 \<and> h \<noteq> hdr then Some h
        else find_prev s hdr (n_next s n))"

definition join_prev :: "u64 \<Rightarrow> u64 \<Rightarrow> heap \<Rightarrow> heap" where
  "join_prev hdr prev_hdr s =
     (if prev_hdr \<noteq> 0
      then let s1 = free_list_remove (header_to_payload prev_hdr) (free_list_remove (header_to_payload hdr) s);
               s2 = set_size prev_hdr (ucast (total_of s1 prev_hdr + total_of s1 hdr - HDR)) s1
           in free_list_insert (header_to_payload prev_hdr) s2
      else s)"

definition kfree :: "u64 \<Rightarrow> heap \<Rightarrow> heap option" where
  "kfree ptr s =
     (let hdr = payload_to_header ptr in
      if ptr = 0 \<or> \<not> HEAP_READY s then Some s
      else if h_used s hdr = 0 then Some s
      else if hdr < HEAP_START s \<or> hdr \<ge> HEAP_END s then Some s
      else let s1 = join_next hdr (free_list_insert ptr (set_used hdr 0 s))
           in map_option (\<lambda>p. join_prev hdr p s1) (find_prev s1 hdr (FREE_LIST s1)))"

partial_function (option) free_bytes :: "heap \<Rightarrow> u64 \<Rightarrow> u64 \<Rightarrow> u64 option" where
  "free_bytes s acc node =
     (if node = 0 then Some acc
      else free_bytes s (acc + ucast (h_size s (payload_to_header node)) + HDR) (n_next s node))"

definition heap_stats :: "heap \<Rightarrow> (u64 \<times> u64) option" where
  "heap_stats s = (if \<not> HEAP_READY s then Some (0, 0)
     else map_option (\<lambda>f. (f, HEAP_END s - HEAP_START s)) (free_bytes s 0 (FREE_LIST s)))"

section \<open>The free list as a list\<close>

text \<open>\<open>fl c pv p ns\<close>: the links from \<open>p\<close> run through the nodes \<open>ns\<close> to the null pointer, with
  back links that start at \<open>pv\<close>. Two cells belong to a node.\<close>

fun fl :: "(u64 \<Rightarrow> u64) \<Rightarrow> u64 \<Rightarrow> u64 \<Rightarrow> u64 list \<Rightarrow> bool" where
  "fl c pv p [] = (p = 0)"
| "fl c pv p (n # ns) = (p = n \<and> n \<noteq> 0 \<and> c (n + 8) = pv \<and> fl c n (c n) ns)"

definition node_cells :: "u64 list \<Rightarrow> u64 list" where
  "node_cells ns = concat (map (\<lambda>n. [n, n + 8]) ns)"

definition free_list :: "heap \<Rightarrow> u64 list \<Rightarrow> bool" where
  "free_list s ns \<longleftrightarrow> fl (cells s) 0 (FREE_LIST s) ns \<and> distinct (node_cells ns)"

lemmas cell_defs = h_size_def h_used_def n_next_def n_prev_def put_def set_next_def set_prev_def
  set_size_def set_used_def set_pad_def set_header_def

lemma node_cells_simps [simp]:
  "node_cells [] = []" "node_cells (n # ns) = n # (n + 8) # node_cells ns"
  "node_cells (ns @ ms) = node_cells ns @ node_cells ms"
  by (simp_all add: node_cells_def)

lemma node_cells_mem: "n \<in> set ns \<Longrightarrow> n \<in> set (node_cells ns) \<and> n + 8 \<in> set (node_cells ns)"
  by (induction ns) auto

lemma node_cells_distinct: "distinct (node_cells ns) \<Longrightarrow> distinct ns"
  by (induction ns) (auto dest: node_cells_mem)

lemma fl_frame:
  assumes "\<And>a. a \<in> set (node_cells ns) \<Longrightarrow> c' a = c a"
  shows "fl c' pv p ns = fl c pv p ns"
  using assms by (induction ns arbitrary: pv p) auto

lemma fl_upd [simp]: "a \<notin> set (node_cells ns) \<Longrightarrow> fl (c(a := v)) pv p ns = fl c pv p ns"
  by (rule fl_frame) auto


lemma fl_null: "fl c pv p ns \<Longrightarrow> p = 0 \<longleftrightarrow> ns = []"
  by (cases ns) auto

lemma fl_insert:
  assumes "free_list s ns" and "n \<noteq> 0" and "distinct (node_cells (n # ns))"
  shows "free_list (free_list_insert n s) (n # ns)"
  using assms
  by (cases ns) (auto simp: free_list_def free_list_insert_def cell_defs Let_def)

lemma fl_around:
  assumes "fl c pv p (as @ n # bs)"
  shows "c (n + 8) = (if as = [] then pv else last as) \<and> fl c n (c n) bs \<and> n \<noteq> 0 \<and>
    (if as = [] then p = n else last as \<noteq> 0)"
  using assms
proof (induction as arbitrary: pv p)
  case (Cons a as)
  then have "fl c a (c a) (as @ n # bs)" and "a \<noteq> 0" by simp_all
  with Cons.IH show ?case by (simp split: if_splits)
qed simp

text \<open>The cells after the node before \<open>bs\<close> is cut out.\<close>

definition relink :: "(u64 \<Rightarrow> u64) \<Rightarrow> u64 \<Rightarrow> u64 \<Rightarrow> u64 list \<Rightarrow> (u64 \<Rightarrow> u64)" where
  "relink c l v bs = (\<lambda>a. if bs \<noteq> [] \<and> a = hd bs + 8 then l else if a = l then v else c a)"

lemma fl_relink: "l \<notin> set (node_cells ns) \<Longrightarrow> bs = [] \<or> hd bs + 8 \<notin> set (node_cells ns) \<Longrightarrow>
    fl (relink c l v bs) pv p ns = fl c pv p ns"
  by (rule fl_frame) (auto simp: relink_def)

lemma fl_splice:
  assumes "fl c pv p (as @ n # bs)" and "distinct (node_cells (as @ n # bs))" and "as \<noteq> []"
  shows "fl (relink c (last as) (c n) bs) pv p (as @ bs)"
  using assms
proof (induction as arbitrary: pv p)
  case (Cons a as)
  show ?case
  proof (cases as)
    case Nil
    show ?thesis
    proof (cases bs)
      case (Cons b cs)
      have "fl (relink c a (c n) bs) b (c b) cs"
        using Cons.prems Cons \<open>as = []\<close> by (subst fl_relink) auto
      then show ?thesis using Cons.prems Cons \<open>as = []\<close> by (auto simp: relink_def)
    qed (use Cons.prems Nil in \<open>auto simp: relink_def\<close>)
  next
    case (Cons b cs)
    have "fl (relink c (last as) (c n) bs) a (c a) (as @ bs)"
      using Cons.IH [of a "c a"] Cons.prems Cons by simp
    moreover have "a \<noteq> last as" "a + 8 \<noteq> last as"
      using Cons.prems(2) node_cells_mem [of "last as" as] Cons by auto
    moreover have "bs \<noteq> [] \<Longrightarrow> a \<noteq> hd bs + 8 \<and> a \<noteq> hd bs"
      using Cons.prems(2) node_cells_mem [of "hd bs" bs] by auto
    ultimately show ?thesis using Cons.prems(1) Cons by (auto simp: relink_def)
  qed
qed simp

lemma fl_remove:
  assumes "free_list s (as @ n # bs)"
  shows "free_list (free_list_remove n s) (as @ bs)"
proof -
  have f: "fl (cells s) 0 (FREE_LIST s) (as @ n # bs)" and d: "distinct (node_cells (as @ n # bs))"
    using assms by (simp_all add: free_list_def)
  note A = fl_around [OF f]
  have nx: "cells s n = (if bs = [] then 0 else hd bs)" using A by (cases bs) auto
  have h: "hd bs \<noteq> 0" if "bs \<noteq> []" using A that by (cases bs) auto
  show ?thesis
  proof (cases "as = []")
    case True
    then show ?thesis using A d nx h
      by (cases bs) (auto simp: free_list_def free_list_remove_def cell_defs Let_def)
  next
    case False
    have "n \<noteq> last as" "n + 8 \<noteq> last as" using d node_cells_mem [of "last as" as] False by auto
    then have "cells (free_list_remove n s) = relink (cells s) (last as) (cells s n) bs"
      and "FREE_LIST (free_list_remove n s) = FREE_LIST s"
      using A nx h False
      by (auto simp: free_list_remove_def cell_defs Let_def relink_def fun_eq_iff)
    then show ?thesis using fl_splice [OF f d False] d by (simp add: free_list_def)
  qed
qed

lemma free_list_remove1:
  assumes "free_list s ns" and "n \<in> set ns"
  shows "free_list (free_list_remove n s) (remove1 n ns)"
proof -
  obtain as bs where ns: "ns = as @ n # bs" "n \<notin> set as" using assms(2) by (meson split_list_first)
  then show ?thesis using fl_remove [of s as n bs] assms(1) by (simp add: remove1_append)
qed

text \<open>What the two operations leave alone.\<close>

lemma free_list_remove_frame:
  assumes "free_list s ns" and "n \<in> set ns" and "a \<notin> set (node_cells ns)"
  shows "cells (free_list_remove n s) a = cells s a"
proof -
  obtain as bs where ns: "ns = as @ n # bs" using assms(2) by (meson split_list)
  have f: "fl (cells s) 0 (FREE_LIST s) (as @ n # bs)" using assms(1) ns by (simp add: free_list_def)
  note A = fl_around [OF f]
  have "cells s n = (if bs = [] then 0 else hd bs)" using A by (cases bs) auto
  moreover have "as \<noteq> [] \<Longrightarrow> a \<noteq> last as" "bs \<noteq> [] \<Longrightarrow> a \<noteq> hd bs + 8"
    using assms(3) ns node_cells_mem [of "last as" as] node_cells_mem [of "hd bs" bs] by auto
  ultimately show ?thesis using A by (auto simp: free_list_remove_def cell_defs Let_def)
qed

lemma free_list_insert_frame:
  assumes "free_list s ns" and "a \<notin> set (node_cells (n # ns))"
  shows "cells (free_list_insert n s) a = cells s a"
  using assms by (cases ns) (auto simp: free_list_def free_list_insert_def cell_defs Let_def)

lemma free_list_other [simp]:
  "HEAP_READY (free_list_remove n s) = HEAP_READY s" "HEAP_READY (free_list_insert n s) = HEAP_READY s"
  "HEAP_START (free_list_remove n s) = HEAP_START s" "HEAP_START (free_list_insert n s) = HEAP_START s"
  "HEAP_END (free_list_remove n s) = HEAP_END s" "HEAP_END (free_list_insert n s) = HEAP_END s"
  "vm (free_list_remove n s) = vm s" "vm (free_list_insert n s) = vm s"
  "KERNEL_PML4 (free_list_remove n s) = KERNEL_PML4 s" "KERNEL_PML4 (free_list_insert n s) = KERNEL_PML4 s"
  by (simp_all add: free_list_remove_def free_list_insert_def cell_defs Let_def)

section \<open>Headers\<close>

lemma header_masks:
  "(0xFFFFFFFF :: u64) = mask 32" "(0xFFFF00000000 :: u64) = push_bit 32 (mask 16)"
  "(0xFFFFFFFFFFFF :: u64) = mask 48"
  by (simp_all add: mask_eq_exp_minus_1 push_bit_eq_mult)

lemma h_set [simp]:
  "h_size (set_size h n s) h' = (if h' = h then n else h_size s h')"
  "h_size (set_used h u s) h' = h_size s h'"
  "h_used (set_size h n s) h' = h_used s h'"
  "h_used (set_used h u s) h' = (if h' = h then u else h_used s h')"
  "h_size (set_pad h p s) h' = h_size s h'"
  "h_used (set_pad h p s) h' = h_used s h'"
  unfolding header_masks cell_defs
  by (auto intro!: bit_word_eqI simp: bit_simps) (drule bit_imp_le_length, simp)

lemma h_set_header [simp]:
  "h_size (set_header h n s) h' = (if h' = h then ucast n else h_size s h')"
  "h_used (set_header h n s) h' = (if h' = h then 0 else h_used s h')"
  by (simp_all add: set_header_def)

lemma set_other [simp]:
  "HEAP_READY (put a v s) = HEAP_READY s" "HEAP_START (put a v s) = HEAP_START s"
  "HEAP_END (put a v s) = HEAP_END s" "FREE_LIST (put a v s) = FREE_LIST s" "vm (put a v s) = vm s"
  "KERNEL_PML4 (put a v s) = KERNEL_PML4 s" "a' \<noteq> a \<Longrightarrow> cells (put a v s) a' = cells s a'"
  by (simp_all add: put_def)

lemma free_list_put:
  assumes "a \<notin> set (node_cells ns)"
  shows "free_list (put a v s) ns = free_list s ns"
  using assms by (simp add: free_list_def put_def)

lemma free_list_set:
  assumes "h \<notin> set (node_cells ns)"
  shows "free_list (set_size h n s) ns = free_list s ns" "free_list (set_used h u s) ns = free_list s ns"
    "free_list (set_header h k s) ns = free_list s ns"
  using assms by (simp_all add: free_list_put set_size_def set_used_def set_pad_def set_header_def)

text \<open>The three cells that a free block uses: its header and its links.\<close>

definition block_cells :: "u64 list \<Rightarrow> u64 list" where
  "block_cells ns = concat (map (\<lambda>n. [payload_to_header n, n, n + 8]) ns)"

lemma block_cells_simps [simp]:
  "block_cells [] = []" "block_cells (n # ns) = payload_to_header n # n # (n + 8) # block_cells ns"
  by (simp_all add: block_cells_def)

lemma block_node_cells: "set (node_cells ns) \<subseteq> set (block_cells ns)"
  by (induction ns) auto

lemma block_cells_distinct: "distinct (block_cells ns) \<Longrightarrow> distinct (node_cells ns)"
  using block_node_cells by (induction ns) auto

lemma block_cells_mem: "n \<in> set ns \<Longrightarrow> payload_to_header n \<in> set (block_cells ns)"
  by (induction ns) auto

lemma header_apart:
  assumes "distinct (block_cells ns)" and "n \<in> set ns"
  shows "payload_to_header n \<notin> set (node_cells ns)"
  using assms
proof (induction ns)
  case (Cons m ns)
  then show ?case using block_cells_mem [of n ns] block_node_cells [of ns] by auto
qed simp

lemma header_payload [simp]:
  "header_to_payload (payload_to_header n) = n" "payload_to_header (header_to_payload h) = h"
  by (simp_all add: header_to_payload_def payload_to_header_def)

lemma find_fit_first:
  assumes "fl (cells s) pv p ns"
  shows "find_fit s t p = Some (case List.find (\<lambda>n. total_of s (payload_to_header n) \<ge> t) ns of
    None \<Rightarrow> 0 | Some n \<Rightarrow> n)"
  using assms
proof (induction ns arbitrary: pv p)
  case (Cons n ns)
  then have "find_fit s t p = (if total_of s (payload_to_header n) \<ge> t then Some n else find_fit s t (cells s n))"
    by (subst find_fit.simps) (simp add: n_next_def)
  then show ?case using Cons by auto
qed (subst find_fit.simps, simp)

section \<open>Allocating from the list\<close>

definition splits :: "heap \<Rightarrow> u64 \<Rightarrow> u64 \<Rightarrow> bool" where
  "splits s sz n \<longleftrightarrow>
     total_of s (payload_to_header n) - block_total sz \<ge> block_total 0 + MIN_BLOCK"

lemma tail_payload: "header_to_payload (payload_to_header n + k) = n + k"
  by (simp add: header_to_payload_def payload_to_header_def)

lemma tail_header: "payload_to_header n + k = payload_to_header (n + k)"
  by (simp add: payload_to_header_def)

lemma take_block_unfold:
  "take_block sz n s =
     set_used (payload_to_header n) 1
       (if splits s sz n
        then free_list_insert (n + block_total sz)
               (set_size (payload_to_header n) (ucast sz)
                 (set_header (payload_to_header (n + block_total sz))
                   (total_of s (payload_to_header n) - block_total sz - HDR) (free_list_remove n s)))
        else free_list_remove n s)"
  by (simp add: take_block_def Let_def splits_def tail_header)

lemma take_block_correct:
  assumes fl: "free_list s ns" and n: "n \<in> set ns" and dist: "distinct (block_cells ns)"
    and new: "splits s sz n \<Longrightarrow> n + block_total sz \<noteq> 0 \<and> distinct (block_cells ((n + block_total sz) # ns))"
  defines "t \<equiv> n + block_total sz" and "h \<equiv> payload_to_header n"
  shows "free_list (take_block sz n s) (if splits s sz n then t # remove1 n ns else remove1 n ns)"
    and "m \<in> set ns \<or> splits s sz n \<and> m = t \<Longrightarrow>
      h_used (take_block sz n s) (payload_to_header m) =
        (if m = n then 1 else if m \<in> set ns then h_used s (payload_to_header m) else 0) \<and>
      h_size (take_block sz n s) (payload_to_header m) =
        (if m = n \<and> splits s sz n then ucast sz
         else if m \<in> set ns then h_size s (payload_to_header m)
         else ucast (total_of s h - block_total sz - HDR))"
proof -
  let ?r = "free_list_remove n s"
  let ?q = "set_size h (ucast sz) (set_header (payload_to_header t) (total_of s h - block_total sz - HDR) ?r)"
  have fl1: "free_list ?r (remove1 n ns)" using free_list_remove1 [OF fl n] .
  have sub: "set (node_cells (remove1 n ns)) \<subseteq> set (node_cells ns)"
    by (auto simp: node_cells_def dest: set_remove1_subset [THEN subsetD])
  have apart: "payload_to_header m \<notin> set (node_cells ns)" if "m \<in> set ns" for m
    using header_apart [OF dist that] .
  have keep: "cells ?r (payload_to_header m) = cells s (payload_to_header m)" if "m \<in> set ns" for m
    using free_list_remove_frame [OF fl n apart [OF that]] .
  have inj: "payload_to_header m = payload_to_header m' \<longleftrightarrow> m = m'" for m m'
    by (simp add: payload_to_header_def)
  have new': "t \<noteq> 0" "distinct (node_cells (t # remove1 n ns))" "t \<notin> set ns"
      "payload_to_header t \<notin> set (node_cells (t # ns))" "h \<notin> set (node_cells (t # remove1 n ns))"
      "free_list ?q (remove1 n ns)"
      "\<And>m. m \<in> set (t # ns) \<Longrightarrow> payload_to_header m \<notin> set (node_cells (t # remove1 n ns))"
    if sp: "splits s sz n"
  proof -
    have t: "t \<noteq> 0" "distinct (block_cells (t # ns))" using new [OF sp] by (simp_all add: t_def)
    have a: "payload_to_header m \<notin> set (node_cells (t # ns))" if "m \<in> set (t # ns)" for m
      using header_apart [OF t(2) that] .
    have d: "distinct (node_cells (t # ns))" using block_cells_distinct [OF t(2)] .
    show "t \<noteq> 0" "t \<notin> set ns" using t d node_cells_mem by auto
    show "distinct (node_cells (t # remove1 n ns))" using fl1 d sub by (auto simp: free_list_def)
    show "payload_to_header t \<notin> set (node_cells (t # ns))" using a by simp
    show b: "\<And>m. m \<in> set (t # ns) \<Longrightarrow> payload_to_header m \<notin> set (node_cells (t # remove1 n ns))"
      using a sub by auto
    show "h \<notin> set (node_cells (t # remove1 n ns))" using b n by (simp add: h_def)
    then show "free_list ?q (remove1 n ns)" using b [of t] fl1 by (simp add: free_list_set)
  qed
  have ins: "cells (free_list_insert t ?q) (payload_to_header m) = cells ?q (payload_to_header m)"
    if "splits s sz n" "m \<in> set (t # ns)" for m
    using free_list_insert_frame [OF new'(6) [OF that(1)] new'(7) [OF that]] .
  show "free_list (take_block sz n s) (if splits s sz n then t # remove1 n ns else remove1 n ns)"
  proof (cases "splits s sz n")
    case True
    have "free_list (free_list_insert t ?q) (t # remove1 n ns)"
      using fl_insert [OF new'(6) [OF True] new'(1,2) [OF True]] .
    then show ?thesis using True new'(5) by (simp add: take_block_unfold free_list_set t_def h_def)
  next
    case False
    have "h \<notin> set (node_cells (remove1 n ns))" using apart [OF n] sub by (auto simp: h_def)
    then show ?thesis using False fl1 by (simp add: take_block_unfold free_list_set h_def)
  qed
  show "h_used (take_block sz n s) (payload_to_header m) =
        (if m = n then 1 else if m \<in> set ns then h_used s (payload_to_header m) else 0) \<and>
      h_size (take_block sz n s) (payload_to_header m) =
        (if m = n \<and> splits s sz n then ucast sz
         else if m \<in> set ns then h_size s (payload_to_header m)
         else ucast (total_of s h - block_total sz - HDR))"
    if m: "m \<in> set ns \<or> splits s sz n \<and> m = t"
  proof (cases "splits s sz n")
    case True
    have "h_used (free_list_insert t ?q) (payload_to_header m) = h_used ?q (payload_to_header m)"
      "h_size (free_list_insert t ?q) (payload_to_header m) = h_size ?q (payload_to_header m)"
      using ins [OF True, of m] m by (auto simp: h_used_def h_size_def)
    moreover have "m \<in> set ns \<Longrightarrow> h_used ?r (payload_to_header m) = h_used s (payload_to_header m) \<and>
        h_size ?r (payload_to_header m) = h_size s (payload_to_header m)"
      using keep by (simp add: h_used_def h_size_def)
    moreover have "t \<noteq> n" using new'(3) [OF True] n by auto
    ultimately show ?thesis using True m new'(3) n
      by (auto simp: take_block_unfold inj t_def [symmetric] h_def [symmetric] simp del: free_list_set) (auto simp: h_def inj)
  next
    case False
    then show ?thesis using m keep [of m]
      by (auto simp: take_block_unfold inj) (auto simp: h_used_def h_size_def)
  qed
qed

section \<open>Sizes\<close>

lemma align_up_unat:
  assumes "unat n + 15 < 2 ^ 64"
  shows "unat (align_up n) = (unat n + 15) div 16 * 16"
proof -
  have "align_up n = (n + 15) AND NOT (mask 4)"
    by (simp add: align_up_def MIN_ALIGN_def mask_eq_exp_minus_1 flip: add_diff_eq)
  also have "\<dots> = push_bit 4 (drop_bit 4 (n + 15))"
    by (auto intro!: bit_word_eqI simp: bit_simps)
  finally have e: "align_up n = push_bit 4 (drop_bit 4 (n + 15))" .
  have "unat (n + 15) = unat n + 15" using assms by (simp add: unat_word_ariths)
  then show ?thesis
    using assms unfolding e
    by (simp add: push_bit_eq_mult drop_bit_eq_div unat_word_ariths unat_div)
qed

lemma block_total_unat:
  assumes "unat n + 24 < 2 ^ 64"
  shows "unat (block_total n) = (unat n + 15) div 16 * 16 + 8"
proof -
  have "unat (align_up n) = (unat n + 15) div 16 * 16" using assms by (intro align_up_unat) simp
  moreover have "(unat n + 15) div 16 * 16 \<le> unat n + 15" by simp
  ultimately show ?thesis using assms by (simp add: block_total_def HDR_def unat_word_ariths)
qed

lemma total_of_unat: "unat (total_of s h) = (unat (h_size s h) + 15) div 16 * 16 + 8"
proof -
  have "unat (h_size s h) < 2 ^ 32" using unsigned_less [of "h_size s h"] by simp
  then show ?thesis unfolding total_of_def by (subst block_total_unat) (simp_all add: unsigned_ucast_eq take_bit_nat_eq_self)
qed

text \<open>A split adds 8 bytes: the tail's extent ends 8 bytes after the end of the block it was
  cut from.\<close>

lemma split_tail_total:
  assumes "unat sz < 2 ^ 32" and "splits s sz n" and "block_total sz \<le> total_of s (payload_to_header n)"
    and "h_size s' (payload_to_header t) = ucast (total_of s (payload_to_header n) - block_total sz - HDR)"
  shows "unat (total_of s' (payload_to_header t)) + unat (block_total sz) = unat (total_of s (payload_to_header n)) + 8"
proof -
  let ?T = "total_of s (payload_to_header n)" and ?b = "block_total sz"
  let ?k = "(unat sz + 15) div 16" and ?m = "(unat (h_size s (payload_to_header n)) + 15) div 16"
  have b: "unat ?b = ?k * 16 + 8" using assms(1) by (subst block_total_unat) simp_all
  have T: "unat ?T = ?m * 16 + 8" by (rule total_of_unat)
  have le: "?k \<le> ?m" using assms(3) b T by (simp add: word_le_nat_alt)
  have r: "unat (?T - ?b) = (?m - ?k) * 16" using assms(3) b T by (simp add: unat_sub diff_mult_distrib)
  have "unat (block_total 0 + MIN_BLOCK) = 40"
    by (simp add: block_total_def align_up_def MIN_ALIGN_def HDR_def MIN_BLOCK_def)
  then have big: "40 \<le> (?m - ?k) * 16" using assms(2) r by (simp add: splits_def word_le_nat_alt)
  then have "HDR \<le> ?T - ?b" using r by (simp add: word_le_nat_alt HDR_def)
  then have r8: "unat (?T - ?b - HDR) = (?m - ?k) * 16 - 8" using r by (simp add: unat_sub HDR_def)
  have "unat (h_size s (payload_to_header n)) < 2 ^ 32"
    using unsigned_less [of "h_size s (payload_to_header n)"] by simp
  then have "?m < 2 ^ 28 + 1" by simp
  moreover have "1 \<le> ?k" if "unat sz \<noteq> 0" using that by simp
  ultimately have "(?m - ?k) * 16 - 8 < 2 ^ 32" by simp
  then have "unat (h_size s' (payload_to_header t)) = (?m - ?k) * 16 - 8"
    using assms(4) r8 by (simp add: unsigned_ucast_eq take_bit_nat_eq_self)
  then have "unat (total_of s' (payload_to_header t)) = ((?m - ?k) * 16 - 8 + 15) div 16 * 16 + 8"
    by (simp add: total_of_unat)
  also have "((?m - ?k) * 16 - 8 + 15) div 16 = ?m - ?k" using big by simp
  finally show ?thesis using b T le by (simp add: diff_mult_distrib)
qed

section \<open>Growing\<close>

lemma grow_pages_frame:
  assumes "grow_pages k a s = (a', s')" and "unat a + k < 2 ^ 64"
  shows "unat a \<le> unat a' \<and> unat a' \<le> unat a + k \<and> s' = s\<lparr>vm := vm s'\<rparr>"
  using assms
proof (induction k arbitrary: a s)
  case (Suc k)
  obtain p a1 where p: "palloc (alloc (vm s)) = (p, a1)" by force
  let ?s1 = "s\<lparr>vm := (vm s)\<lparr>alloc := a1\<rparr>\<rparr>"
  obtain m2 r where m: "map_page (vm ?s1) (KERNEL_PML4 ?s1) p (HEAP_END s + a) (PTE_WRITABLE OR PTE_GLOBAL) = (m2, r)"
    by force
  have u: "unat (a + 1) = unat a + 1" using Suc.prems(2) by (simp add: unat_word_ariths)
  consider "p = 0" | "p \<noteq> 0" "r \<noteq> 0" | "p \<noteq> 0" "r = 0" by blast
  then show ?case
  proof cases
    case 3
    then have "grow_pages k (a + 1) (?s1\<lparr>vm := m2\<rparr>) = (a', s')" using Suc.prems(1) p m by simp
    then have "unat (a + 1) \<le> unat a' \<and> unat a' \<le> unat (a + 1) + k \<and> s' = ?s1\<lparr>vm := m2\<rparr>\<lparr>vm := vm s'\<rparr>"
      by (rule Suc.IH) (use Suc.prems(2) u in simp)
    then show ?thesis using u by simp
  qed (use Suc.prems(1) p m in auto)
qed simp

text \<open>The invariant that growing keeps: the nodes of the free list lie inside the heap, whose end
  is a page boundary within the limit.\<close>

definition heap_ok :: "heap \<Rightarrow> u64 list \<Rightarrow> bool" where
  "heap_ok s ns \<longleftrightarrow> free_list s ns \<and> (\<forall>n\<in>set ns. unat n + 16 \<le> unat (HEAP_END s)) \<and>
     unat HEAP_BASE \<le> unat (HEAP_END s) \<and> unat (HEAP_END s) \<le> unat HEAP_BASE + unat HEAP_MAX_SIZE \<and>
     4096 dvd unat (HEAP_END s)"

lemma heap_consts: "unat HEAP_BASE = 17592186044416" "unat HEAP_MAX_SIZE = 268435456" "PAGE_SIZE = 4096"
  by (simp_all add: HEAP_BASE_def HEAP_MAX_SIZE_def PAGE_SIZE_def)

lemma pages_to_grow_bound:
  assumes "unat cur \<le> 268435456" and "unat m \<le> 2 ^ 51 + 1"
  shows "unat cur + unat (pages_to_grow cur m) * 4096 \<le> 268435456"
proof -
  define q where "q = (let quarter = cur div PAGE_SIZE div 4; pages = (if quarter > m then quarter else m)
    in if pages < 4 then 4 else pages)"
  have "unat q \<le> 2 ^ 51 + 1"
    using assms by (auto simp: q_def Let_def heap_consts unat_div)
  then have p: "unat (cur + q * PAGE_SIZE) = unat cur + unat q * 4096"
    using assms(1) by (simp add: heap_consts unat_word_ariths)
  have d: "unat ((HEAP_MAX_SIZE - cur) div PAGE_SIZE) = (268435456 - unat cur) div 4096"
    using assms(1) by (simp add: heap_consts unat_div unat_sub word_le_nat_alt)
  have "pages_to_grow cur m = (if cur + q * PAGE_SIZE > HEAP_MAX_SIZE then (HEAP_MAX_SIZE - cur) div PAGE_SIZE else q)"
    by (simp add: pages_to_grow_def q_def Let_def)
  then show ?thesis using p d assms(1) by (auto simp: word_less_nat_alt heap_consts)
qed

lemma grow_heap_keeps:
  assumes ok: "heap_ok s ns" and m: "unat m \<le> 2 ^ 51 + 1" and g: "grow_heap m s = (b, s')"
  shows "if b then heap_ok s' (header_to_payload (HEAP_END s) # ns) \<and>
           unat (HEAP_END s) + 4096 \<le> unat (HEAP_END s') \<and> HEAP_READY s' = HEAP_READY s
         else heap_ok s' ns \<and> cells s' = cells s"
proof -
  let ?e = "HEAP_END s" and ?pg = "pages_to_grow (HEAP_END s - HEAP_BASE) m"
  have e: "unat HEAP_BASE \<le> unat ?e" "unat ?e \<le> unat HEAP_BASE + 268435456" "4096 dvd unat ?e"
    and fl: "free_list s ns" and ns: "\<forall>n\<in>set ns. unat n + 16 \<le> unat ?e"
    using ok by (simp_all add: heap_ok_def heap_consts)
  have c: "unat (?e - HEAP_BASE) = unat ?e - unat HEAP_BASE"
    using e(1) by (simp add: unat_sub word_le_nat_alt)
  then have cb: "unat (?e - HEAP_BASE) \<le> 268435456" using e(2) by simp
  then have pg: "unat ?e + unat ?pg * 4096 \<le> unat HEAP_BASE + 268435456"
    using pages_to_grow_bound [OF cb m] c e(1) by linarith
  obtain k s1 where gp: "grow_pages (unat ?pg) 0 s = (k, s1)" by force
  have k: "unat k \<le> unat ?pg" and s1: "s1 = s\<lparr>vm := vm s1\<rparr>"
    using grow_pages_frame [OF gp] pg by (simp_all add: heap_consts)
  have st: "HEAP_END s1 = ?e" "cells s1 = cells s" "FREE_LIST s1 = FREE_LIST s" "HEAP_READY s1 = HEAP_READY s"
    by (subst s1, simp)+
  have fl1: "free_list s1 ns" using fl st by (simp add: free_list_def)
  show ?thesis
  proof (cases "?pg = 0 \<or> k = 0")
    case True
    then have "b = False" "s' = s \<or> s' = s1" using g gp by (auto simp: grow_heap_def Let_def split: if_splits)
    then show ?thesis using ok fl1 st by (auto simp: heap_ok_def)
  next
    case False
    let ?top = "?e + k * PAGE_SIZE" and ?n = "header_to_payload ?e"
    have k1: "1 \<le> unat k" using False by (simp add: Suc_leI unat_gt_0)
    have fin: "unat ?top = unat ?e + unat k * 4096"
      using pg k by (simp add: heap_consts unat_word_ariths)
    have n: "unat ?n = unat ?e + 8" "unat (?n + 8) = unat ?e + 16"
      using e(2) by (simp_all add: header_to_payload_def HDR_def heap_consts unat_word_ariths)
    have far: "a < ?e" if a: "a \<in> set (node_cells ns)" for a
    proof -
      obtain x where x: "x \<in> set ns" "a = x \<or> a = x + 8" using a by (auto simp: node_cells_def)
      then have "unat x + 16 \<le> unat ?e" using ns by blast
      then show ?thesis using x(2) e(2) by (auto simp: word_less_nat_alt heap_consts unat_word_ariths)
    qed
    have out: "?e \<notin> set (node_cells ns)" "?n \<notin> set (node_cells ns)" "?n + 8 \<notin> set (node_cells ns)"
      using far n by (force simp: word_less_nat_alt)+
    let ?s2 = "free_list_insert ?n (set_header ?e (?top - ?e - HDR) s1)"
    have ge: "?e + block_total 0 \<le> ?top" "MIN_BLOCK \<le> ?top - ?e - HDR"
    proof -
      have "unat (block_total 0) = 8" by (simp add: block_total_unat)
      then show "?e + block_total 0 \<le> ?top"
        using fin k1 e(2) by (simp add: word_le_nat_alt unat_word_ariths heap_consts)
      have "unat (?top - ?e) = unat k * 4096"
        using pg k by (simp add: heap_consts unat_word_ariths)
      then show "MIN_BLOCK \<le> ?top - ?e - HDR"
        using k1 by (simp add: word_le_nat_alt unat_sub MIN_BLOCK_def HDR_def)
    qed
    have "b = True" "s' = ?s2\<lparr>HEAP_END := ?top\<rparr>"
      using g gp False ge by (auto simp: grow_heap_def Let_def)
    moreover have "free_list ?s2 (?n # ns)"
    proof (rule fl_insert)
      show "free_list (set_header ?e (?top - ?e - HDR) s1) ns" using fl1 out(1) by (simp add: free_list_set)
      show "?n \<noteq> 0" using n(1) by (metis add_is_0 unat_0 zero_neq_numeral)
      show "distinct (node_cells (?n # ns))"
        using fl out n by (auto simp: free_list_def)
    qed
    ultimately show ?thesis
      using n fin k1 ns e pg k st
      by (auto simp: heap_ok_def free_list_def heap_consts set_header_def set_pad_def set_used_def set_size_def)
  qed
qed

lemma fl_nonnull: "free_list s ns \<Longrightarrow> n \<in> set ns \<Longrightarrow> n \<noteq> 0"
  unfolding free_list_def by (metis fl_around split_list)

lemma fl_find_nonnull: "free_list s ns \<Longrightarrow> List.find P ns = Some n \<Longrightarrow> n \<noteq> 0"
  using fl_nonnull by (auto simp: find_Some_iff)

lemma kmalloc_unfold:
  assumes "free_list s ns"
  shows "kmalloc sz s =
     (if sz = 0 \<or> \<not> HEAP_READY s then Some (0, s)
      else case List.find (\<lambda>n. block_total sz \<le> total_of s (payload_to_header n)) ns of
        Some n \<Rightarrow> Some (n, take_block sz n s)
      | None \<Rightarrow> let (grown, s1) = grow_heap ((block_total sz + PAGE_SIZE - 1) div PAGE_SIZE) s
               in if \<not> grown then Some (0, s1) else kmalloc sz s1)"
proof -
  have fl: "fl (cells s) 0 (FREE_LIST s) ns" using assms by (simp add: free_list_def)
  show ?thesis
    by (subst kmalloc.simps, cases "List.find (\<lambda>n. block_total sz \<le> total_of s (payload_to_header n)) ns")
      (simp_all add: find_fit_first [OF fl] fl_find_nonnull [OF assms])
qed

lemma kmalloc_ends:
  assumes "heap_ok s ns" and "unat sz < 2 ^ 63"
  shows "\<exists>p s' ms. kmalloc sz s = Some (p, s') \<and>
    (p = 0 \<and> sz \<noteq> 0 \<and> HEAP_READY s \<longrightarrow>
      heap_ok s' ms \<and> (\<forall>n\<in>set ms. total_of s' (payload_to_header n) < block_total sz))"
  using assms(1)
proof (induction "unat HEAP_BASE + unat HEAP_MAX_SIZE - unat (HEAP_END s)" arbitrary: s ns rule: less_induct)
  case less
  have fl: "free_list s ns" using less.prems by (simp add: heap_ok_def)
  let ?P = "\<lambda>n. block_total sz \<le> total_of s (payload_to_header n)"
  let ?m = "(block_total sz + PAGE_SIZE - 1) div PAGE_SIZE"
  note U = kmalloc_unfold [OF fl, of sz]
  have "unat (block_total sz) < 2 ^ 63 + 24" using assms(2) by (subst block_total_unat) simp_all
  then have "unat (block_total sz + 4095) = unat (block_total sz) + 4095"
    by (simp add: unat_word_ariths)
  then have m: "unat ?m \<le> 2 ^ 51 + 1"
    using \<open>unat (block_total sz) < 2 ^ 63 + 24\<close> by (simp add: heap_consts unat_div flip: add_diff_eq)
  obtain g s1 where g: "grow_heap ?m s = (g, s1)" by force
  note K = grow_heap_keeps [OF less.prems m g]
  show ?case
  proof (cases "sz = 0 \<or> \<not> HEAP_READY s \<or> List.find ?P ns \<noteq> None")
    case True
    then show ?thesis using U fl_find_nonnull [OF fl] by (cases "List.find ?P ns") auto
  next
    case False
    show ?thesis
    proof (cases g)
      case True
      then have ok: "heap_ok s1 (header_to_payload (HEAP_END s) # ns)" and r: "HEAP_READY s1"
        and lt: "unat (HEAP_END s) + 4096 \<le> unat (HEAP_END s1)" using K False by auto
      moreover have "unat (HEAP_END s1) \<le> unat HEAP_BASE + unat HEAP_MAX_SIZE" using ok by (simp add: heap_ok_def)
      ultimately show ?thesis using less.hyps [OF _ ok] U g True False by auto
    next
      case no: False
      then have k: "heap_ok s1 ns" "cells s1 = cells s" using K by auto
      have "\<forall>n\<in>set ns. \<not> ?P n" using False by (auto simp: find_None_iff)
      then have "\<forall>n\<in>set ns. total_of s1 (payload_to_header n) < block_total sz"
        using k(2) by (simp add: total_of_def h_size_def not_le)
      then show ?thesis using U g no False k by auto
    qed
  qed
qed

section \<open>What growing maps\<close>

lemma grow_pages_maps:
  assumes "grow_pages k a s = (a', s')" and "tree_ok (vm s) (KERNEL_PML4 s)"
    and "\<And>i. i < k \<Longrightarrow> \<not> same_page (HEAP_END s + (a + of_nat i)) w"
  shows "virt_to_phys (vm s') (KERNEL_PML4 s) w = virt_to_phys (vm s) (KERNEL_PML4 s) w"
  using assms
proof (induction k arbitrary: a s)
  case (Suc k)
  obtain p a1 where p: "palloc (alloc (vm s)) = (p, a1)" by force
  let ?s1 = "s\<lparr>vm := (vm s)\<lparr>alloc := a1\<rparr>\<rparr>"
  obtain m2 r where m: "map_page (vm ?s1) (KERNEL_PML4 ?s1) p (HEAP_END s + a) (PTE_WRITABLE OR PTE_GLOBAL) = (m2, r)"
    by force
  have ok: "tree_ok (vm ?s1) (KERNEL_PML4 ?s1)" using palloc_tree_ok [OF Suc.prems(2) p] by simp
  have fl: "(PTE_WRITABLE OR PTE_GLOBAL) AND (PAGE_MASK OR PTE_HUGE) = 0"
    by (simp add: pte_flag_defs PAGE_MASK_def)
  note M = map_page_spec [OF ok fl m]
  have here: "\<not> same_page (HEAP_END s + a) w" using Suc.prems(3) [of 0] by simp
  then have v: "virt_to_phys m2 (KERNEL_PML4 s) w = virt_to_phys (vm s) (KERNEL_PML4 s) w" using M by simp
  have later: "\<not> same_page (HEAP_END s + (a + 1 + of_nat i)) w" if "i < k" for i
    using Suc.prems(3) [of "Suc i"] that by (simp add: add.assoc add.left_commute)
  consider "p = 0" | "p \<noteq> 0" "r \<noteq> 0" | "p \<noteq> 0" "r = 0" by blast
  then show ?case
  proof cases
    case 3
    then have "grow_pages k (a + 1) (?s1\<lparr>vm := m2\<rparr>) = (a', s')" using Suc.prems(1) p m by simp
    from Suc.IH [OF this] M later v show ?thesis by simp
  qed (use Suc.prems(1) p m v in auto)
qed simp

lemma pages_to_grow_small:
  assumes "unat cur \<le> 0x4000000" and "unat m \<le> 4096"
  shows "unat (pages_to_grow cur m) \<le> 4096"
proof -
  define q where "q = (let quarter = cur div PAGE_SIZE div 4; pages = (if quarter > m then quarter else m)
    in if pages < 4 then 4 else pages)"
  have q: "unat q \<le> 4096" using assms by (auto simp: q_def Let_def heap_consts unat_div)
  then have "unat (cur + q * PAGE_SIZE) = unat cur + unat q * 4096"
    using assms(1) by (simp add: heap_consts unat_word_ariths)
  then have "\<not> cur + q * PAGE_SIZE > HEAP_MAX_SIZE" using q assms(1) by (simp add: word_less_nat_alt heap_consts)
  then show ?thesis using q by (simp add: pages_to_grow_def q_def [symmetric] Let_def q_def)
qed

section \<open>Freeing\<close>

lemma find_prev_first:
  assumes "fl (cells s) pv p ns" and "\<And>n. n \<in> set ns \<Longrightarrow> payload_to_header n \<noteq> 0"
  shows "find_prev s h p = Some (case List.find (\<lambda>n. block_next s (payload_to_header n) = h \<and>
      h_used s (payload_to_header n) = 0 \<and> payload_to_header n \<noteq> h) ns of
    None \<Rightarrow> 0 | Some n \<Rightarrow> payload_to_header n)"
  using assms
proof (induction ns arbitrary: pv p)
  case (Cons n ns)
  then have "find_prev s h p = (if block_next s (payload_to_header n) = h \<and> h_used s (payload_to_header n) = 0 \<and>
      payload_to_header n \<noteq> h then Some (payload_to_header n) else find_prev s h (cells s n))"
    by (subst find_prev.simps) (simp add: n_next_def Let_def)
  then show ?case using Cons by auto
qed (subst find_prev.simps, simp)

lemma node_cells_cons:
  assumes "distinct (node_cells ns)" and "q \<in> set ns" and "set ms \<subseteq> set ns - {q}" and "distinct (node_cells ms)"
  shows "distinct (node_cells (q # ms))"
proof -
  obtain as bs where ns: "ns = as @ q # bs" using assms(2) by (meson split_list)
  have "set (node_cells ms) \<subseteq> set (node_cells (as @ bs))" using assms(3) ns by (auto simp: node_cells_def)
  then show ?thesis using assms(1,4) ns by auto
qed

lemma join_next_list:
  assumes "free_list s ns" and "h \<notin> set (node_cells ns)"
    and "block_next s h < HEAP_END s \<Longrightarrow> h_used s (block_next s h) = 0 \<Longrightarrow> header_to_payload (block_next s h) \<in> set ns"
  shows "free_list (join_next h s)
    (if block_next s h < HEAP_END s \<and> h_used s (block_next s h) = 0
     then remove1 (header_to_payload (block_next s h)) ns else ns)"
proof -
  have "set (node_cells (remove1 n ns)) \<subseteq> set (node_cells ns)" for n
    by (auto simp: node_cells_def dest: set_remove1_subset [THEN subsetD])
  then show ?thesis
    using assms free_list_remove1 [OF assms(1)] subsetD
    by (auto simp: join_next_def Let_def intro!: free_list_set(1) [THEN iffD2])
qed

lemma join_prev_list:
  assumes "free_list s ns" and "header_to_payload h \<in> set ns" and "p \<noteq> 0 \<Longrightarrow> header_to_payload p \<in> set ns \<and> p \<noteq> h"
    and "p \<noteq> 0 \<Longrightarrow> p \<notin> set (node_cells ns)"
  shows "free_list (join_prev h p s)
    (if p \<noteq> 0 then header_to_payload p # remove1 (header_to_payload p) (remove1 (header_to_payload h) ns) else ns)"
proof (cases "p = 0")
  case False
  let ?q = "header_to_payload p" and ?b = "header_to_payload h"
  let ?ms = "remove1 ?q (remove1 ?b ns)"
  let ?s1 = "free_list_remove ?q (free_list_remove ?b s)"
  have dn: "distinct (node_cells ns)" and d: "distinct ns"
    using assms(1) node_cells_distinct by (auto simp: free_list_def)
  have q: "?q \<in> set (remove1 ?b ns)" using assms(3) False d by (auto simp: header_to_payload_def)
  then have fl: "free_list ?s1 ?ms"
    using free_list_remove1 [OF free_list_remove1 [OF assms(1,2)]] by simp
  have sub: "set (node_cells ?ms) \<subseteq> set (node_cells ns)"
    by (auto simp: node_cells_def dest!: set_remove1_subset [THEN subsetD])
  have "?q \<notin> set ?ms" using d by simp
  then have dm: "distinct (node_cells (?q # ?ms))"
    using node_cells_cons [OF dn, of ?q ?ms] assms(3) False fl d by (auto simp: free_list_def)
  have "p \<notin> set (node_cells ?ms)" using assms(4) [OF False] sub by auto
  then have "free_list (set_size p k ?s1) ?ms" for k using fl by (simp add: free_list_set)
  moreover have "?q \<noteq> 0" using fl_nonnull [OF assms(1)] assms(3) False by blast
  ultimately show ?thesis using False fl_insert [OF _ _ dm] by (simp add: join_prev_def Let_def)
qed (simp add: join_prev_def assms)

section \<open>Properties\<close>

text \<open>The free list refines a list of nodes: on a heap whose links form the list \<open>ns\<close>,
  \<open>free_list_insert\<close> of a block outside the list puts it in front, and \<open>free_list_remove\<close> of a
  node of the list takes out exactly that node, wherever it stands.\<close>

theorem free_list_refines:
  assumes "free_list s ns"
  shows "(n \<noteq> 0 \<and> distinct (node_cells (n # ns)) \<longrightarrow> free_list (free_list_insert n s) (n # ns)) \<and>
    (n \<in> set ns \<longrightarrow> free_list (free_list_remove n s) (remove1 n ns))"
  using fl_insert [OF assms] free_list_remove1 [OF assms] by blast

text \<open>C14: \<open>kmalloc\<close> is first fit: it returns the payload of the first block of the free list that is
  large enough, marks it used, and leaves the list without it. When the rest of the block can hold
  a block of its own, the tail becomes a free block at the head of the list and the allocated
  block gets the requested size. No other header of the list changes.\<close>

theorem kmalloc_first_fit:
  assumes "HEAP_READY s" and "sz \<noteq> 0" and "free_list s ns" and "distinct (block_cells ns)"
    and "List.find (\<lambda>n. block_total sz \<le> total_of s (payload_to_header n)) ns = Some n"
    and "splits s sz n \<Longrightarrow> n + block_total sz \<noteq> 0 \<and> distinct (block_cells ((n + block_total sz) # ns))"
  shows "\<exists>s'. kmalloc sz s = Some (n, s') \<and>
    free_list s' (if splits s sz n then (n + block_total sz) # remove1 n ns else remove1 n ns) \<and>
    h_used s' (payload_to_header n) = 1 \<and>
    (splits s sz n \<longrightarrow> h_size s' (payload_to_header n) = ucast sz \<and>
      h_used s' (payload_to_header (n + block_total sz)) = 0) \<and>
    (\<forall>m\<in>set ns. m \<noteq> n \<longrightarrow> h_used s' (payload_to_header m) = h_used s (payload_to_header m) \<and>
      h_size s' (payload_to_header m) = h_size s (payload_to_header m))"
proof -
  have n: "n \<in> set ns" using assms(5) by (auto simp: find_Some_iff)
  have "kmalloc sz s = Some (n, take_block sz n s)"
    using kmalloc_unfold [OF assms(3)] assms(1,2,5) by simp
  moreover note T = take_block_correct [OF assms(3) n assms(4,6)]
  have "n + block_total sz \<notin> set ns" if "splits s sz n"
    using assms(6) [OF that] block_cells_mem [of "n + block_total sz" ns] by auto
  ultimately show ?thesis using T(1) T(2) [of n] T(2) [of "n + block_total sz"] T(2) n by (intro exI [of _ "take_block sz n s"]) auto
qed


text \<open>A split makes memory out of nothing: the extent of the tail that \<open>kmalloc\<close> puts on the free
  list ends 8 bytes after the end of the block it was cut from, so the tail overlaps the next
  block's header.\<close>

theorem split_overruns:
  assumes "HEAP_READY s" and "sz \<noteq> 0" and "free_list s ns" and "distinct (block_cells ns)"
    and "List.find (\<lambda>n. block_total sz \<le> total_of s (payload_to_header n)) ns = Some n"
    and "splits s sz n" and "n + block_total sz \<noteq> 0" and "distinct (block_cells ((n + block_total sz) # ns))"
    and "unat sz < 2 ^ 32"
  shows "\<exists>s'. kmalloc sz s = Some (n, s') \<and>
    block_next s' (payload_to_header (n + block_total sz)) = block_next s (payload_to_header n) + 8"
proof -
  let ?s = "take_block sz n s" and ?t = "n + block_total sz"
  have n: "n \<in> set ns" and fits: "block_total sz \<le> total_of s (payload_to_header n)"
    using assms(5) by (auto simp: find_Some_iff)
  have t: "?t \<notin> set ns" using assms(8) block_cells_mem [of ?t ns] by auto
  have "h_size ?s (payload_to_header ?t) = ucast (total_of s (payload_to_header n) - block_total sz - HDR)"
    using take_block_correct(2) [OF assms(3) n assms(4), of sz ?t] assms(6-8) t n by auto
  from split_tail_total [OF assms(9,6) fits this]
  have "(of_nat (unat (total_of ?s (payload_to_header ?t)) + unat (block_total sz)) :: u64) =
      of_nat (unat (total_of s (payload_to_header n)) + 8)" by (rule arg_cong)
  then have "total_of ?s (payload_to_header ?t) + block_total sz = total_of s (payload_to_header n) + 8" by simp
  then show ?thesis using kmalloc_unfold [OF assms(3)] assms(1,2,5)
    by (simp add: block_next_def payload_to_header_def algebra_simps)
qed

text \<open>Growing maps one page only. The code maps the \<open>i\<close>-th new page at \<open>HEAP_END + i\<close> instead of
  \<open>HEAP_END + i * PAGE_SIZE\<close>: while the heap is below 64 MiB, \<open>grow_heap\<close> changes no translation
  outside the page of the old end, although it moves the end by all the pages it took.\<close>

theorem grow_heap_maps_one_page:
  assumes "tree_ok (vm s) (KERNEL_PML4 s)" and "4096 dvd unat (HEAP_END s)"
    and "unat (HEAP_END s - HEAP_BASE) \<le> 0x4000000" and "unat m \<le> 4096"
    and "grow_heap m s = (b, s')" and "\<not> same_page (HEAP_END s) w"
  shows "virt_to_phys (vm s') (KERNEL_PML4 s) w = virt_to_phys (vm s) (KERNEL_PML4 s) w"
proof -
  let ?pg = "pages_to_grow (HEAP_END s - HEAP_BASE) m"
  obtain k s1 where gp: "grow_pages (unat ?pg) 0 s = (k, s1)" by force
  have "\<not> same_page (HEAP_END s + (0 + of_nat i)) w" if "i < unat ?pg" for i
    using same_page_offset [OF assms(2), of i w] pages_to_grow_small [OF assms(3,4)] that assms(6) by simp
  from grow_pages_maps [OF gp assms(1) this]
  have "virt_to_phys (vm s1) (KERNEL_PML4 s) w = virt_to_phys (vm s) (KERNEL_PML4 s) w" .
  moreover have "vm s' = vm s \<or> vm s' = vm s1"
    using assms(5) gp
    by (auto simp: grow_heap_def Let_def set_header_def set_pad_def set_used_def set_size_def split: if_splits)
  ultimately show ?thesis by auto
qed

text \<open>C15: \<open>kfree\<close> returns and gives the block back: the freed block is on the list afterwards, by itself
  or as part of the free block before it; the free block after it, if there is one, is merged
  away; every other free block stays.\<close>

theorem kfree_correct:
  assumes "HEAP_READY s" and "ptr \<noteq> 0" and "free_list s ns" and "distinct (block_cells (ptr # ns))"
    and "\<And>n. n \<in> set (ptr # ns) \<Longrightarrow> payload_to_header n \<noteq> 0"
    and "h = payload_to_header ptr" and "h_used s h \<noteq> 0" and "HEAP_START s \<le> h" and "h < HEAP_END s"
    and "nx = block_next s h" and "nx \<noteq> h" and "nx \<notin> set (node_cells (ptr # ns))"
    and "nx < HEAP_END s \<Longrightarrow> h_used s nx = 0 \<Longrightarrow> header_to_payload nx \<in> set ns"
  shows "\<exists>s' ms q. kfree ptr s = Some s' \<and> free_list s' ms \<and>
    set ms = (if q = 0 then insert ptr (set ns) else set ns)
      - (if nx < HEAP_END s \<and> h_used s nx = 0 then {header_to_payload nx} else {}) \<and>
    (q \<noteq> 0 \<longrightarrow> header_to_payload q \<in> set ms \<inter> set ns \<and> block_next s q = h)"
proof -
  let ?s0 = "set_used h 0 s" and ?c = "nx < HEAP_END s \<and> h_used s nx = 0"
  let ?s1 = "free_list_insert ptr ?s0" and ?n = "header_to_payload nx"
  let ?s2 = "join_next h ?s1"
  define ms where "ms = (if ?c then remove1 ?n (ptr # ns) else ptr # ns)"
  have dn: "distinct (node_cells (ptr # ns))" using block_cells_distinct [OF assms(4)] .
  have d: "distinct (ptr # ns)" using node_cells_distinct [OF dn] .
  have h: "h \<notin> set (node_cells (ptr # ns))" using header_apart [OF assms(4)] assms(6) by simp
  have f0: "free_list ?s0 ns" using assms(3) h by (simp add: free_list_set)
  have f1: "free_list ?s1 (ptr # ns)" using fl_insert [OF f0 assms(2) dn] .
  have "cells ?s1 h = cells ?s0 h" "cells ?s1 nx = cells ?s0 nx"
    using free_list_insert_frame [OF f0] h assms(12) by blast+
  then have same: "h_size ?s1 h = h_size s h" "h_used ?s1 nx = h_used s nx"
    using assms(11) h_set(2,4) by (auto simp: h_size_def h_used_def)
  then have nx: "block_next ?s1 h = nx" using assms(10) by (simp add: block_next_def total_of_def)
  have np: "?n \<noteq> ptr" using assms(6,11) by auto
  have f2: "free_list ?s2 ms"
    using join_next_list [OF f1 h] assms(13) nx same np by (auto simp: ms_def set_used_def)
  have sub: "set ms = insert ptr (set ns) - (if ?c then {?n} else {})" using d np by (auto simp: ms_def)
  let ?P = "\<lambda>n. block_next ?s2 (payload_to_header n) = h \<and> h_used ?s2 (payload_to_header n) = 0 \<and> payload_to_header n \<noteq> h"
  have keep: "cells ?s2 (payload_to_header n) = cells s (payload_to_header n)" if "n \<in> set ns" for n
  proof -
    have out: "payload_to_header n \<notin> set (node_cells (ptr # ns))"
      using header_apart [OF assms(4), of n] that by simp
    have ne: "payload_to_header n \<noteq> h" using assms(4,6) block_cells_mem [OF that] by auto
    have "cells ?s1 (payload_to_header n) = cells ?s0 (payload_to_header n)"
      using free_list_insert_frame [OF f0 out] .
    then have "cells ?s1 (payload_to_header n) = cells s (payload_to_header n)"
      using ne by (simp add: set_used_def)
    moreover have "cells (free_list_remove ?n ?s1) (payload_to_header n) = cells ?s1 (payload_to_header n)" if ?c
      using free_list_remove_frame [OF f1 _ out] assms(13) that by simp
    ultimately show ?thesis
      using nx same ne by (simp add: join_next_def Let_def set_size_def set_used_def)
  qed
  have fp: "find_prev ?s2 h (FREE_LIST ?s2) = Some (case List.find ?P ms of None \<Rightarrow> 0 | Some n \<Rightarrow> payload_to_header n)"
    using f2 assms(5) sub by (intro find_prev_first) (auto simp: free_list_def)
  have hp: "header_to_payload h = ptr" "ptr \<in> set ms" using assms(6) sub np by auto
  have dm: "distinct (node_cells ms)" "distinct ms" using f2 node_cells_distinct by (auto simp: free_list_def)
  have run: "kfree ptr s = map_option (\<lambda>p. join_prev h p ?s2) (find_prev ?s2 h (FREE_LIST ?s2))"
    using assms(1,2,6-9) by (auto simp: kfree_def Let_def)
  show ?thesis
  proof (cases "List.find ?P ms")
    case None
    then have "kfree ptr s = Some ?s2" using run fp by (simp add: join_prev_def)
    then show ?thesis using f2 sub by (intro exI [of _ ?s2] exI [of _ ms] exI [of _ 0]) simp
  next
    case (Some n)
    let ?q = "payload_to_header n"
    have n: "n \<in> set ms" "?P n" using Some by (auto simp: find_Some_iff)
    then have ns: "n \<in> set ns" "n \<noteq> ptr" using sub assms(6) by auto
    have "?q \<notin> set (node_cells ms)" using header_apart [OF assms(4), of n] ns sub
      by (auto simp: node_cells_def split: if_splits)
    then have "free_list (join_prev h ?q ?s2) (n # remove1 n (remove1 ptr ms))"
      using join_prev_list [OF f2, of h ?q] hp n assms(5) ns by simp
    moreover have "set (n # remove1 n (remove1 ptr ms)) = set ns - (if ?c then {?n} else {})"
      using dm(2) sub n(1) ns np d by auto
    moreover have "block_next s ?q = h" using n(2) keep [OF ns(1)]
      by (simp add: block_next_def total_of_def h_size_def)
    moreover have "?c \<longrightarrow> n \<noteq> ?n" using n(1) sub by auto
    ultimately show ?thesis using run fp Some assms(5) ns
      by (intro exI [of _ "join_prev h ?q ?s2"] exI [of _ "n # remove1 n (remove1 ptr ms)"] exI [of _ ?q]) simp
  qed
qed

section \<open>Witnesses\<close>

text \<open>A heap of one free block of 4096 bytes, and one with two free blocks and a used one between
  them.\<close>

definition demo_heap :: heap where
  "demo_heap = \<lparr>HEAP_READY = True, HEAP_START = HEAP_BASE, HEAP_END = HEAP_BASE, FREE_LIST = 0,
     cells = (\<lambda>_. 0), vm = demo_space, KERNEL_PML4 = 0x100000\<rparr>"

definition two_blocks :: heap where
  "two_blocks =
     (let s = demo_heap\<lparr>HEAP_END := HEAP_BASE + 4096\<rparr>;
          s = free_list_insert (HEAP_BASE + 8) (set_header HEAP_BASE 32 s)
      in free_list_insert (HEAP_BASE + 808) (set_header (HEAP_BASE + 800) 400 s))"

lemma two_blocks_list:
  "free_list two_blocks [HEAP_BASE + 808, HEAP_BASE + 8]" "HEAP_READY two_blocks"
  "distinct (block_cells [HEAP_BASE + 808, HEAP_BASE + 8])"
  by code_simp+

theorem free_list_refines_witness:
  "free_list (free_list_remove (HEAP_BASE + 8) two_blocks) [HEAP_BASE + 808]"
  using free_list_refines [OF two_blocks_list(1), of "HEAP_BASE + 8"] by simp

theorem kmalloc_first_fit_witness:
  "\<exists>s'. kmalloc 100 two_blocks = Some (HEAP_BASE + 808, s') \<and>
     free_list s' [HEAP_BASE + 808 + block_total 100, HEAP_BASE + 8]"
proof -
  have "List.find (\<lambda>n. block_total 100 \<le> total_of two_blocks (payload_to_header n)) [HEAP_BASE + 808, HEAP_BASE + 8]
      = Some (HEAP_BASE + 808)" by code_simp
  moreover have "splits two_blocks 100 (HEAP_BASE + 808)" by code_simp
  moreover have "HEAP_BASE + 808 + block_total 100 \<noteq> 0 \<and>
      distinct (block_cells ((HEAP_BASE + 808 + block_total 100) # [HEAP_BASE + 808, HEAP_BASE + 8]))" by code_simp
  ultimately show ?thesis
    using kmalloc_first_fit [OF two_blocks_list(2) _ two_blocks_list(1,3), of 100 "HEAP_BASE + 808"] by auto
qed


theorem split_overruns_witness:
  "\<exists>s'. kmalloc 100 two_blocks = Some (HEAP_BASE + 808, s') \<and>
     block_next s' (HEAP_BASE + 920) = HEAP_BASE + 1216 \<and> block_next two_blocks (HEAP_BASE + 800) = HEAP_BASE + 1208"
proof -
  have "List.find (\<lambda>n. block_total 100 \<le> total_of two_blocks (payload_to_header n)) [HEAP_BASE + 808, HEAP_BASE + 8]
      = Some (HEAP_BASE + 808)" by code_simp
  moreover have "splits two_blocks 100 (HEAP_BASE + 808)" by code_simp
  moreover have "HEAP_BASE + 808 + block_total 100 \<noteq> 0"
      "distinct (block_cells ((HEAP_BASE + 808 + block_total 100) # [HEAP_BASE + 808, HEAP_BASE + 8]))" by code_simp+
  moreover have "payload_to_header (HEAP_BASE + 808 + block_total 100) = HEAP_BASE + 920"
    "payload_to_header (HEAP_BASE + 808) = HEAP_BASE + 800"
    "block_next two_blocks (HEAP_BASE + 800) = HEAP_BASE + 1208" by code_simp+
  ultimately show ?thesis
    using split_overruns [OF two_blocks_list(2) _ two_blocks_list(1,3), of 100 "HEAP_BASE + 808"] by auto
qed

theorem grow_heap_maps_one_page_witness:
  "let (b, s') = grow_heap 1 demo_heap
   in b \<and> HEAP_END s' = HEAP_BASE + 3 * 4096 \<and> virt_to_phys (vm s') 0x100000 (HEAP_BASE + 4096) = 0"
proof -
  obtain b s' where g: "grow_heap 1 demo_heap = (b, s')" by force
  have "fst (grow_heap 1 demo_heap) \<and> HEAP_END (snd (grow_heap 1 demo_heap)) = HEAP_BASE + 3 * 4096" by code_simp
  then have b: "b" "HEAP_END s' = HEAP_BASE + 3 * 4096" using g by simp_all
  have "\<not> same_page HEAP_BASE (HEAP_BASE + 4096)" by code_simp
  moreover have "virt_to_phys demo_space 0x100000 (HEAP_BASE + 4096) = 0" by code_simp
  ultimately have "virt_to_phys (vm s') 0x100000 (HEAP_BASE + 4096) = 0"
    using grow_heap_maps_one_page [OF _ _ _ _ g, of "HEAP_BASE + 4096"] demo_space_ok
    by (simp add: demo_heap_def heap_consts)
  then show ?thesis using b g by simp
qed

definition three_blocks :: heap where
  "three_blocks = set_used (HEAP_BASE + 40) 1 (set_header (HEAP_BASE + 40) 752 two_blocks)"

theorem kfree_correct_witness:
  "\<exists>s' ms q. kfree (HEAP_BASE + 48) three_blocks = Some s' \<and> free_list s' ms \<and>
     (q = 0 \<or> block_next three_blocks q = HEAP_BASE + 40)"
proof -
  let ?l = "[HEAP_BASE + 808, HEAP_BASE + 8]" and ?p = "HEAP_BASE + 48"
  have "HEAP_READY three_blocks" "?p \<noteq> 0" "free_list three_blocks ?l" "distinct (block_cells (?p # ?l))"
    "HEAP_BASE + 40 = payload_to_header ?p" "h_used three_blocks (HEAP_BASE + 40) \<noteq> 0"
    "HEAP_START three_blocks \<le> HEAP_BASE + 40" "HEAP_BASE + 40 < HEAP_END three_blocks"
    "HEAP_BASE + 800 = block_next three_blocks (HEAP_BASE + 40)" "HEAP_BASE + 800 \<noteq> HEAP_BASE + 40"
    "HEAP_BASE + 800 \<notin> set (node_cells (?p # ?l))" "header_to_payload (HEAP_BASE + 800) \<in> set ?l"
    by code_simp+
  moreover have "payload_to_header n \<noteq> 0" if "n \<in> set (?p # ?l)" for n
    using that by (auto simp: payload_to_header_def HDR_def HEAP_BASE_def)
  ultimately show ?thesis using kfree_correct [of three_blocks ?p ?l "HEAP_BASE + 40" "HEAP_BASE + 800"] by blast
qed

end
