(* ===== verification/Queue_Interface.thy ===== *)
theory Queue_Interface
  imports Prelude
begin

text \<open>
  The contract of a bounded first-in first-out buffer, as the AF_UNIX streams
  (\<open>Unix_Sockets\<close>) and the input event rings (\<open>Event_Ring\<close>) provide it: \<open>push\<close> accepts as
  much as fits and says how much that was, \<open>pop\<close> takes at most the requested number from the
  front. \<open>view\<close> is the abstract content. What a client relies on, that the elements come out
  exactly in the order in which they were accepted, is proved once here for every
  interleaving of the two operations.
\<close>

datatype 'a qop = Push "'a list" | Pop nat

locale bounded_queue =
  fixes invar :: "'q \<Rightarrow> bool"
    and view :: "'q \<Rightarrow> 'a list"
    and push :: "'a list \<Rightarrow> 'q \<Rightarrow> nat \<times> 'q"
    and pop :: "nat \<Rightarrow> 'q \<Rightarrow> 'a list \<times> 'q"
    and cap :: nat
  assumes push_law: "invar q \<Longrightarrow> push xs q = (n, q') \<Longrightarrow>
      n = min (length xs) (cap - length (view q)) \<and> view q' = view q @ take n xs \<and> invar q'"
    and pop_law: "invar q \<Longrightarrow> pop k q = (ys, q') \<Longrightarrow>
      ys = take k (view q) \<and> view q' = drop k (view q) \<and> invar q'"
    and view_bound: "invar q \<Longrightarrow> length (view q) \<le> cap"
begin

text \<open>Running a sequence of operations; the results are what was accepted and what came
  out.\<close>

fun run :: "'a qop list \<Rightarrow> 'q \<Rightarrow> 'a list \<times> 'a list \<times> 'q" where
  "run [] q = ([], [], q)"
| "run (Push xs # ops) q =
     (let (n, q1) = push xs q; (acc, out, q2) = run ops q1 in (take n xs @ acc, out, q2))"
| "run (Pop k # ops) q =
     (let (ys, q1) = pop k q; (acc, out, q2) = run ops q1 in (acc, ys @ out, q2))"

theorem run_fifo:
  "invar q \<Longrightarrow> run ops q = (acc, out, q') \<Longrightarrow> invar q' \<and> out @ view q' = view q @ acc"
proof (induction ops q arbitrary: acc out q' rule: run.induct)
  case (2 xs ops q)
  obtain n q1 where p: "push xs q = (n, q1)" by force
  obtain acc1 out1 q2 where r: "run ops q1 = (acc1, out1, q2)" by (metis surj_pair)
  have l: "view q1 = view q @ take n xs" "invar q1" using push_law [OF 2(2) p] by auto
  show ?case using 2(1) [OF p [symmetric] refl l(2) r] 2(3) p r l by auto
next
  case (3 k ops q)
  obtain ys q1 where p: "pop k q = (ys, q1)" by force
  obtain acc1 out1 q2 where r: "run ops q1 = (acc1, out1, q2)" by (metis surj_pair)
  have l: "ys = take k (view q)" "view q1 = drop k (view q)" "invar q1" using pop_law [OF 3(2) p] by auto
  have "out1 @ view q2 = view q1 @ acc1" "invar q2" using 3(1) [OF p [symmetric] refl l(3) r] by auto
  moreover have "acc = acc1" "out = ys @ out1" "q' = q2" using 3(3) p r by auto
  ultimately show ?case using l by (metis append.assoc append_take_drop_id)
qed simp

lemma push_fits:
  assumes "invar q" and "length (view q) + length xs \<le> cap" and "push xs q = (n, q')"
  shows "n = length xs" and "view q' = view q @ xs"
  using push_law [OF assms(1,3)] assms(2) by auto

text \<open>What fits can be read back in one piece.\<close>

lemma push_pop:
  assumes "invar q" and "view q = []" and "length xs \<le> cap" and "push xs q = (n, q')"
    and "length xs \<le> k" and "pop k q' = (ys, q'')"
  shows "ys = xs \<and> view q'' = []"
  using push_law [OF assms(1,4)] pop_law [of q' k ys q''] assms by auto

end

section \<open>Circular buffers\<close>

text \<open>The content of a circular buffer that starts at \<open>head\<close> and has \<open>n\<close> elements.\<close>

definition ring_view :: "'a list \<Rightarrow> nat \<Rightarrow> nat \<Rightarrow> 'a list" where
  "ring_view buf head n = map (\<lambda>i. buf ! ((head + i) mod length buf)) [0..<n]"

lemma length_ring_view [simp]: "length (ring_view buf h n) = n"
  by (simp add: ring_view_def)

lemma nth_ring_view [simp]: "i < n \<Longrightarrow> ring_view buf h n ! i = buf ! ((h + i) mod length buf)"
  by (simp add: ring_view_def)

lemma ring_mod_inj:
  fixes i j h N :: nat
  assumes "(h + i) mod N = (h + j) mod N" and "i < N" and "j < N"
  shows "i = j"
  using assms
proof (induction i j rule: linorder_wlog)
  case (le i j)
  then have "N dvd (h + j) - (h + i)"
    using mod_eq_dvd_iff_nat [of "h + i" "h + j" N] by simp
  then have "N dvd j - i" by simp
  then show ?case using le by (auto dest: dvd_imp_le)
qed simp

lemma ring_view_snoc:
  assumes "n < length buf"
  shows "ring_view (buf[(h + n) mod length buf := x]) h (Suc n) = ring_view buf h n @ [x]"
proof (rule nth_equalityI)
  fix i assume i: "i < length (ring_view (buf[(h + n) mod length buf := x]) h (Suc n))"
  have pos: "(h + n) mod length buf < length buf" using assms by (intro mod_less_divisor) auto
  show "ring_view (buf[(h + n) mod length buf := x]) h (Suc n) ! i = (ring_view buf h n @ [x]) ! i"
  proof (cases "i = n")
    case True
    then show ?thesis using pos by (simp add: nth_append)
  next
    case False
    then have "i < n" using i by simp
    moreover then have "(h + n) mod length buf \<noteq> (h + i) mod length buf"
      using ring_mod_inj [of h n "length buf" i] assms by auto
    ultimately show ?thesis by (simp add: nth_append)
  qed
qed simp

lemma ring_view_drop:
  assumes "k \<le> n"
  shows "ring_view buf ((h + k) mod length buf) (n - k) = drop k (ring_view buf h n)"
  by (rule nth_equalityI) (use assms in \<open>auto simp: mod_add_left_eq add.assoc\<close>)

lemma ring_view_take: "k \<le> n \<Longrightarrow> take k (ring_view buf h n) = ring_view buf h k"
  by (rule nth_equalityI) auto

text \<open>Writing a block of elements one after the other behind the content.\<close>

lemma ring_write_block:
  assumes "n + m \<le> length buf" and "m \<le> length xs"
  shows "length (fold (\<lambda>i b. b[(h + n + i) mod length buf := xs ! i]) [0..<m] buf) = length buf"
    and "ring_view (fold (\<lambda>i b. b[(h + n + i) mod length buf := xs ! i]) [0..<m] buf) h (n + m) =
      ring_view buf h n @ take m xs"
proof -
  let ?w = "\<lambda>i b. b[(h + n + i) mod length buf := xs ! i]"
  have "length (fold ?w [0..<m] buf) = length buf \<and>
    ring_view (fold ?w [0..<m] buf) h (n + m) = ring_view buf h n @ take m xs"
    using assms
  proof (induction m)
    case (Suc m)
    let ?b = "fold ?w [0..<m] buf"
    have IH: "length ?b = length buf" "ring_view ?b h (n + m) = ring_view buf h n @ take m xs"
      using Suc by auto
    have "ring_view (?b[(h + (n + m)) mod length ?b := xs ! m]) h (Suc (n + m)) =
        ring_view ?b h (n + m) @ [xs ! m]"
      by (rule ring_view_snoc) (use IH Suc.prems in simp)
    then show ?case using IH Suc.prems by (simp add: add.assoc take_Suc_conv_app_nth)
  qed simp
  then show "length (fold ?w [0..<m] buf) = length buf"
    and "ring_view (fold ?w [0..<m] buf) h (n + m) = ring_view buf h n @ take m xs"
    by auto
qed

end
