(* ===== verification/Unix_Sockets.thy ===== *)
theory Unix_Sockets
  imports Queue_Interface
begin

text \<open>
  The AF_UNIX socket pairs of \<open>kernel/src/unix.rs\<close>: a table of eight pairs, each with one
  circular buffer of 2048 bytes per direction. The table is passed explicitly; an operation
  returns it updated. A handle is the pair's index shifted left by one, with the low bit
  naming the end. The buffers are interpreted as \<open>bounded_queue\<close>, and the stream property of
  the handles is proved for every interleaving of calls.
\<close>

section \<open>One direction\<close>

definition MAX_PAIRS :: nat where [simp]: "MAX_PAIRS = 8"
definition RING :: nat where "RING = 2048"

record one_way =
  ow_buf :: bytes
  ow_head :: nat
  ow_len :: nat

definition one_way_empty :: one_way where
  "one_way_empty = \<lparr>ow_buf = replicate RING 0, ow_head = 0, ow_len = 0\<rparr>"

definition ow_push :: "bytes \<Rightarrow> one_way \<Rightarrow> nat \<times> one_way" where
  "ow_push data q =
     (let free = RING - ow_len q;
          n = min (length data) free;
          b = fold (\<lambda>i b. b[(ow_head q + ow_len q + i) mod RING := data ! i]) [0..<n] (ow_buf q)
      in (n, q\<lparr>ow_buf := b, ow_len := ow_len q + n\<rparr>))"

text \<open>\<open>pop\<close> fills the front of the caller's slice; the slice is returned with the count.\<close>

definition ow_pop :: "bytes \<Rightarrow> one_way \<Rightarrow> nat \<times> bytes \<times> one_way" where
  "ow_pop out q =
     (let n = min (length out) (ow_len q);
          out' = fold (\<lambda>i o'. o'[i := ow_buf q ! ((ow_head q + i) mod RING)]) [0..<n] out
      in (n, out', q\<lparr>ow_head := (ow_head q + n) mod RING, ow_len := ow_len q - n\<rparr>))"

section \<open>The table of pairs\<close>

record pair =
  used :: bool
  a_to_b :: one_way
  b_to_a :: one_way
  a_open :: bool
  b_open :: bool

definition pair_empty :: pair where
  "pair_empty = \<lparr>used = False, a_to_b = one_way_empty, b_to_a = one_way_empty,
     a_open = False, b_open = False\<rparr>"

definition PAIRS_init :: "pair list" where
  "PAIRS_init = replicate MAX_PAIRS pair_empty"

definition split_handle :: "pair list \<Rightarrow> nat \<Rightarrow> (nat \<times> nat) option" where
  "split_handle ps h =
     (let p = h div 2; e = h mod 2 in
      if p \<ge> MAX_PAIRS then None
      else if \<not> used (ps ! p) then None
      else if (e = 0 \<and> \<not> a_open (ps ! p)) \<or> (e = 1 \<and> \<not> b_open (ps ! p)) then None
      else Some (p, e))"

definition socketpair :: "pair list \<Rightarrow> (nat \<times> nat) option \<times> pair list" where
  "socketpair ps =
     (case find_idx MAX_PAIRS (\<lambda>i. \<not> used (ps ! i)) of
        Some i \<Rightarrow> (Some (2 * i, 2 * i + 1),
          ps[i := pair_empty\<lparr>used := True, a_open := True, b_open := True\<rparr>])
      | None \<Rightarrow> (None, ps))"

definition send :: "nat \<Rightarrow> bytes \<Rightarrow> pair list \<Rightarrow> nat \<times> pair list" where
  "send h data ps =
     (case split_handle ps h of
        None \<Rightarrow> (0, ps)
      | Some (p, e) \<Rightarrow>
          if e = 0 then
            (let (n, q) = ow_push data (a_to_b (ps ! p)) in (n, ps[p := (ps ! p)\<lparr>a_to_b := q\<rparr>]))
          else
            (let (n, q) = ow_push data (b_to_a (ps ! p)) in (n, ps[p := (ps ! p)\<lparr>b_to_a := q\<rparr>])))"

definition recv :: "nat \<Rightarrow> bytes \<Rightarrow> pair list \<Rightarrow> nat \<times> bytes \<times> pair list" where
  "recv h out ps =
     (case split_handle ps h of
        None \<Rightarrow> (0, out, ps)
      | Some (p, e) \<Rightarrow>
          if e = 0 then
            (let (n, o', q) = ow_pop out (b_to_a (ps ! p)) in (n, o', ps[p := (ps ! p)\<lparr>b_to_a := q\<rparr>]))
          else
            (let (n, o', q) = ow_pop out (a_to_b (ps ! p)) in (n, o', ps[p := (ps ! p)\<lparr>a_to_b := q\<rparr>])))"

definition close :: "nat \<Rightarrow> pair list \<Rightarrow> pair list" where
  "close h ps =
     (let p = h div 2; e = h mod 2 in
      if p \<ge> MAX_PAIRS \<or> \<not> used (ps ! p) then ps
      else
        (let pr = (if e = 0 then (ps ! p)\<lparr>a_open := False\<rparr> else (ps ! p)\<lparr>b_open := False\<rparr>)
         in ps[p := (if \<not> a_open pr \<and> \<not> b_open pr then pair_empty else pr)]))"

text \<open>Byte string literals of the self test.\<close>

definition ascii :: "string \<Rightarrow> bytes" where
  "ascii s = map (\<lambda>c. of_nat (of_char c)) s"

definition self_test :: "pair list \<Rightarrow> u32 \<times> pair list" where
  "self_test ps0 =
    (case socketpair ps0 of
      (None, ps) \<Rightarrow> (1, ps)
    | (Some (a, b), ps) \<Rightarrow>
      let msg = ascii ''unix-socket-test-123'';
          (n1, ps) = send a msg ps in
      if n1 \<noteq> length msg then (2, ps) else
      let (n2, buf, ps) = recv b (replicate 32 0) ps in
      if n2 \<noteq> length msg then (4, ps) else
      if take (length msg) buf \<noteq> msg then (8, ps) else
      let (n3, ps) = send b (ascii ''hello world'') ps in
      if n3 \<noteq> 11 then (16, ps) else
      let (n4, p1, ps) = recv a (replicate 5 0) ps in
      if n4 \<noteq> 5 \<or> p1 \<noteq> ascii ''hello'' then (32, ps) else
      let (n5, p2, ps) = recv a (replicate 8 0) ps in
      if n5 \<noteq> 6 \<or> take 6 p2 \<noteq> ascii '' world'' then (64, ps) else
      let (n6, p2, ps) = recv a p2 ps in
      if n6 \<noteq> 0 then (128, ps) else
      let ps = close a ps; ps = close b ps;
          (n7, ps) = send a (ascii ''x'') ps in
      if n7 \<noteq> 0 then (256, ps) else
      let (n8, buf, ps) = recv b buf ps in
      if n8 \<noteq> 0 then (256, ps) else (0, ps))"

section \<open>The buffers are bounded queues\<close>

definition ow_inv :: "one_way \<Rightarrow> bool" where
  "ow_inv q \<longleftrightarrow> length (ow_buf q) = RING \<and> ow_len q \<le> RING \<and> ow_head q < RING"

definition ow_view :: "one_way \<Rightarrow> bytes" where
  "ow_view q = ring_view (ow_buf q) (ow_head q) (ow_len q)"

text \<open>The queue view of \<open>pop\<close>: the bytes that reach a caller who offers a slice of \<open>k\<close>
  bytes.\<close>

definition ow_read :: "nat \<Rightarrow> one_way \<Rightarrow> bytes \<times> one_way" where
  "ow_read k q = (let (n, o', q') = ow_pop (replicate k 0) q in (take n o', q'))"

lemma one_way_empty_inv [simp]: "ow_inv one_way_empty" "ow_view one_way_empty = []"
  by (simp_all add: ow_inv_def one_way_empty_def ow_view_def ring_view_def RING_def)

lemma ow_push_spec:
  assumes "ow_inv q" and "ow_push xs q = (n, q')"
  shows "n = min (length xs) (RING - length (ow_view q))" and "ow_view q' = ow_view q @ take n xs"
    and "ow_inv q'"
proof -
  let ?n = "min (length xs) (RING - ow_len q)"
  have len: "length (ow_buf q) = RING" using assms(1) by (simp add: ow_inv_def)
  have n: "n = ?n" and q': "q' = q\<lparr>ow_buf := fold (\<lambda>i b. b[(ow_head q + ow_len q + i) mod length (ow_buf q) := xs ! i])
      [0..<?n] (ow_buf q), ow_len := ow_len q + ?n\<rparr>"
    using assms(2) len by (auto simp: ow_push_def Let_def)
  have fit: "ow_len q + ?n \<le> length (ow_buf q)" "?n \<le> length xs"
    using assms(1) by (auto simp: ow_inv_def)
  note w = ring_write_block [OF fit, of "ow_head q"]
  show "n = min (length xs) (RING - length (ow_view q))" using n by (simp add: ow_view_def)
  show "ow_view q' = ow_view q @ take n xs" unfolding n q' ow_view_def using w(2) by simp
  show "ow_inv q'" unfolding q' using w(1) assms(1) by (auto simp: ow_inv_def)
qed

lemma fill_front:
  assumes "n \<le> length out"
  shows "fold (\<lambda>i o'. o'[i := f i]) [0..<n] out = map f [0..<n] @ drop n out"
  using assms
proof (induction n)
  case (Suc n)
  then have "fold (\<lambda>i o'. o'[i := f i]) [0..<Suc n] out = (map f [0..<n] @ drop n out)[n := f n]" by simp
  also have "drop n out = out ! n # drop (Suc n) out" using Suc.prems by (simp add: Cons_nth_drop_Suc)
  finally show ?case by (simp add: list_update_append)
qed simp

lemma ow_pop_spec:
  assumes "ow_inv q" and "ow_pop out q = (n, out', q')"
  shows "n = min (length out) (length (ow_view q))" and "out' = take n (ow_view q) @ drop n out"
    and "ow_view q' = drop n (ow_view q)" and "ow_inv q'"
proof -
  let ?n = "min (length out) (ow_len q)"
  have len: "length (ow_buf q) = RING" using assms(1) by (simp add: ow_inv_def)
  have n: "n = ?n" and q': "q' = q\<lparr>ow_head := (ow_head q + ?n) mod length (ow_buf q), ow_len := ow_len q - ?n\<rparr>"
    and o': "out' = map (\<lambda>i. ow_buf q ! ((ow_head q + i) mod length (ow_buf q))) [0..<?n] @ drop ?n out"
    using assms(2) len by (auto simp: ow_pop_def Let_def fill_front)
  show "n = min (length out) (length (ow_view q))" using n by (simp add: ow_view_def)
  show "out' = take n (ow_view q) @ drop n out"
    unfolding n o' ow_view_def by (simp add: ring_view_take) (simp add: ring_view_def)
  show "ow_view q' = drop n (ow_view q)"
    unfolding n q' ow_view_def using ring_view_drop [of ?n "ow_len q" "ow_buf q" "ow_head q"] by simp
  show "ow_inv q'" unfolding q' using assms(1) by (auto simp: ow_inv_def RING_def)
qed

interpretation ow: bounded_queue ow_inv ow_view ow_push ow_read RING
proof unfold_locales
  fix q xs n q' assume "ow_inv q" "ow_push xs q = (n, q')"
  then show "n = min (length xs) (RING - length (ow_view q)) \<and> ow_view q' = ow_view q @ take n xs \<and> ow_inv q'"
    using ow_push_spec by blast
next
  fix q k ys q' assume inv: "ow_inv q" and r: "ow_read k q = (ys, q')"
  obtain n o' q1 where p: "ow_pop (replicate k 0) q = (n, o', q1)" by (metis surj_pair)
  note P = ow_pop_spec [OF inv p]
  show "ys = take k (ow_view q) \<and> ow_view q' = drop k (ow_view q) \<and> ow_inv q'"
    using P r p by (auto simp: ow_read_def min_def)
qed (simp add: ow_inv_def ow_view_def)

section \<open>The table invariant\<close>

text \<open>A slot is in use exactly while an end is open, and a free slot has empty buffers.\<close>

definition pair_ok :: "pair \<Rightarrow> bool" where
  "pair_ok p \<longleftrightarrow> ow_inv (a_to_b p) \<and> ow_inv (b_to_a p) \<and> (used p \<longleftrightarrow> a_open p \<or> b_open p)"

definition pairs_ok :: "pair list \<Rightarrow> bool" where
  "pairs_ok ps \<longleftrightarrow> length ps = MAX_PAIRS \<and> list_all pair_ok ps"

lemma pair_empty_ok [simp]: "pair_ok pair_empty"
  by (simp add: pair_ok_def pair_empty_def)

lemma pairs_ok_nth: "pairs_ok ps \<Longrightarrow> i < MAX_PAIRS \<Longrightarrow> pair_ok (ps ! i)"
  by (simp add: pairs_ok_def list_all_length)

lemma pairs_ok_update: "pairs_ok ps \<Longrightarrow> pair_ok p \<Longrightarrow> pairs_ok (ps[i := p])"
  by (cases "i < length ps") (auto simp: pairs_ok_def list_all_length nth_list_update)

section \<open>Sequences of calls\<close>

datatype call = Pair | Send nat bytes | Recv nat nat | Close nat

text \<open>A call returns the bytes it moved: those accepted by \<open>send\<close>, those delivered by
  \<open>recv\<close>.\<close>

fun exec :: "call \<Rightarrow> pair list \<Rightarrow> bytes \<times> pair list" where
  "exec Pair ps = ([], snd (socketpair ps))"
| "exec (Send h data) ps = (let (n, ps') = send h data ps in (take n data, ps'))"
| "exec (Recv h k) ps = (let (n, o', ps') = recv h (replicate k 0) ps in (take n o', ps'))"
| "exec (Close h) ps = ([], close h ps)"

fun exec_all :: "call list \<Rightarrow> pair list \<Rightarrow> pair list" where
  "exec_all [] ps = ps"
| "exec_all (c # cs) ps = exec_all cs (snd (exec c ps))"

text \<open>All bytes accepted on handle \<open>h\<close>, and all bytes delivered to it.\<close>

fun sent :: "nat \<Rightarrow> call list \<Rightarrow> pair list \<Rightarrow> bytes" where
  "sent h [] ps = []"
| "sent h (c # cs) ps =
     (case c of Send h' _ \<Rightarrow> if h' = h then fst (exec c ps) else [] | _ \<Rightarrow> []) @
     sent h cs (snd (exec c ps))"

fun received :: "nat \<Rightarrow> call list \<Rightarrow> pair list \<Rightarrow> bytes" where
  "received h [] ps = []"
| "received h (c # cs) ps =
     (case c of Recv h' _ \<Rightarrow> if h' = h then fst (exec c ps) else [] | _ \<Rightarrow> []) @
     received h cs (snd (exec c ps))"

definition peer :: "nat \<Rightarrow> nat" where
  "peer h = (if even h then h + 1 else h - 1)"

text \<open>The bytes under way from handle \<open>h\<close> to its peer.\<close>

definition pending :: "nat \<Rightarrow> pair list \<Rightarrow> bytes" where
  "pending h ps = ow_view (if even h then a_to_b (ps ! (h div 2)) else b_to_a (ps ! (h div 2)))"

definition is_open :: "nat \<Rightarrow> pair list \<Rightarrow> bool" where
  "is_open h ps \<longleftrightarrow> h div 2 < MAX_PAIRS \<and> used (ps ! (h div 2)) \<and>
     (if even h then a_open (ps ! (h div 2)) else b_open (ps ! (h div 2)))"

lemma peer_simps [simp]: "peer h div 2 = h div 2" "even (peer h) \<longleftrightarrow> odd h" "peer (peer h) = h" "peer h \<noteq> h"
  "h \<noteq> peer h"
  by (auto simp: peer_def elim!: oddE evenE)

lemma peer_mod: "even h \<Longrightarrow> peer h mod 2 = Suc 0" "odd h \<Longrightarrow> peer h mod 2 = 0" "odd h \<Longrightarrow> h mod 2 = Suc 0"
  by (auto simp: peer_def elim!: oddE evenE)

lemma split_handle_open: "split_handle ps h = (if is_open h ps then Some (h div 2, h mod 2) else None)"
  by (auto simp: split_handle_def is_open_def Let_def even_iff_mod_2_eq_zero)

lemma same_end: "h div 2 = h' div 2 \<Longrightarrow> even h = even h' \<Longrightarrow> h = (h' :: nat)"
  by (metis even_two_times_div_two odd_two_times_div_two_succ)

lemma send_spec:
  assumes ok: "pairs_ok ps" and run: "send h data ps = (n, ps')"
  shows "pairs_ok ps'" and "is_open h' ps' = is_open h' ps"
    and "pending h' ps' = pending h' ps @ (if h' = h then take n data else [])"
    and "is_open h ps \<Longrightarrow> n = min (length data) (RING - length (pending h ps))"
    and "\<not> is_open h ps \<Longrightarrow> n = 0 \<and> ps' = ps"
proof -
  let ?i = "h div 2"
  have "pairs_ok ps' \<and> is_open h' ps' = is_open h' ps \<and>
    pending h' ps' = pending h' ps @ (if h' = h then take n data else []) \<and>
    (is_open h ps \<longrightarrow> n = min (length data) (RING - length (pending h ps))) \<and>
    (\<not> is_open h ps \<longrightarrow> n = 0 \<and> ps' = ps)"
  proof (cases "is_open h ps")
    case True
    then have i: "?i < MAX_PAIRS" "?i < length ps" using ok by (auto simp: is_open_def pairs_ok_def)
    note pk = pairs_ok_nth [OF ok i(1)]
    obtain n1 q where q: "ow_push data (if even h then a_to_b (ps ! ?i) else b_to_a (ps ! ?i)) = (n1, q)" by force
    have "ow_inv (if even h then a_to_b (ps ! ?i) else b_to_a (ps ! ?i))" using pk by (simp add: pair_ok_def)
    note S = ow_push_spec [OF this q]
    have r: "n = n1" "ps' = ps[?i := (if even h then (ps ! ?i)\<lparr>a_to_b := q\<rparr> else (ps ! ?i)\<lparr>b_to_a := q\<rparr>)]"
      using run True q by (auto simp: send_def split_handle_open even_iff_mod_2_eq_zero split: if_splits)
    have "pairs_ok ps'" unfolding r
      by (rule pairs_ok_update [OF ok]) (use pk S(3) in \<open>auto simp: pair_ok_def\<close>)
    moreover have "is_open h' ps' = is_open h' ps"
      unfolding r is_open_def using i by (auto simp: nth_list_update)
    moreover have "pending h' ps' = pending h' ps @ (if h' = h then take n data else [])"
    proof (cases "h' = h")
      case True
      then show ?thesis using i S(2) r by (auto simp: pending_def)
    next
      case False
      then have "h div 2 = h' div 2 \<Longrightarrow> even h \<noteq> even h'" using same_end by blast
      then show ?thesis using i r False by (auto simp: pending_def nth_list_update)
    qed
    ultimately show ?thesis using S(1) r True by (simp add: pending_def)
  next
    case False
    then show ?thesis using run ok by (simp add: send_def split_handle_open)
  qed
  then show "pairs_ok ps'" and "is_open h' ps' = is_open h' ps"
    and "pending h' ps' = pending h' ps @ (if h' = h then take n data else [])"
    and "is_open h ps \<Longrightarrow> n = min (length data) (RING - length (pending h ps))"
    and "\<not> is_open h ps \<Longrightarrow> n = 0 \<and> ps' = ps"
    by blast+
qed

lemma recv_spec:
  assumes ok: "pairs_ok ps" and run: "recv h out ps = (n, out', ps')"
  shows "pairs_ok ps'" and "is_open h' ps' = is_open h' ps"
    and "pending h' ps' = (if peer h' = h then drop n (pending h' ps) else pending h' ps)"
    and "out' = take n (pending (peer h) ps) @ drop n out"
    and "n = (if is_open h ps then min (length out) (length (pending (peer h) ps)) else 0)"
    and "\<not> is_open h ps \<Longrightarrow> ps' = ps"
proof -
  let ?i = "h div 2"
  have "pairs_ok ps' \<and> is_open h' ps' = is_open h' ps \<and>
    pending h' ps' = (if peer h' = h then drop n (pending h' ps) else pending h' ps) \<and>
    out' = take n (pending (peer h) ps) @ drop n out \<and>
    n = (if is_open h ps then min (length out) (length (pending (peer h) ps)) else 0) \<and>
    (\<not> is_open h ps \<longrightarrow> ps' = ps)"
  proof (cases "is_open h ps")
    case True
    then have i: "?i < MAX_PAIRS" "?i < length ps" using ok by (auto simp: is_open_def pairs_ok_def)
    note pk = pairs_ok_nth [OF ok i(1)]
    obtain n1 o1 q where q: "ow_pop out (if even h then b_to_a (ps ! ?i) else a_to_b (ps ! ?i)) = (n1, o1, q)"
      by (metis surj_pair)
    have "ow_inv (if even h then b_to_a (ps ! ?i) else a_to_b (ps ! ?i))" using pk by (simp add: pair_ok_def)
    note S = ow_pop_spec [OF this q]
    have r: "n = n1" "out' = o1"
      "ps' = ps[?i := (if even h then (ps ! ?i)\<lparr>b_to_a := q\<rparr> else (ps ! ?i)\<lparr>a_to_b := q\<rparr>)]"
      using run True q by (auto simp: recv_def split_handle_open even_iff_mod_2_eq_zero split: if_splits)
    have pe: "pending (peer h) ps = ow_view (if even h then b_to_a (ps ! ?i) else a_to_b (ps ! ?i))"
      by (simp add: pending_def)
    have "pairs_ok ps'" unfolding r
      by (rule pairs_ok_update [OF ok]) (use pk S(4) in \<open>auto simp: pair_ok_def\<close>)
    moreover have "is_open h' ps' = is_open h' ps"
      unfolding r is_open_def using i by (auto simp: nth_list_update)
    moreover have "pending h' ps' = (if peer h' = h then drop n (pending h' ps) else pending h' ps)"
    proof (cases "peer h' = h")
      case True
      then have "h' div 2 = ?i" "even h' \<longleftrightarrow> odd h" by auto
      then show ?thesis using i S(3) r True by (auto simp: pending_def)
    next
      case False
      then have "h div 2 = h' div 2 \<Longrightarrow> even h = even h'" using same_end [of h "peer h'"] by auto
      then show ?thesis using i r False by (auto simp: pending_def nth_list_update)
    qed
    ultimately show ?thesis using S(1,2) r True pe by simp
  next
    case False
    then show ?thesis using run ok by (simp add: recv_def split_handle_open)
  qed
  then show "pairs_ok ps'" and "is_open h' ps' = is_open h' ps"
    and "pending h' ps' = (if peer h' = h then drop n (pending h' ps) else pending h' ps)"
    and "out' = take n (pending (peer h) ps) @ drop n out"
    and "n = (if is_open h ps then min (length out) (length (pending (peer h) ps)) else 0)"
    and "\<not> is_open h ps \<Longrightarrow> ps' = ps"
    by blast+
qed

lemma socketpair_spec:
  assumes ok: "pairs_ok ps" and run: "socketpair ps = (r, ps')"
  shows "pairs_ok ps'"
    and "is_open h ps \<Longrightarrow> is_open h ps' \<and> pending h ps' = pending h ps"
    and "r = None \<longleftrightarrow> (\<forall>i<MAX_PAIRS. used (ps ! i))"
    and "r = Some (a, b) \<Longrightarrow> b = peer a \<and> \<not> is_open a ps \<and> \<not> is_open b ps \<and>
      is_open a ps' \<and> is_open b ps' \<and> pending a ps' = [] \<and> pending b ps' = []"
proof -
  have "pairs_ok ps' \<and> (is_open h ps \<longrightarrow> is_open h ps' \<and> pending h ps' = pending h ps) \<and>
    (r = None \<longleftrightarrow> (\<forall>i<MAX_PAIRS. used (ps ! i))) \<and>
    (r = Some (a, b) \<longrightarrow> b = peer a \<and> \<not> is_open a ps \<and> \<not> is_open b ps \<and>
      is_open a ps' \<and> is_open b ps' \<and> pending a ps' = [] \<and> pending b ps' = [])"
  proof (cases "find_idx MAX_PAIRS (\<lambda>i. \<not> used (ps ! i))")
    case None
    then have "r = None" "ps' = ps" using run by (auto simp: socketpair_def)
    moreover have "\<forall>i<MAX_PAIRS. used (ps ! i)" using None unfolding find_idx_None_iff by blast
    ultimately show ?thesis using ok by simp
  next
    case (Some i)
    let ?p = "pair_empty\<lparr>used := True, a_open := True, b_open := True\<rparr>"
    have i: "i < MAX_PAIRS" "\<not> used (ps ! i)" using find_idx_SomeD [OF Some] by auto
    have r: "r = Some (2 * i, 2 * i + 1)" "ps' = ps[i := ?p]"
      using Some run by (auto simp: socketpair_def)
    have "pair_ok ?p" by (simp add: pair_ok_def pair_empty_def)
    then have "pairs_ok ps'" unfolding r by (rule pairs_ok_update [OF ok])
    moreover have len: "i < length ps" using i ok by (simp add: pairs_ok_def)
    moreover have "is_open h ps' \<and> pending h ps' = pending h ps" if "is_open h ps"
    proof -
      have "h div 2 \<noteq> i" using that i by (auto simp: is_open_def)
      then have "ps' ! (h div 2) = ps ! (h div 2)" using r by simp
      then show ?thesis using that by (simp add: is_open_def pending_def)
    qed
    moreover have "\<not> is_open (2 * i) ps \<and> \<not> is_open (2 * i + 1) ps"
      using i by (simp add: is_open_def)
    moreover have "ps' ! i = ?p" using r len by simp
    then have "is_open (2 * i) ps' \<and> is_open (2 * i + 1) ps' \<and> pending (2 * i) ps' = [] \<and> pending (2 * i + 1) ps' = []"
      using i by (simp add: is_open_def pending_def pair_empty_def)
    moreover have "peer (2 * i) = 2 * i + 1" by (simp add: peer_def)
    ultimately show ?thesis using i r by auto
  qed
  then show "pairs_ok ps'" and "is_open h ps \<Longrightarrow> is_open h ps' \<and> pending h ps' = pending h ps"
    and "r = None \<longleftrightarrow> (\<forall>i<MAX_PAIRS. used (ps ! i))"
    and "r = Some (a, b) \<Longrightarrow> b = peer a \<and> \<not> is_open a ps \<and> \<not> is_open b ps \<and>
      is_open a ps' \<and> is_open b ps' \<and> pending a ps' = [] \<and> pending b ps' = []"
    by blast+
qed

lemma close_spec:
  assumes ok: "pairs_ok ps"
  shows "pairs_ok (close h ps)" and "\<not> is_open h (close h ps)"
    and "h' \<noteq> h \<Longrightarrow> is_open h' (close h ps) = is_open h' ps"
    and "h' \<noteq> h \<Longrightarrow> is_open h' ps \<Longrightarrow> pending h' (close h ps) = pending h' ps"
    and "h' \<noteq> h \<Longrightarrow> is_open h' ps \<Longrightarrow> pending (peer h') (close h ps) = pending (peer h') ps"
proof -
  let ?i = "h div 2"
  have "pairs_ok (close h ps) \<and> \<not> is_open h (close h ps) \<and>
    (h' \<noteq> h \<longrightarrow> is_open h' (close h ps) = is_open h' ps \<and>
      (is_open h' ps \<longrightarrow> pending h' (close h ps) = pending h' ps \<and>
        pending (peer h') (close h ps) = pending (peer h') ps))"
  proof (cases "?i < MAX_PAIRS \<and> used (ps ! ?i)")
    case True
    let ?q = "if even h then (ps ! ?i)\<lparr>a_open := False\<rparr> else (ps ! ?i)\<lparr>b_open := False\<rparr>"
    let ?p = "if \<not> a_open ?q \<and> \<not> b_open ?q then pair_empty else ?q"
    have r: "close h ps = ps[?i := ?p]"
      using True by (auto simp: close_def Let_def even_iff_mod_2_eq_zero)
    have i: "?i < length ps" "?i < 8" using True ok by (auto simp: pairs_ok_def)
    have pk: "pair_ok (ps ! ?i)" by (rule pairs_ok_nth [OF ok]) (use True in simp)
    then have "pair_ok ?p" by (auto simp: pair_ok_def pair_empty_def)
    then have "pairs_ok (close h ps)" unfolding r by (rule pairs_ok_update [OF ok])
    moreover have "\<not> is_open h (close h ps)"
      unfolding r is_open_def using i by (auto simp: pair_empty_def)
    moreover have "is_open h' (close h ps) = is_open h' ps \<and>
      (is_open h' ps \<longrightarrow> pending h' (close h ps) = pending h' ps \<and>
        pending (peer h') (close h ps) = pending (peer h') ps)" if "h' \<noteq> h"
    proof (cases "h' div 2 = ?i")
      case same: True
      then have "even h' \<longleftrightarrow> odd h" using that same_end by blast
      then show ?thesis unfolding r is_open_def pending_def using i same pk True
        by (auto simp: pair_empty_def pair_ok_def)
    next
      case False
      then show ?thesis unfolding r is_open_def pending_def by (simp add: nth_list_update)
    qed
    ultimately show ?thesis by blast
  next
    case False
    then have "close h ps = ps" by (auto simp: close_def)
    then show ?thesis using False ok by (auto simp: is_open_def)
  qed
  then show "pairs_ok (close h ps)" and "\<not> is_open h (close h ps)"
    and "h' \<noteq> h \<Longrightarrow> is_open h' (close h ps) = is_open h' ps"
    and "h' \<noteq> h \<Longrightarrow> is_open h' ps \<Longrightarrow> pending h' (close h ps) = pending h' ps"
    and "h' \<noteq> h \<Longrightarrow> is_open h' ps \<Longrightarrow> pending (peer h') (close h ps) = pending (peer h') ps"
    by blast+
qed

lemma exec_step:
  assumes ok: "pairs_ok ps" and run: "exec c ps = (bs, ps')"
    and op: "is_open h ps" "is_open (peer h) ps" and keep: "c \<noteq> Close h" "c \<noteq> Close (peer h)"
  shows "pairs_ok ps' \<and> is_open h ps' \<and> is_open (peer h) ps' \<and>
    (case c of Recv h' _ \<Rightarrow> if h' = peer h then bs else [] | _ \<Rightarrow> []) @ pending h ps' =
    pending h ps @ (case c of Send h' _ \<Rightarrow> if h' = h then bs else [] | _ \<Rightarrow> [])"
proof (cases c)
  case Pair
  obtain r where "socketpair ps = (r, ps')" using run Pair by (cases "socketpair ps") auto
  note S = socketpair_spec [OF ok this]
  show ?thesis using S(1) S(2) [OF op(1)] S(2) [OF op(2)] Pair by simp
next
  case (Send h' data)
  obtain n where s: "send h' data ps = (n, ps')" "bs = take n data" using run Send
    by (auto simp: case_prod_beta prod_eq_iff)
  note S = send_spec [OF ok s(1)]
  show ?thesis using S(1) S(2) [of h] S(2) [of "peer h"] S(3) [of h] op s(2) Send by auto
next
  case (Recv h' k)
  obtain n out where s: "recv h' (replicate k 0) ps = (n, out, ps')" "bs = take n out" using run Recv
    by (auto simp: case_prod_beta prod_eq_iff)
  note S = recv_spec [OF ok s(1)]
  have "bs = take n (pending h ps)" if "h' = peer h"
    using S(4,5) s(2) that op(2) by (simp add: min_def split: if_splits)
  then show ?thesis using S(1) S(2) [of h] S(2) [of "peer h"] S(3) [of h] op Recv by auto
next
  case (Close h')
  have ps': "ps' = close h' ps" using run Close by simp
  note S = close_spec [OF ok, where h = h', folded ps']
  show ?thesis using S(1) S(3,4) [of h] S(3,4) [of "peer h"] op keep Close by auto
qed

section \<open>Properties\<close>

text \<open>C7: A socket pair is a reliable byte stream. While both ends stay open, whatever calls are
  made on whatever handles in whatever order, the bytes delivered to one end followed by the
  bytes still under way are exactly the bytes that were under way before followed by the bytes
  accepted from the other end: nothing is lost, duplicated, reordered or mixed with another
  pair's data.\<close>

theorem socket_stream:
  assumes "pairs_ok ps" and "is_open h ps" and "is_open (peer h) ps"
    and "Close h \<notin> set cs" and "Close (peer h) \<notin> set cs"
  shows "received (peer h) cs ps @ pending h (exec_all cs ps) = pending h ps @ sent h cs ps"
  using assms
proof (induction cs arbitrary: ps)
  case (Cons c cs)
  obtain bs ps' where e: "exec c ps = (bs, ps')" by force
  define r where "r = (case c of Recv h' _ \<Rightarrow> if h' = peer h then bs else [] | _ \<Rightarrow> [])"
  define s where "s = (case c of Send h' _ \<Rightarrow> if h' = h then bs else [] | _ \<Rightarrow> [])"
  have S: "pairs_ok ps'" "is_open h ps'" "is_open (peer h) ps'" "r @ pending h ps' = pending h ps @ s"
    using exec_step [OF Cons.prems(1) e Cons.prems(2,3)] Cons.prems(4,5)
    unfolding r_def s_def by auto
  have "received (peer h) (c # cs) ps @ pending h (exec_all (c # cs) ps) =
      r @ (received (peer h) cs ps' @ pending h (exec_all cs ps'))"
    using e by (simp add: r_def split: call.splits)
  also have "\<dots> = r @ pending h ps' @ sent h cs ps'"
    using Cons.IH [OF S(1-3)] Cons.prems(4,5) by simp
  also have "\<dots> = pending h ps @ s @ sent h cs ps'"
    using arg_cong [OF S(4), of "\<lambda>x. x @ sent h cs ps'"] by simp
  finally show ?case using e by (simp add: s_def split: call.splits)
qed simp

lemma PAIRS_init_ok: "pairs_ok PAIRS_init"
  by (simp add: pairs_ok_def PAIRS_init_def list_all_length)

text \<open>A fresh pair, as the first call of the system makes it.\<close>

definition first_pair :: "pair list" where
  "first_pair = snd (socketpair PAIRS_init)"

lemma first_pair_open: "pairs_ok first_pair" "is_open 0 first_pair" "is_open 1 first_pair" "pending 0 first_pair = []"
proof -
  have "find_idx MAX_PAIRS (\<lambda>i. \<not> used (PAIRS_init ! i)) = Some 0"
    by (rule find_idx_eq_SomeI) (simp_all add: PAIRS_init_def pair_empty_def)
  then have "socketpair PAIRS_init = (Some (0, 1), first_pair)"
    by (simp add: socketpair_def first_pair_def)
  note S = socketpair_spec [OF PAIRS_init_ok this]
  show "pairs_ok first_pair" "is_open 0 first_pair" "is_open 1 first_pair" "pending 0 first_pair = []"
    using S(1) S(4) by auto
qed

theorem socket_stream_witness:
  "received 1 [Send 0 [1, 2, 3], Recv 1 2, Send 0 [4], Close 2, Recv 1 9] first_pair @
     pending 0 (exec_all [Send 0 [1, 2, 3], Recv 1 2, Send 0 [4], Close 2, Recv 1 9] first_pair) =
   sent 0 [Send 0 [1, 2, 3], Recv 1 2, Send 0 [4], Close 2, Recv 1 9] first_pair"
  using socket_stream [of first_pair 0] first_pair_open by (simp add: peer_def del: exec_all.simps sent.simps received.simps)

text \<open>The kernel's self test of the socket pairs succeeds (code 0) from every table that has a
  free slot, and leaves every open handle and its data as they were.\<close>

theorem self_test_passes:
  assumes ok: "pairs_ok ps" and free: "i < MAX_PAIRS" "\<not> used (ps ! i)"
  shows "fst (self_test ps) = 0 \<and> pairs_ok (snd (self_test ps)) \<and>
    (\<forall>h. is_open h ps \<longrightarrow> is_open h (snd (self_test ps)) \<and>
      pending h (snd (self_test ps)) = pending h ps)"
proof -
  define msg where "msg = ascii ''unix-socket-test-123''"
  have lm: "length msg = 20" by (simp add: msg_def ascii_def)
  obtain r p0 where sp: "socketpair ps = (r, p0)" by force
  note S0 = socketpair_spec [OF ok sp]
  obtain a b where r: "r = Some (a, b)" using S0(3) free by (cases r) auto
  have b: "b = peer a" and na: "\<not> is_open a ps" "\<not> is_open b ps"
    and o0: "is_open a p0" "is_open b p0" "pending a p0 = []" "pending b p0 = []"
    using S0(4) [OF r] by auto
  obtain n1 p1 where s1: "send a msg p0 = (n1, p1)" by force
  note S1 = send_spec [OF S0(1) s1]
  obtain n2 buf p2 where s2: "recv b (replicate 32 0) p1 = (n2, buf, p2)" by (metis surj_pair)
  note S2 = recv_spec [OF S1(1) s2]
  obtain n3 p3 where s3: "send b (ascii ''hello world'') p2 = (n3, p3)" by force
  note S3 = send_spec [OF S2(1) s3]
  obtain n4 x4 p4 where s4: "recv a (replicate 5 0) p3 = (n4, x4, p4)" by (metis surj_pair)
  note S4 = recv_spec [OF S3(1) s4]
  obtain n5 x5 p5 where s5: "recv a (replicate 8 0) p4 = (n5, x5, p5)" by (metis surj_pair)
  note S5 = recv_spec [OF S4(1) s5]
  obtain n6 x6 p6 where s6: "recv a x5 p5 = (n6, x6, p6)" by (metis surj_pair)
  note S6 = recv_spec [OF S5(1) s6]
  note C1 = close_spec [OF S6(1), where h = a] and C2 = close_spec [OF close_spec(1) [OF S6(1)], where h = b]
  let ?p7 = "close b (close a p6)"
  note is_open_eqs = S1(2) S2(2) S3(2) S4(2) S5(2) S6(2)
  have n1: "n1 = 20" "pending a p1 = msg" "pending b p1 = []"
    using S1(3) S1(4) o0 b lm by (simp_all add: RING_def)
  have n2: "n2 = 20" "take 20 buf = msg" "pending a p2 = []" "pending b p2 = []"
    using S2(3-5) n1 o0 b lm by (simp_all add: is_open_eqs)
  have n3: "n3 = 11" "pending b p3 = ascii ''hello world''"
    using S3(3,4) n2 o0 b by (simp_all add: is_open_eqs RING_def ascii_def)
  have n4: "n4 = 5" "x4 = ascii ''hello''" "pending b p4 = ascii '' world''"
    using S4(3-5) n3 o0 b by (simp_all add: is_open_eqs ascii_def)
  have n5: "n5 = 6" "take 6 x5 = ascii '' world''" "pending b p5 = []"
    using S5(3-5) n4 o0 b by (simp_all add: is_open_eqs ascii_def)
  have n6: "n6 = 0" "\<not> is_open a ?p7" "\<not> is_open b ?p7"
    using S6(3-5) n5 b C1(2) C2(2) C2(3) [of a] by simp_all
  have s7: "send a (ascii ''x'') ?p7 = (0, ?p7)" and s8: "recv b buf ?p7 = (0, buf, ?p7)"
    using n6 by (simp_all add: send_def recv_def split_handle_open)
  have run: "self_test ps = (0, ?p7)"
    unfolding self_test_def sp r Let_def prod.case option.case msg_def [symmetric] s1 s2 s3 s4 s5 s6 s7 s8
    using n1 n2 n3 n4 n5 n6 lm by simp
  have "is_open h ?p7 \<and> pending h ?p7 = pending h ps" if "is_open h ps" for h
  proof -
    have h: "h \<noteq> a" "h \<noteq> b" "peer h \<noteq> a" "peer h \<noteq> b" using that na b by (auto dest: arg_cong [of "peer h" _ peer])
    have "is_open h p6" "pending h p6 = pending h ps"
      using S0(2) [OF that] h S1(3) [of h] S2(3) [of h] S3(3) [of h] S4(3) [of h] S5(3) [of h] S6(3) [of h]
      by (simp_all add: is_open_eqs)
    then show ?thesis using C1(3,4) [OF h(1)] C2(3,4) [OF h(2)] by simp
  qed
  then show ?thesis using run C2(1) by simp
qed

theorem self_test_passes_witness: "fst (self_test PAIRS_init) = 0"
  using self_test_passes [OF PAIRS_init_ok, of 0] by (simp add: PAIRS_init_def pair_empty_def)

end
