(* ===== verification/Event_Ring.thy ===== *)
theory Event_Ring
  imports Queue_Interface
begin

text \<open>
  The input event rings of \<open>kernel/src/event.rs\<close>: a circular buffer of 512 events with a read
  and a write index, one slot always free. The interrupt handlers push, the desktop and the
  console poll. The sequential operations are interpreted as \<open>bounded_queue\<close>; the step
  relation at the end splits \<open>push\<close> and \<open>pop\<close> at their loads and stores and lets one
  producer and one consumer interleave at that grain, in the order of the source's
  release/acquire accesses.
\<close>

section \<open>Events and rings\<close>

datatype EventType = KeyPress | KeyRelease | MouseMove | MouseClick | MouseRelease | FocusIn | FocusOut

type_synonym i32 = "32 word"

record event =
  kind :: EventType
  key :: u8
  ev_x :: i32
  ev_y :: i32
  dx :: i32
  dy :: i32
  button :: u8
  ev_modifiers :: u8

definition EVENT_BUF_SIZE :: nat where "EVENT_BUF_SIZE = 512"

record event_ring =
  er_buf :: "event list"
  er_read :: nat
  er_write :: nat

definition ring_new :: event_ring where
  "ring_new = \<lparr>er_buf = replicate EVENT_BUF_SIZE
       \<lparr>kind = KeyPress, key = 0, ev_x = 0, ev_y = 0, dx = 0, dy = 0, button = 0, ev_modifiers = 0\<rparr>,
     er_read = 0, er_write = 0\<rparr>"

definition ring_push :: "event \<Rightarrow> event_ring \<Rightarrow> event_ring" where
  "ring_push e q =
     (let w = er_write q; r = er_read q; next' = (w + 1) mod EVENT_BUF_SIZE in
      if next' = r then q
      else q\<lparr>er_buf := (er_buf q)[w := e], er_write := next'\<rparr>)"

definition ring_pop :: "event_ring \<Rightarrow> event option \<times> event_ring" where
  "ring_pop q =
     (let r = er_read q; w = er_write q in
      if r = w then (None, q)
      else (Some (er_buf q ! r), q\<lparr>er_read := (r + 1) mod EVENT_BUF_SIZE\<rparr>))"

definition has_events :: "event_ring \<Rightarrow> bool" where
  "has_events q \<longleftrightarrow> er_read q \<noteq> er_write q"

section \<open>The global queues\<close>

record event_state =
  KEY_EVENTS :: event_ring
  MOUSE_EVENTS :: event_ring
  FOCUS_EVENTS :: event_ring
  MOD_SHIFT :: bool
  MOD_CTRL :: bool
  MOD_ALT :: bool

definition event_state_init :: event_state where
  "event_state_init = \<lparr>KEY_EVENTS = ring_new, MOUSE_EVENTS = ring_new, FOCUS_EVENTS = ring_new,
     MOD_SHIFT = False, MOD_CTRL = False, MOD_ALT = False\<rparr>"

definition modifiers :: "event_state \<Rightarrow> u8" where
  "modifiers s = (let m = 0;
     m = (if MOD_SHIFT s then m OR 1 else m);
     m = (if MOD_CTRL s then m OR 2 else m);
     m = (if MOD_ALT s then m OR 4 else m) in m)"

definition set_shift :: "bool \<Rightarrow> event_state \<Rightarrow> event_state" where "set_shift v s = s\<lparr>MOD_SHIFT := v\<rparr>"
definition set_ctrl :: "bool \<Rightarrow> event_state \<Rightarrow> event_state" where "set_ctrl v s = s\<lparr>MOD_CTRL := v\<rparr>"
definition set_alt :: "bool \<Rightarrow> event_state \<Rightarrow> event_state" where "set_alt v s = s\<lparr>MOD_ALT := v\<rparr>"

definition push_key :: "bool \<Rightarrow> u8 \<Rightarrow> event_state \<Rightarrow> event_state" where
  "push_key pressed k s =
     s\<lparr>KEY_EVENTS := ring_push \<lparr>kind = (if pressed then KeyPress else KeyRelease), key = k,
        ev_x = 0, ev_y = 0, dx = 0, dy = 0, button = 0, ev_modifiers = modifiers s\<rparr> (KEY_EVENTS s)\<rparr>"

definition push_mouse :: "i32 \<Rightarrow> i32 \<Rightarrow> bool \<Rightarrow> bool \<Rightarrow> bool \<Rightarrow> event_state \<Rightarrow> event_state" where
  "push_mouse mdx mdy left right middle s =
     s\<lparr>MOUSE_EVENTS := ring_push \<lparr>kind = MouseMove, key = 0, ev_x = 0, ev_y = 0, dx = mdx, dy = mdy,
        button = (if left then 1 else if right then 2 else if middle then 3 else 0),
        ev_modifiers = modifiers s\<rparr> (MOUSE_EVENTS s)\<rparr>"

definition push_focus :: "bool \<Rightarrow> event_state \<Rightarrow> event_state" where
  "push_focus focused s =
     s\<lparr>FOCUS_EVENTS := ring_push \<lparr>kind = (if focused then FocusIn else FocusOut), key = 0,
        ev_x = 0, ev_y = 0, dx = 0, dy = 0, button = 0, ev_modifiers = 0\<rparr> (FOCUS_EVENTS s)\<rparr>"

definition poll_key :: "event_state \<Rightarrow> event option \<times> event_state" where
  "poll_key s = (let (e, q) = ring_pop (KEY_EVENTS s) in (e, s\<lparr>KEY_EVENTS := q\<rparr>))"

definition poll_mouse :: "event_state \<Rightarrow> event option \<times> event_state" where
  "poll_mouse s = (let (e, q) = ring_pop (MOUSE_EVENTS s) in (e, s\<lparr>MOUSE_EVENTS := q\<rparr>))"

definition poll_focus :: "event_state \<Rightarrow> event option \<times> event_state" where
  "poll_focus s = (let (e, q) = ring_pop (FOCUS_EVENTS s) in (e, s\<lparr>FOCUS_EVENTS := q\<rparr>))"

definition has_key_events :: "event_state \<Rightarrow> bool" where "has_key_events s = has_events (KEY_EVENTS s)"
definition has_mouse_events :: "event_state \<Rightarrow> bool" where "has_mouse_events s = has_events (MOUSE_EVENTS s)"

section \<open>Sequential behaviour\<close>

definition er_len :: "event_ring \<Rightarrow> nat" where
  "er_len q = (er_write q + EVENT_BUF_SIZE - er_read q) mod EVENT_BUF_SIZE"

definition er_view :: "event_ring \<Rightarrow> event list" where
  "er_view q = ring_view (er_buf q) (er_read q) (er_len q)"

definition er_inv :: "event_ring \<Rightarrow> bool" where
  "er_inv q \<longleftrightarrow> length (er_buf q) = EVENT_BUF_SIZE \<and> er_read q < EVENT_BUF_SIZE \<and> er_write q < EVENT_BUF_SIZE"

lemma ring_new_inv [simp]: "er_inv ring_new" "er_view ring_new = []"
  by (simp_all add: er_inv_def ring_new_def er_view_def er_len_def EVENT_BUF_SIZE_def ring_view_def)

lemma er_len_bound: "er_len q < EVENT_BUF_SIZE"
  by (simp add: er_len_def EVENT_BUF_SIZE_def)

lemma er_write_eq: "er_inv q \<Longrightarrow> er_write q = (er_read q + er_len q) mod EVENT_BUF_SIZE"
  by (auto simp: er_inv_def er_len_def EVENT_BUF_SIZE_def mod_if)

lemma er_len_cases:
  "er_inv q \<Longrightarrow> er_len q = (if er_read q \<le> er_write q then er_write q - er_read q
     else er_write q + EVENT_BUF_SIZE - er_read q)"
  by (auto simp: er_inv_def er_len_def EVENT_BUF_SIZE_def mod_if)

lemma ring_full_iff:
  assumes "er_inv q"
  shows "(er_write q + 1) mod EVENT_BUF_SIZE = er_read q \<longleftrightarrow> er_len q = EVENT_BUF_SIZE - 1"
  using assms er_len_cases [OF assms] by (auto simp: er_inv_def EVENT_BUF_SIZE_def mod_if)

lemma ring_push_spec:
  assumes inv: "er_inv q"
  shows "er_inv (ring_push e q)"
    and "er_view (ring_push e q) = (if er_len q < EVENT_BUF_SIZE - 1 then er_view q @ [e] else er_view q)"
proof -
  have "er_inv (ring_push e q) \<and>
    er_view (ring_push e q) = (if er_len q < EVENT_BUF_SIZE - 1 then er_view q @ [e] else er_view q)"
  proof (cases "er_len q = EVENT_BUF_SIZE - 1")
    case True
    then show ?thesis using inv ring_full_iff [OF inv] by (simp add: ring_push_def Let_def)
  next
    case False
    then have lt: "er_len q < EVENT_BUF_SIZE - 1" using er_len_bound [of q] by simp
    let ?q = "q\<lparr>er_buf := (er_buf q)[er_write q := e], er_write := (er_write q + 1) mod EVENT_BUF_SIZE\<rparr>"
    have r: "ring_push e q = ?q" using False ring_full_iff [OF inv] by (simp add: ring_push_def Let_def)
    have inv': "er_inv ?q" using inv by (simp add: er_inv_def EVENT_BUF_SIZE_def)
    have len': "er_len ?q = Suc (er_len q)"
      using er_len_cases [OF inv'] er_len_cases [OF inv] inv lt
      by (auto simp: er_inv_def EVENT_BUF_SIZE_def mod_if split: if_splits)
    have "ring_view ((er_buf q)[(er_read q + er_len q) mod length (er_buf q) := e]) (er_read q) (Suc (er_len q))
        = ring_view (er_buf q) (er_read q) (er_len q) @ [e]"
      by (rule ring_view_snoc) (use inv lt in \<open>simp add: er_inv_def\<close>)
    then show ?thesis
      using r inv' len' lt er_write_eq [OF inv] inv by (simp add: er_view_def er_inv_def)
  qed
  then show "er_inv (ring_push e q)"
    and "er_view (ring_push e q) = (if er_len q < EVENT_BUF_SIZE - 1 then er_view q @ [e] else er_view q)"
    by auto
qed

lemma ring_pop_spec:
  assumes inv: "er_inv q" and run: "ring_pop q = (r, q')"
  shows "er_inv q'" and "r = (case er_view q of [] \<Rightarrow> None | e # _ \<Rightarrow> Some e)"
    and "er_view q' = tl (er_view q)"
proof -
  have "er_inv q' \<and> r = (case er_view q of [] \<Rightarrow> None | e # _ \<Rightarrow> Some e) \<and> er_view q' = tl (er_view q)"
  proof (cases "er_read q = er_write q")
    case True
    then have "er_view q = []" using er_len_cases [OF inv] by (simp add: er_view_def ring_view_def)
    then show ?thesis using True run inv by (simp add: ring_pop_def)
  next
    case False
    let ?q = "q\<lparr>er_read := (er_read q + 1) mod EVENT_BUF_SIZE\<rparr>"
    have r: "r = Some (er_buf q ! er_read q)" "q' = ?q" using run False by (auto simp: ring_pop_def Let_def)
    have inv': "er_inv ?q" using inv by (simp add: er_inv_def EVENT_BUF_SIZE_def)
    have pos: "er_len q > 0" using er_len_cases [OF inv] False inv by (auto simp: er_inv_def split: if_splits)
    have len': "er_len ?q = er_len q - 1"
      using er_len_cases [OF inv'] er_len_cases [OF inv] inv False
      by (auto simp: er_inv_def EVENT_BUF_SIZE_def mod_if split: if_splits)
    have v: "er_view ?q = drop 1 (er_view q)"
      using ring_view_drop [of 1 "er_len q" "er_buf q" "er_read q"] pos len' inv
      by (simp add: er_view_def er_inv_def)
    have "er_view q \<noteq> []" "er_view q ! 0 = er_buf q ! er_read q"
      using pos inv by (auto simp: er_view_def ring_view_def er_inv_def)
    then show ?thesis using r inv' v by (cases "er_view q") auto
  qed
  then show "er_inv q'" and "r = (case er_view q of [] \<Rightarrow> None | e # _ \<Rightarrow> Some e)"
    and "er_view q' = tl (er_view q)" by auto
qed

subsection \<open>Bursts\<close>

text \<open>A burst of interrupts, with the number of events that were not dropped, and a consumer
  that polls up to \<open>k\<close> times.\<close>

fun push_burst :: "event list \<Rightarrow> event_ring \<Rightarrow> nat \<times> event_ring" where
  "push_burst [] q = (0, q)"
| "push_burst (e # es) q =
     (let q1 = ring_push e q; (n, q2) = push_burst es q1
      in (if er_write q1 \<noteq> er_write q then Suc n else n, q2))"

fun pop_burst :: "nat \<Rightarrow> event_ring \<Rightarrow> event list \<times> event_ring" where
  "pop_burst 0 q = ([], q)"
| "pop_burst (Suc k) q =
     (case ring_pop q of
        (None, q1) \<Rightarrow> ([], q1)
      | (Some e, q1) \<Rightarrow> (let (es, q2) = pop_burst k q1 in (e # es, q2)))"

lemma length_er_view [simp]: "length (er_view q) = er_len q"
  by (simp add: er_view_def)

lemma ring_push_accepted:
  assumes "er_inv q"
  shows "er_write (ring_push e q) \<noteq> er_write q \<longleftrightarrow> er_len q < EVENT_BUF_SIZE - 1"
proof -
  have "(er_write q + 1) mod EVENT_BUF_SIZE \<noteq> er_write q"
    using assms by (auto simp: er_inv_def EVENT_BUF_SIZE_def mod_if)
  then show ?thesis
    using ring_full_iff [OF assms] er_len_bound [of q] by (auto simp: ring_push_def Let_def)
qed

lemma push_burst_spec:
  "er_inv q \<Longrightarrow> push_burst es q = (n, q') \<Longrightarrow>
    n = min (length es) (EVENT_BUF_SIZE - 1 - er_len q) \<and> er_view q' = er_view q @ take n es \<and> er_inv q'"
proof (induction es arbitrary: q n q')
  case (Cons e es)
  note S = ring_push_spec [OF Cons.prems(1), of e]
  obtain m q2 where b: "push_burst es (ring_push e q) = (m, q2)" by force
  note IH = Cons.IH [OF S(1) b]
  have len: "er_len (ring_push e q) = (if er_len q < EVENT_BUF_SIZE - 1 then Suc (er_len q) else er_len q)"
    using S(2) length_er_view by (metis length_append_singleton)
  have bound: "er_len q \<le> EVENT_BUF_SIZE - 1" using er_len_bound [of q] by simp
  show ?case
  proof (cases "er_len q < EVENT_BUF_SIZE - 1")
    case True
    then have "n = Suc m" "q' = q2"
      using Cons.prems(2) b ring_push_accepted [OF Cons.prems(1), of e] by (auto simp: Let_def)
    then show ?thesis using IH S(2) True len by auto
  next
    case False
    then have "n = m" "q' = q2"
      using Cons.prems(2) b ring_push_accepted [OF Cons.prems(1), of e] by (auto simp: Let_def)
    then show ?thesis using IH S(2) False len bound by auto
  qed
qed simp

lemma pop_burst_spec:
  "er_inv q \<Longrightarrow> pop_burst k q = (es, q') \<Longrightarrow>
    es = take k (er_view q) \<and> er_view q' = drop k (er_view q) \<and> er_inv q'"
proof (induction k arbitrary: q es q')
  case (Suc k)
  obtain r q1 where p: "ring_pop q = (r, q1)" by force
  note S = ring_pop_spec [OF Suc.prems(1) p]
  show ?case
  proof (cases "er_view q")
    case Nil
    then show ?thesis using S Suc.prems p by simp
  next
    case (Cons e v)
    obtain es1 q2 where b: "pop_burst k q1 = (es1, q2)" by force
    show ?thesis using Suc.IH [OF S(1) b] S Suc.prems p b Cons by auto
  qed
qed simp

interpretation er: bounded_queue er_inv er_view push_burst pop_burst "EVENT_BUF_SIZE - 1"
proof unfold_locales
  fix q xs n q' assume "er_inv q" "push_burst xs q = (n, q')"
  then show "n = min (length xs) (EVENT_BUF_SIZE - 1 - length (er_view q)) \<and>
      er_view q' = er_view q @ take n xs \<and> er_inv q'"
    using push_burst_spec by simp
next
  fix q assume "er_inv q"
  then show "length (er_view q) \<le> EVENT_BUF_SIZE - 1" using er_len_bound [of q] by simp
qed (use pop_burst_spec in blast)

section \<open>One producer, one consumer\<close>

text \<open>The program counters of \<open>push\<close> and \<open>pop\<close>: after which load or store each of them is,
  with the values it has loaded.\<close>

datatype producer = PIdle | PWrite event nat | PBoth event nat nat | PStored event nat
datatype consumer = CIdle | CRead nat | CBoth nat nat | CFetched nat event

record spsc =
  ring :: event_ring
  ppc :: producer
  cpc :: consumer
  pushed :: "event list"
  popped :: "event list"

inductive spsc_step :: "spsc \<Rightarrow> spsc \<Rightarrow> bool" where
  load_write: "ppc s = PIdle \<Longrightarrow> spsc_step s (s\<lparr>ppc := PWrite e (er_write (ring s))\<rparr>)"
| load_read: "ppc s = PWrite e w \<Longrightarrow> spsc_step s (s\<lparr>ppc := PBoth e w (er_read (ring s))\<rparr>)"
| dropped: "ppc s = PBoth e w r \<Longrightarrow> (w + 1) mod EVENT_BUF_SIZE = r \<Longrightarrow> spsc_step s (s\<lparr>ppc := PIdle\<rparr>)"
| store_slot: "ppc s = PBoth e w r \<Longrightarrow> (w + 1) mod EVENT_BUF_SIZE \<noteq> r \<Longrightarrow>
    spsc_step s (s\<lparr>ppc := PStored e w, ring := (ring s)\<lparr>er_buf := (er_buf (ring s))[w := e]\<rparr>\<rparr>)"
| publish: "ppc s = PStored e w \<Longrightarrow>
    spsc_step s (s\<lparr>ppc := PIdle, ring := (ring s)\<lparr>er_write := (w + 1) mod EVENT_BUF_SIZE\<rparr>,
      pushed := pushed s @ [e]\<rparr>)"
| c_load_read: "cpc s = CIdle \<Longrightarrow> spsc_step s (s\<lparr>cpc := CRead (er_read (ring s))\<rparr>)"
| c_load_write: "cpc s = CRead r \<Longrightarrow> spsc_step s (s\<lparr>cpc := CBoth r (er_write (ring s))\<rparr>)"
| empty: "cpc s = CBoth r w \<Longrightarrow> r = w \<Longrightarrow> spsc_step s (s\<lparr>cpc := CIdle\<rparr>)"
| fetch: "cpc s = CBoth r w \<Longrightarrow> r \<noteq> w \<Longrightarrow>
    spsc_step s (s\<lparr>cpc := CFetched r (er_buf (ring s) ! r)\<rparr>)"
| advance: "cpc s = CFetched r e \<Longrightarrow>
    spsc_step s (s\<lparr>cpc := CIdle, ring := (ring s)\<lparr>er_read := (r + 1) mod EVENT_BUF_SIZE\<rparr>,
      popped := popped s @ [e]\<rparr>)"

definition spsc_init :: spsc where
  "spsc_init = \<lparr>ring = ring_new, ppc = PIdle, cpc = CIdle, pushed = [], popped = []\<rparr>"

inductive spsc_reachable :: "spsc \<Rightarrow> bool" where
  init: "spsc_reachable spsc_init"
| step: "spsc_reachable s \<Longrightarrow> spsc_step s s' \<Longrightarrow> spsc_reachable s'"

text \<open>How far \<open>w\<close> is ahead of \<open>r\<close>.\<close>

definition dist :: "nat \<Rightarrow> nat \<Rightarrow> nat" where
  "dist r w = (w + EVENT_BUF_SIZE - r) mod EVENT_BUF_SIZE"

definition spsc_inv :: "spsc \<Rightarrow> bool" where
  "spsc_inv s \<longleftrightarrow> er_inv (ring s) \<and> popped s @ er_view (ring s) = pushed s \<and>
     (case ppc s of PIdle \<Rightarrow> True
      | PWrite e w \<Rightarrow> w = er_write (ring s)
      | PBoth e w r \<Rightarrow> w = er_write (ring s) \<and> r < EVENT_BUF_SIZE \<and> er_len (ring s) \<le> dist r w
      | PStored e w \<Rightarrow> w = er_write (ring s) \<and> er_len (ring s) < EVENT_BUF_SIZE - 1 \<and>
          er_buf (ring s) ! w = e) \<and>
     (case cpc s of CIdle \<Rightarrow> True
      | CRead r \<Rightarrow> r = er_read (ring s)
      | CBoth r w \<Rightarrow> r = er_read (ring s) \<and> w < EVENT_BUF_SIZE \<and> dist r w \<le> er_len (ring s)
      | CFetched r e \<Rightarrow> r = er_read (ring s) \<and> (\<exists>v. er_view (ring s) = e # v))"

lemma er_len_dist: "er_len q = dist (er_read q) (er_write q)"
  by (simp add: er_len_def dist_def)

lemma dist_full: "w < EVENT_BUF_SIZE \<Longrightarrow> r < EVENT_BUF_SIZE \<Longrightarrow>
    (w + 1) mod EVENT_BUF_SIZE \<noteq> r \<Longrightarrow> dist r w < EVENT_BUF_SIZE - 1"
  by (auto simp: dist_def EVENT_BUF_SIZE_def mod_if split: if_splits)

lemma dist_pos: "w < EVENT_BUF_SIZE \<Longrightarrow> r < EVENT_BUF_SIZE \<Longrightarrow> r \<noteq> w \<Longrightarrow> 0 < dist r w"
  by (auto simp: dist_def EVENT_BUF_SIZE_def mod_if)

text \<open>The slot behind the content is not part of it.\<close>

lemma store_slot_view:
  assumes "er_inv q"
  shows "er_view (q\<lparr>er_buf := (er_buf q)[er_write q := e]\<rparr>) = er_view q"
    and "er_len (q\<lparr>er_buf := b\<rparr>) = er_len q"
proof -
  have "(er_buf q)[er_write q := e] ! ((er_read q + i) mod length (er_buf q)) =
      er_buf q ! ((er_read q + i) mod length (er_buf q))" if "i < er_len q" for i
  proof -
    have "(er_read q + i) mod EVENT_BUF_SIZE \<noteq> er_write q"
      using ring_mod_inj [of "er_read q" i EVENT_BUF_SIZE "er_len q"] that er_len_bound [of q]
        er_write_eq [OF assms] by auto
    then show ?thesis using assms by (simp add: er_inv_def)
  qed
  then show "er_view (q\<lparr>er_buf := (er_buf q)[er_write q := e]\<rparr>) = er_view q"
    by (auto simp: er_view_def er_len_def intro: nth_equalityI)
qed (simp add: er_len_def)

text \<open>Publishing the stored event has the effect of \<open>push\<close>.\<close>

lemma publish_push:
  assumes "er_inv q" and "er_len q < EVENT_BUF_SIZE - 1" and "er_buf q ! er_write q = e"
  shows "q\<lparr>er_write := (er_write q + 1) mod EVENT_BUF_SIZE\<rparr> = ring_push e q"
proof -
  have "(er_buf q)[er_write q := e] = er_buf q" using assms(3) by auto
  then show ?thesis using assms(2) ring_full_iff [OF assms(1)] by (simp add: ring_push_def Let_def)
qed

lemma advance_pop:
  assumes "er_inv q" and "er_view q = e # v"
  shows "ring_pop q = (Some e, q\<lparr>er_read := (er_read q + 1) mod EVENT_BUF_SIZE\<rparr>)"
proof -
  have ne: "er_read q \<noteq> er_write q"
    using assms er_len_cases [OF assms(1)] by (auto simp: er_view_def ring_view_def)
  obtain r q' where p: "ring_pop q = (r, q')" by force
  show ?thesis using ring_pop_spec(2) [OF assms(1) p] assms(2) p ne by (auto simp: ring_pop_def Let_def)
qed

lemma spsc_step_inv:
  assumes "spsc_step s s'" and "spsc_inv s"
  shows "spsc_inv s'"
  using assms
proof (induction rule: spsc_step.induct)
  case (load_read s e w)
  then show ?case by (auto simp: spsc_inv_def er_len_dist er_inv_def split: producer.splits consumer.splits)
next
  case (store_slot s e w r)
  then have i: "er_inv (ring s)" "w = er_write (ring s)" "r < EVENT_BUF_SIZE" "er_len (ring s) \<le> dist r w"
    by (auto simp: spsc_inv_def)
  then have "er_len (ring s) < EVENT_BUF_SIZE - 1"
    using dist_full [of w r] store_slot.hyps(2) by (simp add: er_inv_def)
  then show ?case using store_slot i store_slot_view(1) [OF i(1), of e] store_slot_view(2) [OF i(1)]
    by (auto simp: spsc_inv_def er_inv_def split: producer.splits consumer.splits)
next
  case (publish s e w)
  let ?q = "ring_push e (ring s)"
  have i: "er_inv (ring s)" "w = er_write (ring s)" "er_len (ring s) < EVENT_BUF_SIZE - 1"
      "er_buf (ring s) ! w = e" using publish by (auto simp: spsc_inv_def)
  have q: "(ring s)\<lparr>er_write := (w + 1) mod EVENT_BUF_SIZE\<rparr> = ?q"
    using publish_push [OF i(1,3)] i(2,4) by simp
  note S = ring_push_spec [OF i(1), of e]
  have v: "er_view ?q = er_view (ring s) @ [e]" using S(2) i(3) by simp
  then have "er_len ?q = Suc (er_len (ring s))" by (metis length_append_singleton length_er_view)
  moreover have "er_read ?q = er_read (ring s)" unfolding q [symmetric] by simp
  ultimately show ?case unfolding q using publish S(1) v
    by (auto simp: spsc_inv_def split: producer.splits consumer.splits)
next
  case (c_load_write s r)
  then show ?case by (auto simp: spsc_inv_def er_len_dist er_inv_def split: producer.splits consumer.splits)
next
  case (fetch s r w)
  then have i: "er_inv (ring s)" "r = er_read (ring s)" "dist r w \<le> er_len (ring s)" "w < EVENT_BUF_SIZE"
    by (auto simp: spsc_inv_def)
  have "0 < er_len (ring s)" using dist_pos [of w r] i fetch.hyps(2) by (simp add: er_inv_def)
  then have "er_view (ring s) = er_view (ring s) ! 0 # tl (er_view (ring s))"
    by (metis hd_Cons_tl hd_conv_nth length_er_view length_greater_0_conv)
  moreover have "er_view (ring s) ! 0 = er_buf (ring s) ! r"
    using \<open>0 < er_len (ring s)\<close> i by (simp add: er_view_def er_inv_def)
  ultimately have "\<exists>v. er_view (ring s) = er_buf (ring s) ! r # v" by metis
  then show ?case using fetch i by (auto simp: spsc_inv_def split: producer.splits)
next
  case (advance s r e)
  then obtain v where i: "er_inv (ring s)" "r = er_read (ring s)" and v: "er_view (ring s) = e # v"
    by (auto simp: spsc_inv_def)
  let ?q = "(ring s)\<lparr>er_read := (er_read (ring s) + 1) mod EVENT_BUF_SIZE\<rparr>"
  note S = ring_pop_spec [OF i(1) advance_pop [OF i(1) v]]
  have v': "er_view ?q = v" using S(3) v by simp
  then have "er_len ?q = er_len (ring s) - 1" using v by (metis diff_Suc_1 length_Cons length_er_view)
  then show ?case using advance i(2) S(1) v v'
    by (auto simp: spsc_inv_def split: producer.splits consumer.splits)
qed (auto simp: spsc_inv_def split: producer.splits consumer.splits)

section \<open>Properties\<close>

text \<open>C8: With one producer (the interrupt handler) and one consumer running concurrently, at every
  reachable point of any interleaving of their loads and stores, the events polled so far
  followed by the events in the ring are exactly the published events in order: an event is
  never lost after publication, delivered twice, reordered, or read half-written.\<close>

theorem spsc_fifo:
  assumes "spsc_reachable s"
  shows "er_inv (ring s) \<and> popped s @ er_view (ring s) = pushed s"
proof -
  have "spsc_inv s"
    using assms
  proof induction
    case init
    show ?case by (simp add: spsc_inv_def spsc_init_def)
  qed (rule spsc_step_inv)
  then show ?thesis by (simp add: spsc_inv_def)
qed

definition demo_event :: event where
  "demo_event = \<lparr>kind = KeyPress, key = 65, ev_x = 0, ev_y = 0, dx = 0, dy = 0, button = 0, ev_modifiers = 0\<rparr>"

theorem spsc_fifo_witness:
  "\<exists>s. spsc_reachable s \<and> pushed s = [demo_event] \<and> popped s @ er_view (ring s) = [demo_event]"
proof -
  let ?s1 = "spsc_init\<lparr>ppc := PWrite demo_event (er_write (ring spsc_init))\<rparr>"
  let ?s2 = "?s1\<lparr>ppc := PBoth demo_event (er_write (ring spsc_init)) (er_read (ring ?s1))\<rparr>"
  let ?s3 = "?s2\<lparr>ppc := PStored demo_event (er_write (ring spsc_init)),
    ring := (ring ?s2)\<lparr>er_buf := (er_buf (ring ?s2))[er_write (ring spsc_init) := demo_event]\<rparr>\<rparr>"
  let ?s4 = "?s3\<lparr>ppc := PIdle, ring := (ring ?s3)\<lparr>er_write := (er_write (ring spsc_init) + 1) mod EVENT_BUF_SIZE\<rparr>,
    pushed := pushed ?s3 @ [demo_event]\<rparr>"
  have "spsc_step spsc_init ?s1" by (rule load_write) (simp add: spsc_init_def)
  moreover have "spsc_step ?s1 ?s2" by (rule load_read) simp
  moreover have "spsc_step ?s2 ?s3"
    by (rule store_slot) (auto simp: spsc_init_def ring_new_def EVENT_BUF_SIZE_def)
  moreover have "spsc_step ?s3 ?s4" by (rule publish) simp
  ultimately have r: "spsc_reachable ?s4" using init step by metis
  moreover have "pushed ?s4 = [demo_event]" by (simp add: spsc_init_def)
  ultimately show ?thesis using spsc_fifo [OF r] by metis
qed

text \<open>A key event that is polled carries the modifier state at the time of the key press, and a
  queue with room delivers the presses in order: pushing a key and polling until the earlier
  ones are gone yields that key.\<close>

theorem poll_key_order:
  assumes "er_inv (KEY_EVENTS s)" and "er_len (KEY_EVENTS s) < EVENT_BUF_SIZE - 1"
  shows "fst (pop_burst (Suc (er_len (KEY_EVENTS s))) (KEY_EVENTS (push_key pressed k s))) =
    er_view (KEY_EVENTS s) @ [\<lparr>kind = (if pressed then KeyPress else KeyRelease), key = k, ev_x = 0,
      ev_y = 0, dx = 0, dy = 0, button = 0, ev_modifiers = modifiers s\<rparr>]"
proof -
  let ?e = "\<lparr>kind = (if pressed then KeyPress else KeyRelease), key = k, ev_x = 0,
      ev_y = 0, dx = 0, dy = 0, button = 0, ev_modifiers = modifiers s\<rparr>"
  note S = ring_push_spec [OF assms(1), of ?e]
  obtain es q where p: "pop_burst (Suc (er_len (KEY_EVENTS s))) (ring_push ?e (KEY_EVENTS s)) = (es, q)" by force
  show ?thesis using er.pop_law [OF S(1) p] S(2) assms(2) p by (simp add: push_key_def)
qed

theorem poll_key_order_witness:
  "fst (pop_burst 1 (KEY_EVENTS (push_key True 65 (set_ctrl True event_state_init)))) =
    [\<lparr>kind = KeyPress, key = 65, ev_x = 0, ev_y = 0, dx = 0, dy = 0, button = 0, ev_modifiers = 2\<rparr>]"
proof -
  let ?s = "set_ctrl True event_state_init"
  have k: "KEY_EVENTS ?s = ring_new" by (simp add: set_ctrl_def event_state_init_def)
  have l: "er_len ring_new = 0" by (simp add: er_len_def ring_new_def EVENT_BUF_SIZE_def)
  have "er_inv (KEY_EVENTS ?s)" "er_len (KEY_EVENTS ?s) < EVENT_BUF_SIZE - 1"
    unfolding k using l by (simp_all add: EVENT_BUF_SIZE_def)
  from poll_key_order [OF this, of True 65] show ?thesis
    unfolding k l by (simp add: modifiers_def set_ctrl_def event_state_init_def)
qed

end
