(* ===== verification/Capabilities.thy ===== *)
theory Capabilities
  imports Tasks Slot_Interface
begin

text \<open>
  The capability manager, \<open>kernel/src/cap.rs\<close>: one table of 64 slots per task slot. The
  kernel state extends the scheduler's record with the tables (and with what the IPC layer
  keeps). The tables are interpreted as \<open>slot_table\<close>; the security properties, that
  capabilities are neither forged nor amplified and do not cross from one user to another,
  rest on that interpretation.
\<close>

section \<open>One table\<close>

definition cap_table_new :: "cap list" where
  "cap_table_new = replicate MAX_CAPS_PER_PROCESS cap_null"

definition cap_table_alloc :: "u64 \<Rightarrow> u64 \<Rightarrow> u64 \<Rightarrow> u64 \<Rightarrow> cap list \<Rightarrow> (nat \<times> cap list) option" where
  "cap_table_alloc ty sid r d caps =
     (case find_idx (length caps) (\<lambda>i. \<not> cap_is_valid (caps ! i)) of
        Some i \<Rightarrow> Some (i, caps[i := \<lparr>cap_type = ty, server_id = sid, rights = r, cap_data = d\<rparr>])
      | None \<Rightarrow> None)"

definition cap_table_get :: "cap list \<Rightarrow> u16 \<Rightarrow> cap option" where
  "cap_table_get caps idx =
     (let i = unat idx in
      if i \<ge> MAX_CAPS_PER_PROCESS then None
      else if \<not> cap_is_valid (caps ! i) then None
      else Some (caps ! i))"

definition cap_table_free :: "u16 \<Rightarrow> cap list \<Rightarrow> cap list" where
  "cap_table_free idx caps =
     (let i = unat idx in if i < MAX_CAPS_PER_PROCESS then caps[i := cap_null] else caps)"

definition cap_table_validate :: "cap list \<Rightarrow> u16 \<Rightarrow> u64 \<Rightarrow> bool" where
  "cap_table_validate caps idx required_rights =
     (case cap_table_get caps idx of
        Some c \<Rightarrow> rights c AND required_rights = required_rights
      | None \<Rightarrow> False)"

section \<open>The tables of all tasks\<close>

record kernel = sched +
  CAP_TABLES :: "cap list list"
  PENDING :: "message list"
  CONSOLE_CLIENT_CAP :: u16

definition slot_for_task :: "'a kernel_scheme \<Rightarrow> u64 \<Rightarrow> nat option" where
  "slot_for_task s i = find_idx MAX_TASKS (\<lambda>k. state (TASKS s ! k) \<noteq> Free \<and> task_id (TASKS s ! k) = i)"

definition set_table :: "nat \<Rightarrow> cap list \<Rightarrow> 'a kernel_scheme \<Rightarrow> 'a kernel_scheme" where
  "set_table slot t s = s\<lparr>CAP_TABLES := (CAP_TABLES s)[slot := t]\<rparr>"

definition cap_alloc_slot :: "nat \<Rightarrow> u64 \<Rightarrow> u64 \<Rightarrow> u64 \<Rightarrow> u64 \<Rightarrow> 'a kernel_scheme \<Rightarrow> u16 option \<times> 'a kernel_scheme" where
  "cap_alloc_slot slot ty sid r d s =
     (case cap_table_alloc ty sid r d (CAP_TABLES s ! slot) of
        Some (i, t) \<Rightarrow> (Some (of_nat i), set_table slot t s)
      | None \<Rightarrow> (None, s))"

definition cap_alloc :: "u64 \<Rightarrow> u64 \<Rightarrow> u64 \<Rightarrow> u64 \<Rightarrow> 'a kernel_scheme \<Rightarrow> u16 option \<times> 'a kernel_scheme" where
  "cap_alloc ty sid r d s = cap_alloc_slot (CURRENT s) ty sid r d s"

definition cap_alloc_for :: "u64 \<Rightarrow> u64 \<Rightarrow> u64 \<Rightarrow> u64 \<Rightarrow> u64 \<Rightarrow> 'a kernel_scheme \<Rightarrow> u16 option \<times> 'a kernel_scheme" where
  "cap_alloc_for tid ty sid r d s =
     (case slot_for_task s tid of
        Some slot \<Rightarrow> cap_alloc_slot slot ty sid r d s
      | None \<Rightarrow> (None, s))"

definition cap_get :: "'a kernel_scheme \<Rightarrow> u16 \<Rightarrow> cap option" where
  "cap_get s idx = cap_table_get (CAP_TABLES s ! CURRENT s) idx"

definition cap_validate :: "'a kernel_scheme \<Rightarrow> u16 \<Rightarrow> u64 \<Rightarrow> bool" where
  "cap_validate s idx required_rights = cap_table_validate (CAP_TABLES s ! CURRENT s) idx required_rights"

definition cap_transfer :: "u64 \<Rightarrow> u16 \<Rightarrow> 'a kernel_scheme \<Rightarrow> int \<times> 'a kernel_scheme" where
  "cap_transfer dst_task_id cap_idx s =
     (let src_slot = CURRENT s in
      case cap_table_get (CAP_TABLES s ! src_slot) cap_idx of
        None \<Rightarrow> (IPC_ERR_BAD_CAP, s)
      | Some c \<Rightarrow>
          let src_uid = uid (TASKS s ! src_slot) in
          (case slot_for_task s dst_task_id of
             None \<Rightarrow> (IPC_ERR_NO_SERVER, s)
           | Some dst_slot \<Rightarrow>
               let dst_uid = uid (TASKS s ! dst_slot) in
               if src_uid \<noteq> 0 \<and> src_uid \<noteq> dst_uid then (IPC_ERR_DENIED, s)
               else
                 (case cap_table_alloc (cap_type c) (server_id c) (rights c) (cap_data c) (CAP_TABLES s ! dst_slot) of
                    Some (i, t) \<Rightarrow>
                      (let s1 = set_table dst_slot t s
                       in (IPC_OK, set_table src_slot (cap_table_free cap_idx (CAP_TABLES s1 ! src_slot)) s1))
                  | None \<Rightarrow> (IPC_ERR_NO_MEM, s))))"

definition cap_duplicate :: "u64 \<Rightarrow> u16 \<Rightarrow> 'a kernel_scheme \<Rightarrow> int \<times> 'a kernel_scheme" where
  "cap_duplicate dst_task_id cap_idx s =
     (case cap_get s cap_idx of
        None \<Rightarrow> (IPC_ERR_BAD_CAP, s)
      | Some c \<Rightarrow>
          let src_uid = uid (TASKS s ! CURRENT s) in
          (case slot_for_task s dst_task_id of
             None \<Rightarrow> (IPC_ERR_NO_SERVER, s)
           | Some dst_slot \<Rightarrow>
               let dst_uid = uid (TASKS s ! dst_slot) in
               if src_uid \<noteq> 0 \<and> src_uid \<noteq> dst_uid then (IPC_ERR_DENIED, s)
               else
                 (case cap_table_alloc (cap_type c) (server_id c) (rights c) (cap_data c) (CAP_TABLES s ! dst_slot) of
                    Some (i, t) \<Rightarrow> (IPC_OK, set_table dst_slot t s)
                  | None \<Rightarrow> (IPC_ERR_NO_MEM, s))))"

definition cap_free_all :: "u64 \<Rightarrow> 'a kernel_scheme \<Rightarrow> 'a kernel_scheme" where
  "cap_free_all tid s =
     (case slot_for_task s tid of Some slot \<Rightarrow> set_table slot cap_table_new s | None \<Rightarrow> s)"

definition cap_init :: "'a kernel_scheme \<Rightarrow> 'a kernel_scheme" where
  "cap_init s = snd (cap_alloc_slot 0 (cap_type_code IpcTarget) 0 (CAP_SEND OR CAP_RECV) 0 s)"

section \<open>A table is a slot table\<close>

definition store_cap :: "cap \<Rightarrow> cap list \<Rightarrow> (nat \<times> cap list) option" where
  "store_cap c = cap_table_alloc (cap_type c) (server_id c) (rights c) (cap_data c)"

lemma store_cap_eq:
  "store_cap c t = (case find_idx (length t) (\<lambda>i. \<not> cap_is_valid (t ! i)) of
     Some i \<Rightarrow> Some (i, t[i := c]) | None \<Rightarrow> None)"
  by (cases c) (simp add: store_cap_def cap_table_alloc_def split: option.split)

interpretation ct: slot_table "\<lambda>c. \<not> cap_is_valid c" store_cap
proof unfold_locales
  fix e t i t' assume "store_cap e t = Some (i, t')"
  then show "i < length t \<and> \<not> cap_is_valid (t ! i) \<and> t' = t[i := e] \<and> (\<forall>j<i. \<not> \<not> cap_is_valid (t ! j))"
    by (auto simp: store_cap_eq split: option.splits dest: find_idx_SomeD)
next
  fix e t x assume "store_cap e t = None" "x \<in> set t"
  then show "\<not> \<not> cap_is_valid x"
    by (auto simp: store_cap_eq find_idx_None_iff in_set_conv_nth split: option.splits)
qed

section \<open>What the tables hold\<close>

definition caps_ok :: "'a kernel_scheme \<Rightarrow> bool" where
  "caps_ok s \<longleftrightarrow> length (TASKS s) = MAX_TASKS \<and> length (CAP_TABLES s) = MAX_TASKS \<and>
     (\<forall>t\<in>set (CAP_TABLES s). length t = MAX_CAPS_PER_PROCESS) \<and> CURRENT s < MAX_TASKS"

text \<open>All valid capabilities of the system, and those held by the tasks of one user.\<close>

definition all_caps :: "'a kernel_scheme \<Rightarrow> cap multiset" where
  "all_caps s = sum_list (map ct.occupied (CAP_TABLES s))"

definition caps_of_user :: "'a kernel_scheme \<Rightarrow> u32 \<Rightarrow> cap set" where
  "caps_of_user s u = {c. \<exists>i<MAX_TASKS. state (TASKS s ! i) \<noteq> Free \<and> uid (TASKS s ! i) = u \<and>
     c \<in># ct.occupied (CAP_TABLES s ! i)}"

lemma set_table_sel [simp]:
  "TASKS (set_table i t s) = TASKS s" "CURRENT (set_table i t s) = CURRENT s"
  "CAP_TABLES (set_table i t s) = (CAP_TABLES s)[i := t]" "PENDING (set_table i t s) = PENDING s"
  by (simp_all add: set_table_def)

lemma slot_for_task_SomeD:
  "slot_for_task s i = Some k \<Longrightarrow> k < MAX_TASKS \<and> state (TASKS s ! k) \<noteq> Free \<and> task_id (TASKS s ! k) = i"
  unfolding slot_for_task_def by (auto dest: find_idx_SomeD)

lemma cap_table_get_SomeD:
  "cap_table_get t idx = Some c \<Longrightarrow> unat idx < MAX_CAPS_PER_PROCESS \<and> cap_is_valid (t ! unat idx) \<and> c = t ! unat idx"
  by (auto simp: cap_table_get_def Let_def split: if_splits)

lemma all_caps_set_table:
  assumes "i < length (CAP_TABLES s)"
  shows "ct.occupied (CAP_TABLES s ! i) + all_caps (set_table i t s) = ct.occupied t + all_caps s"
  unfolding all_caps_def set_table_sel by (rule sum_list_map_update [OF assms])

lemma occupied_free:
  assumes "cap_table_get t idx = Some c" and "length t = MAX_CAPS_PER_PROCESS"
  shows "ct.occupied t = add_mset c (ct.occupied (cap_table_free idx t))"
  using ct.clear_removes [of "unat idx" t cap_null] cap_table_get_SomeD [OF assms(1)] assms(2)
  by (simp add: cap_table_free_def Let_def)

text \<open>Storing a capability in another slot does not disturb the one to be passed on.\<close>

lemma store_keeps_get:
  assumes "store_cap e t = Some (i, t')" and "cap_table_get t idx = Some c"
  shows "cap_table_get t' idx = Some c"
proof -
  have "i \<noteq> unat idx" using ct.store_Some [OF assms(1)] cap_table_get_SomeD [OF assms(2)] by auto
  then have "t' ! unat idx = t ! unat idx" using ct.store_keeps(3) [OF assms(1)] by simp
  then show ?thesis using assms(2) by (auto simp: cap_table_get_def Let_def split: if_splits)
qed

lemma transfer_cases:
  assumes "cap_transfer d idx s = (r, s')"
  shows "s' = s \<and> r \<noteq> IPC_OK \<or>
    (\<exists>c k i t. r = IPC_OK \<and> cap_table_get (CAP_TABLES s ! CURRENT s) idx = Some c \<and>
       slot_for_task s d = Some k \<and> (uid (TASKS s ! CURRENT s) = 0 \<or> uid (TASKS s ! CURRENT s) = uid (TASKS s ! k)) \<and>
       store_cap c (CAP_TABLES s ! k) = Some (i, t) \<and>
       s' = set_table (CURRENT s) (cap_table_free idx ((CAP_TABLES s)[k := t] ! CURRENT s)) (set_table k t s))"
  using assms
  by (auto simp: cap_transfer_def Let_def store_cap_def ipc_codes split: option.splits if_splits prod.splits)

lemma duplicate_cases:
  assumes "cap_duplicate d idx s = (r, s')"
  shows "s' = s \<and> r \<noteq> IPC_OK \<or>
    (\<exists>c k i t. r = IPC_OK \<and> cap_table_get (CAP_TABLES s ! CURRENT s) idx = Some c \<and>
       slot_for_task s d = Some k \<and> (uid (TASKS s ! CURRENT s) = 0 \<or> uid (TASKS s ! CURRENT s) = uid (TASKS s ! k)) \<and>
       store_cap c (CAP_TABLES s ! k) = Some (i, t) \<and> s' = set_table k t s)"
  using assms
  by (auto simp: cap_duplicate_def cap_get_def Let_def store_cap_def ipc_codes split: option.splits if_splits prod.splits)

lemma duplicate_adds:
  assumes ok: "caps_ok s" and k: "k < MAX_TASKS" and c: "cap_is_valid c"
    and st: "store_cap c (CAP_TABLES s ! k) = Some (i, t)"
  shows "all_caps (set_table k t s) = add_mset c (all_caps s)"
  using all_caps_set_table [of k s t] ct.store_adds [OF st] c ok k by (simp add: caps_ok_def)

lemma in_occupied_store:
  "store_cap e t = Some (i, t') \<Longrightarrow> c \<in># ct.occupied t' \<Longrightarrow> c = e \<or> c \<in># ct.occupied t"
  using ct.store_Some [of e t i t'] ct.occupied_update [of i t e]
  by (cases "cap_is_valid e") auto

lemma in_occupied_free: "c \<in># ct.occupied (cap_table_free idx t) \<Longrightarrow> c \<in># ct.occupied t"
proof -
  assume a: "c \<in># ct.occupied (cap_table_free idx t)"
  show ?thesis
  proof (cases "unat idx < MAX_CAPS_PER_PROCESS \<and> unat idx < length t")
    case True
    then have "ct.occupied t = ct.occupied (cap_table_free idx t) +
        (if cap_is_valid (t ! unat idx) then {#t ! unat idx#} else {#})"
      using ct.occupied_update [of "unat idx" t cap_null] by (auto simp: cap_table_free_def Let_def)
    then show ?thesis using a by simp
  next
    case False
    then have "cap_table_free idx t = t" by (auto simp: cap_table_free_def Let_def not_less list_update_beyond)
    then show ?thesis using a by simp
  qed
qed

lemma in_occupied_get:
  assumes "cap_table_get t idx = Some c" and "length t = MAX_CAPS_PER_PROCESS"
  shows "c \<in># ct.occupied t"
  using cap_table_get_SomeD [OF assms(1)] assms(2) by (auto simp: ct.occupied_def)

section \<open>Properties\<close>

text \<open>C25: \<open>transfer\<close> moves a capability: when it succeeds, the capabilities of the whole system are
  the same as before (none forged, none lost, no right added), the source slot is empty and
  the destination task holds the capability; when it fails nothing changes.\<close>

theorem transfer_conserves:
  assumes ok: "caps_ok s" and run: "cap_transfer d idx s = (r, s')"
  shows "all_caps s' = all_caps s \<and> (r \<noteq> IPC_OK \<longrightarrow> s' = s) \<and>
    (r = IPC_OK \<longrightarrow> cap_get s' idx = None \<and>
      (\<exists>c k. cap_get s idx = Some c \<and> slot_for_task s d = Some k \<and> c \<in># ct.occupied (CAP_TABLES s' ! k)))"
proof (cases "r = IPC_OK")
  case r: True
  let ?cur = "CURRENT s" let ?T = "CAP_TABLES s"
  obtain c k i t where g: "cap_table_get (?T ! ?cur) idx = Some c" and sl: "slot_for_task s d = Some k"
    and st: "store_cap c (?T ! k) = Some (i, t)"
    and s'0: "s' = set_table ?cur (cap_table_free idx (?T[k := t] ! ?cur)) (set_table k t s)"
    using transfer_cases [OF run] r by auto
  let ?s1 = "set_table k t s" let ?u = "?T[k := t] ! ?cur"
  note s' = s'0
  have k: "k < MAX_TASKS" using slot_for_task_SomeD [OF sl] by simp
  have len: "length ?T = MAX_TASKS" "?cur < MAX_TASKS" "length (?T ! j) = MAX_CAPS_PER_PROCESS" if "j < MAX_TASKS" for j
    using ok that by (auto simp: caps_ok_def)
  have cv: "cap_is_valid c" using cap_table_get_SomeD [OF g] by simp
  have gu: "cap_table_get ?u idx = Some c"
    using g store_keeps_get [OF st] len(1,2) [OF k] by (cases "k = ?cur") auto
  have lu: "length ?u = MAX_CAPS_PER_PROCESS"
    using len [OF k] len(3) [of ?cur] ct.store_keeps(1) [OF st] by (cases "k = ?cur") auto
  note fr = occupied_free [OF gu lu]
  have "all_caps ?s1 = add_mset c (all_caps s)" by (rule duplicate_adds [OF ok k cv st])
  moreover have "ct.occupied ?u + all_caps s' = ct.occupied (cap_table_free idx ?u) + all_caps ?s1"
    unfolding s' using all_caps_set_table [of ?cur ?s1] len(1,2) [OF k] by simp
  ultimately have "all_caps s' = all_caps s" using fr by simp
  moreover have tab: "CAP_TABLES s' ! ?cur = cap_table_free idx ?u" using s' len(1,2) [OF k] by simp
  then have "cap_get s' idx = None"
    using s' cap_table_get_SomeD [OF gu] lu
    by (simp add: cap_get_def cap_table_get_def cap_table_free_def Let_def)
  moreover have "c \<in># ct.occupied (CAP_TABLES s' ! k)"
  proof (cases "k = ?cur")
    case True
    have "ct.occupied t = add_mset c (ct.occupied (?T ! k))" by (rule ct.store_adds [OF st]) (use cv in simp)
    moreover have "?u = t" using True len(1) [OF k] k by simp
    ultimately have "ct.occupied (cap_table_free idx ?u) = ct.occupied (?T ! k)" using fr by simp
    then show ?thesis using in_occupied_get [OF g len(3) [OF len(2) [OF k]]] True tab by simp
  next
    case False
    then have "CAP_TABLES s' ! k = t" using s' len(1) [OF k] k by simp
    then show ?thesis using ct.store_adds [OF st] cv by simp
  qed
  ultimately show ?thesis using r g sl by (auto simp: cap_get_def)
qed (use transfer_cases [OF run] in auto)

text \<open>C2: Capabilities do not cross between users: a task that is not root, whatever it transfers or
  duplicates, leaves every user with no capability that user's tasks did not already hold, and
  no combination of the two operations adds a right to a capability.\<close>

theorem caps_confined:
  assumes ok: "caps_ok s" and cur: "state (TASKS s ! CURRENT s) \<noteq> Free" "uid (TASKS s ! CURRENT s) \<noteq> 0"
    and run: "cap_transfer d idx s = (r, s') \<or> cap_duplicate d idx s = (r, s')"
  shows "caps_of_user s' u \<subseteq> caps_of_user s u"
proof (cases "s' = s")
  case False
  let ?cur = "CURRENT s" let ?T = "CAP_TABLES s"
  obtain c k i t where H: "cap_table_get (?T ! ?cur) idx = Some c" "slot_for_task s d = Some k"
      "uid (TASKS s ! ?cur) = uid (TASKS s ! k)" "store_cap c (?T ! k) = Some (i, t)"
    and s': "s' = set_table k t s \<or>
      s' = set_table ?cur (cap_table_free idx (?T[k := t] ! ?cur)) (set_table k t s)"
    using run transfer_cases [of d idx s r s'] duplicate_cases [of d idx s r s'] False cur(2) by metis
  have len: "length ?T = MAX_TASKS" "?cur < MAX_TASKS" "length (?T ! ?cur) = MAX_CAPS_PER_PROCESS"
    using ok by (auto simp: caps_ok_def)
  note k = slot_for_task_SomeD [OF H(2)]
  have sub: "x \<in># ct.occupied (?T ! j) \<or> x = c \<and> j = k" if "x \<in># ct.occupied (CAP_TABLES s' ! j)" for x j
  proof -
    have one: "x \<in># ct.occupied (?T ! j) \<or> x = c \<and> j = k" if "x \<in># ct.occupied (?T[k := t] ! j)"
      using that in_occupied_store [OF H(4)] len(1) k by (cases "j = k") auto
    from s' show ?thesis
    proof
      assume "s' = set_table k t s"
      then show ?thesis using that one by simp
    next
      assume "s' = set_table ?cur (cap_table_free idx (?T[k := t] ! ?cur)) (set_table k t s)"
      then have "x \<in># ct.occupied (?T[k := t] ! j)"
        using that in_occupied_free [of x idx] len(1,2) by (cases "j = ?cur") auto
      then show ?thesis by (rule one)
    qed
  qed
  have t': "TASKS s' = TASKS s" using s' by auto
  have "c \<in># ct.occupied (?T ! ?cur)" by (rule in_occupied_get [OF H(1) len(3)])
  then show ?thesis
    unfolding caps_of_user_def t' using sub H(3) cur(1) len(2) by (auto dest!: sub)
qed simp

text \<open>Two tasks of one user, the running one with a capability in slot 0.\<close>

definition demo_cap :: cap where
  "demo_cap = \<lparr>cap_type = 1, server_id = 7, rights = 1, cap_data = 0\<rparr>"

definition demo_kernel :: kernel where
  "demo_kernel = \<lparr>TASKS = [task_free\<lparr>state := Running, task_id := 1, uid := 5\<rparr>,
       task_free\<lparr>state := Ready, task_id := 2, uid := 5\<rparr>] @ replicate 30 task_free,
     CURRENT = 0, NEXT_ID = 3, TICK_COUNT = 0, CR3 = 0, KERNEL_PML4 = 4096, SYS_KRSP = 0,
     SYS_URSAVE = 0, FPU = [], FPU_MEM = (\<lambda>_. []),
     CAP_TABLES = cap_table_new[0 := demo_cap] # replicate 31 cap_table_new,
     PENDING = replicate 32 message_empty, CONSOLE_CLIENT_CAP = 0\<rparr>"

lemma demo_kernel_sel:
  "CURRENT demo_kernel = 0" "state (TASKS demo_kernel ! 0) = Running" "uid (TASKS demo_kernel ! 0) = 5"
  "state (TASKS demo_kernel ! Suc 0) = Ready" "task_id (TASKS demo_kernel ! 0) = 1"
  "task_id (TASKS demo_kernel ! Suc 0) = 2" "uid (TASKS demo_kernel ! Suc 0) = 5"
  "CAP_TABLES demo_kernel ! 0 = cap_table_new[0 := demo_cap]" "CAP_TABLES demo_kernel ! Suc 0 = cap_table_new"
  by (simp_all add: demo_kernel_def task_free_def)

lemma demo_kernel_ok: "caps_ok demo_kernel"
  by (auto simp: caps_ok_def demo_kernel_def MAX_TASKS_def cap_table_new_def)

lemma demo_transfer: "fst (cap_transfer 2 0 demo_kernel) = IPC_OK"
proof -
  have "slot_for_task demo_kernel 2 = Some 1" unfolding slot_for_task_def
    by (rule find_idx_eq_SomeI) (auto simp: demo_kernel_sel MAX_TASKS_def)
  moreover have "cap_table_get (CAP_TABLES demo_kernel ! 0) 0 = Some demo_cap"
    by (simp add: demo_kernel_sel cap_table_get_def cap_table_new_def MAX_CAPS_PER_PROCESS_def demo_cap_def cap_is_valid_def)
  moreover have "find_idx 64 (\<lambda>i. \<not> cap_is_valid (cap_table_new ! i)) = Some 0"
    by (rule find_idx_eq_SomeI) (simp_all add: cap_table_new_def MAX_CAPS_PER_PROCESS_def)
  ultimately show ?thesis
    by (simp add: cap_transfer_def Let_def demo_kernel_sel cap_table_alloc_def)
      (simp add: cap_table_new_def MAX_CAPS_PER_PROCESS_def)
qed

theorem transfer_conserves_witness:
  "fst (cap_transfer 2 0 demo_kernel) = IPC_OK \<and>
    all_caps (snd (cap_transfer 2 0 demo_kernel)) = all_caps demo_kernel \<and>
    cap_get (snd (cap_transfer 2 0 demo_kernel)) 0 = None"
  using transfer_conserves [OF demo_kernel_ok, of 2 0] demo_transfer
  by (metis prod.collapse)

theorem caps_confined_witness:
  "caps_of_user (snd (cap_transfer 2 0 demo_kernel)) 5 \<subseteq> caps_of_user demo_kernel 5"
  by (rule caps_confined [OF demo_kernel_ok, of 2 0 "fst (cap_transfer 2 0 demo_kernel)"])
    (simp_all add: demo_kernel_sel)

end
