(* ===== verification/Ipc.thy ===== *)
theory Ipc
  imports Capabilities
begin

text \<open>
  Message passing: the capability-checked calls of \<open>kernel/src/ipc.rs\<close> and the older
  identifier-based calls of \<open>kernel/src/scheduler/ipc_sched.rs\<close>. A call that has to wait marks
  the task as blocked and calls \<open>yield_now\<close>; it is modelled by its part up to that point, with
  the outcome \<open>Blocked\<close>, and, where the source does something after the task runs again, by a
  \<open>resume\<close> function for the rest.
\<close>

section \<open>Outcomes\<close>

datatype 'r outcome = Done 'r | Blocked

definition ANY_PARTNER :: u64 where "ANY_PARTNER = 0"

text \<open>The steps shared by all blocking calls: the task waits in the given state for the given
  partner, and a ring-3 task saves its user stack pointer.\<close>

definition save_ursave :: "'a sched_scheme \<Rightarrow> task \<Rightarrow> task" where
  "save_ursave s t = (if ring3 t then t\<lparr>sys_ursave := SYS_URSAVE s\<rparr> else t)"

section \<open>Capability-checked calls\<close>

definition deliver_message :: "nat \<Rightarrow> u64 \<Rightarrow> message \<Rightarrow> 'a kernel_scheme \<Rightarrow> 'a kernel_scheme" where
  "deliver_message dst_slot src_id msg s =
     upd_task dst_slot (\<lambda>t. t\<lparr>ipc_partner := src_id, pending_msg := msg, ipc_val := 1\<rparr>) s"

definition block_send :: "nat \<Rightarrow> u64 \<Rightarrow> message \<Rightarrow> 'a kernel_scheme \<Rightarrow> 'a kernel_scheme" where
  "block_send cur target_id msg s =
     upd_task cur (\<lambda>t. save_ursave s (t\<lparr>state := BlockedSend, ipc_partner := target_id, ipc_msg := msg, ipc_val := 1\<rparr>)) s"

definition accepts_from :: "task \<Rightarrow> u64 \<Rightarrow> bool" where
  "accepts_from t src_id \<longleftrightarrow> state t = BlockedRecv \<and> (ipc_partner t = src_id \<or> ipc_partner t = ANY_PARTNER)"

definition send_with_cap :: "u16 \<Rightarrow> message \<Rightarrow> 'a kernel_scheme \<Rightarrow> int outcome \<times> 'a kernel_scheme" where
  "send_with_cap cap_idx msg s =
     (case cap_get s cap_idx of
        None \<Rightarrow> (Done IPC_ERR_BAD_CAP, s)
      | Some c \<Rightarrow>
          if cap_type c \<noteq> cap_type_code IpcTarget \<or> rights c AND CAP_SEND = 0 then (Done IPC_ERR_DENIED, s)
          else
            (let target_id = server_id c; cur = CURRENT s; cur_id = task_id (TASKS s ! cur) in
             case find_idx MAX_TASKS (\<lambda>i. task_id (TASKS s ! i) = target_id \<and> state (TASKS s ! i) \<noteq> Free) of
               None \<Rightarrow> (Done IPC_ERR_NO_SERVER, s)
             | Some dst_slot \<Rightarrow>
                 if dst_slot = cur then (Done IPC_OK, s\<lparr>PENDING := (PENDING s)[cur := msg]\<rparr>)
                 else if accepts_from (TASKS s ! dst_slot) cur_id then
                   (Done IPC_OK, deliver_message dst_slot cur_id msg (upd_task dst_slot (\<lambda>t. t\<lparr>state := Ready\<rparr>) s))
                 else (Blocked, block_send cur target_id msg s)))"

text \<open>After \<open>yield_now\<close> returns in the sender, the call returns \<open>IPC_OK\<close>.\<close>

definition send_resume :: int where "send_resume = IPC_OK"

definition recv_with_cap :: "u16 \<Rightarrow> message \<Rightarrow> 'a kernel_scheme \<Rightarrow> (int \<times> message) outcome \<times> 'a kernel_scheme" where
  "recv_with_cap cap_idx buf s =
     (case cap_get s cap_idx of
        None \<Rightarrow> (Done (IPC_ERR_BAD_CAP, buf), s)
      | Some c \<Rightarrow>
          if cap_type c \<noteq> cap_type_code IpcTarget \<or> rights c AND CAP_RECV = 0 then (Done (IPC_ERR_DENIED, buf), s)
          else
            (let cur = CURRENT s; cur_id = task_id (TASKS s ! cur) in
             if msg_type (PENDING s ! cur) \<noteq> 0 then
               (Done (IPC_OK, PENDING s ! cur), s\<lparr>PENDING := (PENDING s)[cur := message_empty]\<rparr>)
             else
               (case find_idx MAX_TASKS (\<lambda>i. state (TASKS s ! i) = BlockedSend \<and> ipc_partner (TASKS s ! i) = cur_id) of
                  Some i \<Rightarrow> (Done (IPC_OK, ipc_msg (TASKS s ! i)), upd_task i (\<lambda>t. t\<lparr>state := Ready\<rparr>) s)
                | None \<Rightarrow>
                    if ipc_val (TASKS s ! cur) \<noteq> 0 then
                      (Done (IPC_OK, pending_msg (TASKS s ! cur)), upd_task cur (\<lambda>t. t\<lparr>ipc_val := 0\<rparr>) s)
                    else
                      (Blocked, upd_task cur (\<lambda>t. save_ursave s (t\<lparr>state := BlockedRecv, ipc_partner := ANY_PARTNER\<rparr>)) s))))"

definition recv_resume :: "message \<Rightarrow> 'a kernel_scheme \<Rightarrow> (int \<times> message) \<times> 'a kernel_scheme" where
  "recv_resume buf s =
     (let cur = CURRENT s in
      if ipc_val (TASKS s ! cur) \<noteq> 0
      then ((IPC_OK, pending_msg (TASKS s ! cur)), upd_task cur (\<lambda>t. t\<lparr>ipc_val := 0\<rparr>) s)
      else ((IPC_ERR_TIMEOUT, buf), s))"

definition send_inner :: "nat \<Rightarrow> message \<Rightarrow> 'a kernel_scheme \<Rightarrow> int outcome \<times> 'a kernel_scheme" where
  "send_inner dst_slot msg s =
     (if dst_slot \<ge> MAX_TASKS then (Done IPC_ERR_NO_SERVER, s)
      else if state (TASKS s ! dst_slot) = Free then (Done IPC_ERR_NO_SERVER, s)
      else
        (let cur = CURRENT s; cur_id = task_id (TASKS s ! cur); dst_id = task_id (TASKS s ! dst_slot) in
         if accepts_from (TASKS s ! dst_slot) cur_id then
           (Done IPC_OK, deliver_message dst_slot cur_id msg (upd_task dst_slot (\<lambda>t. t\<lparr>state := Ready\<rparr>) s))
         else (Blocked, block_send cur dst_id msg s)))"

text \<open>\<open>broadcast\<close> from slot \<open>i\<close> on. When a send has to wait, the result is the slot at which the
  loop continues once the task runs again; \<open>None\<close> is the end of the loop.\<close>

function broadcast_from :: "nat \<Rightarrow> message \<Rightarrow> 'a kernel_scheme \<Rightarrow> nat option \<times> 'a kernel_scheme" where
  "broadcast_from i msg s =
     (if i \<ge> MAX_TASKS then (None, s)
      else if state (TASKS s ! i) \<noteq> Free \<and> task_id (TASKS s ! i) \<noteq> 0 then
        (case send_inner i msg s of
           (Done _, s') \<Rightarrow> broadcast_from (Suc i) msg s'
         | (Blocked, s') \<Rightarrow> (Some (Suc i), s'))
      else broadcast_from (Suc i) msg s)"
  by pat_completeness auto
termination
  by (relation "measure (\<lambda>(i, msg, s). MAX_TASKS - i)") auto

definition broadcast :: "message \<Rightarrow> 'a kernel_scheme \<Rightarrow> nat option \<times> 'a kernel_scheme" where
  "broadcast msg s = broadcast_from 0 msg s"

definition create_server_cap :: "u64 \<Rightarrow> u16 \<Rightarrow> 'a kernel_scheme \<Rightarrow> u16 option \<times> 'a kernel_scheme" where
  "create_server_cap tid server_port s =
     cap_alloc_for tid (cap_type_code IpcTarget) tid (CAP_SEND OR CAP_RECV) (ucast server_port) s"

definition create_client_cap :: "u64 \<Rightarrow> u64 \<Rightarrow> 'a kernel_scheme \<Rightarrow> u16 option \<times> 'a kernel_scheme" where
  "create_client_cap client_task_id server_task_id s =
     cap_alloc_for client_task_id (cap_type_code IpcTarget) server_task_id CAP_SEND 0 s"

definition ipc_init :: "'a kernel_scheme \<Rightarrow> 'a kernel_scheme" where
  "ipc_init s = snd (create_server_cap 0 PORT_KERNEL (cap_init s))"

definition init_console_client :: "u64 \<Rightarrow> 'a kernel_scheme \<Rightarrow> u16 option \<times> 'a kernel_scheme" where
  "init_console_client server_tid s =
     (case create_client_cap 0 server_tid s of
        (Some c, s') \<Rightarrow> (Some c, s'\<lparr>CONSOLE_CLIENT_CAP := c\<rparr>)
      | (None, s') \<Rightarrow> (None, s'))"

text \<open>\<open>console_write\<close>; without a console server the text goes to the serial port.\<close>

definition console_message :: "bytes \<Rightarrow> message" where
  "console_message txt =
     (let len = min (length txt) PAYLOAD_SIZE in
      message_empty\<lparr>msg_type := msg_type_code Log, dst_port := PORT_CONSOLE,
        msg_data := splice_at (msg_data message_empty) 0 (take len txt), msg_length := of_nat len\<rparr>)"

definition console_write :: "bytes \<Rightarrow> 'a kernel_scheme \<Rightarrow> int outcome \<times> 'a kernel_scheme" where
  "console_write txt s =
     (let c = CONSOLE_CLIENT_CAP s in
      if c = 0 then (Done IPC_OK, s) else send_with_cap c (console_message txt) s)"

section \<open>Identifier-based calls\<close>

definition waits_for :: "TaskState \<Rightarrow> task \<Rightarrow> u64 \<Rightarrow> bool" where
  "waits_for st t i \<longleftrightarrow> state t = st \<and> (ipc_partner t = IPC_ANY \<or> ipc_partner t = i)"

definition try_match_send :: "nat \<Rightarrow> u64 \<Rightarrow> u64 \<Rightarrow> 'a sched_scheme \<Rightarrow> bool \<times> 'a sched_scheme" where
  "try_match_send cur dst_id msg_ptr s =
     (case find_task s dst_id of
        Some dst_slot \<Rightarrow>
          if waits_for BlockedRecv (TASKS s ! dst_slot) (task_id (TASKS s ! cur))
          then (True, upd_task dst_slot (\<lambda>t. t\<lparr>ipc_val := msg_ptr, state := Ready\<rparr>) s)
          else (False, s)
      | None \<Rightarrow> (False, s))"

definition try_match_send_u64 :: "nat \<Rightarrow> u64 \<Rightarrow> u64 \<Rightarrow> 'a sched_scheme \<Rightarrow> bool \<times> 'a sched_scheme" where
  "try_match_send_u64 cur dst_id val s =
     (case find_task s dst_id of
        Some dst_slot \<Rightarrow>
          if waits_for BlockedRecv (TASKS s ! dst_slot) (task_id (TASKS s ! cur))
          then (True, upd_task dst_slot (\<lambda>t. t\<lparr>ipc_val := val, state := Ready\<rparr>) s)
          else (False, s)
      | None \<Rightarrow> (False, s))"

definition try_match_recv :: "nat \<Rightarrow> u64 \<Rightarrow> 'a sched_scheme \<Rightarrow> u64 option \<times> 'a sched_scheme" where
  "try_match_recv cur src_id s =
     (let cur_id = task_id (TASKS s ! cur);
          maybe_slot =
            (if src_id = 0 then find_idx MAX_TASKS (\<lambda>i. waits_for BlockedSend (TASKS s ! i) cur_id)
             else (case find_task s src_id of
                     Some k \<Rightarrow> if waits_for BlockedSend (TASKS s ! k) cur_id then Some k else None
                   | None \<Rightarrow> None))
      in case maybe_slot of
           Some k \<Rightarrow> (Some (ipc_val (TASKS s ! k)), upd_task k (\<lambda>t. t\<lparr>state := Ready\<rparr>) s)
         | None \<Rightarrow> (None, s))"

definition try_match_recv_u64 :: "nat \<Rightarrow> 'a sched_scheme \<Rightarrow> u64 option \<times> 'a sched_scheme" where
  "try_match_recv_u64 cur s =
     (case find_idx MAX_TASKS (\<lambda>i. waits_for BlockedSend (TASKS s ! i) (task_id (TASKS s ! cur))) of
        Some k \<Rightarrow> (Some (ipc_val (TASKS s ! k)), upd_task k (\<lambda>t. t\<lparr>state := Ready\<rparr>) s)
      | None \<Rightarrow> (None, s))"

definition ipc_send :: "u64 \<Rightarrow> u64 \<Rightarrow> 'a sched_scheme \<Rightarrow> u64 outcome \<times> 'a sched_scheme" where
  "ipc_send dst_id msg_ptr s =
     (let cur = CURRENT s in
      if find_task s dst_id = None then (Done IPC_ERR, s)
      else
        (let (ok, s1) = try_match_send cur dst_id msg_ptr s in
         if ok then (Done 0, s1)
         else (Blocked, upd_task cur (\<lambda>t. save_ursave s1
                 (t\<lparr>state := BlockedSend, ipc_partner := dst_id, ipc_val := msg_ptr\<rparr>)) s1)))"

definition ipc_send_u64 :: "u64 \<Rightarrow> u64 \<Rightarrow> 'a sched_scheme \<Rightarrow> u64 outcome \<times> 'a sched_scheme" where
  "ipc_send_u64 dst_id val s =
     (let cur = CURRENT s in
      if find_task s dst_id = None then (Done IPC_ERR, s)
      else
        (let (ok, s1) = try_match_send_u64 cur dst_id val s in
         if ok then (Done 0, s1)
         else (Blocked, upd_task cur (\<lambda>t. save_ursave s1
                 (t\<lparr>state := BlockedSend, ipc_partner := dst_id, ipc_val := val\<rparr>)) s1)))"

definition ipc_recv :: "u64 \<Rightarrow> 'a sched_scheme \<Rightarrow> u64 outcome \<times> 'a sched_scheme" where
  "ipc_recv src_id s =
     (let cur = CURRENT s in
      case try_match_recv cur src_id s of
        (Some msg_ptr, s1) \<Rightarrow> (Done msg_ptr, s1)
      | (None, s1) \<Rightarrow> (Blocked, upd_task cur (\<lambda>t. save_ursave s1
            (t\<lparr>state := BlockedRecv, ipc_partner := (if src_id = 0 then IPC_ANY else src_id)\<rparr>)) s1))"

definition ipc_recv_u64 :: "'a sched_scheme \<Rightarrow> u64 outcome \<times> 'a sched_scheme" where
  "ipc_recv_u64 s =
     (let cur = CURRENT s in
      case try_match_recv_u64 cur s of
        (Some msg_ptr, s1) \<Rightarrow> (Done msg_ptr, s1)
      | (None, s1) \<Rightarrow> (Blocked, upd_task cur (\<lambda>t. save_ursave s1
            (t\<lparr>state := BlockedRecv, ipc_partner := IPC_ANY\<rparr>)) s1))"

text \<open>After \<open>yield_now\<close> returns in a receiver, the call returns the value left in its task.\<close>

definition ipc_recv_resume :: "'a sched_scheme \<Rightarrow> u64" where
  "ipc_recv_resume s = ipc_val (TASKS s ! CURRENT s)"

section \<open>Lemmas\<close>

lemma upd_task_kernel [simp]:
  "CAP_TABLES (upd_task i f s) = CAP_TABLES s" "PENDING (upd_task i f s) = PENDING s"
  "CONSOLE_CLIENT_CAP (upd_task i f s) = CONSOLE_CLIENT_CAP s"
  by (simp_all add: upd_task_def)

lemma cap_get_upd_task [simp]: "cap_get (upd_task i f s) idx = cap_get s idx"
  by (simp add: cap_get_def)

lemma save_ursave_sel [simp]:
  "state (save_ursave s t) = state t" "ipc_partner (save_ursave s t) = ipc_partner t"
  "ipc_msg (save_ursave s t) = ipc_msg t" "ipc_val (save_ursave s t) = ipc_val t"
  "pending_msg (save_ursave s t) = pending_msg t" "task_id (save_ursave s t) = task_id t"
  "uid (save_ursave s t) = uid t"
  by (simp_all add: save_ursave_def)

text \<open>The two ways a send gets past its checks.\<close>

definition may_send :: "'a kernel_scheme \<Rightarrow> u16 \<Rightarrow> cap \<Rightarrow> bool" where
  "may_send s idx c \<longleftrightarrow> cap_get s idx = Some c \<and> cap_type c = cap_type_code IpcTarget \<and> rights c AND CAP_SEND \<noteq> 0"

definition may_recv :: "'a kernel_scheme \<Rightarrow> u16 \<Rightarrow> bool" where
  "may_recv s idx \<longleftrightarrow> (\<exists>c. cap_get s idx = Some c \<and> cap_type c = cap_type_code IpcTarget \<and> rights c AND CAP_RECV \<noteq> 0)"

definition target_slot :: "'a kernel_scheme \<Rightarrow> u64 \<Rightarrow> nat option" where
  "target_slot s i = find_idx MAX_TASKS (\<lambda>k. task_id (TASKS s ! k) = i \<and> state (TASKS s ! k) \<noteq> Free)"

lemma send_allowed:
  assumes "may_send s idx c"
  shows "send_with_cap idx msg s =
    (case target_slot s (server_id c) of
       None \<Rightarrow> (Done IPC_ERR_NO_SERVER, s)
     | Some k \<Rightarrow>
         if k = CURRENT s then (Done IPC_OK, s\<lparr>PENDING := (PENDING s)[CURRENT s := msg]\<rparr>)
         else if accepts_from (TASKS s ! k) (task_id (TASKS s ! CURRENT s)) then
           (Done IPC_OK, deliver_message k (task_id (TASKS s ! CURRENT s)) msg (upd_task k (\<lambda>t. t\<lparr>state := Ready\<rparr>) s))
         else (Blocked, block_send (CURRENT s) (server_id c) msg s))"
  using assms by (simp add: send_with_cap_def may_send_def target_slot_def Let_def)

lemma send_refused:
  assumes "\<nexists>c. may_send s idx c"
  shows "send_with_cap idx msg s = (Done (if cap_get s idx = None then IPC_ERR_BAD_CAP else IPC_ERR_DENIED), s)"
  using assms by (auto simp: send_with_cap_def may_send_def split: option.split)

lemma recv_allowed:
  assumes "may_recv s idx"
  shows "recv_with_cap idx buf s =
    (if msg_type (PENDING s ! CURRENT s) \<noteq> 0 then
       (Done (IPC_OK, PENDING s ! CURRENT s), s\<lparr>PENDING := (PENDING s)[CURRENT s := message_empty]\<rparr>)
     else case find_idx MAX_TASKS (\<lambda>i. state (TASKS s ! i) = BlockedSend \<and>
           ipc_partner (TASKS s ! i) = task_id (TASKS s ! CURRENT s)) of
       Some i \<Rightarrow> (Done (IPC_OK, ipc_msg (TASKS s ! i)), upd_task i (\<lambda>t. t\<lparr>state := Ready\<rparr>) s)
     | None \<Rightarrow>
         if ipc_val (TASKS s ! CURRENT s) \<noteq> 0 then
           (Done (IPC_OK, pending_msg (TASKS s ! CURRENT s)), upd_task (CURRENT s) (\<lambda>t. t\<lparr>ipc_val := 0\<rparr>) s)
         else (Blocked, upd_task (CURRENT s) (\<lambda>t. save_ursave s (t\<lparr>state := BlockedRecv, ipc_partner := ANY_PARTNER\<rparr>)) s))"
  using assms by (auto simp: recv_with_cap_def may_recv_def Let_def)

lemma block_send_task:
  assumes "cur < length (TASKS s)"
  shows "TASKS (block_send cur i msg s) ! j =
    (if j = cur then save_ursave s ((TASKS s ! cur)\<lparr>state := BlockedSend, ipc_partner := i, ipc_msg := msg, ipc_val := 1\<rparr>)
     else TASKS s ! j)"
  using assms by (simp add: block_send_def upd_task_nth)

lemma deliver_task:
  assumes "k < length (TASKS s)"
  shows "TASKS (deliver_message k i msg (upd_task k (\<lambda>t. t\<lparr>state := Ready\<rparr>) s)) ! j =
    (if j = k then (TASKS s ! k)\<lparr>state := Ready, ipc_partner := i, pending_msg := msg, ipc_val := 1\<rparr>
     else TASKS s ! j)"
  using assms by (simp add: deliver_message_def upd_task_nth)

lemma block_send_kernel [simp]:
  "CAP_TABLES (block_send cur i msg s) = CAP_TABLES s" "PENDING (block_send cur i msg s) = PENDING s"
  "CURRENT (block_send cur i msg s) = CURRENT s"
  by (simp_all add: block_send_def)

section \<open>Properties\<close>


text \<open>A receiver that is already waiting gets the message: the send completes at once, the
  receiver becomes ready, and when it runs again its call returns \<open>IPC_OK\<close> with exactly the
  message sent.\<close>

theorem receiver_first:
  assumes ok: "caps_ok s" and c: "may_send s idx c" and k: "target_slot s (server_id c) = Some k" "k \<noteq> CURRENT s"
    and w: "accepts_from (TASKS s ! k) (task_id (TASKS s ! CURRENT s))"
  shows "fst (send_with_cap idx msg s) = Done IPC_OK \<and>
    state (TASKS (snd (send_with_cap idx msg s)) ! k) = Ready \<and>
    fst (recv_resume buf ((snd (send_with_cap idx msg s))\<lparr>CURRENT := k\<rparr>)) = (IPC_OK, msg)"
proof -
  have "k < length (TASKS s)"
    using find_idx_SomeD(1) [OF k(1) [unfolded target_slot_def]] ok by (simp add: caps_ok_def)
  note d = deliver_task [OF this]
  show ?thesis using send_allowed [OF c] k w d by (simp add: recv_resume_def)
qed

text \<open>A sender that comes first waits, and the message is handed over intact: when the target
  then receives, and no other task is waiting to send to it, the call returns \<open>IPC_OK\<close> with
  exactly the message and the sender becomes ready.\<close>

theorem sender_first:
  assumes ok: "caps_ok s" and c: "may_send s idx c" and run: "send_with_cap idx msg s = (Blocked, s1)"
    and k: "target_slot s (server_id c) = Some k"
    and r: "may_recv (s1\<lparr>CURRENT := k\<rparr>) ridx" and p: "msg_type (PENDING s ! k) = 0"
    and alone: "\<And>i. i < MAX_TASKS \<Longrightarrow> i \<noteq> CURRENT s \<Longrightarrow>
      \<not> (state (TASKS s ! i) = BlockedSend \<and> ipc_partner (TASKS s ! i) = server_id c)"
  shows "recv_with_cap ridx buf (s1\<lparr>CURRENT := k\<rparr>) =
      (Done (IPC_OK, msg), upd_task (CURRENT s) (\<lambda>t. t\<lparr>state := Ready\<rparr>) (s1\<lparr>CURRENT := k\<rparr>))"
proof -
  have len: "CURRENT s < length (TASKS s)" "CURRENT s < MAX_TASKS" using ok by (auto simp: caps_ok_def)
  have kk: "k < MAX_TASKS" "task_id (TASKS s ! k) = server_id c"
    using find_idx_SomeD(1,2) [OF k [unfolded target_slot_def]] by auto
  have s1: "s1 = block_send (CURRENT s) (server_id c) msg s" and ne: "k \<noteq> CURRENT s"
    using send_allowed [OF c, of msg] run k by (auto split: if_splits)
  note b = block_send_task [OF len(1), of "server_id c" msg]
  have "find_idx MAX_TASKS (\<lambda>i. state (TASKS s1 ! i) = BlockedSend \<and> ipc_partner (TASKS s1 ! i) = server_id c) = Some (CURRENT s)"
    by (rule find_idx_eq_SomeI) (use len alone in \<open>auto simp: s1 b\<close>)
  moreover have "task_id (TASKS s1 ! k) = server_id c" "ipc_msg (TASKS s1 ! CURRENT s) = msg" "PENDING s1 = PENDING s"
    using kk ne by (simp_all add: s1 b)
  ultimately show ?thesis using recv_allowed [OF r, of buf] p by simp
qed

text \<open>A waiting send leaves a stale flag: after its message has been taken, the sender's own next
  receive returns \<open>IPC_OK\<close> at once, with whatever message was delivered to it last (or the
  empty message), although no task has sent it anything; the source sets \<open>ipc_val\<close> in the
  sender and nothing resets it.\<close>

theorem phantom_message:
  assumes ok: "caps_ok s" and c: "may_send s idx c" and run: "send_with_cap idx msg s = (Blocked, s1)"
    and r: "may_recv s1 ridx" and p: "msg_type (PENDING s ! CURRENT s) = 0"
    and nobody: "\<And>i. i < MAX_TASKS \<Longrightarrow> \<not> (state (TASKS s ! i) = BlockedSend \<and>
      ipc_partner (TASKS s ! i) = task_id (TASKS s ! CURRENT s))"
    and other: "server_id c \<noteq> task_id (TASKS s ! CURRENT s)"
  shows "fst (recv_with_cap ridx buf (upd_task (CURRENT s) (\<lambda>t. t\<lparr>state := Running\<rparr>) s1)) =
      Done (IPC_OK, pending_msg (TASKS s ! CURRENT s))"
proof -
  have len: "CURRENT s < length (TASKS s)" using ok by (auto simp: caps_ok_def)
  obtain k where s1: "s1 = block_send (CURRENT s) (server_id c) msg s"
    using send_allowed [OF c, of msg] run by (auto split: if_splits option.splits)
  let ?s = "upd_task (CURRENT s) (\<lambda>t. t\<lparr>state := Running\<rparr>) s1"
  note b = block_send_task [OF len, of "server_id c" msg]
  have l1: "CURRENT s < length (TASKS s1)" using len by (simp add: s1 block_send_def)
  have t: "TASKS ?s ! j = (if j = CURRENT s then (TASKS s1 ! j)\<lparr>state := Running\<rparr> else TASKS s ! j)" for j
    using l1 by (simp add: upd_task_nth s1 b)
  have "find_idx MAX_TASKS (\<lambda>i. state (TASKS ?s ! i) = BlockedSend \<and>
      ipc_partner (TASKS ?s ! i) = task_id (TASKS ?s ! CURRENT s)) = None"
    unfolding find_idx_None_iff t using nobody by (auto simp: s1 b)
  moreover have "may_recv ?s ridx" using r by (simp add: may_recv_def)
  moreover have "CURRENT ?s = CURRENT s" "PENDING ?s = PENDING s" by (simp_all add: s1)
  moreover have "ipc_val (TASKS ?s ! CURRENT s) = 1" "pending_msg (TASKS ?s ! CURRENT s) = pending_msg (TASKS s ! CURRENT s)"
    unfolding t by (simp_all add: s1 b)
  ultimately show ?thesis using recv_allowed [of ?s ridx buf] p by simp
qed

section \<open>A concrete exchange\<close>

text \<open>Task 1 (slot 0) may send to task 2 (slot 1) and receive; task 2 may receive.\<close>

definition ipc_cap :: "u64 \<Rightarrow> u64 \<Rightarrow> cap" where
  "ipc_cap sid r = \<lparr>cap_type = 1, server_id = sid, rights = r, cap_data = 0\<rparr>"

definition demo_ipc :: "TaskState \<Rightarrow> kernel" where
  "demo_ipc st = demo_kernel\<lparr>
     TASKS := (TASKS demo_kernel)[1 := (TASKS demo_kernel ! 1)\<lparr>state := st\<rparr>],
     CAP_TABLES := cap_table_new[0 := ipc_cap 2 3] # cap_table_new[0 := ipc_cap 2 2] # replicate 30 cap_table_new\<rparr>"

lemma demo_ipc_sel:
  "CURRENT (demo_ipc st) = 0" "length (TASKS (demo_ipc st)) = MAX_TASKS"
  "task_id (TASKS (demo_ipc st) ! 0) = 1" "state (TASKS (demo_ipc st) ! 0) = Running"
  "task_id (TASKS (demo_ipc st) ! Suc 0) = 2" "state (TASKS (demo_ipc st) ! Suc 0) = st"
  "ipc_partner (TASKS (demo_ipc st) ! Suc 0) = 0" "pending_msg (TASKS (demo_ipc st) ! 0) = message_empty"
  "PENDING (demo_ipc st) ! 0 = message_empty" "PENDING (demo_ipc st) ! Suc 0 = message_empty"
  "CAP_TABLES (demo_ipc st) ! 0 = cap_table_new[0 := ipc_cap 2 3]"
  "CAP_TABLES (demo_ipc st) ! Suc 0 = cap_table_new[0 := ipc_cap 2 2]"
  by (simp_all add: demo_ipc_def demo_kernel_def task_free_def MAX_TASKS_def)

lemma demo_ipc_others:
  assumes "i < MAX_TASKS" "state (TASKS (demo_ipc st) ! i) = BlockedSend" shows "i = 1 \<and> st = BlockedSend"
  using assms by (auto simp: demo_ipc_def demo_kernel_def task_free_def MAX_TASKS_def nth_Cons split: nat.splits)

lemma demo_ipc_ok: "caps_ok (demo_ipc st)"
  by (auto simp: caps_ok_def demo_ipc_def demo_kernel_def MAX_TASKS_def cap_table_new_def)

lemma demo_ipc_get:
  "cap_table_get (cap_table_new[0 := ipc_cap a b]) 0 = Some (ipc_cap a b)"
  by (simp add: cap_table_get_def cap_table_new_def MAX_CAPS_PER_PROCESS_def ipc_cap_def cap_is_valid_def)

lemma demo_ipc_caps:
  "may_send (demo_ipc st) 0 (ipc_cap 2 3)" "may_recv (demo_ipc st) 0"
  by (simp_all add: may_send_def may_recv_def cap_get_def demo_ipc_sel demo_ipc_get)
    (simp_all add: ipc_cap_def CAP_SEND_def CAP_RECV_def)

lemma demo_ipc_target: "st \<noteq> Free \<Longrightarrow> target_slot (demo_ipc st) 2 = Some 1"
  unfolding target_slot_def
  by (rule find_idx_eq_SomeI) (auto simp: demo_ipc_sel MAX_TASKS_def)

lemma demo_ipc_server: "server_id (ipc_cap a b) = a"
  by (simp add: ipc_cap_def)

lemma demo_ipc_blocks: "send_with_cap 0 msg (demo_ipc Ready) = (Blocked, block_send 0 2 msg (demo_ipc Ready))"
  using send_allowed [OF demo_ipc_caps(1), of msg Ready] demo_ipc_target [of Ready]
  by (simp add: demo_ipc_server demo_ipc_sel accepts_from_def)


theorem receiver_first_witness:
  "fst (recv_resume message_empty ((snd (send_with_cap 0 (message_ping 1 2) (demo_ipc BlockedRecv)))\<lparr>CURRENT := 1\<rparr>)) =
     (IPC_OK, message_ping 1 2)"
  using receiver_first [OF demo_ipc_ok demo_ipc_caps(1), of BlockedRecv 1] demo_ipc_target [of BlockedRecv]
  by (simp add: demo_ipc_server demo_ipc_sel accepts_from_def ANY_PARTNER_def)

theorem sender_first_witness:
  "fst (recv_with_cap 0 message_empty ((snd (send_with_cap 0 (message_ping 1 2) (demo_ipc Ready)))\<lparr>CURRENT := 1\<rparr>)) =
     Done (IPC_OK, message_ping 1 2)"
proof -
  let ?m = "message_ping 1 2"
  have "recv_with_cap 0 message_empty ((block_send 0 2 ?m (demo_ipc Ready))\<lparr>CURRENT := 1\<rparr>) =
    (Done (IPC_OK, ?m), upd_task (CURRENT (demo_ipc Ready)) (\<lambda>t. t\<lparr>state := Ready\<rparr>) ((block_send 0 2 ?m (demo_ipc Ready))\<lparr>CURRENT := 1\<rparr>))"
  proof (rule sender_first [OF demo_ipc_ok demo_ipc_caps(1) demo_ipc_blocks])
    show "may_recv ((block_send 0 2 ?m (demo_ipc Ready))\<lparr>CURRENT := 1\<rparr>) 0"
      by (simp add: may_recv_def cap_get_def demo_ipc_sel demo_ipc_get) (simp add: ipc_cap_def CAP_RECV_def)
  next
    fix i assume "i < MAX_TASKS" "i \<noteq> CURRENT (demo_ipc Ready)"
    then show "\<not> (state (TASKS (demo_ipc Ready) ! i) = BlockedSend \<and> ipc_partner (TASKS (demo_ipc Ready) ! i) = server_id (ipc_cap 2 3))"
      using demo_ipc_others [of i Ready] by auto
  qed (simp_all add: demo_ipc_server demo_ipc_target demo_ipc_sel message_empty_def)
  then show ?thesis by (simp add: demo_ipc_blocks)
qed

theorem phantom_message_witness:
  "fst (recv_with_cap 0 (message_ping 9 9) (upd_task 0 (\<lambda>t. t\<lparr>state := Running\<rparr>)
     (snd (send_with_cap 0 (message_ping 1 2) (demo_ipc Ready))))) = Done (IPC_OK, message_empty)"
proof -
  let ?m = "message_ping 1 2" and ?s = "demo_ipc Ready"
  have "fst (recv_with_cap 0 (message_ping 9 9) (upd_task (CURRENT ?s) (\<lambda>t. t\<lparr>state := Running\<rparr>) (block_send 0 2 ?m ?s))) =
      Done (IPC_OK, pending_msg (TASKS ?s ! CURRENT ?s))"
  proof (rule phantom_message [OF demo_ipc_ok demo_ipc_caps(1) demo_ipc_blocks])
    show "may_recv (block_send 0 2 ?m ?s) 0"
      using demo_ipc_caps(2) [of Ready] by (simp add: may_recv_def cap_get_def)
    fix i assume "i < MAX_TASKS"
    then show "\<not> (state (TASKS ?s ! i) = BlockedSend \<and> ipc_partner (TASKS ?s ! i) = task_id (TASKS ?s ! CURRENT ?s))"
      using demo_ipc_others [of i Ready] by auto
  qed (simp_all add: demo_ipc_server demo_ipc_sel message_empty_def)
  then show ?thesis by (simp add: demo_ipc_blocks demo_ipc_sel)
qed

end
