(* ===== verification/Processes.thy ===== *)
theory Processes
  imports Ipc Paging
begin

text \<open>
  Creating and ending tasks: \<open>kernel/src/scheduler/spawn.rs\<close>, \<open>process.rs\<close>, \<open>fork\<close> of
  \<open>mod.rs\<close>, \<open>fpu_alloc_buf\<close> of \<open>task.rs\<close> and the \<open>SYS_WAITPID\<close> case of
  \<open>syscall/dispatch.rs\<close>. The system state adds the machine of \<open>Paging\<close> (page allocator and
  physical memory) to the kernel state.
\<close>

section \<open>The system\<close>

record system = kernel +
  MACH :: machine

definition KSTACK_PAGES :: nat where "KSTACK_PAGES = STACK_SIZE div PAGE_SIZE"
definition GDT_SEL_USER_CODE :: u64 where "GDT_SEL_USER_CODE = 0x23"
definition GDT_SEL_USER_DATA :: u64 where "GDT_SEL_USER_DATA = 0x2B"

definition set_alloc :: "phys_allocator \<Rightarrow> system \<Rightarrow> system" where
  "set_alloc a s = s\<lparr>MACH := (MACH s)\<lparr>alloc := a\<rparr>\<rparr>"

definition set_mem :: "(u64 \<Rightarrow> u64) \<Rightarrow> system \<Rightarrow> system" where
  "set_mem m s = s\<lparr>MACH := (MACH s)\<lparr>mem := m\<rparr>\<rparr>"

text \<open>\<open>sp = sp.sub(1); *sp = v\<close> for a list of values.\<close>

definition push_words :: "u64 list \<Rightarrow> u64 \<Rightarrow> (u64 \<Rightarrow> u64) \<Rightarrow> u64 \<times> (u64 \<Rightarrow> u64)" where
  "push_words vs rsp m = fold (\<lambda>v (p, m). (p - 8, m(p - 8 := v))) vs (rsp, m)"

definition fpu_alloc_buf :: "system \<Rightarrow> u64 \<times> system" where
  "fpu_alloc_buf s =
     (let (buf, a) = palloc (alloc (MACH s)); s1 = set_alloc a s in
      if buf = 0 then (0, s1) else (buf, s1\<lparr>FPU_MEM := (FPU_MEM s1)(buf := FPU s1)\<rparr>))"

definition user_limit :: "system \<Rightarrow> bool" where
  "user_limit s \<longleftrightarrow> (let u = uid (TASKS s ! CURRENT s) in u \<noteq> 0 \<and> task_count_for_uid s u \<ge> MAX_TASKS_PER_USER)"

section \<open>Spawning\<close>

text \<open>Freeing the kernel stack that the previous task of a slot may have left.\<close>

definition free_prev_stack :: "nat \<Rightarrow> system \<Rightarrow> system" where
  "free_prev_stack slot s =
     (let prev = TASKS s ! slot in
      if kstack_phys prev \<noteq> 0
      then set_alloc (pfree_n (kstack_phys prev) KSTACK_PAGES (alloc (MACH s))) s else s)"

definition kernel_frame :: "u64 \<Rightarrow> u64 \<Rightarrow> u64 list" where
  "kernel_frame ksp entry = [0x10, ksp, 0x200, 0x08, entry] @ replicate 15 0"

definition spawn :: "u64 \<Rightarrow> system \<Rightarrow> u64 option \<times> system" where
  "spawn entry s =
     (if user_limit s then (None, s)
      else case find_idx MAX_TASKS (\<lambda>i. state (TASKS s ! i) = Free) of
        None \<Rightarrow> (None, s)
      | Some slot \<Rightarrow>
          (let (stack, a) = palloc_n KSTACK_PAGES (alloc (MACH s)); s1 = set_alloc a s in
           if stack = 0 then (None, s1)
           else
             (let m = (mem (MACH s1))(stack := STACK_CANARY);
                  ksp = stack + of_nat STACK_SIZE;
                  (sp', m') = push_words (kernel_frame ksp entry) (ksp - 8) m;
                  s2 = set_mem m' s1;
                  i = NEXT_ID s2;
                  s3 = s2\<lparr>NEXT_ID := i + 1\<rparr>;
                  s4 = free_prev_stack slot s3;
                  cur = TASKS s4 ! CURRENT s4;
                  (fpu, s5) = fpu_alloc_buf s4
              in (Some i, s5\<lparr>TASKS := (TASKS s5)[slot := task_free\<lparr>state := Ready, stack_base := stack, sp := sp',
                   task_id := i, kstack_phys := stack, fpu_buf_phys := fpu, uid := uid cur, gid := gid cur,
                   cwd := cwd cur, cwd_len := cwd_len cur\<rparr>]\<rparr>))))"

definition user_frame :: "u64 \<Rightarrow> u64 \<Rightarrow> u64 list" where
  "user_frame user_rsp entry = [GDT_SEL_USER_DATA, user_rsp, 0x202, GDT_SEL_USER_CODE, entry] @ replicate 15 0"

definition spawn_user :: "u64 \<Rightarrow> u64 \<Rightarrow> u64 \<Rightarrow> u64 \<Rightarrow> u64 \<Rightarrow> u64 \<Rightarrow> u64 \<Rightarrow> system \<Rightarrow> u64 option \<times> system" where
  "spawn_user entry user_rsp pml4 gdt tss code ustack s =
     (if user_limit s then (None, s)
      else case find_idx MAX_TASKS (\<lambda>i. state (TASKS s ! i) = Free) of
        None \<Rightarrow> (None, s)
      | Some slot \<Rightarrow>
          (let s1 = free_prev_stack slot s;
               (kstack, a) = palloc_n KSTACK_PAGES (alloc (MACH s1)); s2 = set_alloc a s1 in
           if kstack = 0 then (None, s2)
           else
             (let m = (mem (MACH s2))(kstack := STACK_CANARY);
                  (sp', m') = push_words (user_frame user_rsp entry) (kstack + of_nat STACK_SIZE) m;
                  s3 = set_mem m' s2;
                  i = NEXT_ID s3;
                  s4 = s3\<lparr>NEXT_ID := i + 1\<rparr>;
                  (fpu, s5) = fpu_alloc_buf s4;
                  cur = TASKS s5 ! CURRENT s5
              in (Some i, s5\<lparr>TASKS := (TASKS s5)[slot := task_free\<lparr>state := Ready, stack_base := kstack, sp := sp',
                   task_id := i, task_pml4 := pml4, pml4_phys := pml4, gdt_phys := gdt, tss_phys := tss,
                   ring3 := True, sys_ursave := user_rsp, code_phys := code, user_stack_phys := ustack,
                   kstack_phys := kstack, fpu_buf_phys := fpu, uid := uid cur, gid := gid cur,
                   cwd := cwd cur, cwd_len := cwd_len cur\<rparr>]\<rparr>))))"

section \<open>Forking\<close>

definition copy_words :: "u64 \<Rightarrow> u64 \<Rightarrow> nat \<Rightarrow> (u64 \<Rightarrow> u64) \<Rightarrow> (u64 \<Rightarrow> u64)" where
  "copy_words src dst n m = (\<lambda>a. if a - dst < of_nat n then m (src + (a - dst)) else m a)"

text \<open>Copying the present entries \<open>lo..<hi\<close> of one top-level table to another.\<close>

definition share_entries :: "u64 \<Rightarrow> u64 \<Rightarrow> nat \<Rightarrow> nat \<Rightarrow> (u64 \<Rightarrow> u64) \<Rightarrow> (u64 \<Rightarrow> u64)" where
  "share_entries src dst lo hi m =
     fold (\<lambda>i m. let e = get_pte m src i in if e AND PTE_PRESENT \<noteq> 0 then set_pte m dst i e else m) [lo..<hi] m"

text \<open>The last part of \<open>fork\<close>: filling the new top-level table and creating the child.\<close>

definition fork_child :: "u64 \<Rightarrow> task \<Rightarrow> nat \<Rightarrow> u64 \<Rightarrow> u64 \<Rightarrow> system \<Rightarrow> u64 \<times> system" where
  "fork_child parent p slot new_kstack new_pml4 s5 =
     (let mz = zero_page (mem (MACH s5)) new_pml4;
          mu = (if task_pml4 p \<noteq> 0 then share_entries (task_pml4 p) new_pml4 0 256 mz else mz);
          mk = share_entries (KERNEL_PML4 s5) new_pml4 256 512 mu;
          s6 = set_mem mk s5;
          i = NEXT_ID s6;
          s7 = s6\<lparr>NEXT_ID := i + 1\<rparr>;
          (fpu, s8) = fpu_alloc_buf s7;
          s9 = (if fpu_buf_phys p \<noteq> 0 \<and> fpu \<noteq> 0
                then s8\<lparr>FPU_MEM := (FPU_MEM s8)(fpu := FPU_MEM s8 (fpu_buf_phys p))\<rparr> else s8)
      in (i, s9\<lparr>TASKS := (TASKS s9)[slot := task_free\<lparr>state := Ready, stack_base := new_kstack,
           sp := new_kstack + (sp p - stack_base p), task_id := i, parent_id := parent, task_pml4 := new_pml4,
           pml4_phys := new_pml4, ring3 := ring3 p, sys_ursave := sys_ursave p,
           code_phys := code_phys p, user_stack_phys := user_stack_phys p, fpu_buf_phys := fpu,
           fds := fds p, uid := uid p, gid := gid p, cwd := cwd p, cwd_len := cwd_len p\<rparr>]\<rparr>))"

text \<open>The two parts with the allocations; \<open>None\<close> is a run in which \<open>identity_map_2mb\<close> does not
  return. Its boolean results are ignored, as in the source.\<close>

definition fork_space :: "u64 \<Rightarrow> task \<Rightarrow> nat \<Rightarrow> u64 \<Rightarrow> system \<Rightarrow> (u64 \<times> system) option" where
  "fork_space parent p slot new_kstack s3 =
     (let (new_pml4, a) = palloc (alloc (MACH s3)); s4 = set_alloc a s3 in
      if new_pml4 = 0
      then Some (0, set_alloc (pfree_n new_kstack (STACK_SIZE div PAGE_SIZE) (alloc (MACH s4))) s4)
      else case identity_map_2mb (MACH s4) (KERNEL_PML4 s4) new_pml4 (new_pml4 + 4096) PTE_WRITABLE of
        None \<Rightarrow> None
      | Some (m5, _) \<Rightarrow> Some (fork_child parent p slot new_kstack new_pml4 (s4\<lparr>MACH := m5\<rparr>)))"

definition fork_into :: "u64 \<Rightarrow> nat \<Rightarrow> nat \<Rightarrow> system \<Rightarrow> (u64 \<times> system) option" where
  "fork_into parent parent_idx slot s =
     (let (new_kstack, a) = palloc_n (STACK_SIZE div PAGE_SIZE) (alloc (MACH s)); s1 = set_alloc a s in
      if new_kstack = 0 then Some (0, s1)
      else case identity_map_2mb (MACH s1) (KERNEL_PML4 s1) new_kstack (new_kstack + of_nat STACK_SIZE) PTE_WRITABLE of
        None \<Rightarrow> None
      | Some (m2, _) \<Rightarrow>
          let s2 = s1\<lparr>MACH := m2\<rparr>;
              p = TASKS s2 ! parent_idx
          in fork_space parent p slot new_kstack
               (set_mem ((copy_words (stack_base p) new_kstack STACK_SIZE (mem (MACH s2)))
                           (new_kstack := STACK_CANARY)) s2))"

definition fork :: "u64 \<Rightarrow> system \<Rightarrow> (u64 \<times> system) option" where
  "fork parent s =
     (case find_task s parent of
        None \<Rightarrow> Some (0, s)
      | Some parent_idx \<Rightarrow>
          (let u = uid (TASKS s ! parent_idx) in
           if u \<noteq> 0 \<and> task_count_for_uid s u \<ge> MAX_TASKS_PER_USER then Some (0, s)
           else case find_idx MAX_TASKS (\<lambda>i. state (TASKS s ! i) = Free) of
             None \<Rightarrow> Some (0, s)
           | Some slot \<Rightarrow> fork_into parent parent_idx slot s))"

section \<open>Ending and reaping\<close>

text \<open>The frees of \<open>exit_with_status\<close>, in order.\<close>

definition release_resources :: "task \<Rightarrow> system \<Rightarrow> system" where
  "release_resources t s =
     (let fr = (\<lambda>p s. if p \<noteq> 0 then set_alloc (pfree p (alloc (MACH s))) s else s);
          s1 = fr (code_phys t) s; s2 = fr (user_stack_phys t) s1; s3 = fr (gdt_phys t) s2; s4 = fr (tss_phys t) s3;
          s5 = (if pml4_phys t \<noteq> 0 then s4\<lparr>MACH := destroy_address_space (MACH s4) (pml4_phys t)\<rparr> else s4);
          s6 = fr (fpu_buf_phys t) s5
      in if kstack_phys t \<noteq> 0 then set_alloc (pfree_n (kstack_phys t) (STACK_SIZE div PAGE_SIZE) (alloc (MACH s6))) s6
         else s6)"

text \<open>Waking a parent that waits: every task with the parent's identifier that is blocked in a
  receive.\<close>

definition wake_parent :: "u64 \<Rightarrow> u64 \<Rightarrow> system \<Rightarrow> system" where
  "wake_parent parent child s =
     (if parent \<noteq> 0 then
        s\<lparr>TASKS := map (\<lambda>t. if task_id t = parent \<and> state t = BlockedRecv
                       then t\<lparr>state := Ready, ipc_val := child\<rparr> else t) (TASKS s)\<rparr>
      else s)"

text \<open>\<open>exit_with_status\<close>: \<open>None\<close> is the endless halt when no task is ready; otherwise the state in
  which the next task continues, and its stack pointer.\<close>

definition exit_with_status :: "32 word \<Rightarrow> system \<Rightarrow> (u64 \<times> system) option" where
  "exit_with_status status s =
     (let cur = CURRENT s;
          t = TASKS s ! cur;
          s1 = upd_task cur (\<lambda>t. t\<lparr>state := Exited, exit_status := status\<rparr>) s;
          s2 = wake_parent (parent_id t) (task_id t) s1;
          nxt = find_ready s2
      in if nxt = cur then None
         else
           (let s3 = (upd_task nxt (\<lambda>t. t\<lparr>state := Running\<rparr>) s2)\<lparr>CURRENT := nxt\<rparr>;
                n = TASKS s3 ! nxt;
                s4 = (if ring3 n then s3\<lparr>CR3 := task_pml4 n, SYS_KRSP := stack_base n + of_nat STACK_SIZE,
                        SYS_URSAVE := sys_ursave n\<rparr>
                      else s3\<lparr>CR3 := KERNEL_PML4 s3\<rparr>);
                s5 = release_resources t s4
            in Some (sp (TASKS s5 ! nxt), s5)))"

definition process_init :: "system \<Rightarrow> system" where
  "process_init s =
     s\<lparr>CURRENT := 0, TASKS := (TASKS s)[0 := task_free\<lparr>state := Running, cwd := (replicate 128 0)[0 := 0x2F]\<rparr>]\<rparr>"

text \<open>\<open>SYS_WAITPID\<close>: an exited child is reaped at once; otherwise the caller blocks, and what the
  source does when it runs again is \<open>waitpid_resume\<close>. The status is the value stored through
  \<open>status_ptr\<close>.\<close>

definition waitpid :: "u64 \<Rightarrow> system \<Rightarrow> (u64 \<times> 32 word) outcome \<times> system" where
  "waitpid child_pid s =
     (let cur = CURRENT s; cur_id = task_id (TASKS s ! cur) in
      case find_idx MAX_TASKS (\<lambda>i. parent_id (TASKS s ! i) = cur_id \<and>
             (child_pid = 0 \<or> task_id (TASKS s ! i) = child_pid) \<and> state (TASKS s ! i) = Exited) of
        Some slot \<Rightarrow> (Done (task_id (TASKS s ! slot), exit_status (TASKS s ! slot)),
            upd_task slot (\<lambda>t. t\<lparr>state := Free\<rparr>) s)
      | None \<Rightarrow> (Blocked, upd_task cur (\<lambda>t. t\<lparr>state := BlockedRecv, ipc_partner := 0\<rparr>) s))"

definition waitpid_resume :: "system \<Rightarrow> (u64 \<times> 32 word) option \<times> system" where
  "waitpid_resume s =
     (let child_slot = unat (ipc_val (TASKS s ! CURRENT s)) in
      if child_slot < MAX_TASKS \<and> state (TASKS s ! child_slot) = Exited then
        (Some (task_id (TASKS s ! child_slot), exit_status (TASKS s ! child_slot)),
         upd_task child_slot (\<lambda>t. t\<lparr>state := Free\<rparr>) s)
      else (None, s))"

section \<open>What creating a task does to the table\<close>

text \<open>Identifiers are unique and below the next one to be given out.\<close>

definition tasks_ok :: "system \<Rightarrow> bool" where
  "tasks_ok s \<longleftrightarrow> length (TASKS s) = MAX_TASKS \<and> CURRENT s < MAX_TASKS \<and>
     (\<forall>i<MAX_TASKS. state (TASKS s ! i) \<noteq> Free \<longrightarrow> task_id (TASKS s ! i) < NEXT_ID s) \<and>
     (\<forall>i<MAX_TASKS. \<forall>j<MAX_TASKS. state (TASKS s ! i) \<noteq> Free \<longrightarrow> state (TASKS s ! j) \<noteq> Free \<longrightarrow>
        task_id (TASKS s ! i) = task_id (TASKS s ! j) \<longrightarrow> i = j)"

definition within_limits :: "system \<Rightarrow> bool" where
  "within_limits s \<longleftrightarrow> (\<forall>u. u \<noteq> 0 \<longrightarrow> task_count_for_uid s u \<le> MAX_TASKS_PER_USER)"

definition free_slot :: "system \<Rightarrow> nat option" where
  "free_slot s = find_idx MAX_TASKS (\<lambda>i. state (TASKS s ! i) = Free)"

text \<open>The contract of \<open>spawn\<close>, \<open>spawn_user\<close> and \<open>fork\<close>: either the table is as before, or a ready
  task with the next identifier was put into a free slot, with the user of its creator, who
  had not reached the limit.\<close>

definition adds_task :: "system \<Rightarrow> nat \<Rightarrow> nat \<Rightarrow> task \<Rightarrow> system \<Rightarrow> bool" where
  "adds_task s owner slot t s' \<longleftrightarrow> free_slot s = Some slot \<and>
     TASKS s' = (TASKS s)[slot := t] \<and> NEXT_ID s' = NEXT_ID s + 1 \<and> CURRENT s' = CURRENT s \<and>
     state t = Ready \<and> task_id t = NEXT_ID s \<and> uid t = uid (TASKS s ! owner) \<and> gid t = gid (TASKS s ! owner) \<and>
     \<not> (uid t \<noteq> 0 \<and> task_count_for_uid s (uid t) \<ge> MAX_TASKS_PER_USER)"

definition same_tasks :: "system \<Rightarrow> system \<Rightarrow> bool" where
  "same_tasks s s' \<longleftrightarrow> TASKS s' = TASKS s \<and> NEXT_ID s' = NEXT_ID s \<and> CURRENT s' = CURRENT s"

locale task_creator =
  fixes creates :: "system \<Rightarrow> system \<Rightarrow> bool"
  assumes creates_law: "creates s s' \<Longrightarrow> same_tasks s s' \<or> (\<exists>owner slot t. adds_task s owner slot t s')"
begin

lemma creates_cases:
  assumes "creates s s'"
  obtains "TASKS s' = TASKS s" "NEXT_ID s' = NEXT_ID s" "CURRENT s' = CURRENT s"
  | owner slot t where "adds_task s owner slot t s'" "slot < MAX_TASKS" "state (TASKS s ! slot) = Free"
      "TASKS s' = (TASKS s)[slot := t]"
proof -
  have "slot < MAX_TASKS \<and> state (TASKS s ! slot) = Free \<and> TASKS s' = (TASKS s)[slot := t]"
    if "adds_task s owner slot t s'" for owner slot t
    using find_idx_SomeD(1,2) [of MAX_TASKS "\<lambda>i. state (TASKS s ! i) = Free" slot] that
    by (simp add: adds_task_def free_slot_def)
  then show thesis using creates_law [OF assms] that by (auto simp: same_tasks_def)
qed

lemma creates_unique_ids:
  assumes "creates s s'" and ok: "tasks_ok s" and room: "NEXT_ID s \<noteq> NOT 0"
  shows "tasks_ok s'"
  using assms(1)
proof (cases rule: creates_cases)
  case 1
  then show ?thesis using ok by (simp add: tasks_ok_def)
next
  case (2 owner slot t)
  have lt: "x < NEXT_ID s + 1" if "x \<le> NEXT_ID s" for x
  proof -
    have "1 + NEXT_ID s \<noteq> 0" using room by (auto simp: add_eq_0_iff)
    then have "unat (NEXT_ID s + 1) = Suc (unat (NEXT_ID s))" using unatSuc [of "NEXT_ID s"] by (simp add: add.commute)
    then show ?thesis using that by (simp add: word_less_nat_alt word_le_nat_alt)
  qed
  show ?thesis using ok 2 lt
    by (auto simp: tasks_ok_def adds_task_def nth_list_update less_imp_le)
qed

lemma creates_within_limits:
  assumes "creates s s'" and "within_limits s" and "tasks_ok s"
  shows "within_limits s'"
  using assms(1)
proof (cases rule: creates_cases)
  case 1
  then show ?thesis using assms(2) by (simp add: within_limits_def task_count_for_uid_def)
next
  case (2 owner slot t)
  have len: "slot < length (TASKS s)" using 2 assms(3) by (simp add: tasks_ok_def)
  have "task_count_for_uid s' u = (if uid t = u then Suc (task_count_for_uid s u) else task_count_for_uid s u)" for u
  proof -
    let ?P = "\<lambda>t. state t \<noteq> Free \<and> uid t = u"
    have "filter_mset ?P (mset ((TASKS s)[slot := t])) + filter_mset ?P {#TASKS s ! slot#} =
        filter_mset ?P (mset (TASKS s)) + filter_mset ?P {#t#}"
      using len by (simp add: mset_update flip: filter_union_mset)
    then have "size (filter_mset ?P (mset (TASKS s'))) = size (filter_mset ?P (mset (TASKS s))) + (if uid t = u then 1 else 0)"
      using 2 by (auto simp: adds_task_def)
    then show ?thesis by (simp add: task_count_for_uid_def flip: mset_filter)
  qed
  then show ?thesis using assms(2) 2(1) by (auto simp: within_limits_def adds_task_def not_le)
qed

lemma creates_frame:
  assumes "creates s s'" and "tasks_ok s" and "state (TASKS s ! i) \<noteq> Free"
  shows "TASKS s' ! i = TASKS s ! i"
  using assms(1)
proof (cases rule: creates_cases)
  case (2 owner slot t)
  then show ?thesis using assms(3) by (cases "i = slot") auto
qed simp

end

lemma set_alloc_sel [simp]:
  "TASKS (set_alloc a s) = TASKS s" "NEXT_ID (set_alloc a s) = NEXT_ID s" "CURRENT (set_alloc a s) = CURRENT s"
  "alloc (MACH (set_alloc a s)) = a" "mem (MACH (set_alloc a s)) = mem (MACH s)"
  by (simp_all add: set_alloc_def)

lemma set_mem_sel [simp]:
  "TASKS (set_mem m s) = TASKS s" "NEXT_ID (set_mem m s) = NEXT_ID s" "CURRENT (set_mem m s) = CURRENT s"
  "alloc (MACH (set_mem m s)) = alloc (MACH s)" "mem (MACH (set_mem m s)) = m"
  by (simp_all add: set_mem_def)

lemma free_prev_stack_sel [simp]:
  "TASKS (free_prev_stack k s) = TASKS s" "NEXT_ID (free_prev_stack k s) = NEXT_ID s"
  "CURRENT (free_prev_stack k s) = CURRENT s" "mem (MACH (free_prev_stack k s)) = mem (MACH s)"
  by (simp_all add: free_prev_stack_def Let_def)

lemma fpu_alloc_buf_sel:
  "fpu_alloc_buf s = (b, s') \<Longrightarrow> TASKS s' = TASKS s \<and> NEXT_ID s' = NEXT_ID s \<and> CURRENT s' = CURRENT s \<and> mem (MACH s') = mem (MACH s)"
  by (auto simp: fpu_alloc_buf_def Let_def split: prod.splits if_splits)

lemma spawn_cases:
  assumes "spawn entry s = (r, s')"
  shows "r = None \<and> same_tasks s s' \<or>
    (\<exists>slot t. r = Some (NEXT_ID s) \<and> adds_task s (CURRENT s) slot t s')"
proof (cases "user_limit s \<or> free_slot s = None")
  case True
  then show ?thesis using assms
    by (auto simp: spawn_def free_slot_def same_tasks_def split: option.splits)
next
  case F: False
  then obtain slot where slot: "free_slot s = Some slot" by auto
  obtain stack a where p: "palloc_n KSTACK_PAGES (alloc (MACH s)) = (stack, a)" by force
  show ?thesis
  proof (cases "stack = 0")
    case True
    then show ?thesis using assms p F slot by (auto simp: spawn_def free_slot_def same_tasks_def)
  next
    case False
    define m where "m = (mem (MACH s))(stack := STACK_CANARY)"
    obtain sp' m' where w: "push_words (kernel_frame (stack + of_nat STACK_SIZE) entry) (stack + of_nat STACK_SIZE - 8) m = (sp', m')" by force
    define s3 where "s3 = (set_mem m' (set_alloc a s))\<lparr>NEXT_ID := NEXT_ID s + 1\<rparr>"
    define s4 where "s4 = free_prev_stack slot s3"
    obtain fpu s5 where f: "fpu_alloc_buf s4 = (fpu, s5)" by force
    have s4: "TASKS s4 = TASKS s" "NEXT_ID s4 = NEXT_ID s + 1" "CURRENT s4 = CURRENT s"
      by (simp_all add: s4_def s3_def)
    let ?t = "task_free\<lparr>state := Ready, stack_base := stack, sp := sp', task_id := NEXT_ID s, kstack_phys := stack,
      fpu_buf_phys := fpu, uid := uid (TASKS s ! CURRENT s), gid := gid (TASKS s ! CURRENT s),
      cwd := cwd (TASKS s ! CURRENT s), cwd_len := cwd_len (TASKS s ! CURRENT s)\<rparr>"
    have run: "r = Some (NEXT_ID s)" "s' = s5\<lparr>TASKS := (TASKS s5)[slot := ?t]\<rparr>"
      using assms F False slot p w f
      by (auto simp: spawn_def free_slot_def m_def [symmetric] s3_def [symmetric] s4_def [symmetric] Let_def)
    have "adds_task s (CURRENT s) slot ?t s'"
      using run fpu_alloc_buf_sel [OF f] s4 slot F by (simp add: adds_task_def user_limit_def Let_def)
    then show ?thesis using run(1) by blast
  qed
qed

lemma spawn_user_cases:
  assumes "spawn_user entry user_rsp pml4 gdt tss code ustack s = (r, s')"
  shows "r = None \<and> same_tasks s s' \<or>
    (\<exists>slot t. r = Some (NEXT_ID s) \<and> adds_task s (CURRENT s) slot t s')"
proof (cases "user_limit s \<or> free_slot s = None")
  case True
  then show ?thesis using assms
    by (auto simp: spawn_user_def free_slot_def same_tasks_def split: option.splits)
next
  case F: False
  then obtain slot where slot: "free_slot s = Some slot" by auto
  define s1 where "s1 = free_prev_stack slot s"
  have s1: "TASKS s1 = TASKS s" "NEXT_ID s1 = NEXT_ID s" "CURRENT s1 = CURRENT s" by (simp_all add: s1_def)
  obtain kstack a where p: "palloc_n KSTACK_PAGES (alloc (MACH s1)) = (kstack, a)" by force
  show ?thesis
  proof (cases "kstack = 0")
    case True
    then show ?thesis using assms p F slot s1
      by (auto simp: spawn_user_def free_slot_def same_tasks_def s1_def [symmetric] Let_def)
  next
    case False
    define m where "m = (mem (MACH s1))(kstack := STACK_CANARY)"
    obtain sp' m' where w: "push_words (user_frame user_rsp entry) (kstack + of_nat STACK_SIZE) m = (sp', m')" by force
    define s4 where "s4 = (set_mem m' (set_alloc a s1))\<lparr>NEXT_ID := NEXT_ID s + 1\<rparr>"
    obtain fpu s5 where f: "fpu_alloc_buf s4 = (fpu, s5)" by force
    have s4: "TASKS s4 = TASKS s" "NEXT_ID s4 = NEXT_ID s + 1" "CURRENT s4 = CURRENT s"
      by (simp_all add: s4_def s1)
    let ?t = "task_free\<lparr>state := Ready, stack_base := kstack, sp := sp', task_id := NEXT_ID s, task_pml4 := pml4,
      pml4_phys := pml4, gdt_phys := gdt, tss_phys := tss, ring3 := True, sys_ursave := user_rsp, code_phys := code,
      user_stack_phys := ustack, kstack_phys := kstack, fpu_buf_phys := fpu,
      uid := uid (TASKS s5 ! CURRENT s5), gid := gid (TASKS s5 ! CURRENT s5),
      cwd := cwd (TASKS s5 ! CURRENT s5), cwd_len := cwd_len (TASKS s5 ! CURRENT s5)\<rparr>"
    have run: "r = Some (NEXT_ID s)" "s' = s5\<lparr>TASKS := (TASKS s5)[slot := ?t]\<rparr>"
      using assms F False slot p w f s1
      by (auto simp: spawn_user_def free_slot_def m_def [symmetric] s1_def [symmetric] s4_def [symmetric] Let_def)
    have "adds_task s (CURRENT s) slot ?t s'"
      using run fpu_alloc_buf_sel [OF f] s4 slot F by (simp add: adds_task_def user_limit_def Let_def)
    then show ?thesis using run(1) by blast
  qed
qed

interpretation sp: task_creator "\<lambda>s s'. s' = snd (spawn entry s)" for entry
proof unfold_locales
  fix s s' assume "s' = snd (spawn entry s)"
  then have "spawn entry s = (fst (spawn entry s), s')" by simp
  from spawn_cases [OF this] show "same_tasks s s' \<or> (\<exists>owner slot t. adds_task s owner slot t s')" by auto
qed

interpretation su: task_creator "\<lambda>s s'. s' = snd (spawn_user entry user_rsp pml4 gdt tss code ustack s)"
  for entry user_rsp pml4 gdt tss code ustack
proof unfold_locales
  fix s s' assume "s' = snd (spawn_user entry user_rsp pml4 gdt tss code ustack s)"
  then have "spawn_user entry user_rsp pml4 gdt tss code ustack s =
    (fst (spawn_user entry user_rsp pml4 gdt tss code ustack s), s')" by simp
  from spawn_user_cases [OF this] show "same_tasks s s' \<or> (\<exists>owner slot t. adds_task s owner slot t s')" by auto
qed

lemma fork_child_adds:
  assumes "fork_child parent p slot ks pm s = (i, s')"
  shows "i = NEXT_ID s \<and> (\<exists>t. TASKS s' = (TASKS s)[slot := t] \<and> state t = Ready \<and> task_id t = NEXT_ID s \<and>
      uid t = uid p \<and> gid t = gid p \<and> parent_id t = parent) \<and>
    NEXT_ID s' = NEXT_ID s + 1 \<and> CURRENT s' = CURRENT s"
proof -
  define mz where "mz = zero_page (mem (MACH s)) pm"
  define mk where "mk = share_entries (KERNEL_PML4 s) pm 256 512
      (if task_pml4 p \<noteq> 0 then share_entries (task_pml4 p) pm 0 256 mz else mz)"
  obtain fpu s8 where f: "fpu_alloc_buf ((set_mem mk s)\<lparr>NEXT_ID := NEXT_ID s + 1\<rparr>) = (fpu, s8)" by force
  let ?t = "task_free\<lparr>state := Ready, stack_base := ks,
           sp := ks + (sp p - stack_base p), task_id := NEXT_ID s, parent_id := parent, task_pml4 := pm,
           pml4_phys := pm, ring3 := ring3 p, sys_ursave := sys_ursave p,
           code_phys := code_phys p, user_stack_phys := user_stack_phys p, fpu_buf_phys := fpu,
           fds := fds p, uid := uid p, gid := gid p, cwd := cwd p, cwd_len := cwd_len p\<rparr>"
  have "i = NEXT_ID s" "TASKS s' = (TASKS s8)[slot := ?t]" "NEXT_ID s' = NEXT_ID s8" "CURRENT s' = CURRENT s8"
    using assms f by (auto simp: fork_child_def Let_def mz_def [symmetric] mk_def [symmetric])
  then show ?thesis using fpu_alloc_buf_sel [OF f] by (intro conjI exI [of _ ?t]) simp_all
qed

lemma fork_space_cases:
  assumes "fork_space parent p slot ks s = Some (i, s')"
  shows "i = 0 \<and> same_tasks s s' \<or> (\<exists>pm s5. fork_child parent p slot ks pm s5 = (i, s') \<and> same_tasks s s5)"
proof -
  obtain pm a where p: "palloc (alloc (MACH s)) = (pm, a)" by force
  have same: "same_tasks s ((set_alloc a s)\<lparr>MACH := m\<rparr>)" "same_tasks s (set_alloc b (set_alloc a s))" for m b
    by (simp_all add: same_tasks_def)
  show ?thesis
  proof (cases "pm = 0")
    case True
    then have "i = 0" "s' = set_alloc (pfree_n ks (STACK_SIZE div PAGE_SIZE) (alloc (MACH (set_alloc a s)))) (set_alloc a s)"
      using assms p by (auto simp: fork_space_def)
    then show ?thesis using same(2) by blast
  next
    case False
    then obtain m5 where "fork_child parent p slot ks pm ((set_alloc a s)\<lparr>MACH := m5\<rparr>) = (i, s')"
      using assms p by (auto simp: fork_space_def Let_def split: option.splits prod.splits)
    then show ?thesis using same(1) by blast
  qed
qed

lemma fork_into_cases:
  assumes "fork_into parent k slot s = Some (i, s')"
  shows "i = 0 \<and> same_tasks s s' \<or>
    (\<exists>ks pm s5. fork_child parent (TASKS s ! k) slot ks pm s5 = (i, s') \<and> same_tasks s s5)"
proof -
  obtain ks a where p1: "palloc_n (STACK_SIZE div PAGE_SIZE) (alloc (MACH s)) = (ks, a)" by force
  show ?thesis
  proof (cases "ks = 0")
    case True
    then show ?thesis using assms p1 by (auto simp: fork_into_def same_tasks_def)
  next
    case False
    then obtain m2 s3 where f: "fork_space parent (TASKS s ! k) slot ks s3 = Some (i, s')" and
      s3: "\<exists>m. s3 = set_mem m ((set_alloc a s)\<lparr>MACH := m2\<rparr>)"
      using assms p1 by (auto simp: fork_into_def Let_def split: option.splits prod.splits)
    have "same_tasks s s3" using s3 by (auto simp: same_tasks_def)
    then show ?thesis using fork_space_cases [OF f] by (auto simp: same_tasks_def)
  qed
qed

lemma fork_cases:
  assumes "fork parent s = Some (i, s')"
  shows "i = 0 \<and> same_tasks s s' \<or>
    (\<exists>k slot t. i = NEXT_ID s \<and> find_task s parent = Some k \<and> adds_task s k slot t s' \<and> parent_id t = parent)"
proof (cases "find_task s parent")
  case None
  then show ?thesis using assms by (auto simp: fork_def same_tasks_def)
next
  case (Some k)
  let ?full = "uid (TASKS s ! k) \<noteq> 0 \<and> task_count_for_uid s (uid (TASKS s ! k)) \<ge> MAX_TASKS_PER_USER"
  show ?thesis
  proof (cases "?full \<or> free_slot s = None")
    case True
    then show ?thesis using assms Some
      by (auto simp: fork_def same_tasks_def free_slot_def Let_def split: if_splits)
  next
    case False
    then obtain slot where slot: "free_slot s = Some slot" by auto
    then have "fork_into parent k slot s = Some (i, s')"
      using assms Some False by (auto simp: fork_def free_slot_def Let_def)
    from fork_into_cases [OF this] show ?thesis
    proof
      assume "\<exists>ks pm s5. fork_child parent (TASKS s ! k) slot ks pm s5 = (i, s') \<and> same_tasks s s5"
      then obtain ks pm s5 where f: "fork_child parent (TASKS s ! k) slot ks pm s5 = (i, s')" and "same_tasks s s5" by blast
      then show ?thesis using fork_child_adds [OF f] Some False slot
        by (auto simp: same_tasks_def adds_task_def)
    qed simp
  qed
qed

interpretation fk: task_creator "\<lambda>s s'. \<exists>i. fork parent s = Some (i, s')" for parent
proof unfold_locales
  fix s s' assume "\<exists>i. fork parent s = Some (i, s')"
  then show "same_tasks s s' \<or> (\<exists>owner slot t. adds_task s owner slot t s')" using fork_cases by blast
qed

section \<open>Stacks\<close>

lemma push_words_spec:
  assumes "push_words vs rsp m = (p, m')" and "length vs < 2 ^ 60"
  shows "p = rsp - 8 * of_nat (length vs) \<and> (\<forall>j<length vs. m' (rsp - 8 * of_nat (Suc j)) = vs ! j)"
  using assms
proof (induction vs arbitrary: p m' rule: rev_induct)
  case Nil
  then show ?case by (simp add: push_words_def)
next
  case (snoc v vs)
  obtain q m1 where q: "push_words vs rsp m = (q, m1)" by force
  have IH: "q = rsp - 8 * of_nat (length vs)" "\<forall>j<length vs. m1 (rsp - 8 * of_nat (Suc j)) = vs ! j"
    using snoc.IH [OF q] snoc.prems(2) by auto
  have r: "p = q - 8" "m' = m1(q - 8 := v)" using snoc.prems(1) q by (auto simp: push_words_def)
  have ne: "rsp - 8 * of_nat (Suc j) \<noteq> q - 8" if "j < length vs" for j
  proof
    assume "rsp - 8 * of_nat (Suc j) = q - 8"
    then have "(8 * of_nat (Suc j) :: u64) = 8 * of_nat (Suc (length vs))" using IH(1) by (simp add: algebra_simps)
    then have eq: "(of_nat (8 * Suc j) :: u64) = of_nat (8 * Suc (length vs))" by simp
    have "unat (of_nat (8 * Suc j) :: u64) = 8 * Suc j" "unat (of_nat (8 * Suc (length vs)) :: u64) = 8 * Suc (length vs)"
      by (intro unat_of_nat64; use that snoc.prems(2) in simp)+
    then show False using eq that by auto
  qed
  show ?case using IH r ne by (auto simp: nth_append less_Suc_eq algebra_simps)
qed

section \<open>Properties\<close>

text \<open>C32: \<open>spawn\<close> keeps task identifiers unique: the new task gets an identifier no live task has, is
  found under it in a slot that was free, is ready, runs with its creator's user and group, and
  no live task changes.\<close>

theorem spawn_correct:
  assumes ok: "tasks_ok s" and room: "NEXT_ID s \<noteq> NOT 0" and run: "spawn entry s = (Some i, s')"
  shows "tasks_ok s' \<and> find_task s i = None \<and>
    (\<exists>k. find_task s' i = Some k \<and> state (TASKS s ! k) = Free \<and> state (TASKS s' ! k) = Ready \<and>
      uid (TASKS s' ! k) = uid (TASKS s ! CURRENT s) \<and> gid (TASKS s' ! k) = gid (TASKS s ! CURRENT s)) \<and>
    (\<forall>j. state (TASKS s ! j) \<noteq> Free \<longrightarrow> TASKS s' ! j = TASKS s ! j)"
proof -
  have s': "s' = snd (spawn entry s)" using run by simp
  have ok': "tasks_ok s'" by (rule sp.creates_unique_ids [OF s' ok room])
  obtain slot t where i: "i = NEXT_ID s" and a: "adds_task s (CURRENT s) slot t s'"
    using spawn_cases [OF run] by auto
  have slot: "slot < MAX_TASKS" "state (TASKS s ! slot) = Free"
    using a find_idx_SomeD(1,2) [of MAX_TASKS "\<lambda>i. state (TASKS s ! i) = Free" slot]
    by (auto simp: adds_task_def free_slot_def)
  have t: "TASKS s' ! slot = t" using a slot(1) ok by (simp add: adds_task_def tasks_ok_def)
  have "find_task s' i = Some slot" unfolding find_task_def
  proof (rule find_idx_eq_SomeI)
    fix j assume j: "j < slot"
    show "\<not> (state (TASKS s' ! j) \<noteq> Free \<and> task_id (TASKS s' ! j) = i)"
      using ok' j slot(1) t a i unfolding tasks_ok_def adds_task_def by (metis TaskState.distinct(1) less_irrefl order.strict_trans)
  qed (use slot t a i in \<open>auto simp: adds_task_def\<close>)
  moreover have "find_task s i = None"
    unfolding find_task_def find_idx_None_iff using ok i by (auto simp: tasks_ok_def)
  moreover have "\<forall>j. state (TASKS s ! j) \<noteq> Free \<longrightarrow> TASKS s' ! j = TASKS s ! j"
    using sp.creates_frame [OF s' ok] by blast
  ultimately show ?thesis using ok' slot t a by (auto simp: adds_task_def)
qed

text \<open>C33: The per-user task limit is an invariant of all three ways to create a task: no user other
  than root ever has more than \<open>MAX_TASKS_PER_USER\<close> live tasks.\<close>

theorem user_limit_kept:
  assumes "tasks_ok s" and "within_limits s"
  shows "within_limits (snd (spawn entry s)) \<and>
    within_limits (snd (spawn_user entry user_rsp pml4 gdt tss code ustack s)) \<and>
    (\<forall>i s'. fork parent s = Some (i, s') \<longrightarrow> within_limits s')"
  using sp.creates_within_limits [OF refl assms(2,1)] su.creates_within_limits [OF refl assms(2,1)]
    fk.creates_within_limits [OF _ assms(2,1)] by blast

lemma pfree_n_avail:
  assumes "alloc_inv a" and "\<And>i. i < n \<Longrightarrow> p + of_nat i * of_nat PAGE_SIZE \<in> managed_pages a"
  shows "free_pages_of (pfree_n p n a) = free_pages_of a \<union> (\<lambda>i. p + of_nat i * of_nat PAGE_SIZE) ` {..<n} \<and>
    alloc_inv (pfree_n p n a)"
proof -
  let ?f = "\<lambda>i. p + of_nat i * of_nat PAGE_SIZE"
  have "pfree_n p n a = fold pfree (map ?f [0..<n]) a" by (simp add: pfree_n_def fold_map comp_def)
  moreover have "set (map ?f [0..<n]) \<subseteq> managed_pages a" using assms(2) by auto
  ultimately show ?thesis using pm.release_fold [OF assms(1), of "map ?f [0..<n]"] by (auto simp: atLeast0LessThan)
qed

lemma fpu_alloc_avail:
  assumes "fpu_alloc_buf s = (b, s')" and "alloc_inv (alloc (MACH s))"
  shows "free_pages_of (alloc (MACH s)) \<subseteq> insert b (free_pages_of (alloc (MACH s')))"
proof -
  obtain q a where p: "palloc (alloc (MACH s)) = (q, a)" by force
  have r: "b = q" "alloc (MACH s') = a" using assms(1) p by (auto simp: fpu_alloc_buf_def Let_def split: if_splits)
  show ?thesis
  proof (cases "q = 0")
    case True
    then show ?thesis using pm.alloc_none [OF assms(2), of a] p r by auto
  next
    case False
    then show ?thesis using pm.alloc_page [OF assms(2) p] r by auto
  qed
qed

text \<open>Reusing the slot of a reaped task can give away the new task's own stack. \<open>exit\<close> frees the
  kernel stack but leaves its address in the slot; if \<open>spawn\<close> is handed the same block again, it
  then frees "the previous task's stack", so that the stack of the new task is marked free (all
  of it but possibly one page that became its FPU buffer).\<close>

theorem spawn_frees_own_stack:
  assumes inv: "alloc_inv (alloc (MACH s))" and f0: "first_page (alloc (MACH s)) = 0" and ok: "tasks_ok s"
    and slot: "free_slot s = Some slot" and stale: "kstack_phys (TASKS s ! slot) = fst (palloc_n KSTACK_PAGES (alloc (MACH s)))"
    and run: "spawn entry s = (Some i, s')"
  shows "\<forall>j<KSTACK_PAGES.
    let page = kstack_phys (TASKS s' ! slot) + of_nat j * of_nat PAGE_SIZE
    in page \<in> free_pages_of (alloc (MACH s')) \<or> page = fpu_buf_phys (TASKS s' ! slot)"
proof -
  obtain st a where p: "palloc_n KSTACK_PAGES (alloc (MACH s)) = (st, a)" by force
  have lim: "\<not> user_limit s" using run by (auto simp: spawn_def)
  have st0: "st \<noteq> 0" using run p slot lim by (auto simp: spawn_def free_slot_def)
  have n: "0 < KSTACK_PAGES" by (simp add: KSTACK_PAGES_def STACK_SIZE_def)
  obtain b where b: "st = page_addr (alloc (MACH s)) b" "b + KSTACK_PAGES \<le> total_pages (alloc (MACH s))" "alloc_inv a"
    using palloc_n_from_start [OF inv n f0 p] st0 by auto
  have fr: "total_pages a = total_pages (alloc (MACH s))" "phys_start a = phys_start (alloc (MACH s))"
    using p st0 by (auto simp: palloc_n_def split: if_splits option.splits)
  have page: "st + of_nat j * of_nat PAGE_SIZE \<in> managed_pages a" if "j < KSTACK_PAGES" for j
  proof -
    have "st + of_nat j * of_nat PAGE_SIZE = page_addr a (b + j)" using b(1) fr by (simp add: page_addr_def algebra_simps)
    then show ?thesis using that b(2) fr by (auto simp: managed_pages_def)
  qed
  define m where "m = (mem (MACH s))(st := STACK_CANARY)"
  obtain sp' m' where w: "push_words (kernel_frame (st + of_nat STACK_SIZE) entry) (st + of_nat STACK_SIZE - 8) m = (sp', m')" by force
  define s3 where "s3 = (set_mem m' (set_alloc a s))\<lparr>NEXT_ID := NEXT_ID s + 1\<rparr>"
  define s4 where "s4 = free_prev_stack slot s3"
  obtain fpu s5 where f: "fpu_alloc_buf s4 = (fpu, s5)" by force
  let ?t = "task_free\<lparr>state := Ready, stack_base := st, sp := sp', task_id := NEXT_ID s, kstack_phys := st,
      fpu_buf_phys := fpu, uid := uid (TASKS s ! CURRENT s), gid := gid (TASKS s ! CURRENT s),
      cwd := cwd (TASKS s ! CURRENT s), cwd_len := cwd_len (TASKS s ! CURRENT s)\<rparr>"
  have s': "s' = s5\<lparr>TASKS := (TASKS s5)[slot := ?t]\<rparr>"
    using run lim st0 slot p w f
    by (auto simp: spawn_def free_slot_def m_def [symmetric] s3_def [symmetric] s4_def [symmetric] Let_def)
  have "alloc (MACH s4) = pfree_n st KSTACK_PAGES a"
    using stale st0 p by (simp add: s4_def s3_def free_prev_stack_def Let_def)
  then have av: "alloc_inv (alloc (MACH s4))" "st + of_nat j * of_nat PAGE_SIZE \<in> free_pages_of (alloc (MACH s4))"
    if "j < KSTACK_PAGES" for j using pfree_n_avail [OF b(3) page] that by auto
  have "slot < length (TASKS s5)"
    using fpu_alloc_buf_sel [OF f] ok slot find_idx_SomeD(1) [of MAX_TASKS "\<lambda>i. state (TASKS s ! i) = Free" slot]
    by (simp add: s4_def s3_def free_slot_def tasks_ok_def)
  then have "TASKS s' ! slot = ?t" using s' by simp
  then show ?thesis using fpu_alloc_avail [OF f av(1)] av(2) s' n by (auto simp: Let_def)
qed

lemma release_resources_sel [simp]:
  "TASKS (release_resources t s) = TASKS s" "CURRENT (release_resources t s) = CURRENT s"
  by (simp_all add: release_resources_def Let_def)

lemma exit_tasks:
  assumes ok: "tasks_ok s" and run: "exit_with_status status s = Some (r, s')"
    and par: "parent_id (TASKS s ! CURRENT s) = task_id (TASKS s ! j)" "task_id (TASKS s ! j) \<noteq> 0"
    and j: "j < MAX_TASKS" "state (TASKS s ! j) = BlockedRecv" "j \<noteq> CURRENT s"
  shows "length (TASKS s') = MAX_TASKS" and "ipc_val (TASKS s' ! j) = task_id (TASKS s ! CURRENT s)"
    and "state (TASKS s' ! j) \<in> {Ready, Running}" and "state (TASKS s' ! CURRENT s) = Exited"
proof -
  define s1 where "s1 = upd_task (CURRENT s) (\<lambda>t. t\<lparr>state := Exited, exit_status := status\<rparr>) s"
  define s2 where "s2 = wake_parent (parent_id (TASKS s ! CURRENT s)) (task_id (TASKS s ! CURRENT s)) s1"
  have len: "length (TASKS s) = MAX_TASKS" "CURRENT s < length (TASKS s)" using ok by (auto simp: tasks_ok_def)
  have t1: "TASKS s1 ! k = (if k = CURRENT s then (TASKS s ! k)\<lparr>state := Exited, exit_status := status\<rparr> else TASKS s ! k)" for k
    using len by (simp add: s1_def upd_task_nth)
  have l1: "length (TASKS s1) = MAX_TASKS" "length (TASKS s2) = MAX_TASKS"
    using len by (auto simp: s1_def s2_def wake_parent_def)
  have t2: "TASKS s2 ! j = (TASKS s ! j)\<lparr>state := Ready, ipc_val := task_id (TASKS s ! CURRENT s)\<rparr>"
    using par j l1 by (simp add: s2_def wake_parent_def t1)
  have t2': "state (TASKS s2 ! CURRENT s) = Exited"
    using par l1 len by (simp add: s2_def wake_parent_def t1)
  have ne: "find_ready s2 \<noteq> CURRENT s"
    using run unfolding exit_with_status_def Let_def s1_def [symmetric] s2_def [symmetric] by auto
  have c2: "CURRENT s2 = CURRENT s" by (simp add: s2_def s1_def wake_parent_def)
  have lt: "find_ready s2 < length (TASKS s2)"
    using find_ready_Some(1) [of s2 j] t2 j l1 c2 len by simp
  have T: "TASKS s' = TASKS (upd_task (find_ready s2) (\<lambda>t. t\<lparr>state := Running\<rparr>) s2)"
    using run ne unfolding exit_with_status_def Let_def s1_def [symmetric] s2_def [symmetric] by (auto split: if_splits)
  show "length (TASKS s') = MAX_TASKS" using T l1 by simp
  show "ipc_val (TASKS s' ! j) = task_id (TASKS s ! CURRENT s)" "state (TASKS s' ! j) \<in> {Ready, Running}"
    using T t2 lt by (auto simp: upd_task_nth)
  show "state (TASKS s' ! CURRENT s) = Exited" using T t2' ne lt by (simp add: upd_task_nth)
qed

text \<open>A blocking \<open>waitpid\<close> mistakes the child's identifier for its slot: \<open>exit\<close> wakes the parent with
  the child's identifier in \<open>ipc_val\<close>, and the parent then looks at the slot with that number. If
  that slot does not hold an exited task, the call reports an error and the child is never
  reaped.\<close>

theorem waitpid_confuses_id_and_slot:
  assumes ok: "tasks_ok s" and run: "exit_with_status status s = Some (r, s')"
    and par: "parent_id (TASKS s ! CURRENT s) = task_id (TASKS s ! j)" "task_id (TASKS s ! j) \<noteq> 0"
    and j: "j < MAX_TASKS" "state (TASKS s ! j) = BlockedRecv" "j \<noteq> CURRENT s"
    and id: "unat (task_id (TASKS s ! CURRENT s)) \<ge> MAX_TASKS \<or>
      state (TASKS s' ! unat (task_id (TASKS s ! CURRENT s))) \<noteq> Exited"
  shows "state (TASKS s' ! CURRENT s) = Exited \<and> state (TASKS s' ! j) \<in> {Ready, Running} \<and>
    waitpid_resume (s'\<lparr>CURRENT := j\<rparr>) = (None, s'\<lparr>CURRENT := j\<rparr>)"
  using exit_tasks [OF ok run par j] id by (auto simp: waitpid_resume_def Let_def)

section \<open>Concrete systems\<close>

definition demo_system :: "task \<Rightarrow> task \<Rightarrow> system" where
  "demo_system t0 t1 = \<lparr>TASKS = [t0, t1] @ replicate 30 task_free,
     CURRENT = 0, NEXT_ID = 50, TICK_COUNT = 0, CR3 = 0, KERNEL_PML4 = 4096, SYS_KRSP = 0,
     SYS_URSAVE = 0, FPU = [], FPU_MEM = (\<lambda>_. []), CAP_TABLES = [], PENDING = [], CONSOLE_CLIENT_CAP = 0,
     MACH = \<lparr>alloc = fresh_pool 40, mem = (\<lambda>_. 0)\<rparr>\<rparr>"

lemma demo_system_sel:
  "TASKS (demo_system t0 t1) ! 0 = t0" "TASKS (demo_system t0 t1) ! Suc 0 = t1"
  "length (TASKS (demo_system t0 t1)) = MAX_TASKS" "CURRENT (demo_system t0 t1) = 0" "NEXT_ID (demo_system t0 t1) = 50"
  "alloc (MACH (demo_system t0 t1)) = fresh_pool 40"
  by (simp_all add: demo_system_def MAX_TASKS_def)

lemma demo_system_rest: "i < MAX_TASKS \<Longrightarrow> 2 \<le> i \<Longrightarrow> TASKS (demo_system t0 t1) ! i = task_free"
  by (auto simp: demo_system_def MAX_TASKS_def nth_Cons split: nat.splits)

lemma demo_system_ok:
  assumes "state t0 = Running" "task_id t0 < 50" "state t1 \<noteq> Free \<longrightarrow> task_id t1 < 50 \<and> task_id t1 \<noteq> task_id t0"
  shows "tasks_ok (demo_system t0 t1)"
proof -
  let ?T = "TASKS (demo_system t0 t1)"
  have live: "i = 0 \<and> ?T ! i = t0 \<or> i = Suc 0 \<and> ?T ! i = t1 \<and> state t1 \<noteq> Free"
    if "i < MAX_TASKS" "state (?T ! i) \<noteq> Free" for i
  proof (cases "2 \<le> i")
    case True
    then show ?thesis using that demo_system_rest [of i t0 t1] by (simp add: task_free_def)
  next
    case False
    then have "i = 0 \<or> i = Suc 0" by auto
    then show ?thesis using that demo_system_sel(1,2) by auto
  qed
  have "task_id (?T ! i) < 50" if "i < MAX_TASKS" "state (?T ! i) \<noteq> Free" for i
    using live [OF that] assms(2,3) by auto
  moreover have "i = j" if "i < MAX_TASKS" "state (?T ! i) \<noteq> Free" "j < MAX_TASKS" "state (?T ! j) \<noteq> Free"
      "task_id (?T ! i) = task_id (?T ! j)" for i j
    using live [OF that(1,2)] live [OF that(3,4)] that(5) assms(3) by auto
  ultimately show ?thesis unfolding tasks_ok_def by (simp add: demo_system_sel MAX_TASKS_def)
qed

abbreviation demo_creator :: task where
  "demo_creator \<equiv> task_free\<lparr>state := Running, task_id := 1, uid := 5\<rparr>"

abbreviation demo_reaped :: task where
  "demo_reaped \<equiv> task_free\<lparr>task_id := 2, kstack_phys := 8192\<rparr>"

lemma scan_clear:
  "n \<le> len + length is \<Longrightarrow> 0 < len \<Longrightarrow> len < n \<Longrightarrow> palloc_n_scan (\<lambda>_. 0) tot n is st len = Some st"
  by (induction "is" arbitrary: len) (auto simp: palloc_n_scan_step bit_test_eq)

lemma demo_pool_stack: "fst (palloc_n KSTACK_PAGES (fresh_pool 40)) = 8192"
proof -
  have "palloc_n_scan (\<lambda>_. 0) 40 16 (0 # [1..<40]) 0 0 = Some 0"
    using scan_clear [of 16 1 "[1..<40]" 40 0] by (simp add: palloc_n_scan_step bit_test_eq wrap_idx_def del: upt_Suc)
  moreover have "[0..<40] = 0 # [1..<(40::nat)]" by (simp add: upt_conv_Cons)
  ultimately show ?thesis
    by (simp add: palloc_n_def KSTACK_PAGES_def STACK_SIZE_def page_addr_def del: upt_Suc)
qed

lemma demo_spawn: "spawn 4096 (demo_system demo_creator demo_reaped) =
    (Some 50, snd (spawn 4096 (demo_system demo_creator demo_reaped)))"
  "free_slot (demo_system demo_creator demo_reaped) = Some 1"
  "tasks_ok (demo_system demo_creator demo_reaped)"
proof -
  let ?s = "demo_system demo_creator demo_reaped"
  show ok: "tasks_ok ?s" by (rule demo_system_ok) (simp_all add: task_free_def)
  show slot: "free_slot ?s = Some 1"
    unfolding free_slot_def by (rule find_idx_eq_SomeI) (simp_all add: demo_system_sel MAX_TASKS_def task_free_def)
  have "task_count_for_uid ?s 5 = 1" by (simp add: task_count_for_uid_def demo_system_def task_free_def)
  then have lim: "\<not> user_limit ?s"
    by (simp add: user_limit_def demo_system_sel MAX_TASKS_PER_USER_def)
  obtain st a where p: "palloc_n KSTACK_PAGES (fresh_pool 40) = (st, a)" by force
  then have "st = 8192" using demo_pool_stack by simp
  then have "fst (spawn 4096 ?s) = Some 50"
    using lim slot p by (simp add: spawn_def free_slot_def demo_system_sel case_prod_beta Let_def)
  then show "spawn 4096 ?s = (Some 50, snd (spawn 4096 ?s))" by (simp add: prod_eq_iff)
qed

theorem spawn_correct_witness:
  "tasks_ok (snd (spawn 4096 (demo_system demo_creator demo_reaped))) \<and>
    (\<exists>k. find_task (snd (spawn 4096 (demo_system demo_creator demo_reaped))) 50 = Some k)"
  using spawn_correct [OF demo_spawn(3) _ demo_spawn(1)] by (auto simp: demo_system_sel)

theorem user_limit_kept_witness:
  "within_limits (snd (spawn 4096 (demo_system demo_creator demo_reaped)))"
proof -
  have "task_count_for_uid (demo_system demo_creator demo_reaped) u \<le> 1" for u
    by (simp add: task_count_for_uid_def demo_system_def task_free_def)
  then have "within_limits (demo_system demo_creator demo_reaped)"
    unfolding within_limits_def MAX_TASKS_PER_USER_def by (meson le_trans one_le_numeral)
  from user_limit_kept [OF demo_spawn(3) this] show ?thesis by blast
qed

theorem spawn_frees_own_stack_witness:
  "let s' = snd (spawn 4096 (demo_system demo_creator demo_reaped));
       page = kstack_phys (TASKS s' ! 1) + of_nat 3 * of_nat PAGE_SIZE
   in page \<in> free_pages_of (alloc (MACH s')) \<or> page = fpu_buf_phys (TASKS s' ! 1)"
proof -
  let ?s = "demo_system demo_creator demo_reaped"
  have "alloc_inv (alloc (MACH ?s))" "first_page (alloc (MACH ?s)) = 0"
    "kstack_phys (TASKS ?s ! 1) = fst (palloc_n KSTACK_PAGES (alloc (MACH ?s)))"
    using fresh_pool_inv [of 40] demo_pool_stack by (simp_all add: demo_system_sel)
  from spawn_frees_own_stack [OF this(1,2) demo_spawn(3,2) this(3) demo_spawn(1)]
  show ?thesis by (auto simp: KSTACK_PAGES_def STACK_SIZE_def Let_def dest!: spec [of _ 3])
qed

abbreviation demo_exiting :: task where
  "demo_exiting \<equiv> task_free\<lparr>state := Running, task_id := 40, parent_id := 3\<rparr>"

abbreviation demo_parent :: task where
  "demo_parent \<equiv> task_free\<lparr>state := BlockedRecv, task_id := 3\<rparr>"

lemma demo_exit: "exit_with_status 0 (demo_system demo_exiting demo_parent) =
    Some (the (exit_with_status 0 (demo_system demo_exiting demo_parent)))"
proof -
  let ?s = "demo_system demo_exiting demo_parent"
  let ?s2 = "wake_parent 3 40 (upd_task 0 (\<lambda>t. t\<lparr>state := Exited, exit_status := 0\<rparr>) ?s)"
  have "CURRENT ?s2 = 0" "state (TASKS ?s2 ! 1) = Ready" "state (TASKS ?s2 ! 0) = Exited"
    by (simp_all add: wake_parent_def upd_task_def demo_system_def task_free_def)
  moreover from this have "state (TASKS ?s2 ! find_ready ?s2) = Ready"
    using find_ready_Some(2) [of ?s2 1] by (simp add: MAX_TASKS_def)
  ultimately have "find_ready ?s2 \<noteq> 0" by (intro notI) (simp only: TaskState.distinct)
  then show ?thesis by (simp add: exit_with_status_def Let_def demo_system_sel task_free_def)
qed

theorem waitpid_confuses_id_and_slot_witness:
  "\<exists>s'. state (TASKS s' ! 0) = Exited \<and> waitpid_resume (s'\<lparr>CURRENT := 1\<rparr>) = (None, s'\<lparr>CURRENT := 1\<rparr>)"
proof -
  let ?s = "demo_system demo_exiting demo_parent"
  obtain r s' where run: "exit_with_status 0 ?s = Some (r, s')" using demo_exit by (metis surj_pair)
  have ok: "tasks_ok ?s" by (rule demo_system_ok) (simp_all add: task_free_def)
  have "state (TASKS s' ! CURRENT ?s) = Exited \<and> state (TASKS s' ! 1) \<in> {Ready, Running} \<and>
    waitpid_resume (s'\<lparr>CURRENT := 1\<rparr>) = (None, s'\<lparr>CURRENT := 1\<rparr>)"
    by (rule waitpid_confuses_id_and_slot [OF ok run]) (simp_all add: demo_system_sel task_free_def MAX_TASKS_def)
  then show ?thesis by (auto simp: demo_system_sel)
qed

end
