(* ===== verification/Elf.thy ===== *)
theory Elf
  imports Processes Paging_Correct Gpt
begin

text \<open>
  The two program loaders, \<open>kernel/src/elf.rs\<close> (\<open>load_and_spawn\<close>) and \<open>kernel/src/linux/elf.rs\<close>
  (\<open>load_linux_elf\<close>), and the address spaces they start from, \<open>prepare_user_pml4\<close> of
  \<open>kernel/src/syscall/env.rs\<close>. The file's bytes are an argument (the first loader reads them through
  the file system into a heap buffer, which it frees on every path).

  The state is the machine of the paging theories, whose memory holds the page tables as words, and
  the contents of physical memory outside the tables as bytes. Reading a header field outside the
  file gives \<open>None\<close>, as does an identity map that does not end. The descriptor tables that a user task
  needs (\<open>setup_user_gdt_tss\<close>) are hardware structures and left out, as is printing.
\<close>

section \<open>Headers\<close>

record Elf64Ehdr =
  ident :: bytes
  e_type :: u16
  e_machine :: u16
  e_entry :: u64
  e_phoff :: u64
  e_phentsize :: u16
  e_phnum :: u16

record Elf64Phdr =
  p_type :: u32
  p_flags :: u32
  p_offset :: u64
  p_vaddr :: u64
  p_filesz :: u64
  p_memsz :: u64

definition read_ehdr :: "bytes \<Rightarrow> Elf64Ehdr option" where
  "read_ehdr f =
     do { ty \<leftarrow> le16 f 16; mach \<leftarrow> le16 f 18; entry \<leftarrow> le64 f 24; phoff \<leftarrow> le64 f 32; phentsize \<leftarrow> le16 f 54; phnum \<leftarrow> le16 f 56;
          Some \<lparr>ident = take 16 f, e_type = ty, e_machine = mach, e_entry = entry, e_phoff = phoff,
                e_phentsize = phentsize, e_phnum = phnum\<rparr> }"

definition read_phdr :: "bytes \<Rightarrow> nat \<Rightarrow> Elf64Phdr option" where
  "read_phdr f off =
     do { ty \<leftarrow> le32 f off; fl \<leftarrow> le32 f (off + 4); p_off \<leftarrow> le64 f (off + 8); va \<leftarrow> le64 f (off + 16);
          fsz \<leftarrow> le64 f (off + 32); msz \<leftarrow> le64 f (off + 40);
          Some \<lparr>p_type = ty, p_flags = fl, p_offset = p_off, p_vaddr = va, p_filesz = fsz, p_memsz = msz\<rparr> }"

definition PT_LOAD :: u32 where "PT_LOAD = 1"
definition PF_W :: u32 where "PF_W = 2"
definition USER_STACK_VIRT :: u64 where "USER_STACK_VIRT = 0x00007FFFFFF000"
definition USER_STACK_SIZE :: u64 where "USER_STACK_SIZE = 0x1000"
definition ELF_MAGIC :: bytes where "ELF_MAGIC = [0x7F, 0x45, 0x4C, 0x46]"

section \<open>Memory\<close>

record image =
  mach :: machine
  ram :: "u64 \<Rightarrow> u8"

text \<open>\<open>copy_nonoverlapping\<close> from the file and \<open>write_bytes\<close> of zeros into physical memory.\<close>

definition copy_in :: "bytes \<Rightarrow> nat \<Rightarrow> u64 \<Rightarrow> nat \<Rightarrow> (u64 \<Rightarrow> u8) \<Rightarrow> (u64 \<Rightarrow> u8)" where
  "copy_in f off dst n r = (\<lambda>a. if unat (a - dst) < n then f ! (off + unat (a - dst)) else r a)"

definition clear :: "u64 \<Rightarrow> nat \<Rightarrow> (u64 \<Rightarrow> u8) \<Rightarrow> (u64 \<Rightarrow> u8)" where
  "clear dst n r = (\<lambda>a. if unat (a - dst) < n then 0 else r a)"

section \<open>The native loader\<close>

definition seg_start :: "u64 \<Rightarrow> u64" where "seg_start vaddr = vaddr AND NOT 0xFFF"
definition seg_end :: "u64 \<Rightarrow> u64 \<Rightarrow> u64" where "seg_end vaddr memsz = (vaddr + memsz + 0xFFF) AND NOT 0xFFF"

text \<open>The contents of one page of a segment.\<close>

definition fill_page :: "bytes \<Rightarrow> Elf64Phdr \<Rightarrow> u64 \<Rightarrow> u64 \<Rightarrow> (u64 \<Rightarrow> u8) \<Rightarrow> (u64 \<Rightarrow> u8)" where
  "fill_page f ph page_virt page_phys r =
     (let rel = page_virt - p_vaddr ph; filesz = p_filesz ph;
          r1 = (if rel < filesz then copy_in f (unat (p_offset ph) + unat rel) page_phys (unat (min (filesz - rel) 0x1000)) r else r);
          z_lo = (if rel \<ge> filesz then rel else filesz);
          z_hi = min (rel + 0x1000) (p_memsz ph)
      in if z_hi > z_lo then clear (page_phys + (z_lo - rel)) (unat (z_hi - z_lo)) r1 else r1)"

primrec load_pages :: "bytes \<Rightarrow> Elf64Phdr \<Rightarrow> u64 \<Rightarrow> nat \<Rightarrow> u64 \<Rightarrow> image \<Rightarrow> bool \<times> image" where
  "load_pages f ph pml4 0 page_virt s = (True, s)"
| "load_pages f ph pml4 (Suc n) page_virt s =
     (let (page_phys, a) = palloc (alloc (mach s)); s1 = s\<lparr>mach := (mach s)\<lparr>alloc := a\<rparr>\<rparr> in
      if page_phys = 0 then (False, s1)
      else let flags = (if p_flags ph AND PF_W \<noteq> 0 then PTE_USER OR PTE_WRITABLE else PTE_USER);
               (m, ret) = map_page (mach s1) pml4 page_phys page_virt flags
           in if ret \<noteq> 0 then (False, s1\<lparr>mach := m\<rparr>)
              else load_pages f ph pml4 n (page_virt + 0x1000) (s1\<lparr>mach := m, ram := fill_page f ph page_virt page_phys (ram s1)\<rparr>))"

definition load_segment :: "bytes \<Rightarrow> Elf64Phdr \<Rightarrow> u64 \<Rightarrow> image \<Rightarrow> bool \<times> image" where
  "load_segment f ph pml4 s =
     (if p_type ph \<noteq> PT_LOAD then (True, s)
      else if unat (p_offset ph) + unat (p_filesz ph) \<ge> 2 ^ 64 \<or> unat (p_offset ph) + unat (p_filesz ph) > length f then (False, s)
      else if p_memsz ph > 64 * 1024 * 1024 then (False, s)
      else let start = seg_start (p_vaddr ph); num_pages = (seg_end (p_vaddr ph) (p_memsz ph) - start) div 0x1000
           in load_pages f ph pml4 (unat num_pages) start s)"

fun load_segments :: "bytes \<Rightarrow> nat \<Rightarrow> nat list \<Rightarrow> u64 \<Rightarrow> image \<Rightarrow> (bool \<times> image) option" where
  "load_segments f phoff [] pml4 s = Some (True, s)"
| "load_segments f phoff (i # rest) pml4 s =
     do { ph \<leftarrow> read_phdr f (phoff + i * 56);
          let (ok, s1) = load_segment f ph pml4 s in if ok then load_segments f phoff rest pml4 s1 else Some (False, s1) }"

definition elf_valid :: "bytes \<Rightarrow> Elf64Ehdr \<Rightarrow> bool" where
  "elf_valid f h \<longleftrightarrow> \<not> (take 4 (ident h) \<noteq> ELF_MAGIC \<or> ident h ! 4 \<noteq> 2 \<or> ident h ! 5 \<noteq> 1) \<and>
     \<not> (e_machine h \<noteq> 62 \<or> e_type h \<noteq> 2 \<and> e_type h \<noteq> 3) \<and>
     \<not> (e_phentsize h \<noteq> 56 \<or> e_phnum h = 0 \<or> e_phnum h > 32) \<and>
     \<not> (unat (e_phoff h) + unat (e_phnum h) * unat (e_phentsize h) \<ge> 2 ^ 64 \<or>
        unat (e_phoff h) + unat (e_phnum h) * unat (e_phentsize h) > length f)"

definition prepare_user_pml4 :: "u64 \<Rightarrow> machine \<Rightarrow> (u64 option \<times> machine) option" where
  "prepare_user_pml4 cur m =
     (let (m1, pml4) = create_address_space m in
      if pml4 = 0 then Some (None, m1)
      else do { (m2, ok) \<leftarrow> identity_map_2mb (clone_high_half m1 cur pml4) pml4 0 0x100000000 (PTE_WRITABLE OR PTE_GLOBAL);
                if \<not> ok then Some (None, m2)
                else let pml4e0 = get_pte (mem m2) pml4 0 in
                  if pml4e0 AND 1 = 0 then Some (Some pml4, m2)
                  else let w = set_pte (mem m2) pml4 0 (pml4e0 OR PTE_USER);
                           pdpt = pml4e0 AND 0xFFFFFFFFF000; pdpte0 = get_pte w pdpt 0;
                           w = (if pdpte0 AND 1 \<noteq> 0 then set_pte w pdpt 0 (pdpte0 OR PTE_USER) else w)
                       in Some (Some pml4, m2\<lparr>mem := w\<rparr>) })"

text \<open>The four single pages a user task gets; on failure the pages taken so far are given back.\<close>

definition task_pages :: "phys_allocator \<Rightarrow> (u64 \<times> u64 \<times> u64 \<times> u64) option \<times> phys_allocator" where
  "task_pages a0 =
     (let (code, a1) = palloc a0 in
      if code = 0 then (None, a1)
      else let (stack, a2) = palloc a1 in
        if stack = 0 then (None, pfree code a2)
        else let (gdt, a3) = palloc a2 in
          if gdt = 0 then (None, pfree stack (pfree code a3))
          else let (tss, a4) = palloc a3 in
            if tss = 0 then (None, pfree gdt (pfree stack (pfree code a4)))
            else (Some (code, stack, gdt, tss), a4))"

text \<open>\<open>load_and_spawn\<close> from the bytes of the file on; the result is the task id, or 0.\<close>

definition load_and_spawn :: "bytes \<Rightarrow> u64 \<Rightarrow> system \<times> (u64 \<Rightarrow> u8) \<Rightarrow> (u64 \<times> system \<times> (u64 \<Rightarrow> u8)) option" where
  "load_and_spawn f cur = (\<lambda>(s, r).
     if length f < 64 then Some (0, s, r)
     else do { h \<leftarrow> read_ehdr f;
       if \<not> elf_valid f h then Some (0, s, r)
       else let (pages, a) = task_pages (alloc (MACH s)); s1 = set_alloc a s in
         case pages of None \<Rightarrow> Some (0, s1, r)
         | Some (code, stack, gdt, tss) \<Rightarrow>
             do { (p, m) \<leftarrow> prepare_user_pml4 cur (MACH s1);
                  case p of None \<Rightarrow> Some (0, s1\<lparr>MACH := m\<rparr>, r)
                  | Some pml4 \<Rightarrow>
                      let (m1, ret) = map_page m pml4 stack USER_STACK_VIRT (PTE_WRITABLE OR PTE_USER) in
                      if ret \<noteq> 0 then Some (0, s1\<lparr>MACH := m1\<rparr>, r)
                      else do { (ok, im) \<leftarrow> load_segments f (unat (e_phoff h)) [0..<unat (e_phnum h)] pml4 \<lparr>mach = m1, ram = r\<rparr>;
                                let s2 = s1\<lparr>MACH := mach im\<rparr> in
                                if \<not> ok then Some (0, s2, ram im)
                                else let (tid, s3) = spawn_user (e_entry h) (USER_STACK_VIRT + USER_STACK_SIZE) pml4 gdt tss code stack s2
                                     in Some (case tid of Some t \<Rightarrow> t | None \<Rightarrow> 0, s3, ram im) } } })"

section \<open>What the page-table operations take\<close>

text \<open>They only ever take pages from the allocator.\<close>

definition shrinks :: "phys_allocator \<Rightarrow> phys_allocator \<Rightarrow> bool" where
  "shrinks a b \<longleftrightarrow> alloc_inv b \<and> free_pages_of b \<subseteq> free_pages_of a"

lemma shrinks_trans: "shrinks a b \<Longrightarrow> shrinks b c \<Longrightarrow> shrinks a c"
  by (auto simp: shrinks_def)

lemma palloc_shrinks: "alloc_inv a \<Longrightarrow> palloc a = (p, b) \<Longrightarrow> shrinks a b"
  using pm.alloc_page [of a p b] palloc_failed [of a b] by (cases "p = 0") (auto simp: shrinks_def)

lemma ensure_table_shrinks:
  assumes "alloc_inv (alloc s)" and "ensure_table s t i c = (s', r)"
  shows "shrinks (alloc s) (alloc s')"
  using assms palloc_shrinks [OF assms(1)]
  by (auto simp: ensure_table_def shrinks_def Let_def split: if_splits prod.splits)

lemma split_huge_shrinks:
  assumes "alloc_inv (alloc s)" and "split_huge s pd i e = (s', r)"
  shows "shrinks (alloc s) (alloc s')"
  using assms palloc_shrinks [OF assms(1)]
  by (auto simp: split_huge_def shrinks_def Let_def split: if_splits prod.splits)

lemma walk_shrinks:
  assumes inv: "alloc_inv (alloc s)" and run: "walk_or_create s pml4 v c = (s', x)"
  shows "shrinks (alloc s) (alloc s')"
proof -
  obtain s0 k0 where e0: "ensure_table s pml4 (pml4_index v) c = (s0, k0)" by force
  have i0: "alloc_inv (alloc s0)" "shrinks (alloc s) (alloc s0)" using ensure_table_shrinks [OF inv e0] by (auto simp: shrinks_def)
  let ?pdpt = "phys_from_pte (get_pte (mem s0) pml4 (pml4_index v))"
  obtain s1 k1 where e1: "ensure_table s0 ?pdpt (pdpt_index v) c = (s1, k1)" by force
  have i1: "alloc_inv (alloc s1)" "shrinks (alloc s) (alloc s1)"
    using ensure_table_shrinks [OF i0(1) e1] i0(2) shrinks_trans by (auto simp: shrinks_def)
  let ?pd = "phys_from_pte (get_pte (mem s1) ?pdpt (pdpt_index v))"
  let ?e2 = "get_pte (mem s1) ?pd (pd_index v)"
  have i2: "shrinks (alloc s) (alloc s2)"
    if "(if ?e2 AND PTE_HUGE \<noteq> 0 then split_huge s1 ?pd (pd_index v) ?e2 else ensure_table s1 ?pd (pd_index v) c) = (s2, k2)" for s2 k2
    using that split_huge_shrinks [OF i1(1)] ensure_table_shrinks [OF i1(1)] shrinks_trans [OF i1(2)] by (auto split: if_splits)
  show ?thesis using run i0(2) i1(2) i2 e0 e1
    by (auto simp: walk_or_create_def Let_def split: if_splits prod.splits)
qed

lemma map_page_shrinks:
  assumes "alloc_inv (alloc s)" and "map_page s pml4 p v fl = (s', r)"
  shows "shrinks (alloc s) (alloc s')"
  using assms(2) walk_shrinks [OF assms(1)]
  by (auto simp: map_page_def Let_def split: if_splits prod.splits)

section \<open>Bytes of a page\<close>

lemma unat_diff_less:
  assumes "unat z + n \<le> 2 ^ 64"
  shows "unat ((x :: u64) - z) < n \<longleftrightarrow> unat z \<le> unat x \<and> unat x < unat z + n"
proof (cases "z \<le> x")
  case True
  then show ?thesis using assms by (auto simp: unat_sub word_le_nat_alt)
next
  case False
  then have "unat x < unat z" by (simp add: word_le_nat_alt)
  then have "unat (x - z) = 2 ^ 64 + unat x - unat z" using unsigned_less [of z] by (simp add: unat_sub_if')
  then show ?thesis using assms \<open>unat x < unat z\<close> by auto
qed

definition wanted :: "bytes \<Rightarrow> Elf64Phdr \<Rightarrow> nat \<Rightarrow> u8" where
  "wanted f ph k = (if k < unat (p_filesz ph) then f ! (unat (p_offset ph) + k) else 0)"

lemma fill_page_spec:
  assumes "unat (page_virt - p_vaddr ph) = base" and "base < 2 ^ 27" and "unat (p_memsz ph) < 2 ^ 27"
    and "unat (p_filesz ph) \<le> unat (p_memsz ph)"
  shows "fill_page f ph page_virt p r a =
    (if unat (a - p) < 4096 \<and> base + unat (a - p) < unat (p_memsz ph) then wanted f ph (base + unat (a - p)) else r a)"
proof -
  define rel where "rel = page_virt - p_vaddr ph"
  define lo where "lo = (if rel \<ge> p_filesz ph then rel else p_filesz ph)"
  define hi where "hi = min (rel + 0x1000) (p_memsz ph)"
  let ?fs = "unat (p_filesz ph)" and ?ms = "unat (p_memsz ph)" and ?d = "unat (a - p)"
  have rel: "unat rel = base" using assms(1) by (simp add: rel_def)
  have lt: "rel < p_filesz ph \<longleftrightarrow> base < ?fs" using rel by (simp add: word_less_nat_alt)
  have n: "unat (min (p_filesz ph - rel) 0x1000) = min (?fs - base) 4096" if "base < ?fs"
    using that rel by (simp add: min_def word_le_nat_alt unat_sub)
  have hi: "unat hi = min (base + 4096) ?ms"
    using rel assms(2) by (simp add: hi_def min_def word_le_nat_alt unat_word_ariths)
  have lo: "unat lo = max base ?fs" using rel by (auto simp: lo_def word_le_nat_alt max_def)
  then have lr: "unat (lo - rel) = max base ?fs - base" using rel by (subst unat_sub) (auto simp: word_le_nat_alt)
  have z: "lo < hi \<longleftrightarrow> max base ?fs < min (base + 4096) ?ms" using lo hi by (simp add: word_less_nat_alt)
  have c: "clear (p + (lo - rel)) (unat (hi - lo)) q a =
      (if max base ?fs - base \<le> ?d \<and> base + ?d < min (base + 4096) ?ms then 0 else q a)" if "lo < hi" for q
  proof -
    have k: "unat (hi - lo) = min (base + 4096) ?ms - max base ?fs"
      using that lo hi by (subst unat_sub) (simp_all add: word_le_nat_alt word_less_nat_alt)
    have "unat (a - p - (lo - rel)) < unat (hi - lo) \<longleftrightarrow> unat (lo - rel) \<le> ?d \<and> ?d < unat (lo - rel) + unat (hi - lo)"
      by (rule unat_diff_less) (use k lr assms(2-4) in \<open>simp add: max_def min_def; linarith\<close>)
    then show ?thesis using k lr z that by (auto simp: clear_def diff_diff_eq)
  qed
  have cp: "copy_in f (unat (p_offset ph) + unat rel) p (unat (min (p_filesz ph - rel) 0x1000)) r a =
      (if ?d < min (?fs - base) 4096 then f ! (unat (p_offset ph) + (base + ?d)) else r a)" if "base < ?fs"
    using n [OF that] rel by (simp add: copy_in_def add.assoc)
  have "fill_page f ph page_virt p r a =
    (if max base ?fs < min (base + 4096) ?ms \<and> max base ?fs - base \<le> ?d \<and> base + ?d < min (base + 4096) ?ms then 0
     else if base < ?fs then (if ?d < min (?fs - base) 4096 then f ! (unat (p_offset ph) + (base + ?d)) else r a) else r a)"
    unfolding fill_page_def Let_def rel_def [symmetric] lo_def [symmetric] hi_def [symmetric] lt using c cp z by simp
  then show ?thesis using assms(4) by (auto simp: wanted_def max_def min_def split: if_splits)
qed

section \<open>Addresses\<close>

lemma aligned_bit: "page_aligned p \<Longrightarrow> n < 12 \<Longrightarrow> \<not> bit p n"
  unfolding page_aligned_def by (metis bit_take_bit_iff bit_0_eq bot_apply bot_bool_def)

lemma small_bit: "i < 4096 \<Longrightarrow> bit (of_nat i :: u64) n \<Longrightarrow> n < 12"
proof -
  assume i: "i < 4096" "bit (of_nat i :: u64) n"
  have "take_bit 12 (of_nat i :: u64) = of_nat i"
    using i(1) by (simp add: take_bit_of_nat take_bit_nat_eq_self)
  then show ?thesis using i(2) by (metis bit_take_bit_iff)
qed

lemma bit_FFF: "bit (0xFFF :: u64) n \<longleftrightarrow> n < 12"
proof -
  have "bit (mask 12 :: u64) n \<longleftrightarrow> n < 12" by (auto simp: bit_mask_iff)
  then show ?thesis by (simp add: mask_eq_exp_minus_1)
qed

lemma page_plus:
  assumes "page_aligned p" and "i < 4096"
  shows "p + of_nat i = p OR of_nat i" and "(p + of_nat i) AND 0xFFF = of_nat i" and "(p + of_nat i) AND NOT 0xFFF = p"
proof -
  have "p AND of_nat i = 0"
    by (rule bit_word_eqI) (use aligned_bit [OF assms(1)] small_bit [OF assms(2)] in \<open>auto simp: bit_simps\<close>)
  then show e: "p + of_nat i = p OR of_nat i" by (rule disjunctive_add_eq_or)
  show "(p + of_nat i) AND 0xFFF = of_nat i"
  proof (rule bit_word_eqI)
    fix n
    have "bit p n \<Longrightarrow> \<not> n < 12" "bit (of_nat i :: u64) n \<Longrightarrow> n < 12"
      using aligned_bit [OF assms(1)] small_bit [OF assms(2)] by blast+
    then show "bit ((p + of_nat i) AND 0xFFF) n = bit (of_nat i :: u64) n"
      unfolding e bit_and_iff bit_or_iff bit_FFF by blast
  qed
  show "(p + of_nat i) AND NOT 0xFFF = p"
  proof (rule bit_word_eqI)
    fix n assume "n < LENGTH(64)"
    moreover have "bit p n \<Longrightarrow> \<not> n < 12" "bit (of_nat i :: u64) n \<Longrightarrow> n < 12"
      using aligned_bit [OF assms(1)] small_bit [OF assms(2)] by blast+
    ultimately show "bit ((p + of_nat i) AND NOT 0xFFF) n = bit p n"
      unfolding e bit_and_iff bit_or_iff bit_not_iff bit_FFF by auto
  qed
qed

lemma in_page:
  assumes "page_aligned p" and "unat (a - p) < 4096"
  shows "a AND NOT 0xFFF = p"
proof -
  have "a = p + of_nat (unat (a - p))" by simp
  then show ?thesis using page_plus(3) [OF assms] by metis
qed

lemma index_bits:
  fixes v w :: u64
  assumes "unat (drop_bit k v AND 0x1FF) = unat (drop_bit k w AND 0x1FF)" and "k \<le> n" and "n < k + 9"
  shows "bit (v :: u64) n = bit (w :: u64) n"
proof -
  have m: "(0x1FF :: u64) = mask 9" by (simp add: mask_eq_exp_minus_1)
  have "drop_bit k v AND mask 9 = drop_bit k w AND mask 9" using assms(1) unfolding m by (simp add: word_unat_eq_iff)
  then have "bit (drop_bit k v AND mask 9) (n - k) = bit (drop_bit k w AND mask 9) (n - k)" by simp
  then show ?thesis using assms(2,3) by (auto simp: bit_simps dest: bit_imp_le_length)
qed

lemma same_page_div:
  assumes "same_page v w" and "unat v < 2 ^ 48" and "unat w < 2 ^ 48"
  shows "unat v div 4096 = unat w div 4096"
proof -
  have hi: "\<not> bit x n" if "unat x < 2 ^ 48" "48 \<le> n" for x :: u64 and n
  proof -
    have "take_bit 48 x = x" using that(1) by (simp add: word_unat_eq_iff unsigned_take_bit_eq take_bit_nat_eq_self)
    then show ?thesis using that(2) by (metis bit_take_bit_iff not_less)
  qed
  have ix: "pml4_index v = pml4_index w" "pdpt_index v = pdpt_index w" "pd_index v = pd_index w" "pt_index v = pt_index w"
    using assms(1) unfolding same_path_def lvl_index_def by (force dest: spec [of _ 0] spec [of _ 1] spec [of _ 2] spec [of _ 3])+
  have "bit v n = bit w n" if "12 \<le> n" for n
  proof -
    consider "n < 21" | "21 \<le> n" "n < 30" | "30 \<le> n" "n < 39" | "39 \<le> n" "n < 48" | "48 \<le> n" by linarith
    then show ?thesis
      by cases (use ix that hi assms(2,3) index_bits [of 12 v w n] index_bits [of 21 v w n] index_bits [of 30 v w n] index_bits [of 39 v w n]
        in \<open>auto simp: pml4_index_def pdpt_index_def pd_index_def pt_index_def\<close>)
  qed
  then have "drop_bit 12 v = drop_bit 12 w" by (auto intro!: bit_word_eqI simp: bit_simps)
  then have "unat (drop_bit 12 v) = unat (drop_bit 12 w)" by simp
  then show ?thesis by (simp add: drop_bit_eq_div unat_div)
qed

section \<open>Loading a segment\<close>

lemma palloc_page:
  assumes "tree_ok m pml4" and "palloc (alloc m) = (p, a)" and "p \<noteq> 0"
  shows "p \<in> free_pages_of (alloc m)" "p \<notin> free_pages_of a" "p AND PAGE_MASK = p" "page_aligned p"
    "tree_ok (m\<lparr>alloc := a\<rparr>) pml4" "shrinks (alloc m) a"
  using new_table_page [OF assms] palloc_tree_ok [OF assms(1,2)] palloc_shrinks [OF tree_ok_alloc [OF assms(1)] assms(2)]
    pm.alloc_page [OF tree_ok_alloc [OF assms(1)] assms(2,3)] by auto

definition loaded :: "bytes \<Rightarrow> Elf64Phdr \<Rightarrow> u64 \<Rightarrow> image \<Rightarrow> nat \<Rightarrow> bool" where
  "loaded f ph pml4 s k \<longleftrightarrow> (let q = virt_to_phys (mach s) pml4 (p_vaddr ph + of_nat k) in
     ram s q = wanted f ph k \<and> q AND NOT 0xFFF \<notin> free_pages_of (alloc (mach s)))"

text \<open>One more page: mapped at the next virtual page and filled, it loads its part of the segment and
  keeps what is loaded.\<close>

lemma page_step:
  assumes ok: "tree_ok (mach s) pml4" and pal: "palloc (alloc (mach s)) = (p, a)" "p \<noteq> 0"
    and map: "map_page ((mach s)\<lparr>alloc := a\<rparr>) pml4 p (p_vaddr ph + of_nat (j * 4096)) flags = (m, 0)"
    and flags: "flags AND (PAGE_MASK OR PTE_HUGE) = 0"
    and al: "page_aligned (p_vaddr ph)" and bound: "unat (p_vaddr ph) + (j + 1) * 4096 < 2 ^ 48" "j * 4096 < 2 ^ 27"
    and sz: "unat (p_memsz ph) < 2 ^ 27" "unat (p_filesz ph) \<le> unat (p_memsz ph)"
    and inv: "\<And>k. k < j * 4096 \<Longrightarrow> k < unat (p_memsz ph) \<Longrightarrow> loaded f ph pml4 s k"
    and k: "k < (j + 1) * 4096" "k < unat (p_memsz ph)"
  shows "tree_ok m pml4 \<and> loaded f ph pml4 (s\<lparr>mach := m, ram := fill_page f ph (p_vaddr ph + of_nat (j * 4096)) p (ram s)\<rparr>) k"
proof -
  let ?v = "p_vaddr ph + of_nat (j * 4096)" and ?w = "p_vaddr ph + of_nat k"
  note P = palloc_page [OF ok pal]
  note M = map_page_spec [OF P(5) flags map]
  have sh: "free_pages_of (alloc m) \<subseteq> free_pages_of a" "shrinks a (alloc m)"
    using map_page_shrinks [OF _ map] P(6) by (auto simp: shrinks_def)
  have uv: "unat ?v = unat (p_vaddr ph) + j * 4096" "unat ?w = unat (p_vaddr ph) + k"
    using bound(1) k(1) by (intro unat_add_nat64; simp)+
  have v4: "4096 dvd unat (p_vaddr ph)" using al by (auto simp: aligned_unat)
  have base: "unat (?v - p_vaddr ph) = j * 4096" using bound(2) by (simp add: unat_of_nat64 del: of_nat_mult)
  note F = fill_page_spec [OF base bound(2) sz, of f p "ram s"]
  show ?thesis
  proof (cases "k < j * 4096")
    case True
    let ?q = "virt_to_phys (mach s) pml4 ?w"
    have "\<not> same_page ?v ?w"
    proof
      assume "same_page ?v ?w"
      from same_page_div [OF this] show False using uv bound(1) k(1) True v4 by (auto elim!: dvdE)
    qed
    then have t: "virt_to_phys m pml4 ?w = ?q" using M by simp
    have l: "ram s ?q = wanted f ph k" "?q AND NOT 0xFFF \<notin> free_pages_of (alloc (mach s))"
      using inv [OF True k(2)] by (simp_all add: loaded_def Let_def)
    have "\<not> unat (?q - p) < 4096" using in_page [OF P(4), of ?q] l(2) P(1) by auto
    then show ?thesis using M t l sh(1) P(6) F by (auto simp: loaded_def Let_def shrinks_def)
  next
    case False
    define i where "i = k - j * 4096"
    have i: "i < 4096" "k = j * 4096 + i" using False k(1) by (simp_all add: i_def)
    have w: "?w = ?v + of_nat i" using i(2) by simp
    have av: "page_aligned ?v" unfolding aligned_unat uv(1) using v4 by auto
    have "same_page ?v ?w"
      using same_page_offset [of ?v i ?w] i(1) v4 uv(1) unfolding w by (simp add: same_path_def)
    then have "virt_to_phys m pml4 ?w = p OR (?w AND 0xFFF)" using M P(3) by simp
    then have t: "virt_to_phys m pml4 ?w = p + of_nat i"
      unfolding page_plus(1) [OF P(4) i(1)] w page_plus(2) [OF av i(1)] by simp
    have "unat (p + of_nat i - p) = i" using i(1) by (simp add: unat_of_nat64)
    then show ?thesis using M t P(2) sh(1) page_plus(3) [OF P(4) i(1)] F [of "p + of_nat i"] i k(2)
      by (auto simp: loaded_def Let_def)
  qed
qed

lemma load_pages_spec:
  assumes "tree_ok (mach s) pml4" and "load_pages f ph pml4 n (p_vaddr ph + of_nat (j * 4096)) s = (True, s')"
    and al: "page_aligned (p_vaddr ph)" and "unat (p_vaddr ph) + (j + n) * 4096 < 2 ^ 48" and "(j + n) * 4096 < 2 ^ 27 + 4096"
    and sz: "unat (p_memsz ph) < 2 ^ 27" "unat (p_filesz ph) \<le> unat (p_memsz ph)"
    and "\<And>k. k < j * 4096 \<Longrightarrow> k < unat (p_memsz ph) \<Longrightarrow> loaded f ph pml4 s k"
  shows "tree_ok (mach s') pml4 \<and> (\<forall>k < (j + n) * 4096. k < unat (p_memsz ph) \<longrightarrow> loaded f ph pml4 s' k)"
  using assms(1,2,4,5,8)
proof (induction n arbitrary: j s)
  case (Suc n)
  let ?v = "p_vaddr ph + of_nat (j * 4096)" and ?fl = "if p_flags ph AND PF_W \<noteq> 0 then PTE_USER OR PTE_WRITABLE else PTE_USER"
  obtain p a where p: "palloc (alloc (mach s)) = (p, a)" by force
  obtain m r where m: "map_page ((mach s)\<lparr>alloc := a\<rparr>) pml4 p ?v ?fl = (m, r)" by force
  let ?t = "s\<lparr>mach := m, ram := fill_page f ph ?v p (ram s)\<rparr>"
  have next': "?v + 0x1000 = p_vaddr ph + of_nat ((j + 1) * 4096)" by (simp add: algebra_simps)
  have run: "p \<noteq> 0" "r = 0" "load_pages f ph pml4 n (p_vaddr ph + of_nat ((j + 1) * 4096)) ?t = (True, s')"
    using Suc.prems(2) p m unfolding next' [symmetric] by (auto simp: Let_def split: if_splits)
  have fl: "?fl AND (PAGE_MASK OR PTE_HUGE) = 0" by (simp add: pte_flag_defs PAGE_MASK_def)
  have b: "unat (p_vaddr ph) + (j + 1) * 4096 < 2 ^ 48" "j * 4096 < 2 ^ 27" using Suc.prems(3,4) by simp_all
  note step = page_step [OF Suc.prems(1) p run(1) m [unfolded run(2)] fl al b sz Suc.prems(5)]
  have ok: "tree_ok m pml4"
    using map_page_spec [OF palloc_page(5) [OF Suc.prems(1) p run(1)] fl m] by blast
  have "tree_ok (mach s') pml4 \<and> (\<forall>k < (j + 1 + n) * 4096. k < unat (p_memsz ph) \<longrightarrow> loaded f ph pml4 s' k)"
  proof (rule Suc.IH [OF _ run(3)])
    show "tree_ok (mach ?t) pml4" using ok by simp
    show "unat (p_vaddr ph) + (j + 1 + n) * 4096 < 2 ^ 48" "(j + 1 + n) * 4096 < 2 ^ 27 + 4096"
      using Suc.prems(3,4) by simp_all
    show "loaded f ph pml4 ?t k" if "k < (j + 1) * 4096" "k < unat (p_memsz ph)" for k
      using step that by blast
  qed
  then show ?case by simp
qed simp

lemma page_floor: "unat (x AND NOT 0xFFF) = unat (x :: u64) div 4096 * 4096"
proof -
  have "x AND NOT 0xFFF = push_bit 12 (drop_bit 12 x)"
  proof (rule bit_word_eqI)
    fix n assume "n < LENGTH(64)"
    then show "bit (x AND NOT 0xFFF) n = bit (push_bit 12 (drop_bit 12 x)) n"
      unfolding bit_and_iff bit_not_iff bit_FFF by (auto simp: bit_simps)
  qed
  moreover have "unat x div 4096 * 4096 < 2 ^ 64"
  proof -
    have "unat x < 2 ^ 64" using unsigned_less [of x] by simp
    then show ?thesis using div_times_less_eq_dividend [of "unat x" 4096] by linarith
  qed
  ultimately show ?thesis by (simp add: push_bit_eq_mult drop_bit_eq_div unat_word_ariths unat_div)
qed

lemma page_count:
  assumes "page_aligned v" and "unat v + unat n + 4096 < 2 ^ 64"
  shows "unat ((seg_end v n - seg_start v) div 0x1000) = (unat n + 4095) div 4096" and "seg_start v = v"
proof -
  have v: "unat v = unat v div 4096 * 4096" using assms(1) by (auto simp: aligned_unat)
  then show s: "seg_start v = v" unfolding word_unat_eq_iff seg_start_def page_floor by simp
  have "unat (v + n + 0xFFF) = unat v + (unat n + 4095)" using assms(2) by (simp add: unat_word_ariths)
  then have e: "unat (seg_end v n) = unat v + (unat n + 4095) div 4096 * 4096"
    unfolding seg_end_def page_floor using assms(1) by (auto simp: aligned_unat)
  then have "unat (seg_end v n - v) = (unat n + 4095) div 4096 * 4096"
    by (subst unat_sub) (simp_all add: word_le_nat_alt)
  then show "unat ((seg_end v n - seg_start v) div 0x1000) = (unat n + 4095) div 4096" by (simp add: s unat_div)
qed

section \<open>Properties of the native loader\<close>

text \<open>C16: A program segment is in memory after loading: when \<open>load_segment\<close> accepts a segment that starts on a
  page boundary, every address of it, seen through the new address space, holds the byte of the file,
  and the addresses after the file's part hold zero. The address space stays well formed.\<close>

theorem elf_segment_loaded:
  assumes "tree_ok (mach s) pml4" and "p_type ph = PT_LOAD" and "page_aligned (p_vaddr ph)"
    and "unat (p_filesz ph) \<le> unat (p_memsz ph)" and "unat (p_vaddr ph) + unat (p_memsz ph) + 8192 < 2 ^ 48"
    and "load_segment f ph pml4 s = (True, s')"
  shows "tree_ok (mach s') pml4 \<and> (\<forall>k < unat (p_memsz ph).
    ram s' (virt_to_phys (mach s') pml4 (p_vaddr ph + of_nat k)) =
      (if k < unat (p_filesz ph) then f ! (unat (p_offset ph) + k) else 0))"
proof -
  let ?n = "(unat (p_memsz ph) + 4095) div 4096"
  have ms: "unat (p_memsz ph) \<le> 64 * 1024 * 1024"
    using assms(2,6) by (auto simp: load_segment_def word_less_nat_alt split: if_splits)
  have "load_pages f ph pml4 ?n (p_vaddr ph) s = (True, s')"
    using assms(2,6) page_count [OF assms(3), of "p_memsz ph"] assms(5)
    by (auto simp: load_segment_def Let_def split: if_splits)
  then have run: "load_pages f ph pml4 ?n (p_vaddr ph + of_nat (0 * 4096)) s = (True, s')" by simp
  have b: "?n * 4096 \<le> unat (p_memsz ph) + 4095" by simp
  have "tree_ok (mach s') pml4 \<and> (\<forall>k < (0 + ?n) * 4096. k < unat (p_memsz ph) \<longrightarrow> loaded f ph pml4 s' k)"
    by (rule load_pages_spec [OF assms(1) run assms(3)]) (use ms b assms(4,5) in auto)
  moreover have "k < ?n * 4096" if "k < unat (p_memsz ph)" for k using that by linarith
  ultimately show ?thesis by (auto simp: loaded_def Let_def wanted_def)
qed

lemma fill_page_unaligned:
  assumes "\<not> page_aligned (p_vaddr ph)" and "unat (p_filesz ph) < 2 ^ 63" and "unat (p_memsz ph) < 2 ^ 63"
  shows "fill_page f ph (seg_start (p_vaddr ph)) p r = r"
proof -
  let ?v = "p_vaddr ph" and ?d = "unat (p_vaddr ph) mod 4096" and ?rel = "seg_start (p_vaddr ph) - p_vaddr ph"
  have d: "0 < ?d" "?d < 4096" using assms(1) by (auto simp: aligned_unat)
  have s: "unat (seg_start ?v) = unat ?v - ?d" unfolding seg_start_def page_floor by (simp add: minus_mod_eq_div_mult)
  have "?d \<le> unat ?v" by (rule mod_less_eq_dividend)
  then have rel: "unat ?rel = 2 ^ 64 - ?d" using s d by (simp add: unat_sub_if')
  have "unat (?rel + 0x1000) = (unat ?rel + 4096) mod 2 ^ 64" by (simp add: unat_word_ariths)
  also have "unat ?rel + 4096 = 2 ^ 64 + (4096 - ?d)" using rel d by simp
  also have "\<dots> mod 2 ^ 64 = 4096 - ?d" by (simp only: mod_add_self1) simp
  finally have r4: "unat (?rel + 0x1000) = 4096 - ?d" .
  have a: "\<not> ?rel < p_filesz ph" using rel d(2) assms(2) by (simp add: word_less_nat_alt)
  then have b: "p_filesz ph \<le> ?rel" by simp
  have c: "\<not> min (?rel + 0x1000) (p_memsz ph) > ?rel"
  proof -
    have "unat (?rel + 0x1000) < unat ?rel" using rel r4 d by simp
    then have "\<not> ?rel < ?rel + 0x1000" by (simp add: word_less_nat_alt)
    then show ?thesis by simp
  qed
  show ?thesis by (simp only: fill_page_def Let_def a b c if_True if_False)
qed

text \<open>A segment that does not start on a page boundary is not loaded: the offset of its first page to its
  start is negative and wraps around, so nothing is copied. A segment that lies in one page is
  reported as loaded although no byte of memory was written.\<close>

theorem elf_unaligned_not_loaded:
  assumes "\<not> page_aligned (p_vaddr ph)" and "unat (p_vaddr ph) mod 4096 + unat (p_memsz ph) \<le> 4096"
    and "unat (p_vaddr ph) < 2 ^ 48" and "load_segment f ph pml4 s = (b, s')" and "length f < 2 ^ 63"
  shows "ram s' = ram s"
proof (cases "p_type ph = PT_LOAD \<and> unat (p_offset ph) + unat (p_filesz ph) \<le> length f")
  case True
  let ?v = "p_vaddr ph" and ?d = "unat (p_vaddr ph) mod 4096"
  have "unat (?v + p_memsz ph + 0xFFF) = unat ?v + unat (p_memsz ph) + 4095"
    using assms(2,3) by (simp add: unat_word_ariths)
  then have e: "unat (seg_end ?v (p_memsz ph)) = (unat ?v + unat (p_memsz ph) + 4095) div 4096 * 4096"
    unfolding seg_end_def page_floor by simp
  have s: "unat (seg_start ?v) = unat ?v div 4096 * 4096" unfolding seg_start_def page_floor ..
  have "(x + m + 4095) div 4096 < x div 4096 + 2" if "x mod 4096 + m \<le> 4096" for x m :: nat
  proof -
    define q r where "q = x div 4096" and "r = x mod 4096"
    have "x = q * 4096 + r" by (simp add: q_def r_def)
    then have "x + m + 4095 < (q + 2) * 4096" using that unfolding r_def [symmetric] by simp
    then show ?thesis unfolding q_def by (rule less_mult_imp_div_less)
  qed
  from this [OF assms(2)] have "(unat ?v + unat (p_memsz ph) + 4095) div 4096 - unat ?v div 4096 \<le> 1" by linarith
  moreover have "unat ?v div 4096 \<le> (unat ?v + unat (p_memsz ph) + 4095) div 4096" by (rule div_le_mono) simp
  then have "unat (seg_end ?v (p_memsz ph) - seg_start ?v) =
      ((unat ?v + unat (p_memsz ph) + 4095) div 4096 - unat ?v div 4096) * 4096"
    using e s by (subst unat_sub) (simp_all add: word_le_nat_alt diff_mult_distrib)
  ultimately have n: "unat ((seg_end ?v (p_memsz ph) - seg_start ?v) div 0x1000) \<le> 1" by (simp add: unat_div)
  have "fill_page f ph (seg_start ?v) p r = r" for p r
    by (rule fill_page_unaligned [OF assms(1)]) (use True assms(2,5) in simp_all)
  then have "ram (snd (load_pages f ph pml4 k (seg_start ?v) s)) = ram s" if "k \<le> 1" for k
    using that by (cases k) (auto simp: Let_def split: prod.split)
  from this [OF n] show ?thesis using assms(4) by (auto simp: load_segment_def Let_def split: if_splits)
qed (use assms(4) in \<open>auto simp: load_segment_def split: if_splits\<close>)

definition demo_image :: image where
  "demo_image = \<lparr>mach = demo_space, ram = (\<lambda>_. 7)\<rparr>"

definition demo_phdr :: "u64 \<Rightarrow> Elf64Phdr" where
  "demo_phdr va = \<lparr>p_type = PT_LOAD, p_flags = 5, p_offset = 1, p_vaddr = va, p_filesz = 3, p_memsz = 10\<rparr>"

lemma demo_segments:
  "fst (load_segment [9, 1, 2, 3] (demo_phdr 0x400000) 0x100000 demo_image)"
  "fst (load_segment [9, 1, 2, 3] (demo_phdr 0x400010) 0x100000 demo_image)"
proof -
  have "load_segment [9, 1, 2, 3] (demo_phdr va) 0x100000 demo_image = load_pages [9, 1, 2, 3] (demo_phdr va) 0x100000 (Suc 0) 0x400000 demo_image"
    if "va \<in> {0x400000, 0x400010}" for va
    using that by (auto simp: load_segment_def demo_phdr_def seg_start_def seg_end_def)
  moreover have "fst (load_pages [9, 1, 2, 3] (demo_phdr 0x400000) 0x100000 (Suc 0) 0x400000 demo_image)"
    "fst (load_pages [9, 1, 2, 3] (demo_phdr 0x400010) 0x100000 (Suc 0) 0x400000 demo_image)" by code_simp+
  ultimately show "fst (load_segment [9, 1, 2, 3] (demo_phdr 0x400000) 0x100000 demo_image)"
    "fst (load_segment [9, 1, 2, 3] (demo_phdr 0x400010) 0x100000 demo_image)" by simp_all
qed

theorem elf_segment_loaded_witness:
  "let s' = snd (load_segment [9, 1, 2, 3] (demo_phdr 0x400000) 0x100000 demo_image) in
     ram s' (virt_to_phys (mach s') 0x100000 0x400001) = 2 \<and> ram s' (virt_to_phys (mach s') 0x100000 0x400009) = 0"
proof -
  let ?r = "load_segment [9, 1, 2, 3] (demo_phdr 0x400000) 0x100000 demo_image"
  have "fst ?r" by (rule demo_segments)
  then have r: "?r = (True, snd ?r)" by (simp add: prod_eq_iff)
  have ok: "tree_ok (mach demo_image) 0x100000" using demo_space_ok by (simp add: demo_image_def)
  have "page_aligned 0x400000" by code_simp
  then have "\<forall>k<10. ram (snd ?r) (virt_to_phys (mach (snd ?r)) 0x100000 (0x400000 + of_nat k)) =
      (if k < 3 then [9, 1, 2, 3] ! (1 + k) else 0)"
    using elf_segment_loaded [OF ok _ _ _ _ r] by (simp add: demo_phdr_def)
  from this [rule_format, of 1] this [rule_format, of 9] show ?thesis by (simp add: Let_def)
qed

theorem elf_unaligned_not_loaded_witness:
  "fst (load_segment [9, 1, 2, 3] (demo_phdr 0x400010) 0x100000 demo_image) \<and>
   ram (snd (load_segment [9, 1, 2, 3] (demo_phdr 0x400010) 0x100000 demo_image)) = (\<lambda>_. 7)"
proof -
  let ?r = "load_segment [9, 1, 2, 3] (demo_phdr 0x400010) 0x100000 demo_image"
  have "fst ?r" by (rule demo_segments)
  moreover have "\<not> page_aligned 0x400010" by code_simp
  then have "ram (snd ?r) = ram demo_image"
    using elf_unaligned_not_loaded [of "demo_phdr 0x400010" "[9, 1, 2, 3]" "0x100000" demo_image "fst ?r" "snd ?r"]
    by (simp add: demo_phdr_def)
  ultimately show ?thesis by (simp add: demo_image_def)
qed

end
