(* ===== verification/Linux_Elf.thy ===== *)
theory Linux_Elf
  imports Elf
begin

text \<open>
  The loader for Linux programs, \<open>load_linux_elf\<close> of \<open>kernel/src/linux/elf.rs\<close>, over the state of
  \<open>Elf\<close>. The random stack top and mmap base are arguments. A failure carries the loader's message and
  the state it leaves behind; \<open>None\<close> stands for a panic at a slice that starts after the end of the
  file. Sums of sizes wrap as in the release build.
\<close>

section \<open>Loading\<close>

definition PT_INTERP :: u32 where "PT_INTERP = 3"
definition PTE_NX :: u64 where "PTE_NX = push_bit 63 1"

record LinuxProgram =
  lp_entry :: u64
  lp_pml4 :: u64
  lp_code_phys :: u64
  lp_stack_phys :: u64
  lp_brk :: u64
  lp_mmap_base :: u64
  lp_phdr_vaddr :: u64
  lp_interp_vaddr :: u64
  lp_interp_size :: u64
  lp_stack_size :: u64
  lp_stack_top :: u64

definition header_error :: "bytes \<Rightarrow> Elf64Ehdr \<Rightarrow> string option" where
  "header_error f h =
     (if take 4 f \<noteq> ELF_MAGIC then Some ''Bad ELF magic''
      else if f ! 4 \<noteq> 2 then Some ''Not 64-bit''
      else if f ! 5 \<noteq> 1 then Some ''Not little-endian''
      else if e_type h \<noteq> 2 \<and> e_type h \<noteq> 3 then Some ''Not EXEC or DYN''
      else if e_machine h \<noteq> 62 then Some ''Not x86_64''
      else if e_phnum h = 0 \<or> e_phentsize h \<noteq> 56 then Some ''Bad program headers''
      else None)"

text \<open>The program headers up to the first that does not lie in the file.\<close>

fun phdrs :: "bytes \<Rightarrow> u64 \<Rightarrow> nat list \<Rightarrow> Elf64Phdr list option" where
  "phdrs f phoff [] = Some []"
| "phdrs f phoff (i # rest) =
     (let off = phoff + of_nat i * 56 in
      if unat (off + 56) > length f then Some []
      else do { ph \<leftarrow> read_phdr f (unat off); phs \<leftarrow> phdrs f phoff rest; Some (ph # phs) })"

definition find_interp :: "Elf64Phdr list \<Rightarrow> bool \<times> u64 \<times> u64" where
  "find_interp phs = fold (\<lambda>ph acc. if p_type ph = PT_INTERP then (True, p_offset ph, p_filesz ph) else acc) phs (False, 0, 0)"

definition memset_pages :: "u64 \<Rightarrow> nat \<Rightarrow> (u64 \<Rightarrow> u8) \<Rightarrow> (u64 \<Rightarrow> u8)" where
  "memset_pages phys n r = fold (\<lambda>i. clear (phys + of_nat i * 4096) 4096) [0..<n] r"

text \<open>The copying loop: at most one page at a time.\<close>

function copy_loop :: "bytes \<Rightarrow> nat \<Rightarrow> u64 \<Rightarrow> nat \<Rightarrow> nat \<Rightarrow> (u64 \<Rightarrow> u8) \<Rightarrow> (u64 \<Rightarrow> u8)" where
  "copy_loop f file_start phys filesz written r =
     (if written < filesz then
        let page_idx = written div 4096; page_off = written mod 4096; n = min (filesz - written) (4096 - page_off)
        in copy_loop f file_start phys filesz (written + n)
             (copy_in f (file_start + written) (phys + of_nat page_idx * 4096 + of_nat page_off) n r)
      else r)"
  by pat_completeness auto
termination
  by (relation "measure (\<lambda>(f, fs, p, fsz, w, r). fsz - w)") (auto simp: min_def)

declare copy_loop.simps [simp del]

primrec map_run :: "nat \<Rightarrow> u64 \<Rightarrow> u64 \<Rightarrow> u64 \<Rightarrow> u64 \<Rightarrow> machine \<Rightarrow> bool \<times> machine" where
  "map_run 0 pml4 phys virt flags m = (True, m)"
| "map_run (Suc n) pml4 phys virt flags m =
     (let (m1, ret) = map_page m pml4 phys virt flags in
      if ret \<noteq> 0 then (False, m1) else map_run n pml4 (phys + 4096) (virt + 4096) flags m1)"

definition linux_pages :: "Elf64Phdr \<Rightarrow> nat" where
  "linux_pages ph = unat ((seg_end (p_vaddr ph) (p_memsz ph) - seg_start (p_vaddr ph)) div 4096)"

definition linux_flags :: "Elf64Phdr \<Rightarrow> u64" where
  "linux_flags ph = (if p_flags ph AND 1 = 0 then PTE_USER OR PTE_WRITABLE OR PTE_NX else PTE_USER OR PTE_WRITABLE)"

text \<open>One segment: an error message or the physical address of its pages (0 for a segment without
  pages).\<close>

definition linux_segment :: "bytes \<Rightarrow> Elf64Phdr \<Rightarrow> u64 \<Rightarrow> image \<Rightarrow> ((string + u64) \<times> image) option" where
  "linux_segment f ph pml4 s =
     (if p_type ph \<noteq> PT_LOAD \<or> p_memsz ph = 0 \<or> linux_pages ph = 0 then Some (Inr 0, s)
      else let (phys, a) = palloc_n (linux_pages ph) (alloc (mach s)); s1 = s\<lparr>mach := (mach s)\<lparr>alloc := a\<rparr>\<rparr> in
        if phys = 0 then Some (Inl ''Out of memory loading ELF segment'', s1)
        else let r1 = memset_pages phys (linux_pages ph) (ram s1);
                 file_start = unat (p_offset ph); file_end = unat (p_offset ph + p_filesz ph) in
          if file_end \<le> length f \<and> p_filesz ph > 0 \<and> file_start > length f then None
          else let r2 = (if file_end \<le> length f then copy_loop f file_start phys (unat (p_filesz ph)) 0 r1 else r1);
                   (ok, m) = map_run (linux_pages ph) pml4 phys (seg_start (p_vaddr ph)) (linux_flags ph) (mach s1);
                   s2 = s1\<lparr>mach := m, ram := r2\<rparr>
               in Some (if \<not> ok then Inl ''Failed to map ELF page'' else Inr phys, s2))"

fun linux_segments :: "bytes \<Rightarrow> Elf64Phdr list \<Rightarrow> u64 \<Rightarrow> u64 \<times> u64 \<Rightarrow> image \<Rightarrow> ((string + u64 \<times> u64) \<times> image) option" where
  "linux_segments f [] pml4 acc s = Some (Inr acc, s)"
| "linux_segments f (ph # phs) pml4 (max_vaddr, first_code) s =
     do { (res, s1) \<leftarrow> linux_segment f ph pml4 s;
          case res of
            Inl e \<Rightarrow> Some (Inl e, s1)
          | Inr phys \<Rightarrow>
              linux_segments f phs pml4
                (if phys = 0 then (max_vaddr, first_code)
                 else (if p_vaddr ph + p_memsz ph > max_vaddr then p_vaddr ph + p_memsz ph else max_vaddr,
                       if first_code = 0 \<and> p_flags ph AND 1 \<noteq> 0 then phys else first_code)) s1 }"

definition linux_stack :: "u64 \<Rightarrow> u64 \<Rightarrow> image \<Rightarrow> (string + u64) \<times> image" where
  "linux_stack stack_top pml4 s =
     (let (phys, a) = palloc_n 16 (alloc (mach s)); s1 = s\<lparr>mach := (mach s)\<lparr>alloc := a\<rparr>\<rparr> in
      if phys = 0 then (Inl ''Failed to allocate stack'', s1)
      else let r1 = memset_pages phys 16 (ram s1);
               (ok, m) = map_run 16 pml4 phys (stack_top - 16 * 4096) (PTE_WRITABLE OR PTE_USER) (mach s1);
               s2 = s1\<lparr>mach := m, ram := r1\<rparr>
           in if ok then (Inr phys, s2) else (Inl ''Failed to map stack page'', s2))"

text \<open>A page with bytes of the file at a fixed address: the interpreter's path and the program headers.\<close>

definition file_page :: "bytes \<Rightarrow> nat \<Rightarrow> nat \<Rightarrow> u64 \<Rightarrow> u64 \<Rightarrow> image \<Rightarrow> bool \<times> bool \<times> image" where
  "file_page f start n virt pml4 s =
     (let (page, a) = palloc (alloc (mach s)); s1 = s\<lparr>mach := (mach s)\<lparr>alloc := a\<rparr>\<rparr> in
      if page = 0 then (False, False, s1)
      else let r = copy_in f start page n (clear page 4096 (ram s1));
               (m, ret) = map_page (mach s1) pml4 page virt (PTE_USER OR PTE_WRITABLE)
           in (True, ret = 0, s1\<lparr>mach := m, ram := r\<rparr>))"

definition load_interp :: "bytes \<Rightarrow> bool \<times> u64 \<times> u64 \<Rightarrow> u64 \<Rightarrow> image \<Rightarrow> (u64 \<times> u64 \<times> image) option" where
  "load_interp f interp pml4 s =
     (let (needs, off, fsz) = interp in
      if needs \<and> fsz > 0 \<and> fsz < 256 \<and> unat (off + fsz) \<le> length f
      then let (got, mapped, s1) = file_page f (unat off) (unat fsz) 0x00007FFF0000 pml4 s
           in if got \<and> unat off > length f then None
              else Some (if got then 0x00007FFF0000 else 0, if got \<and> mapped then fsz else 0, s1)
      else Some (0, 0, s))"

text \<open>What follows the segments: the stack, the interpreter's path, the program headers.\<close>

definition finish_program :: "bytes \<Rightarrow> Elf64Ehdr \<Rightarrow> bool \<times> u64 \<times> u64 \<Rightarrow> u64 \<Rightarrow> u64 \<Rightarrow> u64 \<Rightarrow> u64 \<Rightarrow> u64 \<Rightarrow> image \<Rightarrow>
    ((string + LinuxProgram) \<times> image) option" where
  "finish_program f h interp stack_top mmap_base pml4 max_vaddr first_code s =
     (case linux_stack stack_top pml4 s of
        (Inl e, s1) \<Rightarrow> Some (Inl e, s1)
      | (Inr stack_phys, s1) \<Rightarrow>
          do { (iv, isz, s2) \<leftarrow> load_interp f interp pml4 s1;
               let (got, _, s3) = file_page f (unat (e_phoff h)) (min (unat (e_phnum h) * 56) 4096) 0x00007FFE0000 pml4 s2
               in if got \<and> unat (e_phoff h) > length f then None
                  else Some (Inr \<lparr>lp_entry = e_entry h, lp_pml4 = pml4, lp_code_phys = first_code, lp_stack_phys = stack_phys,
                         lp_brk = (max_vaddr + 0xFFF) AND NOT 0xFFF, lp_mmap_base = mmap_base,
                         lp_phdr_vaddr = (if got then 0x00007FFE0000 else 0), lp_interp_vaddr = iv, lp_interp_size = isz,
                         lp_stack_size = 16 * 4096, lp_stack_top = stack_top\<rparr>, s3) })"

definition load_linux_elf :: "bytes \<Rightarrow> u64 \<Rightarrow> u64 \<Rightarrow> u64 \<Rightarrow> image \<Rightarrow> ((string + LinuxProgram) \<times> image) option" where
  "load_linux_elf f cur stack_top mmap_base s =
     (if length f < 64 then Some (Inl ''ELF too small'', s)
      else do { h \<leftarrow> read_ehdr f;
        case header_error f h of Some e \<Rightarrow> Some (Inl e, s)
        | None \<Rightarrow>
          do { phs \<leftarrow> phdrs f (e_phoff h) [0..<unat (e_phnum h)];
               let (m1, pml4) = create_address_space (mach s) in
               if pml4 = 0 then Some (Inl ''Failed to create address space'', s\<lparr>mach := m1\<rparr>)
               else do { (m2, _) \<leftarrow> identity_map_2mb (clone_high_half m1 cur pml4) pml4 0 0x100000 (PTE_WRITABLE OR PTE_USER);
                         (res, s1) \<leftarrow> linux_segments f phs pml4 (0, 0) (s\<lparr>mach := m2\<rparr>);
                         case res of Inl e \<Rightarrow> Some (Inl e, s1)
                         | Inr (max_vaddr, first_code) \<Rightarrow>
                             finish_program f h (find_interp phs) stack_top mmap_base pml4 max_vaddr first_code s1 } } })"

section \<open>Copying\<close>

lemma copy_chunk:
  assumes "w + n < 2 ^ 64"
  shows "copy_in f (fs + w) (p + of_nat (w div 4096) * 4096 + of_nat (w mod 4096)) n (copy_in f fs p w r) = copy_in f fs p (w + n) r"
proof
  fix a
  have w: "unat (of_nat w :: u64) = w" using assms by (intro unat_of_nat64) simp
  have "(of_nat (w div 4096) * 4096 + of_nat (w mod 4096) :: u64) = of_nat (w div 4096 * 4096 + w mod 4096)"
    by (simp only: of_nat_add of_nat_mult of_nat_numeral)
  then have dst: "p + of_nat (w div 4096) * 4096 + of_nat (w mod 4096) = p + of_nat w" by (simp add: add.assoc)
  have "unat (a - p - of_nat w) < n \<longleftrightarrow> w \<le> unat (a - p) \<and> unat (a - p) < w + n"
    using unat_diff_less [of "of_nat w" n "a - p"] w assms by simp
  moreover have "unat (a - p - of_nat w) = unat (a - p) - w" if "w \<le> unat (a - p)"
    using that w by (subst unat_sub) (simp_all add: word_le_nat_alt)
  ultimately show "copy_in f (fs + w) (p + of_nat (w div 4096) * 4096 + of_nat (w mod 4096)) n (copy_in f fs p w r) a = copy_in f fs p (w + n) r a"
    unfolding dst by (auto simp: copy_in_def diff_diff_eq)
qed

lemma copy_loop_from:
  assumes "w \<le> fsz" and "fsz < 2 ^ 64"
  shows "copy_loop f fs p fsz w (copy_in f fs p w r) = copy_in f fs p fsz r"
  using assms
proof (induction "fsz - w" arbitrary: w rule: less_induct)
  case less
  show ?case
  proof (cases "w < fsz")
    case True
    let ?n = "min (fsz - w) (4096 - w mod 4096)"
    have n: "0 < ?n" "w + ?n \<le> fsz" using True by auto
    have "copy_loop f fs p fsz w (copy_in f fs p w r) = copy_loop f fs p fsz (w + ?n) (copy_in f fs p (w + ?n) r)"
      using True copy_chunk [of w ?n f fs p r] n less.prems(2) by (subst copy_loop.simps) (simp add: Let_def)
    also have "\<dots> = copy_in f fs p fsz r"
      by (rule less.hyps) (use n True less.prems(2) in linarith)+
    finally show ?thesis .
  next
    case False
    then show ?thesis using less.prems by (subst copy_loop.simps) simp
  qed
qed

lemma copy_loop_eq: "fsz < 2 ^ 64 \<Longrightarrow> copy_loop f fs p fsz 0 r = copy_in f fs p fsz r"
  using copy_loop_from [of 0 fsz f fs p r] by (simp add: copy_in_def)

text \<open>A program file can overwrite memory that is not its own: when a segment's size in the file is larger
  than the pages its size in memory gives it, the loader copies the rest of the file's bytes to the
  physical memory after these pages, whatever is stored there.\<close>

theorem linux_filesz_overruns:
  assumes "linux_segment f ph pml4 s = Some (Inr phys, s')" and "phys \<noteq> 0"
    and "unat (p_offset ph) + unat (p_filesz ph) \<le> length f" and "length f < 2 ^ 63"
    and "linux_pages ph * 4096 \<le> k" and "k < unat (p_filesz ph)"
  shows "ram s' (phys + of_nat k) = f ! (unat (p_offset ph) + k)"
proof -
  have e: "unat (p_offset ph + p_filesz ph) = unat (p_offset ph) + unat (p_filesz ph)"
    using assms(3,4) by (simp add: unat_word_ariths)
  have "ram s' = copy_loop f (unat (p_offset ph)) phys (unat (p_filesz ph)) 0 (memset_pages phys (linux_pages ph) (ram s))"
    using assms(1-3) e by (auto simp: linux_segment_def Let_def split: if_splits prod.splits)
  moreover have "unat (phys + of_nat k - phys) = k" using assms(3,4,6) by (simp add: unat_of_nat64)
  ultimately show ?thesis using assms(3,4,6) by (simp add: copy_loop_eq copy_in_def)
qed

section \<open>Mapping a run of pages\<close>

lemma palloc_n_pages:
  assumes "tree_ok m pml4" and "0 < n" and "palloc_n n (alloc m) = (p, a)" and "p \<noteq> 0"
    and "first_page a \<le> total_pages (alloc m)"
  shows "tree_ok (m\<lparr>alloc := a\<rparr>) pml4" and "\<And>i. i < n \<Longrightarrow> p + of_nat i * 4096 \<in> managed_pages (alloc m)"
proof -
  have inv: "alloc_inv (alloc m)" using tree_ok_alloc [OF assms(1)] .
  obtain s where s: "p = page_addr (alloc m) s" "first_page a = s + n"
    "s + n \<le> total_pages (alloc m) \<Longrightarrow> {s..<s + n} \<subseteq> free_set (alloc m) \<and> free_set a = free_set (alloc m) - {s..<s + n} \<and> alloc_inv a"
    by (rule palloc_n_inside [OF inv assms(2-4)]) blast
  have i: "{s..<s + n} \<subseteq> free_set (alloc m)" "free_set a = free_set (alloc m) - {s..<s + n}" "alloc_inv a"
    using s(2,3) assms(5) by auto
  have fr: "phys_start a = phys_start (alloc m)" "total_pages a = total_pages (alloc m)"
    using assms(3,4) by (auto simp: palloc_n_def split: if_splits option.splits)
  have "free_pages_of a \<subseteq> free_pages_of (alloc m)" "managed_pages a = managed_pages (alloc m)"
    using i(2) fr page_addr_frame [OF fr(1)] by (auto simp: free_pages_of_def managed_pages_def)
  then show "tree_ok (m\<lparr>alloc := a\<rparr>) pml4" using assms(1) i(3) unfolding tree_ok_def by (auto 0 3)
  show "p + of_nat i * 4096 \<in> managed_pages (alloc m)" if "i < n" for i
  proof -
    have "s + i < total_pages (alloc m)" using that s(2) assms(5) by simp
    moreover have "p + of_nat i * 4096 = page_addr (alloc m) (s + i)"
      using s(1) by (simp add: page_addr_def algebra_simps)
    ultimately show ?thesis by (auto simp: managed_pages_def)
  qed
qed

lemma aligned_next: "page_aligned v \<Longrightarrow> unat v + 4096 < 2 ^ 64 \<Longrightarrow> page_aligned (v + 4096) \<and> unat (v + 4096) = unat v + 4096"
  unfolding aligned_unat by (simp add: unat_word_ariths)

lemma map_run_spec:
  assumes "tree_ok m pml4" and "map_run n pml4 p v fl m = (True, m')" and "fl AND (PAGE_MASK OR PTE_HUGE) = 0"
    and "page_aligned v" and "unat v + n * 4096 < 2 ^ 48" and "\<And>i. i < n \<Longrightarrow> (p + of_nat i * 4096) AND PAGE_MASK = p + of_nat i * 4096"
  shows "tree_ok m' pml4 \<and> (\<forall>k < n * 4096. virt_to_phys m' pml4 (v + of_nat k) = p + of_nat k) \<and>
    (\<forall>w. (\<forall>k < n * 4096. w \<noteq> v + of_nat k) \<and> unat w < 2 ^ 48 \<longrightarrow> virt_to_phys m' pml4 w = virt_to_phys m pml4 w)"
  using assms(1,2,4,5,6)
proof (induction n arbitrary: m p v)
  case (Suc n)
  obtain m1 r where m1: "map_page m pml4 p v fl = (m1, r)" by force
  have run: "r = 0" "map_run n pml4 (p + 4096) (v + 4096) fl m1 = (True, m')"
    using Suc.prems(2) m1 by (auto split: if_splits)
  note M = map_page_spec [OF Suc.prems(1) assms(3) m1]
  have nx: "page_aligned (v + 4096)" "unat (v + 4096) = unat v + 4096"
    using aligned_next [OF Suc.prems(3)] Suc.prems(4) by auto
  have pm: "p AND PAGE_MASK = p" using Suc.prems(5) [of 0] by simp
  have step: "(p + 4096 + of_nat i * 4096) AND PAGE_MASK = p + 4096 + of_nat i * 4096" if "i < n" for i
    using Suc.prems(5) [of "Suc i"] that by (simp add: algebra_simps)
  have IH: "tree_ok m' pml4" "\<And>k. k < n * 4096 \<Longrightarrow> virt_to_phys m' pml4 (v + 4096 + of_nat k) = p + 4096 + of_nat k"
    "\<And>w. (\<forall>k < n * 4096. w \<noteq> v + 4096 + of_nat k) \<Longrightarrow> unat w < 2 ^ 48 \<Longrightarrow> virt_to_phys m' pml4 w = virt_to_phys m1 pml4 w"
    using Suc.IH [OF _ run(2) nx(1) _ step] M Suc.prems(4) nx(2) by auto
  have uv: "unat (v + of_nat k) = unat v + k" if "k < Suc n * 4096" for k
    using that Suc.prems(4) by (intro unat_add_nat64) simp
  have here: "virt_to_phys m' pml4 (v + of_nat k) = p + of_nat k" if k: "k < 4096" for k
  proof -
    have "v + of_nat k \<noteq> v + 4096 + of_nat l" if "l < n * 4096" for l
    proof
      assume "v + of_nat k = v + 4096 + of_nat l"
      then have "unat (v + of_nat k) = unat (v + of_nat (4096 + l))" by (simp add: add.assoc)
      then show False using uv [of k] uv [of "4096 + l"] that k by simp
    qed
    then have "virt_to_phys m' pml4 (v + of_nat k) = virt_to_phys m1 pml4 (v + of_nat k)"
      using IH(3) uv [of k] k Suc.prems(4) by simp
    moreover have "same_page v (v + of_nat k)"
      using same_page_offset [of v k "v + of_nat k"] k Suc.prems(3) by (auto simp: aligned_unat same_path_def)
    ultimately have "virt_to_phys m' pml4 (v + of_nat k) = p OR ((v + of_nat k) AND 0xFFF)" using M run(1) pm by simp
    then show ?thesis
      unfolding page_plus(2) [OF Suc.prems(3) k] page_plus(1) [OF masked_aligned [OF pm] k] .
  qed
  have all: "virt_to_phys m' pml4 (v + of_nat k) = p + of_nat k" if "k < Suc n * 4096" for k
  proof (cases "k < 4096")
    case False
    then obtain l where l: "k = 4096 + l" by (metis le_add_diff_inverse not_less)
    then show ?thesis using IH(2) [of l] that by (simp add: add.assoc)
  qed (use here in simp)
  have frame: "virt_to_phys m' pml4 w = virt_to_phys m pml4 w"
    if w: "\<forall>k < Suc n * 4096. w \<noteq> v + of_nat k" "unat w < 2 ^ 48" for w
  proof -
    have "w \<noteq> v + 4096 + of_nat k" if "k < n * 4096" for k
      using w(1) [rule_format, of "4096 + k"] that by (simp add: add.assoc)
    then have "virt_to_phys m' pml4 w = virt_to_phys m1 pml4 w" using IH(3) w(2) by blast
    moreover have "\<not> same_page v w"
    proof
      assume "same_page v w"
      from same_page_div [OF this] have "unat w div 4096 = unat v div 4096" using w(2) Suc.prems(4) by simp
      then have "unat w = unat v + unat w mod 4096"
        using Suc.prems(3) div_mult_mod_eq [of "unat w" 4096] by (auto simp: aligned_unat)
      from arg_cong [OF this, of "of_nat :: nat \<Rightarrow> u64"] have "w = v + of_nat (unat w mod 4096)" by simp
      moreover have "unat w mod 4096 < Suc n * 4096" using mod_less_divisor [of 4096 "unat w"] by simp
      ultimately show False using w(1) by blast
    qed
    ultimately show ?thesis using M by simp
  qed
  show ?case using IH(1) all frame by blast
qed simp

section \<open>Loading a segment\<close>

lemma memset_pages_zero:
  assumes "k < n * 4096" and "n * 4096 < 2 ^ 64"
  shows "memset_pages phys n r (phys + of_nat k) = 0"
  using assms
proof (induction n)
  case (Suc n)
  have k: "unat (of_nat k :: u64) = k" using Suc.prems by (intro unat_of_nat64) simp
  have "memset_pages phys (Suc n) r = clear (phys + of_nat n * 4096) 4096 (memset_pages phys n r)"
    by (simp add: memset_pages_def)
  moreover have "unat (of_nat k - of_nat (n * 4096) :: u64) < 4096" if "\<not> k < n * 4096"
  proof -
    have n: "unat (of_nat (n * 4096) :: u64) = n * 4096" using Suc.prems by (intro unat_of_nat64) simp
    then show ?thesis using unat_diff_less [of "of_nat (n * 4096)" 4096 "of_nat k"] k that Suc.prems by simp
  qed
  ultimately show ?case using Suc by (cases "k < n * 4096") (auto simp: clear_def)
qed simp

lemma linux_flags_ok: "linux_flags ph AND (PAGE_MASK OR PTE_HUGE) = 0"
  by (simp add: linux_flags_def pte_flag_defs PAGE_MASK_def PTE_NX_def)

text \<open>C17: The Linux loader loads a segment too: for a segment on a page boundary whose part in the file is not
  larger than its part in memory, if \<open>palloc_n\<close> finds its run of pages inside the managed region,
  every address of the segment translates to these pages in order and holds the byte of the file, or
  zero after the file's part; no address below the segment changes its translation.\<close>

theorem linux_segment_loaded:
  assumes "tree_ok (mach s) pml4" and "linux_segment f ph pml4 s = Some (Inr phys, s')" and "phys \<noteq> 0"
    and "first_page (snd (palloc_n (linux_pages ph) (alloc (mach s)))) \<le> total_pages (alloc (mach s))"
    and "page_aligned (p_vaddr ph)" and "unat (p_vaddr ph) + unat (p_memsz ph) + 8192 < 2 ^ 48"
    and "unat (p_filesz ph) \<le> unat (p_memsz ph)" and "unat (p_offset ph) + unat (p_filesz ph) \<le> length f" and "length f < 2 ^ 63"
  shows "tree_ok (mach s') pml4 \<and>
    (\<forall>k < unat (p_memsz ph). virt_to_phys (mach s') pml4 (p_vaddr ph + of_nat k) = phys + of_nat k \<and>
      ram s' (phys + of_nat k) = (if k < unat (p_filesz ph) then f ! (unat (p_offset ph) + k) else 0)) \<and>
    (\<forall>w. unat w < unat (p_vaddr ph) \<longrightarrow> virt_to_phys (mach s') pml4 w = virt_to_phys (mach s) pml4 w)"
proof -
  let ?n = "linux_pages ph" and ?v = "p_vaddr ph"
  have n: "?n = (unat (p_memsz ph) + 4095) div 4096" and ss: "seg_start ?v = ?v"
    using page_count [OF assms(5), of "p_memsz ph"] assms(6) by (simp_all add: linux_pages_def)
  have nb: "?n * 4096 \<le> unat (p_memsz ph) + 4095" "unat (p_memsz ph) \<le> ?n * 4096" unfolding n by simp linarith
  have e: "unat (p_offset ph + p_filesz ph) = unat (p_offset ph) + unat (p_filesz ph)"
    using assms(8,9) by (simp add: unat_word_ariths)
  obtain a where pal: "palloc_n ?n (alloc (mach s)) = (phys, a)" and n0: "0 < ?n"
    and mr: "map_run ?n pml4 phys ?v (linux_flags ph) ((mach s)\<lparr>alloc := a\<rparr>) = (True, mach s')"
    and rs: "ram s' = copy_loop f (unat (p_offset ph)) phys (unat (p_filesz ph)) 0 (memset_pages phys ?n (ram s))"
    using assms(2,3,8) e by (auto simp: linux_segment_def Let_def ss split: if_splits prod.splits)
  note P = palloc_n_pages [OF assms(1) n0 pal assms(3)]
  have fp: "first_page a \<le> total_pages (alloc (mach s))" using assms(4) pal by simp
  have mask: "(phys + of_nat i * 4096) AND PAGE_MASK = phys + of_nat i * 4096" if "i < ?n" for i
    using P(2) [OF fp that] tree_ok_pages [OF assms(1)] by blast
  have b: "unat ?v + ?n * 4096 < 2 ^ 48" using nb(1) assms(6) by linarith
  note M = map_run_spec [OF P(1) [OF fp] mr linux_flags_ok assms(5) b mask]
  have r: "ram s' (phys + of_nat k) = (if k < unat (p_filesz ph) then f ! (unat (p_offset ph) + k) else 0)"
    if "k < unat (p_memsz ph)" for k
  proof -
    have "unat (phys + of_nat k - phys) = k" using that assms(6) by (simp add: unat_of_nat64)
    moreover have "memset_pages phys ?n (ram s) (phys + of_nat k) = 0"
      using that nb b by (intro memset_pages_zero) simp_all
    ultimately show ?thesis unfolding rs using assms(8,9) by (simp add: copy_loop_eq copy_in_def)
  qed
  have low: "virt_to_phys (mach s') pml4 w = virt_to_phys (mach s) pml4 w" if "unat w < unat ?v" for w
  proof -
    have "w \<noteq> ?v + of_nat k" if "k < ?n * 4096" for k
    proof -
      have "unat (?v + of_nat k) = unat ?v + k" using that b by (intro unat_add_nat64) simp
      then show ?thesis using \<open>unat w < unat ?v\<close> by auto
    qed
    then show ?thesis using M that assms(6) by simp
  qed
  show ?thesis using M r low nb(2) by auto
qed

lemma demo_linux:
  assumes "ph \<in> {demo_phdr 0x400000, (demo_phdr 0x400000)\<lparr>p_filesz := 5000\<rparr>}"
  shows "map_option fst (linux_segment (replicate 5001 3) ph 0x100000 demo_image) = Some (Inr 0x2000)"
proof -
  have p: "linux_pages ph = Suc 0" using assms by (auto simp: linux_pages_def demo_phdr_def seg_start_def seg_end_def)
  have "fst (palloc_n (Suc 0) (alloc (mach demo_image))) = 0x2000" by code_simp
  then obtain a where a: "palloc_n (Suc 0) (alloc (mach demo_image)) = (0x2000, a)" by (cases "palloc_n (Suc 0) (alloc (mach demo_image))") simp
  moreover have "fst (map_run (Suc 0) 0x100000 0x2000 0x400000 (linux_flags (demo_phdr 0x400000))
      ((mach demo_image)\<lparr>alloc := snd (palloc_n (Suc 0) (alloc (mach demo_image)))\<rparr>))" by code_simp
  then have m: "fst (map_run (Suc 0) 0x100000 0x2000 (seg_start (p_vaddr ph)) (linux_flags ph) ((mach demo_image)\<lparr>alloc := a\<rparr>))"
    using a assms by (auto simp: linux_flags_def demo_phdr_def seg_start_def simp del: map_run.simps)
  ultimately show ?thesis using assms p unfolding linux_segment_def
    by (auto simp: demo_phdr_def Let_def split: prod.split simp del: map_run.simps)
qed

lemma demo_linux_run: "first_page (snd (palloc_n (Suc 0) (alloc (mach demo_image)))) \<le> total_pages (alloc (mach demo_image))"
  by code_simp

theorem linux_segment_loaded_witness:
  "\<exists>s'. linux_segment (replicate 5001 3) (demo_phdr 0x400000) 0x100000 demo_image = Some (Inr 0x2000, s') \<and>
     virt_to_phys (mach s') 0x100000 0x400002 = 0x2002 \<and> ram s' 0x2002 = 3"
proof -
  obtain s' where s': "linux_segment (replicate 5001 3) (demo_phdr 0x400000) 0x100000 demo_image = Some (Inr 0x2000, s')"
    using demo_linux [of "demo_phdr 0x400000"] by (auto simp: map_option_case split: option.splits)
  have ok: "tree_ok (mach demo_image) 0x100000" using demo_space_ok by (simp add: demo_image_def)
  have p: "linux_pages (demo_phdr 0x400000) = Suc 0" by (simp add: linux_pages_def demo_phdr_def seg_start_def seg_end_def)
  have "page_aligned 0x400000" by code_simp
  then have "\<forall>k<10. virt_to_phys (mach s') 0x100000 (0x400000 + of_nat k) = 0x2000 + of_nat k \<and>
      ram s' (0x2000 + of_nat k) = (if k < 3 then replicate 5001 3 ! (1 + k) else 0)"
    using linux_segment_loaded [OF ok s'] demo_linux_run p by (simp add: demo_phdr_def)
  from this [rule_format, of 2] s' show ?thesis by simp
qed

theorem linux_filesz_overruns_witness:
  "\<exists>s'. linux_segment (replicate 5001 3) ((demo_phdr 0x400000)\<lparr>p_filesz := 5000\<rparr>) 0x100000 demo_image = Some (Inr 0x2000, s') \<and>
     ram s' 0x3000 = 3"
proof -
  let ?ph = "(demo_phdr 0x400000)\<lparr>p_filesz := 5000\<rparr>"
  obtain s' where s': "linux_segment (replicate 5001 3) ?ph 0x100000 demo_image = Some (Inr 0x2000, s')"
    using demo_linux [of ?ph] by (auto simp: map_option_case split: option.splits)
  have p: "linux_pages ?ph = Suc 0" by (simp add: linux_pages_def demo_phdr_def seg_start_def seg_end_def)
  have "ram s' (0x2000 + of_nat 4096) = replicate 5001 3 ! (unat (p_offset ?ph) + 4096)"
    by (rule linux_filesz_overruns [OF s']) (use p in \<open>simp_all add: demo_phdr_def\<close>)
  then show ?thesis using s' by (simp add: demo_phdr_def)
qed

end
