(* ===== verification/Fat.thy ===== *)
theory Fat
  imports Gpt
begin

text \<open>
  The file allocation table of the FAT driver, \<open>kernel/src/fat_driver.rs\<close>: the boot sector, reading and
  writing entries of FAT12, FAT16 and FAT32 tables, free clusters, and reading and writing the bytes
  of a cluster chain. Directories are in \<open>Fat_Dir\<close>.

  The disk is a map from sector numbers of the partition to 512 bytes, with the sectors whose reads or
  writes fail; it stands for the block layer and its drivers. Sector numbers are naturals below
  \<open>2 ^ 64\<close>, with the wrap-around written out where it can happen. A panic is \<open>None\<close>. The loop
  counters that protect against cyclic chains are the recursion arguments.
\<close>

section \<open>The disk\<close>

record disk =
  sector :: "nat \<Rightarrow> bytes"
  rd_ok :: "nat \<Rightarrow> bool"
  wr_ok :: "nat \<Rightarrow> bool"

definition read_bpb_sector :: "nat \<Rightarrow> disk \<Rightarrow> bytes option" where
  "read_bpb_sector lba d = (if rd_ok d lba then Some (sector d lba) else None)"

definition write_bpb_sector :: "nat \<Rightarrow> bytes \<Rightarrow> disk \<Rightarrow> bool \<times> disk" where
  "write_bpb_sector lba buf d = (if wr_ok d lba then (True, d\<lparr>sector := (sector d)(lba := buf)\<rparr>) else (False, d))"

definition write_le16 :: "bytes \<Rightarrow> nat \<Rightarrow> u16 \<Rightarrow> bytes option" where
  "write_le16 buf off v = (if off + 1 < length buf then Some (buf[off := ucast v, off + 1 := ucast (drop_bit 8 v)]) else None)"

definition write_le32 :: "bytes \<Rightarrow> nat \<Rightarrow> u32 \<Rightarrow> bytes option" where
  "write_le32 buf off v =
     (if off + 3 < length buf
      then Some (buf[off := ucast v, off + 1 := ucast (drop_bit 8 v), off + 2 := ucast (drop_bit 16 v), off + 3 := ucast (drop_bit 24 v)])
      else None)"

section \<open>The boot sector\<close>

datatype FatType = Fat12 | Fat16 | Fat32

record Bpb =
  bytes_per_sector :: nat
  sectors_per_cluster :: nat
  reserved_sectors :: nat
  num_fats :: nat
  root_entry_count :: nat
  fat_size_16 :: nat
  fat_size_32 :: nat
  root_cluster_32 :: u32
  fat_type :: FatType
  data_start :: nat
  total_clusters :: nat

definition sub64 :: "nat \<Rightarrow> nat \<Rightarrow> nat" where
  "sub64 a b = (a + 2 ^ 64 - b) mod 2 ^ 64"

definition type_of_clusters :: "nat \<Rightarrow> FatType" where
  "type_of_clusters n = (if n < 4085 then Fat12 else if n < 65525 then Fat16 else Fat32)"

definition read_bpb :: "disk \<Rightarrow> Bpb option option" where
  "read_bpb d =
     (case read_bpb_sector 0 d of None \<Rightarrow> Some None
      | Some buf \<Rightarrow>
          do { b0 \<leftarrow> byte_at buf 0;
               if b0 = 0xE5 then Some None
               else do { bps \<leftarrow> le16 buf 11; spc \<leftarrow> byte_at buf 13;
                 if bps = 0 \<or> bps AND (bps - 1) \<noteq> 0 \<or> spc = 0 \<or> spc AND (spc - 1) \<noteq> 0 then Some None
                 else do { reserved \<leftarrow> le16 buf 14; nf \<leftarrow> byte_at buf 16; root_entries \<leftarrow> le16 buf 17; tot16 \<leftarrow> le16 buf 19;
                           sz16 \<leftarrow> le16 buf 22; sz32 \<leftarrow> le32 buf 36; rc \<leftarrow> le32 buf 44; tot32 \<leftarrow> le32 buf 32;
                           let fat_size = (if sz16 \<noteq> 0 then unat sz16 else unat sz32);
                               total_sectors = (if tot16 \<noteq> 0 then unat tot16 else unat tot32);
                               root_dir_sectors = (unat root_entries * 32 + unat bps - 1) div unat bps;
                               start = unat reserved + unat nf * fat_size + root_dir_sectors;
                               clusters = sub64 total_sectors start div unat spc
                           in Some (Some \<lparr>bytes_per_sector = unat bps, sectors_per_cluster = unat spc, reserved_sectors = unat reserved,
                                num_fats = unat nf, root_entry_count = unat root_entries, fat_size_16 = unat sz16, fat_size_32 = unat sz32,
                                root_cluster_32 = rc, fat_type = type_of_clusters clusters, data_start = start, total_clusters = clusters\<rparr>) } } })"

section \<open>Table entries\<close>

definition fat_sectors :: "Bpb \<Rightarrow> nat" where
  "fat_sectors bpb = (case fat_type bpb of Fat32 \<Rightarrow> fat_size_32 bpb | _ \<Rightarrow> fat_size_16 bpb)"

text \<open>The byte offset of an entry in the table, and where that is on the disk.\<close>

definition entry_off :: "Bpb \<Rightarrow> u32 \<Rightarrow> nat" where
  "entry_off bpb cl = (case fat_type bpb of Fat12 \<Rightarrow> unat cl + unat cl div 2 | Fat16 \<Rightarrow> unat cl * 2 | Fat32 \<Rightarrow> unat cl * 4)"

definition entry_sector :: "Bpb \<Rightarrow> u32 \<Rightarrow> nat" where
  "entry_sector bpb cl = reserved_sectors bpb + entry_off bpb cl div bytes_per_sector bpb"

definition entry_byte :: "Bpb \<Rightarrow> u32 \<Rightarrow> nat" where
  "entry_byte bpb cl = entry_off bpb cl mod bytes_per_sector bpb"

definition fat_eoc :: "Bpb \<Rightarrow> u32" where
  "fat_eoc bpb = (case fat_type bpb of Fat12 \<Rightarrow> 0x0FFF | Fat16 \<Rightarrow> 0xFFFF | Fat32 \<Rightarrow> 0x0FFFFFFF)"

definition fat_is_eoc :: "Bpb \<Rightarrow> u32 \<Rightarrow> bool" where
  "fat_is_eoc bpb v = (case fat_type bpb of Fat12 \<Rightarrow> v \<ge> 0x0FF8 | Fat16 \<Rightarrow> v \<ge> 0xFFF8 | Fat32 \<Rightarrow> v \<ge> 0x0FFFFFF8)"

definition fat_read_entry :: "Bpb \<Rightarrow> u32 \<Rightarrow> disk \<Rightarrow> u32 option" where
  "fat_read_entry bpb cl d =
     (case read_bpb_sector (entry_sector bpb cl) d of
        None \<Rightarrow> Some (fat_eoc bpb)
      | Some buf \<Rightarrow>
          (case fat_type bpb of
             Fat12 \<Rightarrow> do { v \<leftarrow> le16 buf (entry_byte bpb cl); Some (if cl AND 1 = 0 then ucast v AND 0x0FFF else drop_bit 4 (ucast v)) }
           | Fat16 \<Rightarrow> do { v \<leftarrow> le16 buf (entry_byte bpb cl); Some (ucast v) }
           | Fat32 \<Rightarrow> do { v \<leftarrow> le32 buf (entry_byte bpb cl); Some (v AND 0x0FFFFFFF) }))"

definition new_entry :: "Bpb \<Rightarrow> u32 \<Rightarrow> u32 \<Rightarrow> bytes \<Rightarrow> bytes option" where
  "new_entry bpb cl v buf =
     (case fat_type bpb of
        Fat12 \<Rightarrow> do { old \<leftarrow> le16 buf (entry_byte bpb cl);
                      let nv = (if cl AND 1 = 0 then (ucast old AND 0xF000) OR (v AND 0x0FFF)
                                else (ucast old AND 0x000F) OR push_bit 4 (v AND 0x0FFF)) :: u32
                      in write_le16 buf (entry_byte bpb cl) (ucast nv) }
      | Fat16 \<Rightarrow> write_le16 buf (entry_byte bpb cl) (ucast v)
      | Fat32 \<Rightarrow> do { old \<leftarrow> le32 buf (entry_byte bpb cl);
                      write_le32 buf (entry_byte bpb cl) ((old AND 0xF0000000) OR (v AND 0x0FFFFFFF)) })"

definition fat_write_entry :: "Bpb \<Rightarrow> u32 \<Rightarrow> u32 \<Rightarrow> disk \<Rightarrow> (bool \<times> disk) option" where
  "fat_write_entry bpb cl v d =
     (case read_bpb_sector (entry_sector bpb cl) d of
        None \<Rightarrow> Some (False, d)
      | Some buf \<Rightarrow>
          do { buf1 \<leftarrow> new_entry bpb cl v buf;
               let (ok, d1) = write_bpb_sector (entry_sector bpb cl) buf1 d in
               if \<not> ok then Some (False, d1)
               else Some (True, if num_fats bpb > 1 then snd (write_bpb_sector (entry_sector bpb cl + fat_sectors bpb) buf1 d1) else d1) })"

definition cluster_to_lba :: "Bpb \<Rightarrow> u32 \<Rightarrow> nat" where
  "cluster_to_lba bpb cl = (data_start bpb + sub64 (unat cl) 2 * sectors_per_cluster bpb) mod 2 ^ 64"

definition root_cluster :: "Bpb \<Rightarrow> u32" where
  "root_cluster bpb = (case fat_type bpb of Fat32 \<Rightarrow> root_cluster_32 bpb | _ \<Rightarrow> 0)"

definition max_cluster :: "Bpb \<Rightarrow> nat" where
  "max_cluster bpb = (case fat_type bpb of Fat12 \<Rightarrow> 0x0FF0 | Fat16 \<Rightarrow> 0xFFF0 | Fat32 \<Rightarrow> 0x0FFFFFF0)"

function alloc_loop :: "Bpb \<Rightarrow> disk \<Rightarrow> nat \<Rightarrow> nat \<Rightarrow> u32 option" where
  "alloc_loop bpb d cl mx =
     (if cl \<ge> mx then Some 0
      else do { v \<leftarrow> fat_read_entry bpb (of_nat cl) d; if v = 0 then Some (of_nat cl) else alloc_loop bpb d (cl + 1) mx })"
  by pat_completeness auto
termination by (relation "measure (\<lambda>(bpb, d, cl, mx). mx - cl)") auto

declare alloc_loop.simps [simp del]

definition alloc_cluster :: "Bpb \<Rightarrow> disk \<Rightarrow> u32 option" where
  "alloc_cluster bpb d = alloc_loop bpb d 2 (max_cluster bpb)"

definition MAX_ITER :: nat where "MAX_ITER = 100000"

primrec free_loop :: "nat \<Rightarrow> Bpb \<Rightarrow> u32 \<Rightarrow> disk \<Rightarrow> disk option" where
  "free_loop 0 bpb cl d = Some d"
| "free_loop (Suc n) bpb cl d =
     (if fat_is_eoc bpb cl \<or> cl < 2 then Some d
      else do { nx \<leftarrow> fat_read_entry bpb cl d; (_, d1) \<leftarrow> fat_write_entry bpb cl 0 d; free_loop n bpb nx d1 })"

definition free_chain :: "Bpb \<Rightarrow> u32 \<Rightarrow> disk \<Rightarrow> disk option" where
  "free_chain bpb start d = free_loop MAX_ITER bpb start d"

section \<open>Reading a chain\<close>

text \<open>The sectors of one cluster: \<open>Inl\<close> when a read failed and the function returns, \<open>Inr\<close> with the bytes
  collected so far.\<close>

primrec read_sectors :: "Bpb \<Rightarrow> disk \<Rightarrow> nat \<Rightarrow> nat \<Rightarrow> nat \<Rightarrow> nat \<Rightarrow> nat list \<Rightarrow> bytes \<Rightarrow> (bytes + bytes) option" where
  "read_sectors bpb d lba intra last_byte len [] out = Some (Inr out)"
| "read_sectors bpb d lba intra last_byte len (s # rest) out =
     (let bps = bytes_per_sector bpb in
      case read_bpb_sector ((lba + s) mod 2 ^ 64) d of
        None \<Rightarrow> Some (Inl out)
      | Some sec \<Rightarrow>
          (let sec_start = (if s = intra div bps then intra mod bps else 0);
               tk = min (min (last_byte - s * bps) (bps - sec_start)) (len - length out)
           in if tk = 0 then Some (Inr out)
              else if sec_start + tk > length sec then None
              else let out1 = out @ take tk (drop sec_start sec)
                   in if length out1 \<ge> len then Some (Inr out1) else read_sectors bpb d lba intra last_byte len rest out1))"

primrec read_loop :: "nat \<Rightarrow> Bpb \<Rightarrow> disk \<Rightarrow> nat \<Rightarrow> u32 \<Rightarrow> nat \<Rightarrow> bytes \<Rightarrow> bytes option" where
  "read_loop 0 bpb d len cluster intra out = Some out"
| "read_loop (Suc n) bpb d len cluster intra out =
     (if length out \<ge> len \<or> fat_is_eoc bpb cluster \<or> cluster < 2 then Some out
      else let bps = bytes_per_sector bpb; cluster_sz = bps * sectors_per_cluster bpb;
               want = min (len - length out) (cluster_sz - intra); last_byte = intra + want
           in do { r \<leftarrow> read_sectors bpb d (cluster_to_lba bpb cluster) intra last_byte len
                        [intra div bps..<(last_byte + bps - 1) div bps] out;
                   case r of Inl out1 \<Rightarrow> Some out1
                   | Inr out1 \<Rightarrow>
                       if length out1 \<ge> len then Some out1
                       else do { nx \<leftarrow> fat_read_entry bpb cluster d; read_loop n bpb d len nx 0 out1 } })"

text \<open>Stepping over \<open>skip\<close> clusters; \<open>None\<close> inside for the early return.\<close>

primrec skip_chain :: "nat \<Rightarrow> Bpb \<Rightarrow> disk \<Rightarrow> nat \<Rightarrow> u32 \<Rightarrow> u32 option option" where
  "skip_chain 0 bpb d iter cluster = Some (Some cluster)"
| "skip_chain (Suc n) bpb d iter cluster =
     (if fat_is_eoc bpb cluster \<or> cluster < 2 then Some None
      else do { nx \<leftarrow> fat_read_entry bpb cluster d;
                if iter + 1 > MAX_ITER then Some None else skip_chain n bpb d (iter + 1) nx })"

definition read_chain :: "Bpb \<Rightarrow> disk \<Rightarrow> u32 \<Rightarrow> nat \<Rightarrow> nat \<Rightarrow> bytes option" where
  "read_chain bpb d first_cluster offset len =
     (let cluster_sz = bytes_per_sector bpb * sectors_per_cluster bpb in
      if len = 0 \<or> first_cluster < 2 \<or> cluster_sz = 0 then Some []
      else do { c \<leftarrow> skip_chain (offset div cluster_sz) bpb d 0 first_cluster;
                case c of None \<Rightarrow> Some []
                | Some cluster \<Rightarrow> read_loop MAX_ITER bpb d len cluster (offset mod cluster_sz) [] })"

section \<open>Writing a chain\<close>

text \<open>A new cluster at the end of the chain; 0 when the disk is full.\<close>

definition grow_chain :: "Bpb \<Rightarrow> u32 \<Rightarrow> disk \<Rightarrow> (u32 \<times> disk) option" where
  "grow_chain bpb cluster d =
     do { nc \<leftarrow> alloc_cluster bpb d;
          if nc = 0 then Some (0, d)
          else do { (_, d1) \<leftarrow> fat_write_entry bpb nc (fat_eoc bpb) d; (_, d2) \<leftarrow> fat_write_entry bpb cluster nc d1; Some (nc, d2) } }"

definition next_or_grow :: "Bpb \<Rightarrow> u32 \<Rightarrow> disk \<Rightarrow> (u32 \<times> disk) option" where
  "next_or_grow bpb cluster d =
     do { nx \<leftarrow> fat_read_entry bpb cluster d;
          if fat_is_eoc bpb nx \<or> nx < 2 then grow_chain bpb cluster d else Some (nx, d) }"

primrec seek_chain :: "nat \<Rightarrow> Bpb \<Rightarrow> nat \<Rightarrow> u32 \<Rightarrow> disk \<Rightarrow> (u32 \<times> disk) option" where
  "seek_chain 0 bpb iter cluster d = Some (cluster, d)"
| "seek_chain (Suc n) bpb iter cluster d =
     (if iter + 1 > MAX_ITER then Some (0, d)
      else do { (nx, d1) \<leftarrow> next_or_grow bpb cluster d; if nx = 0 then Some (0, d1) else seek_chain n bpb (iter + 1) nx d1 })"

text \<open>The sectors of one cluster; the result says how many bytes are written and whether a failed read
  ends the function.\<close>

primrec write_sectors :: "Bpb \<Rightarrow> nat \<Rightarrow> nat \<Rightarrow> nat \<Rightarrow> bytes \<Rightarrow> nat list \<Rightarrow> nat \<Rightarrow> disk \<Rightarrow> (bool \<times> nat \<times> disk) option" where
  "write_sectors bpb lba intra want data [] fin d = Some (False, fin, d)"
| "write_sectors bpb lba intra want data (s # rest) fin d =
     (let bps = bytes_per_sector bpb in
      case read_bpb_sector ((lba + s) mod 2 ^ 64) d of
        None \<Rightarrow> Some (True, fin, d)
      | Some sec \<Rightarrow>
          (let range_start = max intra (s * bps); range_end = min (intra + want) (s * bps + bps)
           in if range_end \<le> range_start then write_sectors bpb lba intra want data rest fin d
              else let tk = min (range_end - range_start) (length data - fin); sec_pos = range_start - s * bps in
                if sec_pos + tk > length sec then None
                else let d1 = snd (write_bpb_sector ((lba + s) mod 2 ^ 64) (splice_at sec sec_pos (take tk (drop fin data))) d);
                         fin1 = fin + tk
                     in if fin1 \<ge> length data then Some (False, fin1, d1) else write_sectors bpb lba intra want data rest fin1 d1))"

primrec write_loop :: "nat \<Rightarrow> Bpb \<Rightarrow> bytes \<Rightarrow> u32 \<Rightarrow> nat \<Rightarrow> nat \<Rightarrow> disk \<Rightarrow> (nat \<times> disk) option" where
  "write_loop 0 bpb data cluster intra fin d = Some (fin, d)"
| "write_loop (Suc n) bpb data cluster intra fin d =
     (if fin \<ge> length data \<or> cluster < 2 then Some (fin, d)
      else do { (cl, d1) \<leftarrow> (if fat_is_eoc bpb cluster then grow_chain bpb cluster d else Some (cluster, d));
                if cl = 0 then Some (fin, d1)
                else let bps = bytes_per_sector bpb; cluster_sz = bps * sectors_per_cluster bpb;
                         want = min (length data - fin) (cluster_sz - intra)
                     in do { (failed, fin1, d2) \<leftarrow> write_sectors bpb (cluster_to_lba bpb cl) intra want data
                                [intra div bps..<(intra + want + bps - 1) div bps] fin d1;
                             if failed \<or> fin1 \<ge> length data then Some (fin1, d2)
                             else do { (nx, d3) \<leftarrow> next_or_grow bpb cl d2;
                                       if nx = 0 then Some (fin1, d3) else write_loop n bpb data nx 0 fin1 d3 } } })"

definition write_chain :: "Bpb \<Rightarrow> u32 \<Rightarrow> nat \<Rightarrow> bytes \<Rightarrow> disk \<Rightarrow> (nat \<times> disk) option" where
  "write_chain bpb first_cluster offset data d =
     (let cluster_sz = bytes_per_sector bpb * sectors_per_cluster bpb in
      if data = [] \<or> first_cluster < 2 \<or> cluster_sz = 0 then Some (0, d)
      else do { (cluster, d1) \<leftarrow> seek_chain (offset div cluster_sz) bpb 0 first_cluster d;
                if cluster = 0 then Some (0, d1)
                else write_loop MAX_ITER bpb data cluster (offset mod cluster_sz) 0 d1 })"

end
