(* ===== verification/Fat_Dir.thy ===== *)
theory Fat_Dir
  imports Fat Vfs
begin

text \<open>
  Directories and the file operations of the FAT driver, \<open>kernel/src/fat_driver.rs\<close>, over the chains of
  \<open>Fat\<close>: names in 8.3 form and long names, directory entries, path resolution, and the operations
  the driver registers with the virtual file system. The cached boot sector parameters are an
  argument of the operations. A panic is \<open>None\<close>.
\<close>

section \<open>Names\<close>

definition to_upper :: "u8 \<Rightarrow> u8" where
  "to_upper c = (if 0x61 \<le> c \<and> c \<le> 0x7A then c - 32 else c)"

definition name_to_83 :: "bytes \<Rightarrow> bytes option" where
  "name_to_83 name =
     (if name = [] \<or> length name > 12 then None
      else case position (\<lambda>c. c = 0x2E) name of
        None \<Rightarrow> if length name > 8 then None else Some (splice_at (replicate 11 0x20) 0 (map to_upper name))
      | Some dt \<Rightarrow>
          if dt = 0 \<or> dt > 8 then None
          else let ext = drop (dt + 1) name in
            if ext = [] \<or> length ext > 3 then None
            else Some (splice_at (splice_at (replicate 11 0x20) 0 (map to_upper (take dt name))) 8 (map to_upper ext)))"

definition format_name :: "bytes \<Rightarrow> bytes" where
  "format_name entry =
     (let stem = takeWhile (\<lambda>c. c \<noteq> 0x20) (take 8 entry);
          ext = (if entry ! 8 \<noteq> 0x20 then 0x2E # takeWhile (\<lambda>c. c \<noteq> 0x20) (take 3 (drop 8 entry)) else [])
      in splice_at (replicate 13 0) 0 (stem @ ext))"

definition field_match :: "bytes \<Rightarrow> nat \<Rightarrow> nat \<Rightarrow> bytes \<Rightarrow> bool" where
  "field_match entry off n u = list_all (\<lambda>i. entry ! (off + i) = (if i < length u then to_upper (u ! i) else 0x20)) [0..<n]"

definition name_match :: "bytes \<Rightarrow> bytes \<Rightarrow> bool" where
  "name_match entry user =
     (case position (\<lambda>c. c = 0x2E) user of
        None \<Rightarrow> field_match entry 0 8 user \<and> (entry ! 8 = 0x20 \<or> entry ! 8 = 0)
      | Some dt \<Rightarrow> field_match entry 0 8 (take dt user) \<and> field_match entry 8 3 (drop (dt + 1) user))"

text \<open>The 13 characters of a long-name entry.\<close>

definition lfn_offsets :: "nat list" where
  "lfn_offsets = map (\<lambda>j. 1 + j * 2) [0..<5] @ map (\<lambda>j. 14 + j * 2) [0..<6] @ map (\<lambda>j. 28 + j * 2) [0..<2]"

definition read_lfn_chars :: "bytes \<Rightarrow> u16 list" where
  "read_lfn_chars entry = map (\<lambda>off. ucast (entry ! off) OR push_bit 8 (ucast (entry ! (off + 1)))) lfn_offsets"

definition lfn_byte :: "u16 \<Rightarrow> u8" where
  "lfn_byte ch = (if ch < 0x80 then to_upper (ucast ch) else 0xFF)"

definition lfn_match :: "bytes \<Rightarrow> bytes \<Rightarrow> bool" where
  "lfn_match lfn user \<longleftrightarrow> length lfn = length user \<and> list_all (\<lambda>i. lfn ! i = to_upper (user ! i)) [0..<length lfn]"

text \<open>The long name collected so far, and whether its last part has been seen.\<close>

type_synonym lfn = "bytes \<times> bool"

definition lfn_none :: lfn where "lfn_none = (replicate 256 0, False)"

definition lfn_step :: "bytes \<Rightarrow> lfn \<Rightarrow> lfn" where
  "lfn_step e st =
     (let seq = e ! 0; seq_num = unat (seq AND 0x3F) in
      if seq_num = 0 \<or> seq_num > 20 then lfn_none
      else let idx = seq_num - 1; chars = take (256 - idx * 13) (map lfn_byte (read_lfn_chars e))
           in (splice_at (fst st) (idx * 13) chars, if seq AND 0x40 \<noteq> 0 then True else snd st))"

definition lfn_string :: "lfn \<Rightarrow> bytes" where
  "lfn_string st = takeWhile (\<lambda>c. c \<noteq> 0) (fst st)"

section \<open>Directory sectors\<close>

definition root_sectors :: "Bpb \<Rightarrow> nat" where
  "root_sectors bpb = (root_entry_count bpb * 32 + 511) div 512"

primrec dir_steps :: "nat \<Rightarrow> Bpb \<Rightarrow> disk \<Rightarrow> u32 \<Rightarrow> u32 option option" where
  "dir_steps 0 bpb d cluster = Some (Some cluster)"
| "dir_steps (Suc n) bpb d cluster =
     (if fat_is_eoc bpb cluster then Some None
      else do { nx \<leftarrow> fat_read_entry bpb cluster d; if nx < 2 then Some None else dir_steps n bpb d nx })"

text \<open>The sector of the disk that holds sector \<open>sec_idx\<close> of a directory.\<close>

definition dir_lba :: "Bpb \<Rightarrow> disk \<Rightarrow> u32 \<Rightarrow> nat \<Rightarrow> nat option option" where
  "dir_lba bpb d dir_cluster sec_idx =
     (if dir_cluster = 0 then
        (if fat_type bpb = Fat32 \<or> sec_idx \<ge> root_sectors bpb then Some None
         else Some (Some (reserved_sectors bpb + num_fats bpb * fat_sectors bpb + sec_idx)))
      else do { c \<leftarrow> dir_steps (sec_idx div sectors_per_cluster bpb) bpb d dir_cluster;
                Some (map_option (\<lambda>cl. (cluster_to_lba bpb cl + sec_idx mod sectors_per_cluster bpb) mod 2 ^ 64) c) })"

definition read_dir_sector :: "Bpb \<Rightarrow> disk \<Rightarrow> u32 \<Rightarrow> nat \<Rightarrow> bytes option option" where
  "read_dir_sector bpb d dir_cluster sec_idx =
     do { l \<leftarrow> dir_lba bpb d dir_cluster sec_idx;
          Some (case l of None \<Rightarrow> None | Some lba \<Rightarrow> read_bpb_sector lba d) }"

definition write_dir_sector :: "Bpb \<Rightarrow> u32 \<Rightarrow> nat \<Rightarrow> bytes \<Rightarrow> disk \<Rightarrow> (bool \<times> disk) option" where
  "write_dir_sector bpb dir_cluster sec_idx buf d =
     do { l \<leftarrow> dir_lba bpb d dir_cluster sec_idx;
          Some (case l of None \<Rightarrow> (False, d) | Some lba \<Rightarrow> write_bpb_sector lba buf d) }"

definition dir_max_sectors :: "Bpb \<Rightarrow> u32 \<Rightarrow> nat" where
  "dir_max_sectors bpb dir_cluster = (if fat_type bpb \<noteq> Fat32 \<and> dir_cluster = 0 then root_sectors bpb else 2 ^ 64 - 1)"

definition entry_at :: "bytes \<Rightarrow> nat \<Rightarrow> bytes" where
  "entry_at buf i = take 32 (drop (i * 32) buf)"

definition entry_cluster :: "Bpb \<Rightarrow> bytes \<Rightarrow> u32" where
  "entry_cluster bpb e =
     (let lo = ucast (e ! 26) OR push_bit 8 (ucast (e ! 27)); hi = ucast (e ! 20) OR push_bit 8 (ucast (e ! 21)) :: u32
      in if fat_type bpb = Fat32 then hi * 65536 + lo else lo)"

definition entry_size :: "bytes \<Rightarrow> u32" where
  "entry_size e = ucast (e ! 28) OR push_bit 8 (ucast (e ! 29)) OR push_bit 16 (ucast (e ! 30)) OR push_bit 24 (ucast (e ! 31))"

section \<open>Searching a directory\<close>

datatype scan = Stop | Found "u32 \<times> u32 \<times> nat \<times> u8" | Onward lfn

text \<open>The entries of one sector, from index \<open>i\<close> on.\<close>

primrec find_entries :: "Bpb \<Rightarrow> bytes \<Rightarrow> nat \<Rightarrow> bytes \<Rightarrow> nat list \<Rightarrow> lfn \<Rightarrow> scan" where
  "find_entries bpb buf sec name [] st = Onward st"
| "find_entries bpb buf sec name (i # rest) st =
     (let e = entry_at buf i; attr = e ! 11 in
      if e ! 0 = 0 then Stop
      else if e ! 0 = 0xE5 then find_entries bpb buf sec name rest lfn_none
      else if attr AND 0x0F = 0x0F then find_entries bpb buf sec name rest (lfn_step e st)
      else if attr AND 0x08 \<noteq> 0 then find_entries bpb buf sec name rest lfn_none
      else if name_match (take 11 e) name \<or> snd st \<and> lfn_match (lfn_string st) name
      then Found (entry_cluster bpb e, entry_size e, sec * 16 + i, attr)
      else find_entries bpb buf sec name rest lfn_none)"

function find_loop :: "Bpb \<Rightarrow> disk \<Rightarrow> u32 \<Rightarrow> bytes \<Rightarrow> nat \<Rightarrow> nat \<Rightarrow> lfn \<Rightarrow> (u32 \<times> u32 \<times> nat \<times> u8) option option" where
  "find_loop bpb d dir_cluster name sec mx st =
     (if sec \<ge> mx then Some None
      else do { r \<leftarrow> read_dir_sector bpb d dir_cluster sec;
                case r of None \<Rightarrow> Some None
                | Some buf \<Rightarrow>
                    (case find_entries bpb buf sec name [0..<16] st of
                       Stop \<Rightarrow> Some None
                     | Found x \<Rightarrow> Some (Some x)
                     | Onward st1 \<Rightarrow> find_loop bpb d dir_cluster name (sec + 1) mx st1) })"
  by pat_completeness auto
termination by (relation "measure (\<lambda>(bpb, d, dc, name, sec, mx, st). mx - sec)") auto

declare find_loop.simps [simp del]

definition find_in_dir :: "Bpb \<Rightarrow> disk \<Rightarrow> u32 \<Rightarrow> bytes \<Rightarrow> (u32 \<times> u32 \<times> nat \<times> u8) option option" where
  "find_in_dir bpb d dir_cluster name = find_loop bpb d dir_cluster name 0 (dir_max_sectors bpb dir_cluster) lfn_none"

section \<open>Paths\<close>

definition strip_end :: "bytes \<Rightarrow> bytes" where
  "strip_end path = rev (dropWhile (\<lambda>c. c = 0x2F) (rev path))"

definition last_component :: "bytes \<Rightarrow> bytes" where
  "last_component path = rev (takeWhile (\<lambda>c. c \<noteq> 0x2F) (rev (strip_end path)))"

definition parent_path :: "bytes \<Rightarrow> bytes" where
  "parent_path path =
     (let name = last_component path in
      if name = [] then []
      else let p = strip_end (take (length (strip_end path) - length name) path) in
        if p = [] then (if path \<noteq> [] \<and> hd path = 0x2F then [0x2F] else []) else p)"

lemma comp_shorter:
  assumes "dropWhile (\<lambda>c. c = x) path \<noteq> []"
  shows "length (dropWhile (\<lambda>c. c \<noteq> x) (dropWhile (\<lambda>c. c = x) path)) < length path"
proof -
  have "hd (dropWhile (\<lambda>c. c = x) path) \<noteq> x" using hd_dropWhile [OF assms] by simp
  then obtain c cs where p: "dropWhile (\<lambda>c. c = x) path = c # cs" and c: "c \<noteq> x"
    using assms by (cases "dropWhile (\<lambda>c. c = x) path") auto
  have "length (dropWhile (\<lambda>c. c \<noteq> x) cs) \<le> length cs" by (rule length_dropWhile_le)
  moreover have "Suc (length cs) \<le> length path" using length_dropWhile_le [of "\<lambda>c. c = x" path] p by simp
  ultimately show ?thesis using p c by simp
qed

function resolve_comps :: "Bpb \<Rightarrow> disk \<Rightarrow> u32 \<Rightarrow> bytes \<Rightarrow> u32 option option" where
  "resolve_comps bpb d cluster path =
     (let p = dropWhile (\<lambda>c. c = 0x2F) path in
      if p = [] then Some (Some cluster)
      else do { r \<leftarrow> find_in_dir bpb d cluster (takeWhile (\<lambda>c. c \<noteq> 0x2F) p);
                case r of None \<Rightarrow> Some None
                | Some (sub, _, _, attr) \<Rightarrow>
                    if attr AND 0x10 = 0 then Some None else resolve_comps bpb d sub (dropWhile (\<lambda>c. c \<noteq> 0x2F) p) })"
  by pat_completeness auto
termination
  by (relation "measure (\<lambda>(bpb, d, cl, path). length path)") (auto simp: comp_shorter)

declare resolve_comps.simps [simp del]

definition resolve_dir :: "Bpb \<Rightarrow> disk \<Rightarrow> bytes \<Rightarrow> u32 option option" where
  "resolve_dir bpb d path = resolve_comps bpb d (root_cluster bpb) path"

definition resolve_parent :: "Bpb \<Rightarrow> disk \<Rightarrow> bytes \<Rightarrow> u32 option option" where
  "resolve_parent bpb d path =
     (let p = parent_path path in if p = [] \<or> p = [0x2F] then Some (Some (root_cluster bpb)) else resolve_dir bpb d p)"

section \<open>Changing a directory\<close>

primrec chain_end :: "nat \<Rightarrow> Bpb \<Rightarrow> u32 \<Rightarrow> disk \<Rightarrow> u32 option option" where
  "chain_end 0 bpb cl d = do { nx \<leftarrow> fat_read_entry bpb cl d; Some (if fat_is_eoc bpb nx then Some cl else None) }"
| "chain_end (Suc n) bpb cl d =
     do { nx \<leftarrow> fat_read_entry bpb cl d; if fat_is_eoc bpb nx then Some (Some cl) else chain_end n bpb nx d }"

definition extend_dir :: "Bpb \<Rightarrow> u32 \<Rightarrow> disk \<Rightarrow> (u32 option \<times> disk) option" where
  "extend_dir bpb dir_cluster d =
     do { nw \<leftarrow> alloc_cluster bpb d;
          if nw = 0 then Some (None, d)
          else do { (_, d1) \<leftarrow> fat_write_entry bpb nw (fat_eoc bpb) d;
                    l \<leftarrow> chain_end MAX_ITER bpb dir_cluster d1;
                    case l of None \<Rightarrow> Some (None, d1)
                    | Some lst \<Rightarrow> do { (_, d2) \<leftarrow> fat_write_entry bpb lst nw d1; Some (Some nw, d2) } } }"

text \<open>Zero sectors \<open>lba + s\<close>; failed writes are ignored.\<close>

definition zero_sectors :: "nat \<Rightarrow> nat list \<Rightarrow> disk \<Rightarrow> disk" where
  "zero_sectors lba ss d = fold (\<lambda>s d. snd (write_bpb_sector ((lba + s) mod 2 ^ 64) (replicate 512 0) d)) ss d"

definition put_cluster :: "Bpb \<Rightarrow> bytes \<Rightarrow> nat \<Rightarrow> u32 \<Rightarrow> bytes option" where
  "put_cluster bpb buf off cl =
     (if fat_type bpb = Fat32
      then do { b \<leftarrow> write_le16 buf (off + 20) (ucast (drop_bit 16 cl)); write_le16 b (off + 26) (ucast cl) }
      else write_le16 buf (off + 26) (ucast cl))"

definition init_dir_cluster :: "Bpb \<Rightarrow> u32 \<Rightarrow> u32 \<Rightarrow> disk \<Rightarrow> (bool \<times> disk) option" where
  "init_dir_cluster bpb self_cluster parent_cluster d =
     (let lba = cluster_to_lba bpb self_cluster;
          b0 = (splice_at (replicate 512 0) 0 (ascii ''.       ''))[11 := 0x10]
      in do { b1 \<leftarrow> put_cluster bpb b0 0 self_cluster;
              b2 \<leftarrow> put_cluster bpb ((splice_at b1 32 (ascii ''..      ''))[43 := 0x10]) 32 parent_cluster;
              Some (True, zero_sectors lba [1..<sectors_per_cluster bpb] (snd (write_bpb_sector lba b2 d))) })"

definition put_entry_at :: "Bpb \<Rightarrow> bytes \<Rightarrow> nat \<Rightarrow> bytes \<Rightarrow> u8 \<Rightarrow> u32 \<Rightarrow> u32 \<Rightarrow> bytes option" where
  "put_entry_at bpb buf off short attr cluster sz =
     do { b1 \<leftarrow> put_cluster bpb (splice_at ((splice_at buf off short)[off + 11 := attr]) (off + 12) (replicate 14 0)) off cluster;
          write_le32 b1 (off + 28) sz }"

text \<open>The sector to search for a free slot, after the directory has grown by a cluster when it ends here.\<close>

definition dir_sector_or_grow :: "Bpb \<Rightarrow> u32 \<Rightarrow> nat \<Rightarrow> disk \<Rightarrow> (bytes option \<times> disk) option" where
  "dir_sector_or_grow bpb dir_cluster sec d =
     do { r \<leftarrow> read_dir_sector bpb d dir_cluster sec;
          case r of Some buf \<Rightarrow> Some (Some buf, d)
          | None \<Rightarrow>
              if dir_cluster = 0 then Some (None, d)
              else do { (e, d1) \<leftarrow> extend_dir bpb dir_cluster d;
                        case e of None \<Rightarrow> Some (None, d1)
                        | Some new_cl \<Rightarrow>
                            let d2 = zero_sectors (cluster_to_lba bpb new_cl) [0..<sectors_per_cluster bpb] d1
                            in do { r2 \<leftarrow> read_dir_sector bpb d2 dir_cluster sec; Some (r2, d2) } } }"

definition free_entry :: "bytes \<Rightarrow> nat option" where
  "free_entry buf = List.find (\<lambda>i. buf ! (i * 32) = 0 \<or> buf ! (i * 32) = 0xE5) [0..<16]"

function add_loop :: "Bpb \<Rightarrow> u32 \<Rightarrow> bytes \<Rightarrow> u8 \<Rightarrow> u32 \<Rightarrow> u32 \<Rightarrow> nat \<Rightarrow> nat \<Rightarrow> disk \<Rightarrow> (nat option \<times> disk) option" where
  "add_loop bpb dir_cluster short attr cluster sz sec mx d =
     (if sec \<ge> mx then Some (None, d)
      else do { (r, d1) \<leftarrow> dir_sector_or_grow bpb dir_cluster sec d;
                case r of None \<Rightarrow> Some (None, d1)
                | Some buf \<Rightarrow>
                    (case free_entry buf of
                       Some i \<Rightarrow> do { b \<leftarrow> put_entry_at bpb buf (i * 32) short attr cluster sz;
                                      (_, d2) \<leftarrow> write_dir_sector bpb dir_cluster sec b d1;
                                      Some (Some (sec * 16 + i), d2) }
                     | None \<Rightarrow> add_loop bpb dir_cluster short attr cluster sz (sec + 1) mx d1) })"
  by pat_completeness auto
termination by (relation "measure (\<lambda>(bpb, dc, short, attr, cl, sz, sec, mx, d). mx - sec)") auto

declare add_loop.simps [simp del]

definition add_dir_entry :: "Bpb \<Rightarrow> u32 \<Rightarrow> bytes \<Rightarrow> u8 \<Rightarrow> u32 \<Rightarrow> u32 \<Rightarrow> disk \<Rightarrow> (nat option \<times> disk) option" where
  "add_dir_entry bpb dir_cluster short attr cluster sz d =
     add_loop bpb dir_cluster short attr cluster sz 0 (dir_max_sectors bpb dir_cluster) d"

definition delete_entry :: "Bpb \<Rightarrow> u32 \<Rightarrow> nat \<Rightarrow> disk \<Rightarrow> (bool \<times> disk) option" where
  "delete_entry bpb dir_cluster entry_idx d =
     do { r \<leftarrow> read_dir_sector bpb d dir_cluster (entry_idx div 16);
          case r of None \<Rightarrow> Some (False, d)
          | Some buf \<Rightarrow> write_dir_sector bpb dir_cluster (entry_idx div 16) (buf[entry_idx mod 16 * 32 := 0xE5]) d }"

text \<open>\<open>None\<close> when the sector does not decide it.\<close>

primrec empty_entries :: "bytes \<Rightarrow> nat list \<Rightarrow> bool option" where
  "empty_entries buf [] = None"
| "empty_entries buf (i # rest) =
     (let e = entry_at buf i; a = e ! 11 in
      if e ! 0 = 0 then Some True
      else if e ! 0 = 0xE5 \<or> a AND 0x0F = 0x0F \<or> a AND 0x08 \<noteq> 0 \<or> i \<le> 1 \<and> e ! 0 = 0x2E then empty_entries buf rest
      else Some False)"

function empty_loop :: "Bpb \<Rightarrow> disk \<Rightarrow> u32 \<Rightarrow> nat \<Rightarrow> nat \<Rightarrow> bool option" where
  "empty_loop bpb d dir_cluster sec mx =
     (if sec \<ge> mx then Some True
      else do { r \<leftarrow> read_dir_sector bpb d dir_cluster sec;
                case r of None \<Rightarrow> Some True
                | Some buf \<Rightarrow> (case empty_entries buf [0..<16] of Some b \<Rightarrow> Some b
                               | None \<Rightarrow> empty_loop bpb d dir_cluster (sec + 1) mx) })"
  by pat_completeness auto
termination by (relation "measure (\<lambda>(bpb, d, dc, sec, mx). mx - sec)") auto

declare empty_loop.simps [simp del]

definition is_dir_empty :: "Bpb \<Rightarrow> disk \<Rightarrow> u32 \<Rightarrow> bool option" where
  "is_dir_empty bpb d dir_cluster = empty_loop bpb d dir_cluster 0 (dir_max_sectors bpb dir_cluster)"

section \<open>The operations\<close>

record fat_fs =
  CACHED_BPB :: "Bpb option"
  dev :: disk

definition get_bpb :: "fat_fs \<Rightarrow> (Bpb option \<times> fat_fs) option" where
  "get_bpb s =
     (case CACHED_BPB s of Some bpb \<Rightarrow> Some (Some bpb, s)
      | None \<Rightarrow> do { r \<leftarrow> read_bpb (dev s);
                     Some (case r of None \<Rightarrow> (None, s) | Some bpb \<Rightarrow> (Some bpb, s\<lparr>CACHED_BPB := Some bpb\<rparr>)) })"

text \<open>The body of an operation, after the boot sector is known; \<open>no\<close> is the answer without one.\<close>

definition with_bpb :: "'r \<Rightarrow> (Bpb \<Rightarrow> disk \<Rightarrow> ('r \<times> disk) option) \<Rightarrow> fat_fs \<Rightarrow> ('r \<times> fat_fs) option" where
  "with_bpb no f s =
     do { (b, s1) \<leftarrow> get_bpb s;
          case b of None \<Rightarrow> Some (no, s1)
          | Some bpb \<Rightarrow> do { (r, d) \<leftarrow> f bpb (dev s1); Some (r, s1\<lparr>dev := d\<rparr>) } }"

text \<open>The entry with its cluster and size set to 0.\<close>

definition clear_entry :: "Bpb \<Rightarrow> u32 \<Rightarrow> bytes \<Rightarrow> disk \<Rightarrow> disk option" where
  "clear_entry bpb dir name d =
     do { r \<leftarrow> find_in_dir bpb d dir name;
          case r of None \<Rightarrow> Some d
          | Some (_, _, entry_idx, _) \<Rightarrow>
              do { b \<leftarrow> read_dir_sector bpb d dir (entry_idx div 16);
                   case b of None \<Rightarrow> Some d
                   | Some buf \<Rightarrow>
                       do { b1 \<leftarrow> put_cluster bpb buf (entry_idx mod 16 * 32) 0;
                            b2 \<leftarrow> write_le32 b1 (entry_idx mod 16 * 32 + 28) 0;
                            (_, d1) \<leftarrow> write_dir_sector bpb dir (entry_idx div 16) b2 d;
                            Some d1 } } }"

definition file_handle :: "u32 \<Rightarrow> u32 \<Rightarrow> u64" where
  "file_handle cl sz = push_bit 32 (ucast cl) OR ucast sz"

definition create_file :: "Bpb \<Rightarrow> u32 \<Rightarrow> bytes \<Rightarrow> disk \<Rightarrow> (u64 option \<times> disk) option" where
  "create_file bpb dir name d =
     (case name_to_83 name of None \<Rightarrow> Some (None, d)
      | Some short \<Rightarrow>
          do { cluster \<leftarrow> alloc_cluster bpb d;
               if cluster = 0 then Some (None, d)
               else do { (_, d1) \<leftarrow> fat_write_entry bpb cluster (fat_eoc bpb) d;
                         (e, d3) \<leftarrow> add_dir_entry bpb dir short 0x20 cluster 0
                                      (zero_sectors (cluster_to_lba bpb cluster) [0..<sectors_per_cluster bpb] d1);
                         case e of None \<Rightarrow> do { d4 \<leftarrow> free_chain bpb cluster d3; Some (None, d4) }
                         | Some _ \<Rightarrow> Some (Some (file_handle cluster 0), d3) } })"

definition fat_open :: "bytes \<Rightarrow> u64 \<Rightarrow> fat_fs \<Rightarrow> (u64 option \<times> fat_fs) option" where
  "fat_open path flags = with_bpb None (\<lambda>bpb d.
     do { p \<leftarrow> resolve_parent bpb d path;
          case p of None \<Rightarrow> Some (None, d)
          | Some dir \<Rightarrow>
              let name = last_component path in
              if name = [] then Some (Some 0, d)
              else do { r \<leftarrow> find_in_dir bpb d dir name;
                        case r of
                          Some (cl, sz, _, _) \<Rightarrow>
                            if flags AND 0x200 \<noteq> 0
                            then do { d1 \<leftarrow> free_chain bpb cl d; d2 \<leftarrow> clear_entry bpb dir name d1; Some (Some 0, d2) }
                            else Some (Some (file_handle cl sz), d)
                        | None \<Rightarrow> if flags AND 0x100 = 0 then Some (None, d) else create_file bpb dir name d } })"

definition fat_close :: "u64 \<Rightarrow> fat_fs \<Rightarrow> fat_fs" where
  "fat_close hdl s = s"

definition fat_read :: "u64 \<Rightarrow> bytes \<Rightarrow> u64 \<Rightarrow> fat_fs \<Rightarrow> ((nat option \<times> bytes) \<times> fat_fs) option" where
  "fat_read hdl buf offset = with_bpb (None, buf) (\<lambda>bpb d.
     let cluster = ucast (drop_bit 32 hdl) :: u32; sz = unat (hdl AND 0xFFFFFFFF) in
     if unat offset \<ge> sz \<or> cluster < 2 \<or> min (length buf) (sz - unat offset) = 0 then Some ((Some 0, buf), d)
     else do { out \<leftarrow> read_chain bpb d cluster (unat offset) (min (length buf) (sz - unat offset));
               Some ((Some (length out), splice_at buf 0 out), d) })"

definition fat_write :: "u64 \<Rightarrow> bytes \<Rightarrow> u64 \<Rightarrow> fat_fs \<Rightarrow> (nat option \<times> fat_fs) option" where
  "fat_write hdl buf offset = with_bpb None (\<lambda>bpb d.
     do { (n, d1) \<leftarrow> write_chain bpb (ucast (drop_bit 32 hdl)) (unat offset) buf d; Some (Some n, d1) })"

definition names_root :: "bytes \<Rightarrow> bool" where
  "names_root path \<longleftrightarrow> path = [] \<or> path = [0x2F]"

definition fat_stat :: "bytes \<Rightarrow> fat_fs \<Rightarrow> (stat_info option \<times> fat_fs) option" where
  "fat_stat path = with_bpb None (\<lambda>bpb d.
     if names_root path then Some (Some \<lparr>st_size = 0, st_is_dir = True, st_cluster = root_cluster bpb\<rparr>, d)
     else do { c \<leftarrow> resolve_dir bpb d path;
               case c of Some dir_cl \<Rightarrow> Some (Some \<lparr>st_size = 0, st_is_dir = True, st_cluster = dir_cl\<rparr>, d)
               | None \<Rightarrow>
                   do { p \<leftarrow> resolve_parent bpb d path;
                        case p of None \<Rightarrow> Some (None, d)
                        | Some dir \<Rightarrow>
                            let name = last_component path in
                            if name = [] then Some (Some \<lparr>st_size = 0, st_is_dir = True, st_cluster = root_cluster bpb\<rparr>, d)
                            else do { r \<leftarrow> find_in_dir bpb d dir name;
                                      Some (map_option (\<lambda>(cl, sz, _, attr). \<lparr>st_size = sz, st_is_dir = (attr AND 0x10 \<noteq> 0), st_cluster = cl\<rparr>) r, d) } } })"

definition fat_dir_entry :: "bytes \<Rightarrow> lfn \<Rightarrow> dir_entry" where
  "fat_dir_entry e st =
     (let nm = (if snd st then lfn_string st else takeWhile (\<lambda>c. c \<noteq> 0) (format_name e))
      in \<lparr>de_name = splice_at (replicate MAX_NAME 0) 0 (take (MAX_NAME - 1) nm), de_is_dir = (e ! 11 AND 0x10 \<noteq> 0), de_size = entry_size e\<rparr>)"

text \<open>The entries of one sector, from the \<open>n\<close>-th of the caller's array on: \<open>Inl\<close> at the end of the directory.\<close>

primrec list_entries :: "bytes \<Rightarrow> nat list \<Rightarrow> nat \<Rightarrow> dir_entry list \<Rightarrow> lfn \<Rightarrow> nat \<times> dir_entry list + nat \<times> dir_entry list \<times> lfn" where
  "list_entries buf [] n es st = Inr (n, es, st)"
| "list_entries buf (i # rest) n es st =
     (let e = entry_at buf i in
      if n \<ge> length es then Inr (n, es, st)
      else if e ! 0 = 0 then Inl (n, es)
      else if e ! 0 = 0xE5 then list_entries buf rest n es lfn_none
      else if e ! 11 AND 0x0F = 0x0F then list_entries buf rest n es (lfn_step e st)
      else if e ! 11 AND 0x08 \<noteq> 0 then list_entries buf rest n es lfn_none
      else list_entries buf rest (n + 1) (es[n := fat_dir_entry e st]) lfn_none)"

function list_loop :: "Bpb \<Rightarrow> disk \<Rightarrow> u32 \<Rightarrow> nat \<Rightarrow> nat \<Rightarrow> nat \<Rightarrow> dir_entry list \<Rightarrow> lfn \<Rightarrow> (nat \<times> dir_entry list) option" where
  "list_loop bpb d dir_cluster sec mx n es st =
     (if sec \<ge> mx \<or> n \<ge> length es then Some (n, es)
      else do { r \<leftarrow> read_dir_sector bpb d dir_cluster sec;
                case r of None \<Rightarrow> Some (n, es)
                | Some buf \<Rightarrow>
                    (case list_entries buf [0..<16] n es st of
                       Inl (n1, es1) \<Rightarrow> Some (n1, es1)
                     | Inr (n1, es1, st1) \<Rightarrow> list_loop bpb d dir_cluster (sec + 1) mx n1 es1 st1) })"
  by pat_completeness auto
termination by (relation "measure (\<lambda>(bpb, d, dc, sec, mx, n, es, st). mx - sec)") auto

declare list_loop.simps [simp del]

definition fat_readdir :: "bytes \<Rightarrow> dir_entry list \<Rightarrow> fat_fs \<Rightarrow> ((nat option \<times> dir_entry list) \<times> fat_fs) option" where
  "fat_readdir path entries = with_bpb (None, entries) (\<lambda>bpb d.
     do { c \<leftarrow> (if names_root path then Some (Some (root_cluster bpb)) else resolve_dir bpb d path);
          case c of None \<Rightarrow> Some ((None, entries), d)
          | Some dir_cluster \<Rightarrow>
              do { (n, es) \<leftarrow> list_loop bpb d dir_cluster 0 (dir_max_sectors bpb dir_cluster) 0 entries lfn_none;
                   Some ((Some n, es), d) } })"

text \<open>The common start of \<open>mkdir\<close>, \<open>rmdir\<close> and \<open>unlink\<close>: the parent directory, the name and the entry, if any.\<close>

definition at_entry :: "bytes \<Rightarrow> (Bpb \<Rightarrow> disk \<Rightarrow> u32 \<Rightarrow> bytes \<Rightarrow> (u32 \<times> u32 \<times> nat \<times> u8) option \<Rightarrow> (bool \<times> disk) option) \<Rightarrow> fat_fs \<Rightarrow> (bool \<times> fat_fs) option" where
  "at_entry path f = with_bpb False (\<lambda>bpb d.
     do { p \<leftarrow> resolve_parent bpb d path;
          case p of None \<Rightarrow> Some (False, d)
          | Some parent \<Rightarrow>
              let name = last_component path in
              if name = [] then Some (False, d)
              else do { r \<leftarrow> find_in_dir bpb d parent name; f bpb d parent name r } })"

definition fat_mkdir :: "bytes \<Rightarrow> fat_fs \<Rightarrow> (bool \<times> fat_fs) option" where
  "fat_mkdir path = at_entry path (\<lambda>bpb d parent name r.
     case r of Some _ \<Rightarrow> Some (False, d)
     | None \<Rightarrow>
         (case name_to_83 name of None \<Rightarrow> Some (False, d)
          | Some short \<Rightarrow>
              do { cluster \<leftarrow> alloc_cluster bpb d;
                   if cluster = 0 then Some (False, d)
                   else do { (_, d1) \<leftarrow> fat_write_entry bpb cluster (fat_eoc bpb) d;
                             (_, d2) \<leftarrow> init_dir_cluster bpb cluster parent d1;
                             (e, d3) \<leftarrow> add_dir_entry bpb parent short 0x10 cluster 0 d2;
                             Some (e \<noteq> None, d3) } }))"

definition fat_rmdir :: "bytes \<Rightarrow> fat_fs \<Rightarrow> (bool \<times> fat_fs) option" where
  "fat_rmdir path = at_entry path (\<lambda>bpb d parent name r.
     case r of None \<Rightarrow> Some (False, d)
     | Some (cluster, _, entry_idx, attr) \<Rightarrow>
         if attr AND 0x10 = 0 then Some (False, d)
         else do { em \<leftarrow> is_dir_empty bpb d cluster;
                   if \<not> em then Some (False, d)
                   else do { d1 \<leftarrow> free_chain bpb cluster d; delete_entry bpb parent entry_idx d1 } })"

definition fat_unlink :: "bytes \<Rightarrow> fat_fs \<Rightarrow> (bool \<times> fat_fs) option" where
  "fat_unlink path = at_entry path (\<lambda>bpb d parent name r.
     case r of None \<Rightarrow> Some (False, d)
     | Some (cluster, _, entry_idx, attr) \<Rightarrow>
         if attr AND 0x10 \<noteq> 0 then Some (False, d)
         else do { d1 \<leftarrow> free_chain bpb cluster d; delete_entry bpb parent entry_idx d1 })"

definition fat_init :: "fat_fs \<Rightarrow> (bool \<times> fat_fs) option" where
  "fat_init s =
     do { r \<leftarrow> read_bpb (dev s);
          Some (case r of None \<Rightarrow> (False, s) | Some bpb \<Rightarrow> (True, s\<lparr>CACHED_BPB := Some bpb\<rparr>)) }"

end
