(* ===== verification/Fat_Correct.thy ===== *)
theory Fat_Correct
  imports Fat_Dir
begin

text \<open>
  The FAT driver keeps its table and its chains: a table entry that is written is read back and no
  other entry changes, a freed chain leaves exactly its own clusters free, the cluster that is
  allocated is the first free one, and a file is the concatenation of the clusters of its chain.
  The table laws hold for FAT16 and FAT32; a FAT12 entry can lie across two sectors, which panics.
\<close>

section \<open>Well-formed volumes\<close>

definition sectors_ok :: "disk \<Rightarrow> bool" where
  "sectors_ok d \<longleftrightarrow> (\<forall>l. length (sector d l) = 512)"

definition fat_ok :: "Bpb \<Rightarrow> disk \<Rightarrow> bool" where
  "fat_ok bpb d \<longleftrightarrow> fat_type bpb \<noteq> Fat12 \<and> bytes_per_sector bpb = 512 \<and> sectors_ok d \<and>
     (\<forall>l. reserved_sectors bpb \<le> l \<and> l < reserved_sectors bpb + fat_sectors bpb \<longrightarrow> rd_ok d l \<and> wr_ok d l)"

definition in_fat :: "Bpb \<Rightarrow> u32 \<Rightarrow> bool" where
  "in_fat bpb cl \<longleftrightarrow> entry_off bpb cl < fat_sectors bpb * 512"

definition fat_mask :: "Bpb \<Rightarrow> u32" where
  "fat_mask bpb = (if fat_type bpb = Fat32 then 0x0FFFFFFF else 0xFFFF)"

text \<open>The sectors of the table and, if there is one, of its copy.\<close>

definition copy_area :: "Bpb \<Rightarrow> nat set" where
  "copy_area bpb = {reserved_sectors bpb..<reserved_sectors bpb + (if num_fats bpb > 1 then 2 else 1) * fat_sectors bpb}"

section \<open>Table entries\<close>

lemma le16_bits:
  "v = (ucast (ucast v :: u8) :: u16) OR push_bit 8 (ucast (ucast (drop_bit 8 v) :: u8))" for v :: u16
  by (rule bit_word_eqI) (auto simp: bit_or_iff bit_push_bit_iff bit_ucast_iff bit_drop_bit_eq)

lemma le32_bits:
  "v = (ucast (ucast v :: u8) :: u32) OR push_bit 8 (ucast (ucast (drop_bit 8 v) :: u8)) OR
    push_bit 16 (ucast (ucast (drop_bit 16 v) :: u8)) OR push_bit 24 (ucast (ucast (drop_bit 24 v) :: u8))" for v :: u32
proof (rule bit_word_eqI)
  fix n assume n: "n < LENGTH(32)"
  have "n < 24 \<or> (24 + (n - 24) = n \<and> n - 24 < 8)" using n by auto
  then show "bit v n = bit ((ucast (ucast v :: u8) :: u32) OR push_bit 8 (ucast (ucast (drop_bit 8 v) :: u8)) OR
    push_bit 16 (ucast (ucast (drop_bit 16 v) :: u8)) OR push_bit 24 (ucast (ucast (drop_bit 24 v) :: u8))) n"
    using n by (auto simp: bit_or_iff bit_push_bit_iff bit_ucast_iff bit_drop_bit_eq)
qed

lemma write_le16_read:
  assumes "write_le16 buf off v = Some b"
  shows "le16 b off = Some v" and "length b = length buf"
    and "o2 + 1 < off \<or> off + 1 < o2 \<Longrightarrow> le16 b o2 = le16 buf o2"
  using assms le16_bits [of v, symmetric]
  by (auto simp: write_le16_def le16_def byte_at_def Let_def split: if_splits bind_splits)

lemma write_le32_read:
  assumes "write_le32 buf off v = Some b"
  shows "le32 b off = Some v" and "length b = length buf"
    and "o2 + 3 < off \<or> off + 3 < o2 \<Longrightarrow> le32 b o2 = le32 buf o2"
  using assms le32_bits [of v, symmetric]
  by (auto simp: write_le32_def le32_def byte_at_def Let_def split: if_splits bind_splits)

lemma scaled_apart:
  fixes a b :: nat
  assumes "w * a div (w * m) = w * b div (w * m)" and "a \<noteq> b" and "0 < w"
  shows "w * a mod (w * m) + w \<le> w * b mod (w * m) \<or> w * b mod (w * m) + w \<le> w * a mod (w * m)"
proof -
  have "a div m = b div m" using assms(1,3) by simp
  then have "a mod m \<noteq> b mod m" using assms(2) by (metis div_mult_mod_eq)
  then have "Suc (a mod m) \<le> b mod m \<or> Suc (b mod m) \<le> a mod m" by linarith
  then have "w * Suc (a mod m) \<le> w * (b mod m) \<or> w * Suc (b mod m) \<le> w * (a mod m)"
    using mult_le_mono2 by blast
  then show ?thesis by (simp add: mult_mod_right [symmetric] add.commute)
qed

definition entry_width :: "Bpb \<Rightarrow> nat" where
  "entry_width bpb = (if fat_type bpb = Fat32 then 4 else 2)"

text \<open>The entry as it stands in its sector.\<close>

definition entry_in :: "Bpb \<Rightarrow> u32 \<Rightarrow> bytes \<Rightarrow> u32 option" where
  "entry_in bpb c buf =
     (if fat_type bpb = Fat32 then map_option (\<lambda>v. v AND 0x0FFFFFFF) (le32 buf (entry_byte bpb c))
      else map_option ucast (le16 buf (entry_byte bpb c)))"

lemma entry_off_width: "fat_type bpb \<noteq> Fat12 \<Longrightarrow> entry_off bpb c = entry_width bpb * unat c"
  by (cases "fat_type bpb") (simp_all add: entry_off_def entry_width_def)

lemma fat_read_entry_in:
  "fat_type bpb \<noteq> Fat12 \<Longrightarrow> fat_read_entry bpb c d =
    (if rd_ok d (entry_sector bpb c) then entry_in bpb c (sector d (entry_sector bpb c)) else Some (fat_eoc bpb))"
  by (cases "fat_type bpb")
    (auto simp: fat_read_entry_def read_bpb_sector_def entry_in_def split: option.splits bind_splits)

lemma entry_room:
  assumes "fat_type bpb \<noteq> Fat12" and "bytes_per_sector bpb = 512"
  shows "entry_byte bpb c + entry_width bpb \<le> 512"
proof -
  have "entry_byte bpb c = entry_width bpb * (unat c mod (512 div entry_width bpb))"
    using assms by (auto simp: entry_byte_def entry_off_width entry_width_def mult_mod_right)
  moreover have "unat c mod (512 div entry_width bpb) + 1 \<le> 512 div entry_width bpb"
    by (simp add: entry_width_def Suc_leI)
  ultimately show ?thesis by (auto simp: entry_width_def split: if_splits)
qed

lemma entries_apart:
  assumes "fat_type bpb \<noteq> Fat12" and "bytes_per_sector bpb = 512" and "entry_sector bpb c = entry_sector bpb cl" and "c \<noteq> cl"
  shows "entry_byte bpb c + entry_width bpb \<le> entry_byte bpb cl \<or> entry_byte bpb cl + entry_width bpb \<le> entry_byte bpb c"
proof -
  have "unat c \<noteq> unat cl" using assms(4) by (simp add: word_unat_eq_iff)
  moreover have "entry_width bpb * (512 div entry_width bpb) = 512" by (simp add: entry_width_def)
  ultimately show ?thesis
    using scaled_apart [of "entry_width bpb" "unat c" "512 div entry_width bpb" "unat cl"] assms(1-3)
    by (simp add: entry_sector_def entry_byte_def entry_off_width entry_width_def split: if_splits)
qed

lemma le_defined:
  "off + 2 \<le> length b \<Longrightarrow> \<exists>v. le16 b off = Some v"
  by (simp add: le16_def byte_at_def)

lemma new_entry_spec:
  assumes "fat_type bpb \<noteq> Fat12" and "bytes_per_sector bpb = 512" and "length buf = 512"
  obtains b where "new_entry bpb cl v buf = Some b" and "length b = 512"
    and "entry_in bpb cl b = Some (v AND fat_mask bpb)"
    and "\<And>c. entry_sector bpb c = entry_sector bpb cl \<Longrightarrow> c \<noteq> cl \<Longrightarrow> entry_in bpb c b = entry_in bpb c buf"
proof (cases "fat_type bpb = Fat32")
  case True
  have room: "entry_byte bpb cl + 3 < length buf" using entry_room [OF assms(1,2), of cl] True assms(3) by (simp add: entry_width_def)
  then obtain old where old: "le32 buf (entry_byte bpb cl) = Some old" using le32_total [of "entry_byte bpb cl" buf] by auto
  let ?nv = "(old AND 0xF0000000) OR (v AND 0x0FFFFFFF)"
  obtain b where b: "write_le32 buf (entry_byte bpb cl) ?nv = Some b" using room by (simp add: write_le32_def)
  have "?nv AND 0x0FFFFFFF = v AND 0x0FFFFFFF"
    by (simp add: word_bw_assocs bit.conj_disj_distrib2)
  then show ?thesis
    using that [of b] b old write_le32_read [OF b] True assms(3) entries_apart [OF assms(1,2)]
    by (fastforce simp: new_entry_def entry_in_def fat_mask_def entry_width_def)
next
  case False
  then have t: "fat_type bpb = Fat16" using assms(1) by (cases "fat_type bpb") auto
  have room: "entry_byte bpb cl + 1 < length buf" using entry_room [OF assms(1,2), of cl] False assms(3) by (simp add: entry_width_def)
  obtain b where b: "write_le16 buf (entry_byte bpb cl) (ucast v) = Some b" using room by (simp add: write_le16_def)
  have "ucast (ucast v :: u16) = v AND 0xFFFF"
  proof (rule bit_word_eqI)
    fix n assume n: "n < LENGTH(32)"
    have m: "(0xFFFF :: u32) = mask 16" by (simp add: mask_eq_exp_minus_1)
    show "bit (ucast (ucast v :: u16) :: u32) n = bit (v AND 0xFFFF) n"
      unfolding m bit_and_iff bit_ucast_iff bit_mask_iff using n by auto
  qed
  then show ?thesis
    using that [of b] b write_le16_read [OF b] t assms(3) entries_apart [OF assms(1,2)]
    by (fastforce simp: new_entry_def entry_in_def fat_mask_def entry_width_def)
qed

lemma in_fat_sector:
  assumes "fat_ok bpb d" and "in_fat bpb c"
  shows "reserved_sectors bpb \<le> entry_sector bpb c" and "entry_sector bpb c < reserved_sectors bpb + fat_sectors bpb"
    and "rd_ok d (entry_sector bpb c)" and "wr_ok d (entry_sector bpb c)" and "entry_sector bpb c \<in> copy_area bpb"
    and "num_fats bpb > 1 \<Longrightarrow> entry_sector bpb c + fat_sectors bpb \<in> copy_area bpb"
proof -
  have "entry_off bpb c div 512 < fat_sectors bpb" using assms(2) by (simp add: in_fat_def less_mult_imp_div_less)
  then show r: "reserved_sectors bpb \<le> entry_sector bpb c" "entry_sector bpb c < reserved_sectors bpb + fat_sectors bpb"
    using assms(1) by (simp_all add: entry_sector_def fat_ok_def)
  then show "rd_ok d (entry_sector bpb c)" "wr_ok d (entry_sector bpb c)" using assms(1) by (simp_all add: fat_ok_def)
  from r show "entry_sector bpb c \<in> copy_area bpb" "num_fats bpb > 1 \<Longrightarrow> entry_sector bpb c + fat_sectors bpb \<in> copy_area bpb"
    by (simp_all add: copy_area_def)
qed

text \<open>What one write to the table may change.\<close>

definition fat_keeps :: "Bpb \<Rightarrow> u32 set \<Rightarrow> disk \<Rightarrow> disk \<Rightarrow> bool" where
  "fat_keeps bpb C d d' \<longleftrightarrow> fat_ok bpb d' \<and> rd_ok d' = rd_ok d \<and> wr_ok d' = wr_ok d \<and>
     (\<forall>c. in_fat bpb c \<and> c \<notin> C \<longrightarrow> fat_read_entry bpb c d' = fat_read_entry bpb c d) \<and>
     (\<forall>l. l \<notin> copy_area bpb \<longrightarrow> sector d' l = sector d l)"

lemma fat_keepsD:
  assumes "fat_keeps bpb C d d'"
  shows "fat_ok bpb d'" and "rd_ok d' = rd_ok d" and "wr_ok d' = wr_ok d"
    and "in_fat bpb c \<Longrightarrow> c \<notin> C \<Longrightarrow> fat_read_entry bpb c d' = fat_read_entry bpb c d"
    and "l \<notin> copy_area bpb \<Longrightarrow> sector d' l = sector d l"
  using assms by (simp_all add: fat_keeps_def)

lemma fat_keeps_refl: "fat_ok bpb d \<Longrightarrow> fat_keeps bpb C d d"
  by (simp add: fat_keeps_def)

lemma fat_keeps_trans: "fat_keeps bpb C d d1 \<Longrightarrow> fat_keeps bpb D d1 d2 \<Longrightarrow> fat_keeps bpb (C \<union> D) d d2"
  by (simp add: fat_keeps_def)

lemma fat_write_entry_spec:
  assumes ok: "fat_ok bpb d" and cl: "in_fat bpb cl"
  obtains d' where "fat_write_entry bpb cl v d = Some (True, d')" and "fat_keeps bpb {cl} d d'"
    and "fat_read_entry bpb cl d' = Some (v AND fat_mask bpb)"
proof -
  let ?s = "entry_sector bpb cl"
  note S = in_fat_sector [OF ok cl]
  have t: "fat_type bpb \<noteq> Fat12" "bytes_per_sector bpb = 512" "length (sector d ?s) = 512"
    using ok by (simp_all add: fat_ok_def sectors_ok_def)
  obtain b where b: "new_entry bpb cl v (sector d ?s) = Some b" "length b = 512" "entry_in bpb cl b = Some (v AND fat_mask bpb)"
    "\<And>c. entry_sector bpb c = ?s \<Longrightarrow> c \<noteq> cl \<Longrightarrow> entry_in bpb c b = entry_in bpb c (sector d ?s)"
    using new_entry_spec [OF t, of cl v] by blast
  define d1 where "d1 = d\<lparr>sector := (sector d)(?s := b)\<rparr>"
  define d2 where "d2 = (if num_fats bpb > 1 then snd (write_bpb_sector (?s + fat_sectors bpb) b d1) else d1)"
  have run: "fat_write_entry bpb cl v d = Some (True, d2)"
    using S b(1) by (simp add: fat_write_entry_def read_bpb_sector_def write_bpb_sector_def d1_def d2_def)
  have flags: "rd_ok d2 = rd_ok d" "wr_ok d2 = wr_ok d" by (simp_all add: d2_def d1_def write_bpb_sector_def)
  have sec: "sector d2 l = (if l = ?s then b else sector d l)" if "l < reserved_sectors bpb + fat_sectors bpb \<or> l \<notin> copy_area bpb" for l
    using that S by (auto simp: d2_def d1_def write_bpb_sector_def)
  have "sectors_ok d2" using ok b(2) by (auto simp: d2_def d1_def write_bpb_sector_def sectors_ok_def fat_ok_def)
  then have ok2: "fat_ok bpb d2" using ok flags by (simp add: fat_ok_def)
  have "fat_read_entry bpb c d2 = (if c = cl then Some (v AND fat_mask bpb) else fat_read_entry bpb c d)" if "in_fat bpb c" for c
    using in_fat_sector [OF ok that] b(3,4) sec [of "entry_sector bpb c"] flags by (auto simp: fat_read_entry_in [OF t(1)])
  then have "fat_keeps bpb {cl} d d2" "fat_read_entry bpb cl d2 = Some (v AND fat_mask bpb)"
    using ok2 flags sec S(5) cl by (auto simp: fat_keeps_def)
  with run show ?thesis by (rule that)
qed

lemma fat_read_total:
  assumes "fat_ok bpb d" and "in_fat bpb c"
  obtains v where "fat_read_entry bpb c d = Some v" and "v AND fat_mask bpb = v"
proof -
  have t: "fat_type bpb \<noteq> Fat12" "bytes_per_sector bpb = 512" "length (sector d (entry_sector bpb c)) = 512"
    using assms(1) by (simp_all add: fat_ok_def sectors_ok_def)
  have "entry_byte bpb c + entry_width bpb \<le> 512" by (rule entry_room [OF t(1,2)])
  then obtain v where v: "entry_in bpb c (sector d (entry_sector bpb c)) = Some v"
    using le32_total [of "entry_byte bpb c" "sector d (entry_sector bpb c)"] le_defined [of "entry_byte bpb c" "sector d (entry_sector bpb c)"] t(3)
    by (cases "fat_type bpb = Fat32") (auto simp: entry_in_def entry_width_def)
  have "ucast x AND 0xFFFF = (ucast x :: u32)" for x :: u16
  proof (rule bit_word_eqI)
    fix n assume n: "n < LENGTH(32)"
    have m: "(0xFFFF :: u32) = mask 16" by (simp add: mask_eq_exp_minus_1)
    show "bit ((ucast x :: u32) AND 0xFFFF) n = bit (ucast x :: u32) n"
      unfolding m bit_and_iff bit_ucast_iff bit_mask_iff using n bit_imp_le_length [of x n] by auto
  qed
  then have "v AND fat_mask bpb = v" using v by (auto simp: entry_in_def fat_mask_def word_bw_assocs split: if_splits)
  with v show ?thesis using that in_fat_sector [OF assms] by (simp add: fat_read_entry_in [OF t(1)])
qed

section \<open>Free clusters\<close>

lemma in_fat_mono: "in_fat bpb f \<Longrightarrow> c \<le> f \<Longrightarrow> fat_type bpb \<noteq> Fat12 \<Longrightarrow> in_fat bpb c"
  unfolding in_fat_def entry_off_width word_le_nat_alt
  by (meson mult_le_mono2 order_le_less_trans)

lemma alloc_loop_first:
  assumes ok: "fat_ok bpb d" and f: "in_fat bpb f" "fat_read_entry bpb f d = Some 0" "unat f < mx"
    and "n \<le> unat f" and "2 \<le> n" and "\<And>c. 2 \<le> c \<Longrightarrow> unat c < n \<Longrightarrow> fat_read_entry bpb c d \<noteq> Some 0"
  shows "\<exists>c. alloc_loop bpb d n mx = Some c \<and> 2 \<le> c \<and> c \<le> f \<and> fat_read_entry bpb c d = Some 0 \<and>
    (\<forall>b. 2 \<le> b \<and> b < c \<longrightarrow> fat_read_entry bpb b d \<noteq> Some 0)"
  using assms(5-7)
proof (induction "unat f - n" arbitrary: n rule: less_induct)
  case less
  have "unat f < 2 ^ 32" using unsigned_less [of f] by simp
  then have nn: "unat (of_nat n :: u32) = n" using less.prems(1) by (simp add: unsigned_of_nat take_bit_nat_eq_self)
  have le: "(of_nat n :: u32) \<le> f" "2 \<le> (of_nat n :: u32)" using less.prems(1,2) nn by (simp_all add: word_le_nat_alt)
  obtain v where v: "fat_read_entry bpb (of_nat n) d = Some v"
    using fat_read_total [OF ok in_fat_mono [OF f(1) le(1)]] ok by (auto simp: fat_ok_def)
  show ?case
  proof (cases "v = 0")
    case True
    have "fat_read_entry bpb b d \<noteq> Some 0" if "2 \<le> b" "b < of_nat n" for b
      using less.prems(3) [OF that(1)] that(2) nn by (simp add: word_less_nat_alt)
    then show ?thesis using True v f(3) less.prems(1) le by (subst alloc_loop.simps) auto
  next
    case False
    then have ne: "n \<noteq> unat f" using v f(2) by auto
    have "fat_read_entry bpb c d \<noteq> Some 0" if "2 \<le> c" "unat c < n + 1" for c
    proof (cases "unat c = n")
      case True
      then have "c = of_nat n" using nn by (simp add: word_unat_eq_iff)
      then show ?thesis using v False by simp
    next
      case f: False
      then have "unat c < n" using that(2) by simp
      then show ?thesis using less.prems(3) [OF that(1)] by blast
    qed
    then have "\<exists>c. alloc_loop bpb d (n + 1) mx = Some c \<and> 2 \<le> c \<and> c \<le> f \<and> fat_read_entry bpb c d = Some 0 \<and>
      (\<forall>b. 2 \<le> b \<and> b < c \<longrightarrow> fat_read_entry bpb b d \<noteq> Some 0)"
      using less.hyps [of "n + 1"] less.prems(1,2) ne by simp
    moreover have "alloc_loop bpb d n mx = alloc_loop bpb d (n + 1) mx"
      using False v f(3) less.prems(1) by (subst alloc_loop.simps) simp
    ultimately show ?thesis by simp
  qed
qed

lemma alloc_cluster_first:
  assumes "fat_ok bpb d" and "in_fat bpb f" and "2 \<le> f" and "unat f < max_cluster bpb" and "fat_read_entry bpb f d = Some 0"
  obtains c where "alloc_cluster bpb d = Some c" and "2 \<le> c" and "c \<le> f" and "fat_read_entry bpb c d = Some 0"
    and "\<And>b. 2 \<le> b \<Longrightarrow> b < c \<Longrightarrow> fat_read_entry bpb b d \<noteq> Some 0"
proof -
  have "2 \<le> unat f" using assms(3) by (simp add: word_le_nat_alt)
  from alloc_loop_first [OF assms(1,2,5,4) this] show ?thesis
    using that unfolding alloc_cluster_def by (auto simp: word_le_nat_alt)
qed

section \<open>Chains\<close>

text \<open>The clusters from \<open>c\<close> to an end mark.\<close>

primrec chain :: "Bpb \<Rightarrow> disk \<Rightarrow> u32 \<Rightarrow> u32 list \<Rightarrow> bool" where
  "chain bpb d c [] \<longleftrightarrow> fat_is_eoc bpb c"
| "chain bpb d c (x # xs) \<longleftrightarrow> c = x \<and> \<not> fat_is_eoc bpb x \<and> 2 \<le> x \<and> in_fat bpb x \<and>
     (case fat_read_entry bpb x d of None \<Rightarrow> False | Some n \<Rightarrow> chain bpb d n xs)"

lemma chain_unique: "chain bpb d c xs \<Longrightarrow> chain bpb d c ys \<Longrightarrow> xs = ys"
proof (induction xs arbitrary: c ys)
  case (Cons x xs)
  then show ?case by (cases ys) (auto split: option.splits)
next
  case (Nil c ys)
  then show ?case by (cases ys) auto
qed

lemma chain_append:
  "chain bpb d c (xs @ y # ys) \<Longrightarrow> chain bpb d y (y # ys)"
proof (induction xs arbitrary: c)
  case (Cons x xs)
  then obtain n where "chain bpb d n (xs @ y # ys)" by (auto split: option.splits)
  then show ?case by (rule Cons.IH)
qed auto

lemma chain_distinct: "chain bpb d c xs \<Longrightarrow> distinct xs"
proof (induction xs arbitrary: c)
  case (Cons x xs)
  obtain n where n: "chain bpb d n xs" using Cons.prems by (auto split: option.splits)
  have "x \<notin> set xs"
  proof
    assume "x \<in> set xs"
    then obtain as bs where xs: "xs = as @ x # bs" by (meson split_list)
    have "chain bpb d x (x # xs)" using Cons.prems by auto
    moreover have "chain bpb d x (x # bs)" using n unfolding xs by (rule chain_append)
    ultimately have "xs = bs" using chain_unique by blast
    then show False using xs by (metis append_Cons append_eq_append_conv2 list.distinct(1) self_append_conv2 append_self_conv2 length_append length_Cons not_add_less2 less_add_Suc2 add.commute lessI)
  qed
  then show ?case using Cons.IH [OF n] by simp
qed simp

lemma chain_frame:
  "(\<And>x. x \<in> set xs \<Longrightarrow> fat_read_entry bpb x d' = fat_read_entry bpb x d) \<Longrightarrow> chain bpb d' c xs = chain bpb d c xs"
  by (induction xs arbitrary: c) (auto split: option.splits)

lemma chain_in_fat: "chain bpb d c xs \<Longrightarrow> x \<in> set xs \<Longrightarrow> in_fat bpb x \<and> 2 \<le> x \<and> \<not> fat_is_eoc bpb x"
  by (induction xs arbitrary: c) (auto split: option.splits)

lemma free_loop_chain:
  assumes "fat_ok bpb d" and "chain bpb d c xs" and "length xs \<le> n"
  shows "\<exists>d'. free_loop n bpb c d = Some d' \<and> fat_keeps bpb (set xs) d d' \<and> (\<forall>x\<in>set xs. fat_read_entry bpb x d' = Some 0)"
  using assms
proof (induction xs arbitrary: n c d)
  case Nil
  then show ?case by (cases n) (auto simp: fat_keeps_refl)
next
  case (Cons x xs)
  then obtain m where n: "n = Suc m" "length xs \<le> m" by (cases n) auto
  obtain nx where nx: "fat_read_entry bpb x d = Some nx" "chain bpb d nx xs" "c = x" "in_fat bpb x" "2 \<le> x" "\<not> fat_is_eoc bpb x"
    using Cons.prems(2) by (auto split: option.splits)
  have dx: "x \<notin> set xs" using chain_distinct [OF Cons.prems(2)] by simp
  obtain d1 where d1: "fat_write_entry bpb x 0 d = Some (True, d1)" "fat_keeps bpb {x} d d1" "fat_read_entry bpb x d1 = Some 0"
    using fat_write_entry_spec [OF Cons.prems(1) nx(4), of 0] by auto
  have "chain bpb d1 nx xs"
    using nx(2) chain_frame [of xs bpb d1 d nx] fat_keepsD(4) [OF d1(2)] chain_in_fat [OF nx(2)] dx by auto
  then obtain d2 where d2: "free_loop m bpb nx d1 = Some d2" "fat_keeps bpb (set xs) d1 d2" "\<forall>y\<in>set xs. fat_read_entry bpb y d2 = Some 0"
    using Cons.IH [OF fat_keepsD(1) [OF d1(2)] _ n(2)] by blast
  have "fat_read_entry bpb x d2 = Some 0" using fat_keepsD(4) [OF d2(2) nx(4) dx] d1(3) by simp
  moreover have "\<not> x < 2" using nx(5) by simp
  ultimately show ?case using d2 d1 nx n(1) fat_keeps_trans [OF d1(2) d2(2)] by auto
qed

section \<open>Reading a file\<close>

definition cluster_sector :: "Bpb \<Rightarrow> u32 \<Rightarrow> nat \<Rightarrow> nat" where
  "cluster_sector bpb cl s = (cluster_to_lba bpb cl + s) mod 2 ^ 64"

definition cluster_bytes :: "Bpb \<Rightarrow> disk \<Rightarrow> u32 \<Rightarrow> bytes" where
  "cluster_bytes bpb d cl = concat (map (\<lambda>s. sector d (cluster_sector bpb cl s)) [0..<sectors_per_cluster bpb])"

text \<open>The content of a file: the clusters of its chain.\<close>

definition file_bytes :: "Bpb \<Rightarrow> disk \<Rightarrow> u32 list \<Rightarrow> bytes" where
  "file_bytes bpb d xs = concat (map (cluster_bytes bpb d) xs)"

definition data_readable :: "Bpb \<Rightarrow> disk \<Rightarrow> u32 list \<Rightarrow> bool" where
  "data_readable bpb d xs \<longleftrightarrow> (\<forall>x\<in>set xs. \<forall>s. s < sectors_per_cluster bpb \<longrightarrow> rd_ok d (cluster_sector bpb x s))"

lemma length_sectors: "sectors_ok d \<Longrightarrow> length (concat (map (\<lambda>s. sector d (f s)) [i..<i + n])) = n * 512"
  by (induction n) (simp_all add: sectors_ok_def)

lemma length_cluster_bytes: "sectors_ok d \<Longrightarrow> length (cluster_bytes bpb d cl) = sectors_per_cluster bpb * 512"
  using length_sectors [of d "cluster_sector bpb cl" 0 "sectors_per_cluster bpb"] by (simp add: cluster_bytes_def)

lemma length_file_bytes: "sectors_ok d \<Longrightarrow> length (file_bytes bpb d xs) = length xs * (sectors_per_cluster bpb * 512)"
  by (induction xs) (simp_all add: file_bytes_def length_cluster_bytes)

lemma file_bytes_simps:
  "file_bytes bpb d [] = []" "file_bytes bpb d (x # xs) = cluster_bytes bpb d x @ file_bytes bpb d xs"
  "file_bytes bpb d (xs @ ys) = file_bytes bpb d xs @ file_bytes bpb d ys"
  by (simp_all add: file_bytes_def)

lemma cluster_bytes_sector:
  assumes "sectors_ok d" and "s < sectors_per_cluster bpb"
  shows "take 512 (drop (s * 512) (cluster_bytes bpb d cl)) = sector d (cluster_sector bpb cl s)"
proof -
  have "[0..<sectors_per_cluster bpb] = [0..<0 + s] @ s # [Suc s..<sectors_per_cluster bpb]"
    using assms(2) upt_add_eq_append [of 0 s "sectors_per_cluster bpb - s"] by (simp add: upt_conv_Cons)
  moreover have "length (sector d (cluster_sector bpb cl s)) = 512" using assms(1) by (simp add: sectors_ok_def)
  ultimately show ?thesis
    using length_sectors [OF assms(1), of "cluster_sector bpb cl" 0 s] by (simp add: cluster_bytes_def)
qed

text \<open>How far the loop over the sectors of a cluster has come when it reaches sector \<open>s\<close>.\<close>

definition reached :: "nat \<Rightarrow> nat \<Rightarrow> nat \<Rightarrow> nat" where
  "reached intra lst s = min lst (max (s * 512) intra)"

lemma reached_step:
  assumes "s < (lst + 511) div 512" and "intra div 512 \<le> s" and "intra < lst" and "k \<ge> lst - reached intra lst s"
    and "k = lst - reached intra lst s \<or> lst mod 512 = 0"
  defines "st \<equiv> (if s = intra div 512 then intra mod 512 else 0)"
  shows "min (min (lst - s * 512) (512 - st)) k = reached intra lst (s + 1) - reached intra lst s"
    and "reached intra lst s = s * 512 + st" and "reached intra lst s < reached intra lst (s + 1)"
    and "reached intra lst (s + 1) \<le> s * 512 + 512" and "reached intra lst (s + 1) \<le> lst"
proof -
  have s: "s * 512 < lst" using assms(1) by linarith
  have st: "max (s * 512) intra = s * 512 + st" and st2: "st < 512"
  proof -
    show "max (s * 512) intra = s * 512 + st"
    proof (cases "s = intra div 512")
      case True
      then show ?thesis using div_mult_mod_eq [of intra 512] by (simp add: st_def)
    next
      case False
      then have "intra div 512 < s" using assms(2) by simp
      then show ?thesis using False by (simp add: st_def)
    qed
    show "st < 512" by (simp add: st_def)
  qed
  then show r: "reached intra lst s = s * 512 + st" using s assms(3) by (simp add: reached_def min_def max_def split: if_splits)
  have lt: "s * 512 + st < lst" using s st assms(3) by (simp add: max_def split: if_splits)
  have r1: "reached intra lst (s + 1) = min lst (s * 512 + 512)" using st st2 by (simp add: reached_def max_def split: if_splits)
  show "reached intra lst s < reached intra lst (s + 1)" "reached intra lst (s + 1) \<le> s * 512 + 512" "reached intra lst (s + 1) \<le> lst"
    using r r1 lt st2 by simp_all
  have "s * 512 + 512 \<le> lst" if "lst mod 512 = 0"
  proof -
    have "lst div 512 * 512 = lst" using that div_mult_mod_eq [of lst 512] by simp
    moreover from this s have "s * 512 < lst div 512 * 512" by simp
    then have "Suc s * 512 \<le> lst div 512 * 512" by (intro mult_le_mono1) simp
    ultimately show ?thesis by simp
  qed
  then show "min (min (lst - s * 512) (512 - st)) k = reached intra lst (s + 1) - reached intra lst s"
    using assms(4,5) lt st2 unfolding r r1 by (auto simp: min_def)
qed

lemma reached_ends: "intra < lst \<Longrightarrow> reached intra lst (intra div 512) = intra" "intra < lst \<Longrightarrow> (lst + 511) div 512 \<le> s \<Longrightarrow> reached intra lst s = lst"
proof -
  show "intra < lst \<Longrightarrow> reached intra lst (intra div 512) = intra" by (simp add: reached_def max_def)
  assume a: "intra < lst" "(lst + 511) div 512 \<le> s"
  then have "lst \<le> s * 512" by linarith
  then show "reached intra lst s = lst" by (simp add: reached_def)
qed

lemma read_sectors_step:
  assumes "bytes_per_sector bpb = 512" and "rd_ok d ((lba + s) mod 2 ^ 64)"
    and "tk = min (min (lst - s * 512) (512 - (if s = intra div 512 then intra mod 512 else 0))) (len - length out)" and "0 < tk"
    and "(if s = intra div 512 then intra mod 512 else 0) + tk \<le> length (sector d ((lba + s) mod 2 ^ 64))"
  shows "read_sectors bpb d lba intra lst len (s # rest) out =
    (let out1 = out @ take tk (drop (if s = intra div 512 then intra mod 512 else 0) (sector d ((lba + s) mod 2 ^ 64)))
     in if length out1 \<ge> len then Some (Inr out1) else read_sectors bpb d lba intra lst len rest out1)"
proof -
  have r: "read_bpb_sector ((lba + s) mod 2 ^ 64) d = Some (sector d ((lba + s) mod 2 ^ 64))"
    using assms(2) by (simp add: read_bpb_sector_def)
  show ?thesis
    unfolding read_sectors.simps Let_def assms(1) r option.case assms(3) [symmetric]
    using assms(4,5) by simp
qed

lemma read_sectors_cluster:
  assumes ok: "sectors_ok d" "bytes_per_sector bpb = 512" and rd: "\<And>s. s < sectors_per_cluster bpb \<Longrightarrow> rd_ok d (cluster_sector bpb cl s)"
    and intra: "intra < lst" "lst \<le> sectors_per_cluster bpb * 512" and len: "lst - intra \<le> len - length out0" "length out0 < len"
    and full: "lst - intra = len - length out0 \<or> lst mod 512 = 0"
    and s: "intra div 512 \<le> s" "s \<le> (lst + 511) div 512"
  shows "read_sectors bpb d (cluster_to_lba bpb cl) intra lst len [s..<(lst + 511) div 512]
      (out0 @ take (reached intra lst s - intra) (drop intra (cluster_bytes bpb d cl))) =
    Some (Inr (out0 @ take (lst - intra) (drop intra (cluster_bytes bpb d cl))))"
  using s
proof (induction "(lst + 511) div 512 - s" arbitrary: s)
  case 0
  then show ?case using reached_ends(2) [OF intra(1), of s] by simp
next
  case (Suc n)
  let ?C = "cluster_bytes bpb d cl"
  let ?out = "out0 @ take (reached intra lst s - intra) (drop intra ?C)"
  define st where "st = (if s = intra div 512 then intra mod 512 else 0)"
  have lC: "length ?C = sectors_per_cluster bpb * 512" by (rule length_cluster_bytes [OF ok(1)])
  have slt: "s < (lst + 511) div 512" using Suc.hyps(2) by simp
  have ri: "intra \<le> reached intra lst s" "reached intra lst s \<le> lst" using intra(1) by (auto simp: reached_def)
  have lo: "length ?out = length out0 + (reached intra lst s - intra)" using ri intra(2) lC by simp
  have k: "lst - reached intra lst s \<le> len - length ?out" "len - length ?out = lst - reached intra lst s \<or> lst mod 512 = 0"
    using lo len full ri by linarith+
  note R = reached_step [OF slt Suc.prems(1) intra(1) k, folded st_def]
  define tk where "tk = reached intra lst (s + 1) - reached intra lst s"
  have ss: "s < sectors_per_cluster bpb" using slt intra(2) by linarith
  have sec: "sector d ((cluster_to_lba bpb cl + s) mod 2 ^ 64) = take 512 (drop (s * 512) ?C)"
    using cluster_bytes_sector [OF ok(1) ss, of cl] by (simp add: cluster_sector_def)
  have rdk: "rd_ok d ((cluster_to_lba bpb cl + s) mod 2 ^ 64)" using rd [OF ss] by (simp add: cluster_sector_def)
  have stk: "st + tk \<le> 512" using R(2-4) by (simp add: tk_def)
  have "take tk (drop st (take 512 (drop (s * 512) ?C))) = take tk (drop (reached intra lst s) ?C)"
    using stk R(2) by (simp add: drop_take min_def add.commute)
  moreover have "take (reached intra lst s - intra) (drop intra ?C) @ take tk (drop (reached intra lst s) ?C) =
      take (reached intra lst (s + 1) - intra) (drop intra ?C)"
    using take_add [of "reached intra lst s - intra" tk "drop intra ?C"] ri R(3) by (simp add: tk_def)
  ultimately have o1: "?out @ take tk (drop (if s = intra div 512 then intra mod 512 else 0) (sector d ((cluster_to_lba bpb cl + s) mod 2 ^ 64))) =
      out0 @ take (reached intra lst (s + 1) - intra) (drop intra ?C)"
    using sec unfolding st_def by simp
  have lsec: "length (sector d ((cluster_to_lba bpb cl + s) mod 2 ^ 64)) = 512" using ok(1) by (simp add: sectors_ok_def)
  have tk: "min (min (lst - s * 512) (512 - (if s = intra div 512 then intra mod 512 else 0))) (len - length ?out) = tk"
    using R(1) unfolding st_def tk_def .
  have tk0: "0 < tk" using R(3) by (simp add: tk_def)
  have stk': "(if s = intra div 512 then intra mod 512 else 0) + tk \<le> length (sector d ((cluster_to_lba bpb cl + s) mod 2 ^ 64))"
    using stk lsec unfolding st_def by simp
  have up: "[s..<(lst + 511) div 512] = s # [Suc s..<(lst + 511) div 512]" using slt by (simp add: upt_conv_Cons)
  have "read_sectors bpb d (cluster_to_lba bpb cl) intra lst len [s..<(lst + 511) div 512] ?out =
      (let out1 = out0 @ take (reached intra lst (s + 1) - intra) (drop intra ?C)
       in if length out1 \<ge> len then Some (Inr out1) else read_sectors bpb d (cluster_to_lba bpb cl) intra lst len [Suc s..<(lst + 511) div 512] out1)"
    unfolding up read_sectors_step [OF ok(2) rdk tk [symmetric] tk0 stk'] o1 ..
  moreover have "reached intra lst (s + 1) = lst" if "len \<le> length (out0 @ take (reached intra lst (s + 1) - intra) (drop intra ?C))"
  proof -
    have "len \<le> length out0 + (reached intra lst (s + 1) - intra)" using that R(5) intra(2) lC by simp
    then show ?thesis using len R(5) by linarith
  qed
  ultimately show ?case using Suc.hyps(1) [of "s + 1"] Suc.hyps(2) Suc.prems(1) slt by (auto simp: Let_def)
qed

lemma read_loop_chain:
  assumes "sectors_ok d" and "bytes_per_sector bpb = 512" and "chain bpb d c xs" and "data_readable bpb d xs"
    and "length xs \<le> n" and "intra < sectors_per_cluster bpb * 512"
  shows "read_loop n bpb d len c intra out = Some (out @ take (len - length out) (drop intra (file_bytes bpb d xs)))"
  using assms(3-)
proof (induction xs arbitrary: n c intra out)
  case Nil
  then show ?case by (cases n) (simp_all add: file_bytes_simps)
next
  case (Cons x xs)
  let ?csz = "sectors_per_cluster bpb * 512" and ?C = "cluster_bytes bpb d x"
  obtain m where m: "n = Suc m" "length xs \<le> m" using Cons.prems(3) by (cases n) auto
  obtain nx where nx: "fat_read_entry bpb x d = Some nx" "chain bpb d nx xs" "c = x" "2 \<le> x" "\<not> fat_is_eoc bpb x"
    using Cons.prems(1) by (auto split: option.splits)
  show ?case
  proof (cases "len \<le> length out")
    case False
    define want where "want = min (len - length out) (?csz - intra)"
    have w: "0 < want" "intra + want \<le> ?csz" "want \<le> len - length out" "want = len - length out \<or> want = ?csz - intra"
      using False Cons.prems(4) by (auto simp: want_def min_def)
    have dr: "rd_ok d (cluster_sector bpb x s)" if "s < sectors_per_cluster bpb" for s
      using Cons.prems(2) that by (simp add: data_readable_def)
    have lC: "length ?C = ?csz" by (rule length_cluster_bytes [OF assms(1)])
    have full: "intra + want - intra = len - length out \<or> (intra + want) mod 512 = 0"
      using w(4) Cons.prems(4) by auto
    have sec: "read_sectors bpb d (cluster_to_lba bpb x) intra (intra + want) len [intra div 512..<(intra + want + 511) div 512] out =
        Some (Inr (out @ take want (drop intra ?C)))"
      using read_sectors_cluster [OF assms(1,2) dr _ w(2) _ _ full, of "intra div 512"] w(1,3) False
      by (simp add: reached_ends div_le_mono)
    have e: "\<not> (len \<le> length out \<or> fat_is_eoc bpb x \<or> x < 2)" using False nx(3-5) by (simp add: not_less)
    have lo: "length (out @ take want (drop intra ?C)) = length out + want" using lC w(2) by simp
    have w': "min (len - length out) (512 * sectors_per_cluster bpb - intra) = want" by (simp add: want_def mult.commute)
    have ends: "intra + want + 512 - 1 = intra + want + 511" by simp
    have st: "read_loop n bpb d len c intra out =
        (if len \<le> length out + want then Some (out @ take want (drop intra ?C))
         else read_loop m bpb d len nx 0 (out @ take want (drop intra ?C)))"
      unfolding m(1) read_loop.simps Let_def assms(2) if_not_P [OF e] w' ends nx(3) sec
      using nx(1) lo by simp
    have b: "take (len - length out) (drop intra (?C @ file_bytes bpb d xs)) =
        take want (drop intra ?C) @ take (len - length out - want) (drop (intra + want) (?C @ file_bytes bpb d xs))"
    proof -
      let ?X = "drop intra (?C @ file_bytes bpb d xs)"
      have "take (len - length out) ?X = take want ?X @ take (len - length out - want) (drop want ?X)"
        unfolding take_add [symmetric] le_add_diff_inverse [OF w(3)] ..
      moreover have "take want ?X = take want (drop intra ?C)" using w(2) lC by simp
      moreover have "drop want ?X = drop (intra + want) (?C @ file_bytes bpb d xs)" by (simp only: drop_drop add.commute)
      ultimately show ?thesis by (simp only:)
    qed
    show ?thesis
    proof (cases "len \<le> length out + want")
      case True
      then show ?thesis using st b w(3) by (simp add: file_bytes_simps)
    next
      case F: False
      then have "intra + want = ?csz" using w(4) Cons.prems(4) by auto
      then have "drop (intra + want) (?C @ file_bytes bpb d xs) = file_bytes bpb d xs" using lC by simp
      moreover have "data_readable bpb d xs" "0 < ?csz" using Cons.prems(2,4) by (simp_all add: data_readable_def)
      ultimately show ?thesis using st F b Cons.IH [OF nx(2) _ m(2), of 0] lo by (simp add: file_bytes_simps)
    qed
  next
    case True
    then show ?thesis by (simp add: m(1))
  qed
qed

lemma chain_drop: "chain bpb d c xs \<Longrightarrow> k \<le> length xs \<Longrightarrow> \<exists>e. chain bpb d e (drop k xs)"
proof (induction k arbitrary: c xs)
  case (Suc k)
  then obtain x ys where "xs = x # ys" by (cases xs) auto
  with Suc show ?case by (fastforce split: option.splits)
qed auto

lemma skip_chain_drop:
  assumes "chain bpb d c xs" and "length xs + iter \<le> MAX_ITER"
  shows "if k \<le> length xs then \<exists>e. skip_chain k bpb d iter c = Some (Some e) \<and> chain bpb d e (drop k xs)
    else skip_chain k bpb d iter c = Some None"
  using assms
proof (induction k arbitrary: c xs iter)
  case (Suc k)
  show ?case
  proof (cases xs)
    case (Cons x ys)
    then obtain nx where nx: "fat_read_entry bpb x d = Some nx" "chain bpb d nx ys" "c = x" "2 \<le> x" "\<not> fat_is_eoc bpb x"
      using Suc.prems(1) by (auto split: option.splits)
    moreover have "\<not> x < 2" using nx(4) by simp
    ultimately show ?thesis using Suc.IH [OF nx(2), of "Suc iter"] Suc.prems(2) Cons by simp
  qed (use Suc.prems in auto)
qed auto

lemma read_chain_bytes:
  assumes "sectors_ok d" and "bytes_per_sector bpb = 512" and "0 < sectors_per_cluster bpb"
    and "chain bpb d c xs" and "data_readable bpb d xs" and "length xs \<le> MAX_ITER"
  shows "read_chain bpb d c off len = Some (take len (drop off (file_bytes bpb d xs)))"
proof (cases "len = 0 \<or> c < 2")
  case True
  have "xs = [] \<or> 2 \<le> c" using assms(4) by (cases xs) auto
  then show ?thesis using True by (auto simp: read_chain_def file_bytes_simps not_less [symmetric])
next
  case False
  let ?csz = "sectors_per_cluster bpb * 512" and ?k = "off div (sectors_per_cluster bpb * 512)"
  have lf: "length (file_bytes bpb d xs) = length xs * ?csz" by (rule length_file_bytes [OF assms(1)])
  have csz: "bytes_per_sector bpb * sectors_per_cluster bpb = ?csz" "0 < ?csz" using assms(2,3) by simp_all
  have rc: "read_chain bpb d c off len = do { e \<leftarrow> skip_chain ?k bpb d 0 c;
      case e of None \<Rightarrow> Some [] | Some cluster \<Rightarrow> read_loop MAX_ITER bpb d len cluster (off mod ?csz) [] }"
    unfolding read_chain_def Let_def csz(1) using False csz(2) by simp
  show ?thesis
  proof (cases "?k \<le> length xs")
    case True
    then obtain e where e: "skip_chain ?k bpb d 0 c = Some (Some e)" "chain bpb d e (drop ?k xs)"
      using skip_chain_drop [OF assms(4), of 0 ?k] assms(6) by auto
    have "data_readable bpb d (drop ?k xs)" using assms(5) set_drop_subset [of ?k xs] by (auto simp: data_readable_def)
    then have "read_chain bpb d c off len = Some (take len (drop (off mod ?csz) (file_bytes bpb d (drop ?k xs))))"
      using read_loop_chain [OF assms(1,2) e(2), of MAX_ITER "off mod ?csz" len "[]"] assms(6) csz(2) rc e(1) by simp
    moreover have "file_bytes bpb d (drop ?k xs) = drop (?k * ?csz) (file_bytes bpb d xs)"
      using file_bytes_simps(3) [of bpb d "take ?k xs" "drop ?k xs"] length_file_bytes [OF assms(1), of bpb "take ?k xs"] True by simp
    ultimately show ?thesis by (simp add: mod_div_mult_eq)
  next
    case F: False
    then have "length xs * ?csz \<le> off" using csz(2) by (metis div_less_iff_less_mult linorder_not_less nat_less_le)
    then show ?thesis using skip_chain_drop [OF assms(4), of 0 ?k] assms(6) F rc lf by simp
  qed
qed

section \<open>Names\<close>

lemma position_split:
  assumes "position (\<lambda>c. c = x) xs = Some i"
  shows "xs = take i xs @ x # drop (i + 1) xs" and "x \<notin> set (take i xs)" and "i < length xs"
proof -
  have p: "i < length xs" "xs ! i = x" "\<forall>j<i. xs ! j \<noteq> x" using position_SomeD [OF assms] by auto
  then show "xs = take i xs @ x # drop (i + 1) xs" using id_take_nth_drop [of i xs] by simp
  show "x \<notin> set (take i xs)" using p by (auto simp: in_set_conv_nth)
  show "i < length xs" by (rule p(1))
qed

lemma splice_front: "length w \<le> n \<Longrightarrow> splice_at (replicate n x) 0 w = w @ replicate (n - length w) x"
  by (simp add: splice_at_def)

lemma name_to_83_layout:
  assumes "name_to_83 n = Some e"
  obtains (plain) "0x2E \<notin> set n" and "length n \<le> 8" and "n \<noteq> []" and "e = map to_upper n @ replicate (8 - length n) 0x20 @ replicate 3 0x20"
  | (dotted) i where "position (\<lambda>c. c = 0x2E) n = Some i" and "0 < i" and "i \<le> 8" and "drop (i + 1) n \<noteq> []" and "length (drop (i + 1) n) \<le> 3"
    and "e = map to_upper (take i n) @ replicate (8 - i) 0x20 @ map to_upper (drop (i + 1) n) @ replicate (3 - length (drop (i + 1) n)) 0x20"
proof (cases "position (\<lambda>c. c = 0x2E) n")
  case None
  then have n: "length n \<le> 8" "n \<noteq> []" "e = splice_at (replicate 11 0x20) 0 (map to_upper n)"
    using assms by (auto simp: name_to_83_def split: if_splits)
  then have "e = map to_upper n @ replicate (8 - length n) 0x20 @ replicate 3 0x20"
    by (simp add: splice_front flip: replicate_add)
  moreover have "0x2E \<notin> set n" using None by (auto simp: position_None_iff)
  ultimately show ?thesis using plain n by blast
next
  case (Some i)
  then have i: "0 < i" "i \<le> 8" "drop (i + 1) n \<noteq> []" "length (drop (i + 1) n) \<le> 3"
    "e = splice_at (splice_at (replicate 11 0x20) 0 (map to_upper (take i n))) 8 (map to_upper (drop (i + 1) n))"
    using assms by (auto simp: name_to_83_def Let_def split: if_splits)
  have "i < length n" by (rule position_split(3) [OF Some])
  then have "e = map to_upper (take i n) @ replicate (8 - i) 0x20 @ map to_upper (drop (i + 1) n) @ replicate (3 - length (drop (i + 1) n)) 0x20"
    using i by (simp add: splice_front) (simp add: splice_at_def)
  then show ?thesis using dotted Some i(1-4) by blast
qed

lemma field_match_pad:
  assumes "drop off e = map to_upper u @ replicate (n - length u) 0x20 @ rest" and "length u \<le> n"
  shows "field_match e off n u"
proof -
  have "e ! (off + i) = (if i < length u then to_upper (u ! i) else 0x20)" if "i < n" for i
  proof -
    have "off \<le> length e"
    proof (rule ccontr)
      assume "\<not> off \<le> length e"
      then have "map to_upper u @ replicate (n - length u) 0x20 @ rest = []" using assms(1) by auto
      then show False using that by auto
    qed
    from nth_drop [OF this, of i] have "e ! (off + i) = drop off e ! i" by simp
    then show ?thesis using assms that by (auto simp: nth_append)
  qed
  then show ?thesis by (simp add: field_match_def list_all_iff)
qed

lemma to_upper_not_space: "to_upper c \<noteq> 0x20" if "c \<noteq> 0x20" for c
  using that by (auto simp: to_upper_def word_le_nat_alt eq_diff_eq)

lemma take_space: "0x20 \<notin> set u \<Longrightarrow> takeWhile (\<lambda>c. c \<noteq> 0x20) (map to_upper u @ replicate k 0x20) = map to_upper u"
  by (induction u) (auto simp: to_upper_not_space takeWhile_replicate)

text \<open>Short names: the directory entry made for a name is found again by it, and it lists as the name in capitals:
  for every name \<open>name_to_83\<close> accepts, \<open>name_match\<close> holds of its entry, and if the name has no space,
  \<open>format_name\<close> gives the name in capitals and zeros.\<close>

theorem short_name_roundtrip:
  assumes "name_to_83 n = Some e"
  shows "length e = 11 \<and> name_match e n \<and> (0x20 \<notin> set n \<longrightarrow> format_name e = map to_upper n @ replicate (13 - length n) 0)"
  using assms
proof (cases rule: name_to_83_layout)
  case plain
  then have "position (\<lambda>c. c = 0x2E) n = None" by (auto simp: position_None_iff)
  moreover have "field_match e 0 8 n" using plain by (intro field_match_pad [of _ _ _ _ "replicate 3 0x20"]) simp_all
  moreover have "e ! 8 = 0x20" "take 8 e = map to_upper n @ replicate (8 - length n) 0x20" "length e = 11"
    using plain by (auto simp: nth_append)
  ultimately show ?thesis
    using take_space [of n "8 - length n"] plain(2) by (simp add: name_match_def format_name_def splice_front)
next
  case (dotted i)
  let ?x = "drop (i + 1) n"
  note S = position_split [OF dotted(1)]
  have l: "length (take i n) = i" "length n = i + 1 + length ?x" using S(3) by simp_all
  have "field_match e 0 8 (take i n)" using dotted(3) l(1)
    by (intro field_match_pad [of _ _ _ _ "map to_upper ?x @ replicate (3 - length ?x) 0x20"]) (simp_all add: dotted(6))
  moreover have d8: "drop 8 e = map to_upper ?x @ replicate (3 - length ?x) 0x20" "take 8 e = map to_upper (take i n) @ replicate (8 - i) 0x20"
    "length e = 11" using dotted(3,5) l(1) by (simp_all add: dotted(6))
  moreover have "field_match e 8 3 ?x" using dotted(5) by (intro field_match_pad [of _ _ _ _ "[]"]) (simp_all add: d8)
  moreover have "format_name e = map to_upper n @ replicate (13 - length n) 0" if sp: "0x20 \<notin> set n"
  proof -
    have sp2: "0x20 \<notin> set (take i n)" "0x20 \<notin> set ?x" using sp by (auto dest: in_set_takeD in_set_dropD)
    have "e ! 8 = map to_upper ?x ! 0" using d8(1,3) dotted(4) by (cases ?x) (auto simp: nth_via_drop)
    moreover have "map to_upper ?x ! 0 \<noteq> 0x20" using dotted(4) sp2(2) to_upper_not_space by (cases ?x) auto
    ultimately have ne: "e ! 8 \<noteq> 0x20" by simp
    have t3: "take 3 (drop 8 e) = map to_upper ?x @ replicate (3 - length ?x) 0x20" unfolding d8(1) using dotted(5) by simp
    have mn: "map to_upper n = map to_upper (take i n) @ 0x2E # map to_upper ?x"
      by (subst S(1)) (simp add: to_upper_def)
    have "format_name e = splice_at (replicate 13 0) 0 (map to_upper n)"
      unfolding format_name_def Let_def d8(2) t3 if_P [OF ne] take_space [OF sp2(1)] take_space [OF sp2(2)] mn ..
    moreover have "length (map to_upper n) \<le> 13" using l(2) dotted(3,5) by simp
    ultimately show ?thesis by (simp only: splice_front length_map)
  qed
  ultimately show ?thesis using dotted(1) by (simp add: name_match_def)
qed

section \<open>Properties of the table\<close>

text \<open>C24: The table is a store: on FAT16 and FAT32, \<open>fat_write_entry\<close> succeeds for every cluster of the table,
  \<open>fat_read_entry\<close> then gives the value written, cut to the width of an entry, every other entry is as
  before, and no sector outside the tables changes.\<close>

theorem fat_entry_roundtrip:
  assumes "fat_ok bpb d" and "in_fat bpb cl"
  shows "\<exists>d'. fat_write_entry bpb cl v d = Some (True, d') \<and> fat_ok bpb d' \<and>
    fat_read_entry bpb cl d' = Some (v AND fat_mask bpb) \<and>
    (\<forall>c. in_fat bpb c \<and> c \<noteq> cl \<longrightarrow> fat_read_entry bpb c d' = fat_read_entry bpb c d) \<and>
    (\<forall>l. l \<notin> copy_area bpb \<longrightarrow> sector d' l = sector d l)"
  by (rule fat_write_entry_spec [OF assms, of v]) (auto simp: fat_keeps_def)

text \<open>C5: Freeing gives back exactly the chain: \<open>free_chain\<close> of a chain sets its entries to 0 and leaves every
  other entry and all data alone; the next allocation returns the first free cluster, which is at or
  below each cluster that was freed.\<close>

theorem free_chain_correct:
  assumes "fat_ok bpb d" and "chain bpb d c xs" and "length xs \<le> MAX_ITER"
  shows "\<exists>d'. free_chain bpb c d = Some d' \<and> fat_ok bpb d' \<and> (\<forall>x\<in>set xs. fat_read_entry bpb x d' = Some 0) \<and>
    (\<forall>b. in_fat bpb b \<and> b \<notin> set xs \<longrightarrow> fat_read_entry bpb b d' = fat_read_entry bpb b d) \<and>
    (\<forall>l. l \<notin> copy_area bpb \<longrightarrow> sector d' l = sector d l) \<and>
    (\<forall>x\<in>set xs. unat x < max_cluster bpb \<longrightarrow> (\<exists>a. alloc_cluster bpb d' = Some a \<and> 2 \<le> a \<and> a \<le> x \<and>
      fat_read_entry bpb a d' = Some 0 \<and> (\<forall>b. 2 \<le> b \<and> b < a \<longrightarrow> fat_read_entry bpb b d' \<noteq> Some 0)))"
proof -
  obtain d' where d': "free_chain bpb c d = Some d'" "fat_keeps bpb (set xs) d d'" "\<forall>x\<in>set xs. fat_read_entry bpb x d' = Some 0"
    using free_loop_chain [OF assms] by (auto simp: free_chain_def)
  have "\<exists>a. alloc_cluster bpb d' = Some a \<and> 2 \<le> a \<and> a \<le> x \<and> fat_read_entry bpb a d' = Some 0 \<and>
      (\<forall>b. 2 \<le> b \<and> b < a \<longrightarrow> fat_read_entry bpb b d' \<noteq> Some 0)" if "x \<in> set xs" "unat x < max_cluster bpb" for x
    using alloc_cluster_first [OF fat_keepsD(1) [OF d'(2)], of x] chain_in_fat [OF assms(2) that(1)] that d'(3) by metis
  then show ?thesis using d' by (intro exI [of _ d']) (simp add: fat_keeps_def)
qed

text \<open>A read is a piece of the file: for every chain of readable clusters, \<open>read_chain\<close> returns exactly the
  bytes at the offset, up to the length asked for or the end of the file, across sectors and clusters.\<close>

theorem read_chain_correct:
  assumes "sectors_ok d" and "bytes_per_sector bpb = 512" and "0 < sectors_per_cluster bpb"
    and "chain bpb d c xs" and "data_readable bpb d xs" and "length xs \<le> MAX_ITER"
  shows "read_chain bpb d c off len = Some (take len (drop off (file_bytes bpb d xs)))"
  by (rule read_chain_bytes [OF assms])

lemma alloc_loop_stuck:
  assumes "\<And>c. n \<le> c \<Longrightarrow> c < m \<Longrightarrow> \<exists>v. fat_read_entry bpb (of_nat c) d = Some v \<and> v \<noteq> 0"
    and "fat_read_entry bpb (of_nat m) d = None" and "n \<le> m" and "m < mx"
  shows "alloc_loop bpb d n mx = None"
  using assms(1,3)
proof (induction "m - n" arbitrary: n)
  case 0
  then show ?case using assms(2,4) by (subst alloc_loop.simps) simp
next
  case (Suc k)
  then obtain v where "fat_read_entry bpb (of_nat n) d = Some v" "v \<noteq> 0" by (metis Suc_neq_Zero diff_is_0_eq leI order_refl)
  moreover have "alloc_loop bpb d (n + 1) mx = None" by (rule Suc.hyps(1)) (use Suc in auto)
  ultimately show ?case using Suc.hyps(2) assms(4) by (subst alloc_loop.simps) simp
qed

text \<open>C35: The entry of cluster 341 of a FAT12 table starts at the last byte of its sector, and both reading and
  writing it index past the sector buffer, a panic. A FAT12 volume whose clusters 2 to 340 are in use
  therefore stops the kernel at the next allocation.\<close>

theorem fat12_alloc_panics:
  assumes "fat_type bpb = Fat12" and "bytes_per_sector bpb = 512" and "sectors_ok d" and "\<forall>l. rd_ok d l"
    and "\<forall>c\<in>{2..340}. \<exists>v. fat_read_entry bpb (of_nat c) d = Some v \<and> v \<noteq> 0"
  shows "fat_read_entry bpb 341 d = None \<and> fat_write_entry bpb 341 v d = None \<and> alloc_cluster bpb d = None"
proof -
  have b: "entry_byte bpb 341 = 511" using assms(1,2) by (simp add: entry_byte_def entry_off_def)
  have l: "length (sector d l) = 512" for l using assms(3) by (simp add: sectors_ok_def)
  have r: "fat_read_entry bpb 341 d = None" "fat_write_entry bpb 341 v d = None"
    using assms(1,4) b l by (simp_all add: fat_read_entry_def fat_write_entry_def new_entry_def read_bpb_sector_def le16_def byte_at_def)
  have "alloc_loop bpb d 2 (max_cluster bpb) = None"
    using assms(1,5) r(1) by (intro alloc_loop_stuck [of 2 341]) (auto simp: max_cluster_def)
  then show ?thesis using r by (simp add: alloc_cluster_def)
qed

text \<open>C36: A new file reads empty for ever: the handle \<open>fat_open\<close> returns for a file it creates holds the size 0,
  \<open>fat_write\<close> never changes a size, and every read through the handle returns no byte, whatever has
  been written.\<close>

theorem created_reads_empty:
  assumes "create_file bpb dir name d = Some (Some h, d')" and "CACHED_BPB s = Some b"
  shows "fat_read h buf off s = Some ((Some 0, buf), s)"
proof -
  obtain cl where h: "h = file_handle cl 0"
    using assms(1) by (auto simp: create_file_def Let_def split: option.splits bind_splits if_splits prod.splits)
  have "h AND 0xFFFFFFFF = 0"
  proof (rule bit_word_eqI)
    fix n assume n: "n < LENGTH(64)"
    have m: "(0xFFFFFFFF :: u64) = mask 32" by (simp add: mask_eq_exp_minus_1)
    show "bit (h AND 0xFFFFFFFF) n = bit (0 :: u64) n"
      unfolding h file_handle_def m bit_and_iff bit_or_iff bit_push_bit_iff bit_mask_iff by simp
  qed
  then show ?thesis using assms(2) by (simp add: fat_read_def with_bpb_def get_bpb_def)
qed

section \<open>A small volume\<close>

text \<open>One table of one sector, a root directory of one sector, and the file of clusters 2 and 3.\<close>

definition demo_bpb :: Bpb where
  "demo_bpb = \<lparr>bytes_per_sector = 512, sectors_per_cluster = 1, reserved_sectors = 1, num_fats = 1, root_entry_count = 16,
     fat_size_16 = 1, fat_size_32 = 0, root_cluster_32 = 0, fat_type = Fat16, data_start = 3, total_clusters = 5000\<rparr>"

definition demo_disk :: disk where
  "demo_disk = \<lparr>sector = (\<lambda>l. if l = 1 then [0xF8, 0xFF, 0xFF, 0xFF, 3, 0, 0xFF, 0xFF] @ replicate 504 0 else replicate 512 (if l = 3 then 7 else 0)),
     rd_ok = (\<lambda>l. True), wr_ok = (\<lambda>l. True)\<rparr>"

lemma demo_volume:
  "fat_ok demo_bpb demo_disk" "sectors_ok demo_disk" "in_fat demo_bpb 4" "chain demo_bpb demo_disk 2 [2, 3]"
  "fat_read_entry demo_bpb 4 demo_disk = Some 0"
  by (simp_all add: fat_ok_def sectors_ok_def demo_bpb_def demo_disk_def in_fat_def entry_off_def fat_sectors_def fat_is_eoc_def
      fat_read_entry_def read_bpb_sector_def entry_sector_def entry_byte_def le16_def byte_at_def)

lemma fat_entry_roundtrip_witness:
  "\<exists>d'. fat_write_entry demo_bpb 4 9 demo_disk = Some (True, d') \<and> fat_read_entry demo_bpb 4 d' = Some 9"
  using fat_entry_roundtrip [OF demo_volume(1,3), of 9] by (auto simp: fat_mask_def demo_bpb_def)

lemma free_chain_correct_witness:
  "\<exists>d'. free_chain demo_bpb 2 demo_disk = Some d' \<and> fat_read_entry demo_bpb 3 d' = Some 0"
  using free_chain_correct [OF demo_volume(1,4)] by (auto simp: MAX_ITER_def)

lemma read_chain_correct_witness:
  "read_chain demo_bpb demo_disk 2 510 3 = Some [7, 7, 0]"
proof -
  have dr: "data_readable demo_bpb demo_disk [2, 3]" by (simp add: data_readable_def demo_disk_def)
  have "cluster_bytes demo_bpb demo_disk 2 = replicate 512 7" "cluster_bytes demo_bpb demo_disk 3 = replicate 512 0"
    by (simp_all add: cluster_bytes_def cluster_sector_def cluster_to_lba_def sub64_def demo_bpb_def demo_disk_def)
  moreover have "take 3 (drop 510 (replicate 512 7 @ replicate 512 (0 :: u8))) = [7, 7, 0]" by (simp add: numeral_2_eq_2)
  ultimately have "take 3 (drop 510 (file_bytes demo_bpb demo_disk [2, 3])) = [7, 7, 0]" by (simp only: file_bytes_simps append_Nil2)
  moreover have "bytes_per_sector demo_bpb = 512" "0 < sectors_per_cluster demo_bpb" "length [2, 3 :: u32] \<le> MAX_ITER"
    by (simp_all add: demo_bpb_def MAX_ITER_def)
  ultimately show ?thesis
    using read_chain_correct [of demo_disk demo_bpb 2 "[2, 3]" 510 3] demo_volume(2,4) dr by simp
qed

definition full_fat12 :: "Bpb \<times> disk" where
  "full_fat12 = (demo_bpb\<lparr>fat_type := Fat12\<rparr>, \<lparr>sector = (\<lambda>l. replicate 512 0xFF), rd_ok = (\<lambda>l. True), wr_ok = (\<lambda>l. True)\<rparr>)"

lemma fat12_alloc_panics_witness: "alloc_cluster (fst full_fat12) (snd full_fat12) = None"
proof -
  have "\<exists>v. fat_read_entry (fst full_fat12) (of_nat c) (snd full_fat12) = Some v \<and> v \<noteq> 0" if "2 \<le> c" "c \<le> 340" for c
  proof -
    have u: "unat (of_nat c :: u32) = c" using that by (simp add: unsigned_of_nat take_bit_nat_eq_self)
    have "c + c div 2 < 511" using that by linarith
    then show ?thesis
      by (simp add: full_fat12_def fat_read_entry_def read_bpb_sector_def entry_byte_def entry_sector_def entry_off_def u demo_bpb_def le16_def byte_at_def)
  qed
  then show ?thesis
    using fat12_alloc_panics [of "fst full_fat12" "snd full_fat12" 0] by (simp add: full_fat12_def sectors_ok_def demo_bpb_def)
qed

lemma short_name_roundtrip_witness: "\<exists>e. name_to_83 (ascii ''a.txt'') = Some e \<and> name_match e (ascii ''a.txt'')"
proof -
  obtain e where "name_to_83 (ascii ''a.txt'') = Some e" by (simp add: name_to_83_def position_def find_idx_def ascii_def Let_def)
  then show ?thesis using short_name_roundtrip [of "ascii ''a.txt''" e] by simp
qed

lemma demo_create: "\<exists>h d'. create_file demo_bpb 0 (ascii ''a'') demo_disk = Some (Some h, d')"
proof -
  have e2: "fat_read_entry demo_bpb 2 demo_disk = Some 3" and e3: "fat_read_entry demo_bpb 3 demo_disk = Some 0xFFFF"
    using demo_volume(4) by (simp_all add: fat_read_entry_def read_bpb_sector_def entry_sector_def entry_byte_def entry_off_def
        le16_def byte_at_def demo_bpb_def demo_disk_def)
  have a: "alloc_cluster demo_bpb demo_disk = Some 4"
    unfolding alloc_cluster_def
    using e2 e3 demo_volume(5) by (subst alloc_loop.simps, subst alloc_loop.simps, subst alloc_loop.simps) (simp add: max_cluster_def demo_bpb_def)
  obtain d1 where d1: "fat_write_entry demo_bpb 4 (fat_eoc demo_bpb) demo_disk = Some (True, d1)" "fat_keeps demo_bpb {4} demo_disk d1"
    by (rule fat_write_entry_spec [OF demo_volume(1,3)])
  define d2 where "d2 = zero_sectors (cluster_to_lba demo_bpb 4) [0..<sectors_per_cluster demo_bpb] d1"
  have lba: "dir_lba demo_bpb d2 0 0 = Some (Some 2)"
    by (simp add: dir_lba_def demo_bpb_def root_sectors_def fat_sectors_def)
  have "sector d1 2 = replicate 512 0" "rd_ok d1 = (\<lambda>l. True)" "wr_ok d1 = (\<lambda>l. True)"
    using fat_keepsD(2,3) [OF d1(2)] fat_keepsD(5) [OF d1(2), of 2] by (simp_all add: copy_area_def demo_bpb_def fat_sectors_def demo_disk_def)
  then have s2: "sector d2 2 = replicate 512 0" "rd_ok d2 2"
    by (simp_all add: d2_def zero_sectors_def write_bpb_sector_def cluster_to_lba_def sub64_def demo_bpb_def)
  have buf: "dir_sector_or_grow demo_bpb 0 0 d2 = Some (Some (replicate 512 0), d2)"
    by (simp add: dir_sector_or_grow_def read_dir_sector_def lba read_bpb_sector_def s2)
  have fe: "free_entry (replicate 512 0) = Some 0" by (simp add: free_entry_def upt_conv_Cons)
  have nm: "name_to_83 (ascii ''a'') = Some (splice_at (replicate 11 0x20) 0 (map to_upper (ascii ''a'')))"
    by (simp add: name_to_83_def position_def find_idx_def ascii_def)
  have "length (splice_at (replicate 11 0x20) 0 (map to_upper (ascii ''a''))) = 11" by simp
  then obtain b where b: "put_entry_at demo_bpb (replicate 512 0) 0 (splice_at (replicate 11 0x20) 0 (map to_upper (ascii ''a''))) 0x20 4 0 = Some b"
    by (simp add: put_entry_at_def put_cluster_def write_le16_def write_le32_def demo_bpb_def)
  have dm: "dir_max_sectors demo_bpb 0 = 1" by (simp add: dir_max_sectors_def demo_bpb_def root_sectors_def)
  obtain x d3 where wd: "write_dir_sector demo_bpb 0 0 b d2 = Some (x, d3)"
    by (cases "write_bpb_sector 2 b d2") (simp add: write_dir_sector_def lba)
  have "add_dir_entry demo_bpb 0 (splice_at (replicate 11 0x20) 0 (map to_upper (ascii ''a''))) 0x20 4 0 d2 = Some (Some 0, d3)"
    unfolding add_dir_entry_def dm by (subst add_loop.simps) (simp add: buf fe b wd)
  then show ?thesis using a d1(1) nm by (auto simp: create_file_def d2_def)
qed

lemma created_reads_empty_witness:
  "\<exists>h d'. create_file demo_bpb 0 (ascii ''a'') demo_disk = Some (Some h, d') \<and>
    fat_read h [1, 2] 0 \<lparr>CACHED_BPB = Some demo_bpb, dev = d'\<rparr> = Some ((Some 0, [1, 2]), \<lparr>CACHED_BPB = Some demo_bpb, dev = d'\<rparr>)"
proof -
  obtain h d' where c: "create_file demo_bpb 0 (ascii ''a'') demo_disk = Some (Some h, d')" using demo_create by blast
  have "fat_read h [1, 2] 0 \<lparr>CACHED_BPB = Some demo_bpb, dev = d'\<rparr> = Some ((Some 0, [1, 2]), \<lparr>CACHED_BPB = Some demo_bpb, dev = d'\<rparr>)"
    by (rule created_reads_empty [OF c]) simp
  with c show ?thesis by blast
qed

end
