(* ===== verification/Fat_Write.thy ===== *)
theory Fat_Write
  imports Fat_Correct
begin

text \<open>
  Writing a file of a FAT volume, with the growth of its chain: what one write may change, in terms
  of the table entries and of the content of clusters, and that a write of any length at any offset
  up to the end of a file splices the data into the file and touches no other file.
\<close>

section \<open>Volumes\<close>

definition vol_ok :: "Bpb \<Rightarrow> disk \<Rightarrow> bool" where
  "vol_ok bpb d \<longleftrightarrow> fat_ok bpb d \<and> (\<forall>l. rd_ok d l \<and> wr_ok d l) \<and> 0 < sectors_per_cluster bpb \<and> sectors_per_cluster bpb < 256 \<and>
     data_start bpb + 2 ^ 32 * 256 \<le> 2 ^ 64 \<and> (\<forall>l\<in>copy_area bpb. l < data_start bpb)"

definition free_set :: "Bpb \<Rightarrow> disk \<Rightarrow> u32 set" where
  "free_set bpb d = {f. 2 \<le> f \<and> in_fat bpb f \<and> unat f < max_cluster bpb \<and> fat_read_entry bpb f d = Some 0}"

lemma vol_okD:
  assumes "vol_ok bpb d"
  shows "fat_ok bpb d" and "rd_ok d l" and "wr_ok d l" and "0 < sectors_per_cluster bpb" and "sectors_ok d"
    and "bytes_per_sector bpb = 512" and "fat_type bpb \<noteq> Fat12" and "l \<in> copy_area bpb \<Longrightarrow> l < data_start bpb"
    and "sectors_per_cluster bpb < 256"
  using assms by (auto simp: vol_ok_def fat_ok_def)

lemma cluster_sector_eq:
  assumes "vol_ok bpb d" and "2 \<le> c" and "s < sectors_per_cluster bpb"
  shows "cluster_sector bpb c s = data_start bpb + ((unat c - 2) * sectors_per_cluster bpb + s)"
proof -
  let ?n = "sectors_per_cluster bpb"
  have n: "?n < 256" "data_start bpb + 2 ^ 32 * 256 \<le> 2 ^ 64" using assms(1) by (simp_all add: vol_ok_def)
  have c: "unat c < 2 ^ 32" "2 \<le> unat c" using unsigned_less [of c] assms(2) by (simp_all add: word_le_nat_alt)
  then have "unat c + 2 ^ 64 - 2 = (unat c - 2) + 2 ^ 64" by simp
  then have "sub64 (unat c) 2 = (unat c - 2) mod 2 ^ 64" unfolding sub64_def by (simp only: mod_add_self2)
  then have sub: "sub64 (unat c) 2 = unat c - 2" using c(1) by simp
  have "(unat c - 2) * ?n + s < (unat c - 2) * ?n + ?n" using assms(3) by simp
  also have "\<dots> = (unat c - 1) * ?n" using c(2) by (simp add: algebra_simps diff_mult_distrib)
  also have "\<dots> \<le> 2 ^ 32 * 256" using c(1) n(1) by (intro mult_le_mono) simp_all
  finally have "data_start bpb + ((unat c - 2) * ?n + s) < 2 ^ 64" using n(2) by simp
  then show ?thesis
    by (simp add: cluster_sector_def cluster_to_lba_def sub mod_add_left_eq add.assoc)
qed

lemma cluster_sector_inj:
  assumes "vol_ok bpb d" and "2 \<le> c" and "2 \<le> b" and "s < sectors_per_cluster bpb" and "t < sectors_per_cluster bpb"
    and "cluster_sector bpb c s = cluster_sector bpb b t"
  shows "c = b \<and> s = t"
proof -
  let ?n = "sectors_per_cluster bpb"
  have e: "(unat c - 2) * ?n + s = (unat b - 2) * ?n + t"
    using assms(6) unfolding cluster_sector_eq [OF assms(1,2,4)] cluster_sector_eq [OF assms(1,3,5)] by simp
  have "unat c - 2 = unat b - 2" using arg_cong [OF e, of "\<lambda>i. i div ?n"] assms(4,5) by simp
  moreover have "s = t" using arg_cong [OF e, of "\<lambda>i. i mod ?n"] assms(4,5) by simp
  moreover have "2 \<le> unat c" "2 \<le> unat b" using assms(2,3) by (simp_all add: word_le_nat_alt)
  ultimately show ?thesis by (simp add: word_unat_eq_iff)
qed

lemma cluster_sector_data:
  assumes "vol_ok bpb d" and "2 \<le> c" and "s < sectors_per_cluster bpb"
  shows "data_start bpb \<le> cluster_sector bpb c s" and "cluster_sector bpb c s \<notin> copy_area bpb"
proof -
  show "data_start bpb \<le> cluster_sector bpb c s" by (simp add: cluster_sector_eq [OF assms])
  then show "cluster_sector bpb c s \<notin> copy_area bpb" using vol_okD(8) [OF assms(1)] by fastforce
qed

section \<open>Changes of the table\<close>

text \<open>The chain \<open>xs\<close> has grown by \<open>ys\<close>; nothing but the table has changed.\<close>

definition extends :: "Bpb \<Rightarrow> u32 list \<Rightarrow> u32 list \<Rightarrow> disk \<Rightarrow> disk \<Rightarrow> bool" where
  "extends bpb xs ys d d' \<longleftrightarrow> vol_ok bpb d' \<and> distinct ys \<and> set ys \<subseteq> free_set bpb d \<and> free_set bpb d' = free_set bpb d - set ys \<and>
     (\<forall>c. in_fat bpb c \<and> c \<notin> set xs \<union> set ys \<longrightarrow> fat_read_entry bpb c d' = fat_read_entry bpb c d) \<and>
     (\<forall>l. l < data_start bpb \<and> l \<notin> copy_area bpb \<longrightarrow> sector d' l = sector d l)"

definition same_data :: "Bpb \<Rightarrow> u32 set \<Rightarrow> disk \<Rightarrow> disk \<Rightarrow> bool" where
  "same_data bpb C d d' \<longleftrightarrow> (\<forall>c. 2 \<le> c \<and> c \<notin> C \<longrightarrow> cluster_bytes bpb d' c = cluster_bytes bpb d c)"

lemma extends_refl: "vol_ok bpb d \<Longrightarrow> extends bpb xs [] d d"
  by (simp add: extends_def)

lemma extends_trans: "extends bpb xs ys d d1 \<Longrightarrow> extends bpb (xs @ ys) zs d1 d2 \<Longrightarrow> extends bpb xs (ys @ zs) d d2"
  by (auto simp: extends_def)

lemma same_data_trans: "same_data bpb C d d1 \<Longrightarrow> same_data bpb D d1 d2 \<Longrightarrow> same_data bpb (C \<union> D) d d2"
  by (simp add: same_data_def)

lemma same_data_file: "same_data bpb C d d' \<Longrightarrow> set xs \<inter> C = {} \<Longrightarrow> \<forall>x\<in>set xs. 2 \<le> x \<Longrightarrow> file_bytes bpb d' xs = file_bytes bpb d xs"
  by (induction xs) (auto simp: same_data_def file_bytes_simps)

lemma fat_keeps_vol: "vol_ok bpb d \<Longrightarrow> fat_keeps bpb C d d' \<Longrightarrow> vol_ok bpb d'"
  by (simp add: vol_ok_def fat_keeps_def)

lemma fat_keeps_data:
  assumes "vol_ok bpb d" and "fat_keeps bpb C d d'"
  shows "same_data bpb {} d d'"
  using cluster_sector_data(2) [OF assms(1)] fat_keepsD(5) [OF assms(2)]
  by (auto simp: same_data_def cluster_bytes_def intro!: arg_cong [where f = concat])

section \<open>Growing a chain\<close>

lemma chain_grow:
  assumes "chain bpb d c (pre @ [x])" and "\<And>z. z \<in> set pre \<Longrightarrow> fat_read_entry bpb z d' = fat_read_entry bpb z d"
    and "fat_read_entry bpb x d' = Some n" and "chain bpb d' n [n]"
  shows "chain bpb d' c (pre @ [x, n])"
  using assms
proof (induction pre arbitrary: c)
  case (Cons z pre)
  obtain m where m: "fat_read_entry bpb z d = Some m" "chain bpb d m (pre @ [x])"
    using Cons.prems(1) by (auto split: option.splits)
  have "chain bpb d' m (pre @ [x, n])" by (rule Cons.IH [OF m(2)]) (use Cons.prems in auto)
  moreover have "fat_read_entry bpb z d' = Some m" using Cons.prems(2) [of z] m(1) by simp
  ultimately show ?case using Cons.prems(1) by simp
qed (auto split: option.splits)

lemma chain_entry:
  assumes "chain bpb d c (pre @ x # rest)"
  obtains n where "fat_read_entry bpb x d = Some n" and "chain bpb d n rest"
  using chain_append [OF assms] by (auto split: option.splits)

lemma chain_not_free:
  assumes "chain bpb d c xs" and "x \<in> set xs"
  shows "x \<notin> free_set bpb d"
proof -
  obtain pre rest where xs: "xs = pre @ x # rest" using assms(2) by (meson split_list)
  obtain n where n: "fat_read_entry bpb x d = Some n" "chain bpb d n rest" using chain_entry [OF assms(1) [unfolded xs]] .
  have "n \<noteq> 0" using n(2) by (cases rest) (auto simp: fat_is_eoc_def split: FatType.splits)
  then show ?thesis using n(1) by (simp add: free_set_def)
qed

lemma eoc_marks: "fat_is_eoc bpb (fat_eoc bpb AND fat_mask bpb)" if "fat_type bpb \<noteq> Fat12"
  using that by (cases "fat_type bpb") (simp_all add: fat_is_eoc_def fat_eoc_def fat_mask_def)

lemma free_cluster_fits:
  assumes "fat_type bpb \<noteq> Fat12" and "unat c < max_cluster bpb"
  shows "c AND fat_mask bpb = c" and "\<not> fat_is_eoc bpb c"
proof -
  have m: "fat_mask bpb = mask (if fat_type bpb = Fat32 then 28 else 16)" by (simp add: fat_mask_def mask_eq_exp_minus_1)
  have "unat c < 2 ^ (if fat_type bpb = Fat32 then 28 else 16)"
    using assms by (cases "fat_type bpb") (simp_all add: max_cluster_def)
  then have "take_bit (if fat_type bpb = Fat32 then 28 else 16) c = c"
    by (simp add: word_unat_eq_iff unsigned_take_bit_eq take_bit_nat_eq_self)
  then show "c AND fat_mask bpb = c" unfolding m by (simp only: take_bit_eq_mask)
  show "\<not> fat_is_eoc bpb c"
    using assms by (cases "fat_type bpb") (simp_all add: max_cluster_def fat_is_eoc_def word_le_nat_alt)
qed

lemma grow_chain_spec:
  assumes vol: "vol_ok bpb d" and ch: "chain bpb d c0 (pre @ [x])" and free: "free_set bpb d \<noteq> {}"
  obtains n d' where "grow_chain bpb x d = Some (n, d')" and "chain bpb d' c0 (pre @ [x, n])" and "2 \<le> n"
    and "extends bpb (pre @ [x]) [n] d d'" and "same_data bpb {} d d'"
proof -
  note V = vol_okD [OF vol]
  obtain f where "f \<in> free_set bpb d" using free by blast
  then have f: "in_fat bpb f" "2 \<le> f" "unat f < max_cluster bpb" "fat_read_entry bpb f d = Some 0" by (simp_all add: free_set_def)
  obtain n where n: "alloc_cluster bpb d = Some n" "2 \<le> n" "n \<le> f" "fat_read_entry bpb n d = Some 0"
    using alloc_cluster_first [OF V(1) f] by blast
  have nf: "in_fat bpb n" "unat n < max_cluster bpb" "n \<noteq> 0"
    using in_fat_mono [OF f(1) n(3) V(7)] n(2,3) f(3) by (auto simp: word_le_nat_alt)
  then have nfree: "n \<in> free_set bpb d" using n by (simp add: free_set_def)
  have x: "in_fat bpb x" "x \<notin> free_set bpb d" using chain_in_fat [OF ch, of x] chain_not_free [OF ch, of x] by simp_all
  have np: "n \<notin> set (pre @ [x])" using chain_not_free [OF ch] nfree by blast
  obtain d1 where d1: "fat_write_entry bpb n (fat_eoc bpb) d = Some (True, d1)" "fat_keeps bpb {n} d d1"
    "fat_read_entry bpb n d1 = Some (fat_eoc bpb AND fat_mask bpb)" using fat_write_entry_spec [OF V(1) nf(1)] by blast
  have v1: "vol_ok bpb d1" by (rule fat_keeps_vol [OF vol d1(2)])
  obtain d2 where d2: "fat_write_entry bpb x n d1 = Some (True, d2)" "fat_keeps bpb {x} d1 d2"
    "fat_read_entry bpb x d2 = Some (n AND fat_mask bpb)" using fat_write_entry_spec [OF vol_okD(1) [OF v1] x(1)] by blast
  have v2: "vol_ok bpb d2" by (rule fat_keeps_vol [OF v1 d2(2)])
  note K = fat_keeps_trans [OF d1(2) d2(2)]
  have en: "fat_read_entry bpb n d2 = Some (fat_eoc bpb AND fat_mask bpb)" using fat_keepsD(4) [OF d2(2) nf(1)] np d1(3) by auto
  have ex: "fat_read_entry bpb x d2 = Some n" using d2(3) free_cluster_fits(1) [OF V(7) nf(2)] by simp
  have "chain bpb d2 n [n]" using en eoc_marks [OF V(7)] n(2) nf(1) free_cluster_fits(2) [OF V(7) nf(2)] by simp
  moreover have "fat_read_entry bpb z d2 = fat_read_entry bpb z d" if "z \<in> set pre" for z
    using fat_keepsD(4) [OF K, of z] chain_in_fat [OF ch, of z] that np chain_distinct [OF ch] by auto
  ultimately have ch2: "chain bpb d2 c0 (pre @ [x, n])" using chain_grow [OF ch _ ex] by blast
  have nz: "fat_eoc bpb AND fat_mask bpb \<noteq> 0" using eoc_marks [OF V(7)] by (auto simp: fat_is_eoc_def split: FatType.splits)
  have "free_set bpb d2 = free_set bpb d - {n}"
  proof (rule set_eqI)
    fix f
    consider "f = n" | "f = x" | "f \<noteq> n \<and> f \<noteq> x" by blast
    then show "f \<in> free_set bpb d2 \<longleftrightarrow> f \<in> free_set bpb d - {n}"
    proof cases
      case 3
      then show ?thesis using fat_keepsD(4) [OF K, of f] by (auto simp: free_set_def)
    qed (use en ex nz nf(3) x(2) in \<open>auto simp: free_set_def\<close>)
  qed
  then have "extends bpb (pre @ [x]) [n] d d2" using v2 nfree fat_keepsD(4,5) [OF K] by (auto simp: extends_def)
  moreover have "same_data bpb {} d d2"
    using same_data_trans [OF fat_keeps_data [OF vol d1(2)] fat_keeps_data [OF v1 d2(2)]] by simp
  moreover have "grow_chain bpb x d = Some (n, d2)" using n(1) nf(3) d1(1) d2(1) by (simp add: grow_chain_def)
  ultimately show ?thesis using that ch2 n(2) by blast
qed

lemma next_or_grow_spec:
  assumes vol: "vol_ok bpb d" and ch: "chain bpb d c0 (pre @ x # rest)" and free: "rest = [] \<Longrightarrow> free_set bpb d \<noteq> {}"
  obtains y r ys d' where "next_or_grow bpb x d = Some (y, d')" and "y # r = rest @ ys" and "chain bpb d' c0 (pre @ x # y # r)"
    and "2 \<le> y" and "extends bpb (pre @ x # rest) ys d d'" and "same_data bpb {} d d'" and "length ys = (if rest = [] then 1 else 0)"
proof (cases rest)
  case (Cons y r)
  obtain n where n: "fat_read_entry bpb x d = Some n" "chain bpb d n rest" using chain_entry [OF ch] .
  then have "n = y" "2 \<le> y" "\<not> fat_is_eoc bpb y" "\<not> y < 2" using Cons by auto
  then show ?thesis using that [of y d r "[]"] n(1) ch Cons extends_refl [OF vol] by (simp add: next_or_grow_def same_data_def)
next
  case Nil
  obtain n where n: "fat_read_entry bpb x d = Some n" "chain bpb d n rest" using chain_entry [OF ch] .
  obtain y d' where g: "grow_chain bpb x d = Some (y, d')" "chain bpb d' c0 (pre @ [x, y])" "2 \<le> y"
    "extends bpb (pre @ [x]) [y] d d'" "same_data bpb {} d d'"
    using grow_chain_spec [OF vol ch [unfolded Nil] free [OF Nil]] by blast
  then show ?thesis using that [of y d' "[]" "[y]"] n Nil by (simp add: next_or_grow_def)
qed

section \<open>Writing a cluster\<close>

lemma concat_update:
  assumes "i < n" and "\<And>j. length (f j) = 512" and "length b = 512"
  shows "concat (map (\<lambda>j. if j = i then b else f j) [0..<n]) = splice_at (concat (map f [0..<n])) (i * 512) b"
proof -
  have up: "[0..<n] = [0..<i] @ i # [Suc i..<n]"
    using assms(1) upt_add_eq_append [of 0 i "n - i"] by (simp add: upt_conv_Cons)
  have a: "map (\<lambda>j. if j = i then b else f j) [0..<i] = map f [0..<i]"
    "map (\<lambda>j. if j = i then b else f j) [Suc i..<n] = map f [Suc i..<n]" by simp_all
  have "length (concat (map f [0..<m])) = m * 512" for m using assms(2) by (induction m) simp_all
  then show ?thesis using assms(2,3) unfolding up by (simp add: a splice_at_def add.commute)
qed

lemma cluster_bytes_write:
  assumes vol: "vol_ok bpb d" and "2 \<le> cl" and "s < sectors_per_cluster bpb" and "length b = 512"
  defines "d1 \<equiv> d\<lparr>sector := (sector d)(cluster_sector bpb cl s := b)\<rparr>"
  shows "cluster_bytes bpb d1 cl = splice_at (cluster_bytes bpb d cl) (s * 512) b"
    and "same_data bpb {cl} d d1" and "vol_ok bpb d1"
    and "in_fat bpb c \<Longrightarrow> fat_read_entry bpb c d1 = fat_read_entry bpb c d"
    and "l < data_start bpb \<Longrightarrow> sector d1 l = sector d l"
proof -
  note V = vol_okD [OF vol]
  note D = cluster_sector_data [OF vol assms(2,3)]
  have "sector d1 (cluster_sector bpb cl t) = (if t = s then b else sector d (cluster_sector bpb cl t))" if "t < sectors_per_cluster bpb" for t
    using cluster_sector_inj [OF vol assms(2,2) that assms(3)] by (auto simp: d1_def)
  then have "cluster_bytes bpb d1 cl = concat (map (\<lambda>t. if t = s then b else sector d (cluster_sector bpb cl t)) [0..<sectors_per_cluster bpb])"
    by (auto simp: cluster_bytes_def intro!: arg_cong [where f = concat])
  then show "cluster_bytes bpb d1 cl = splice_at (cluster_bytes bpb d cl) (s * 512) b"
    using concat_update [OF assms(3) _ assms(4), of "\<lambda>t. sector d (cluster_sector bpb cl t)"] V(5) by (simp add: cluster_bytes_def sectors_ok_def)
  show "same_data bpb {cl} d d1"
    using cluster_sector_inj [OF vol _ assms(2) _ assms(3)] by (auto simp: same_data_def cluster_bytes_def d1_def intro!: arg_cong [where f = concat])
  show v1: "vol_ok bpb d1" using vol assms(4) by (simp add: vol_ok_def fat_ok_def sectors_ok_def d1_def)
  show "l < data_start bpb \<Longrightarrow> sector d1 l = sector d l" using D(1) by (auto simp: d1_def)
  assume c: "in_fat bpb c"
  have "entry_sector bpb c \<noteq> cluster_sector bpb cl s" using in_fat_sector(5) [OF V(1) c] D(2) by auto
  then show "fat_read_entry bpb c d1 = fat_read_entry bpb c d" by (simp add: fat_read_entry_in [OF V(7)] d1_def)
qed

lemma splice_sector:
  assumes "s * 512 + 512 \<le> length C" and "p + length w \<le> 512"
  shows "splice_at C (s * 512) (splice_at (take 512 (drop (s * 512) C)) p w) = splice_at C (s * 512 + p) w"
proof (rule nth_equalityI)
  have l: "length (splice_at (take 512 (drop (s * 512) C)) p w) = 512" using assms by simp
  show "length (splice_at C (s * 512) (splice_at (take 512 (drop (s * 512) C)) p w)) = length (splice_at C (s * 512 + p) w)"
    using assms l by simp
  fix i assume "i < length (splice_at C (s * 512) (splice_at (take 512 (drop (s * 512) C)) p w))"
  then have i: "i < length C" using assms l by simp
  show "splice_at C (s * 512) (splice_at (take 512 (drop (s * 512) C)) p w) ! i = splice_at C (s * 512 + p) w ! i"
    using assms l i by (auto simp: nth_splice)
qed

lemma write_sectors_cluster:
  assumes vol: "vol_ok bpb d" and cl: "2 \<le> cl"
    and intra: "intra < lst" "lst \<le> sectors_per_cluster bpb * 512" and fin0: "fin0 + (lst - intra) \<le> length data"
    and s: "intra div 512 \<le> s" "s \<le> (lst + 511) div 512"
  shows "\<exists>d'. write_sectors bpb (cluster_to_lba bpb cl) intra (lst - intra) data [s..<(lst + 511) div 512] (fin0 + (reached intra lst s - intra)) d =
      Some (False, fin0 + (lst - intra), d') \<and> vol_ok bpb d' \<and> same_data bpb {cl} d d' \<and>
      cluster_bytes bpb d' cl = splice_at (cluster_bytes bpb d cl) (reached intra lst s)
        (take (lst - reached intra lst s) (drop (fin0 + (reached intra lst s - intra)) data)) \<and>
      (\<forall>c. in_fat bpb c \<longrightarrow> fat_read_entry bpb c d' = fat_read_entry bpb c d) \<and>
      (\<forall>l. l < data_start bpb \<longrightarrow> sector d' l = sector d l)"
  using vol s
proof (induction "(lst + 511) div 512 - s" arbitrary: s d)
  case 0
  then show ?case using reached_ends(2) [OF intra(1), of s] by (simp add: same_data_def)
next
  case (Suc n)
  note vol = Suc.prems(1)
  let ?C = "cluster_bytes bpb d cl" and ?r = "reached intra lst s" and ?r1 = "reached intra lst (s + 1)"
  have slt: "s < (lst + 511) div 512" using Suc.hyps(2) by simp
  define st where "st = (if s = intra div 512 then intra mod 512 else 0)"
  note R = reached_step [OF slt Suc.prems(2) intra(1) order_refl disjI1 [OF refl], folded st_def]
  have ri: "intra \<le> ?r" "?r \<le> lst" using intra(1) by (auto simp: reached_def)
  have ss: "s < sectors_per_cluster bpb" using slt intra(2) by linarith
  define fin where "fin = fin0 + (?r - intra)"
  define w where "w = take (?r1 - ?r) (drop fin data)"
  define b where "b = splice_at (sector d (cluster_sector bpb cl s)) st w"
  have fin: "fin + (lst - ?r) \<le> length data" using fin0 ri by (simp add: fin_def)
  have lw: "length w = ?r1 - ?r" using fin R(3,5) by (simp add: w_def)
  have sec: "sector d (cluster_sector bpb cl s) = take 512 (drop (s * 512) ?C)" by (rule cluster_bytes_sector [OF vol_okD(5) [OF vol] ss, symmetric])
  have lsec: "length (sector d (cluster_sector bpb cl s)) = 512" using vol_okD(5) [OF vol] by (simp add: sectors_ok_def)
  have stw: "st + length w \<le> 512" using R(2-4) lw by simp
  have lb: "length b = 512" using stw lsec by (simp add: b_def)
  define d1 where "d1 = d\<lparr>sector := (sector d)(cluster_sector bpb cl s := b)\<rparr>"
  note W = cluster_bytes_write [OF vol cl ss lb, folded d1_def]
  have lC: "length ?C = sectors_per_cluster bpb * 512" by (rule length_cluster_bytes [OF vol_okD(5) [OF vol]])
  have "s * 512 + 512 \<le> length ?C" using ss lC by simp
  then have C1: "cluster_bytes bpb d1 cl = splice_at ?C ?r w"
    using splice_sector [of s ?C st w] stw W(1) R(2) by (simp add: b_def sec)
  have rs: "max intra (s * 512) = ?r" "min lst (s * 512 + 512) = ?r1"
    using slt intra(1) R(2-5) by (simp_all add: reached_def min_def max_def split: if_splits)
  have a: "intra + (lst - intra) = lst" using intra(1) by simp
  have up: "[s..<(lst + 511) div 512] = s # [s + 1..<(lst + 511) div 512]" using slt by (simp add: upt_conv_Cons)
  have rd: "read_bpb_sector ((cluster_to_lba bpb cl + s) mod 2 ^ 64) d = Some (sector d (cluster_sector bpb cl s))"
    using vol_okD(2) [OF vol] by (simp add: read_bpb_sector_def cluster_sector_def)
  have wr: "snd (write_bpb_sector ((cluster_to_lba bpb cl + s) mod 2 ^ 64) b d) = d1"
    using vol_okD(3) [OF vol] by (simp add: write_bpb_sector_def d1_def cluster_sector_def)
  have tk: "min (?r1 - ?r) (length data - fin) = ?r1 - ?r" using fin R(3,5) by simp
  have pos: "?r - s * 512 = st" using R(2) by simp
  have bb: "splice_at (sector d (cluster_sector bpb cl s)) st (take (?r1 - ?r) (drop fin data)) = b" by (simp add: b_def w_def)
  have ok: "\<not> ?r1 \<le> ?r" "\<not> length (sector d (cluster_sector bpb cl s)) < st + (?r1 - ?r)" using R(3) stw lw lsec by simp_all
  have nx: "n = (lst + 511) div 512 - (s + 1)" and le: "intra div 512 \<le> s + 1" "s + 1 \<le> (lst + 511) div 512"
    using Suc.hyps(2) Suc.prems(2) slt by simp_all
  have run: "write_sectors bpb (cluster_to_lba bpb cl) intra (lst - intra) data [s..<(lst + 511) div 512] fin d =
      (if length data \<le> fin + (?r1 - ?r) then Some (False, fin + (?r1 - ?r), d1)
       else write_sectors bpb (cluster_to_lba bpb cl) intra (lst - intra) data [s + 1..<(lst + 511) div 512] (fin + (?r1 - ?r)) d1)"
    unfolding up write_sectors.simps Let_def vol_okD(6) [OF vol] a rs rd option.case tk pos bb wr if_not_P [OF ok(1)] if_not_P [OF ok(2)] ..
  have fe: "fin + (?r1 - ?r) = fin0 + (?r1 - intra)" using ri R(3) by (simp add: fin_def)
  obtain d' where d': "write_sectors bpb (cluster_to_lba bpb cl) intra (lst - intra) data [s + 1..<(lst + 511) div 512] (fin0 + (?r1 - intra)) d1 =
      Some (False, fin0 + (lst - intra), d')" "vol_ok bpb d'" "same_data bpb {cl} d1 d'"
      "cluster_bytes bpb d' cl = splice_at (cluster_bytes bpb d1 cl) ?r1 (take (lst - ?r1) (drop (fin0 + (?r1 - intra)) data))"
      "\<forall>c. in_fat bpb c \<longrightarrow> fat_read_entry bpb c d' = fat_read_entry bpb c d1"
      "\<forall>l. l < data_start bpb \<longrightarrow> sector d' l = sector d1 l"
    using Suc.hyps(1) [OF nx W(3) le] by blast
  have sp: "splice_at (splice_at ?C ?r w) ?r1 (take (lst - ?r1) (drop (fin0 + (?r1 - intra)) data)) =
      splice_at ?C ?r (take (lst - ?r) (drop fin data))"
  proof -
    let ?X = "take (lst - ?r1) (drop (fin + (?r1 - ?r)) data)"
    have e1: "fin0 + (?r1 - intra) = fin + (?r1 - ?r)" using ri R(3) by (simp add: fin_def)
    have e2: "lst - ?r = (?r1 - ?r) + (lst - ?r1)" using R(3,5) by simp
    have e3: "?r + length w = ?r1" using lw R(3) by simp
    have x: "w @ ?X = take (lst - ?r) (drop fin data)" unfolding w_def e2 take_add drop_drop by (simp only: add.commute)
    have "?r + length w + length ?X \<le> length ?C" unfolding e3 lC using intra(2) R(5) by simp
    then have "splice_at (splice_at ?C ?r w) (?r + length w) ?X = splice_at ?C ?r (w @ ?X)" by (rule splice_splice)
    then show ?thesis unfolding e1 e3 x .
  qed
  have sd: "same_data bpb {cl} d d'" using same_data_trans [OF W(2) d'(3)] by simp
  show ?case
  proof (cases "length data \<le> fin0 + (?r1 - intra)")
    case True
    then have "?r1 = lst" using fin0 R(5) ri R(3) by linarith
    then show ?thesis
      using True W C1 run [unfolded fe] unfolding fin_def [symmetric] w_def by (intro exI [of _ d1]) simp
  next
    case False
    then show ?thesis
      using d' W(4,5) C1 run [unfolded fe] sp sd unfolding fin_def [symmetric] by (intro exI [of _ d']) simp
  qed
qed

section \<open>Writing a chain\<close>

lemma splice_over:
  assumes "off + n = length xs" and "n \<le> length w"
  shows "splice_at (xs @ ys) off w = splice_at xs off (take n w) @ splice_at ys 0 (drop n w)"
proof -
  have "off + length w - length xs = length w - n" "off \<le> length xs" using assms by linarith+
  moreover have "min n (length w) = n" using assms(2) by simp
  moreover have "take n w @ drop n w @ zs = w @ zs" for zs by (simp flip: append_assoc)
  ultimately show ?thesis using assms by (simp add: splice_at_def)
qed

lemma splice_inside: "off + length w \<le> length xs \<Longrightarrow> splice_at (xs @ ys) off w = splice_at xs off w @ ys"
  by (simp add: splice_at_def)

lemma splice_after: "splice_at (xs @ ys) (length xs + off) w = xs @ splice_at ys off w"
  by (simp add: splice_at_def add.assoc)

lemma finite_free: "finite (free_set bpb d)"
  by (rule finite_subset [OF subset_UNIV]) simp

lemma free_after:
  assumes "extends bpb xs ys d d'"
  shows "card (free_set bpb d') + length ys = card (free_set bpb d)"
proof -
  have e: "distinct ys" "set ys \<subseteq> free_set bpb d" "free_set bpb d' = free_set bpb d - set ys" using assms by (simp_all add: extends_def)
  then have "card (set ys) \<le> card (free_set bpb d)" by (intro card_mono finite_free)
  then show ?thesis using e card_Diff_subset [OF _ e(2)] by (simp add: distinct_card)
qed

lemma kept_extends:
  assumes "vol_ok bpb d'" and "\<forall>c. in_fat bpb c \<longrightarrow> fat_read_entry bpb c d' = fat_read_entry bpb c d"
    and "\<forall>l. l < data_start bpb \<longrightarrow> sector d' l = sector d l"
  shows "extends bpb xs [] d d'" and "chain bpb d c zs \<Longrightarrow> chain bpb d' c zs"
proof -
  show "extends bpb xs [] d d'" using assms by (auto simp: extends_def free_set_def)
  assume c: "chain bpb d c zs"
  show "chain bpb d' c zs" using chain_frame [of zs bpb d' d c] chain_in_fat [OF c] assms(2) c by blast
qed

lemma write_loop_chain:
  fixes bpb data
  defines "csz \<equiv> sectors_per_cluster bpb * 512"
  assumes "vol_ok bpb d" and "chain bpb d c0 (pre @ x # rest)" and "intra < csz" and "fin < length data"
    and "intra + (length data - fin) \<le> (length (x # rest) + card (free_set bpb d)) * csz"
    and "intra + (length data - fin) \<le> n * csz"
  shows "\<exists>ys d'. write_loop n bpb data x intra fin d = Some (length data, d') \<and> chain bpb d' c0 (pre @ x # rest @ ys) \<and>
    extends bpb (pre @ x # rest) ys d d' \<and> same_data bpb (set (x # rest @ ys)) d d' \<and>
    file_bytes bpb d' (x # rest @ ys) = splice_at (file_bytes bpb d (x # rest @ ys)) intra (drop fin data) \<and>
    (ys \<noteq> [] \<longrightarrow> length (rest @ ys) * csz < intra + (length data - fin))"
  using assms(2-)
proof (induction n arbitrary: pre x rest intra fin d)
  case (Suc n)
  note vol = Suc.prems(1) and ch = Suc.prems(2)
  let ?C = "cluster_bytes bpb d x"
  have x: "2 \<le> x" "\<not> fat_is_eoc bpb x" "in_fat bpb x" using chain_in_fat [OF ch, of x] by simp_all
  have lC: "length ?C = csz" using length_cluster_bytes [OF vol_okD(5) [OF vol]] by (simp add: csz_def)
  define want where "want = min (length data - fin) (csz - intra)"
  have w: "0 < want" "intra + want \<le> csz" "fin + want \<le> length data" "want = length data - fin \<or> want = csz - intra"
    using Suc.prems(3,4) by (auto simp: want_def min_def)
  have "intra div 512 \<le> (intra + want + 511) div 512" by (rule div_le_mono) simp
  moreover have "fin + (intra + want - intra) \<le> length data" using w(3) by simp
  ultimately obtain d1 where d1: "write_sectors bpb (cluster_to_lba bpb x) intra want data [intra div 512..<(intra + want + 511) div 512] fin d =
      Some (False, fin + want, d1)" "vol_ok bpb d1" "same_data bpb {x} d d1"
      "cluster_bytes bpb d1 x = splice_at ?C intra (take want (drop fin data))"
      "\<forall>c. in_fat bpb c \<longrightarrow> fat_read_entry bpb c d1 = fat_read_entry bpb c d" "\<forall>l. l < data_start bpb \<longrightarrow> sector d1 l = sector d l"
    using write_sectors_cluster [OF vol x(1), of intra "intra + want" fin data "intra div 512"] w(1,2)
    by (auto simp: reached_ends csz_def)
  note E = kept_extends [OF d1(2,5,6)]
  have e: "\<not> (length data \<le> fin \<or> x < 2)" using Suc.prems(4) x(1) by (simp add: not_less)
  have w': "min (length data - fin) (512 * sectors_per_cluster bpb - intra) = want" by (simp add: want_def csz_def mult.commute)
  have ends: "intra + want + 512 - 1 = intra + want + 511" by simp
  have xn: "x \<noteq> 0" using x(1) by auto
  have run: "write_loop (Suc n) bpb data x intra fin d =
      (if length data \<le> fin + want then Some (fin + want, d1)
       else do { (nx, d3) \<leftarrow> next_or_grow bpb x d1; if nx = 0 then Some (fin + want, d3) else write_loop n bpb data nx 0 (fin + want) d3 })"
    unfolding write_loop.simps Let_def vol_okD(6) [OF vol] if_not_P [OF e] if_not_P [OF x(2)] w' ends
    using d1(1) xn by (simp add: w' ends)
  show ?case
  proof (cases "length data \<le> fin + want")
    case True
    have r: "file_bytes bpb d1 rest = file_bytes bpb d rest"
      using same_data_file [OF d1(3), of rest] chain_distinct [OF ch] chain_in_fat [OF ch] by auto
    have wd: "want = length data - fin" using True w(3) by linarith
    then have "file_bytes bpb d1 (x # rest) = splice_at (file_bytes bpb d (x # rest)) intra (drop fin data)"
      using d1(4) r w(2) lC by (simp add: file_bytes_simps splice_inside)
    moreover have "same_data bpb (set (x # rest)) d d1" using d1(3) by (simp add: same_data_def)
    ultimately show ?thesis using run True w(3) wd E(1) E(2) [OF ch] Suc.prems(4)
      by (intro exI [of _ "[]"] exI [of _ d1]) simp
  next
    case False
    then have wi: "intra + want = csz" using w by auto
    have "card (free_set bpb d1) = card (free_set bpb d)" using free_after [OF E(1)] by simp
    moreover have "csz < (1 + card (free_set bpb d)) * csz" if "rest = []"
    proof -
      have "csz < intra + (length data - fin)" using False wi by linarith
      also have "\<dots> \<le> (length (x # rest) + card (free_set bpb d)) * csz" by (rule Suc.prems(5))
      finally show ?thesis using that by simp
    qed
    ultimately have "rest = [] \<Longrightarrow> free_set bpb d1 \<noteq> {}" by fastforce
    from next_or_grow_spec [OF d1(2) E(2) [OF ch] this]
    obtain y r ys0 d2 where d2: "next_or_grow bpb x d1 = Some (y, d2)" "y # r = rest @ ys0" "chain bpb d2 c0 (pre @ x # y # r)"
      "2 \<le> y" "extends bpb (pre @ x # rest) ys0 d1 d2" "same_data bpb {} d1 d2" "length ys0 = (if rest = [] then 1 else 0)" .
    have v2: "vol_ok bpb d2" using d2(5) by (simp add: extends_def)
    have cards: "length (y # r) + card (free_set bpb d2) = length rest + card (free_set bpb d)"
      using free_after [OF d2(5)] free_after [OF E(1)] by (simp add: d2(2))
    have left: "0 + (length data - (fin + want)) + csz = intra + (length data - fin)" using wi w(3) Suc.prems(3) by linarith
    have p: "chain bpb d2 c0 ((pre @ [x]) @ y # r)" "0 < csz" "fin + want < length data"
      "0 + (length data - (fin + want)) \<le> (length (y # r) + card (free_set bpb d2)) * csz"
      "0 + (length data - (fin + want)) \<le> n * csz"
      using d2(3) Suc.prems(3,5,6) left False unfolding cards by (simp_all add: algebra_simps)
    obtain ys1 d3 where d3: "write_loop n bpb data y 0 (fin + want) d2 = Some (length data, d3)"
      "chain bpb d3 c0 ((pre @ [x]) @ y # r @ ys1)" "extends bpb ((pre @ [x]) @ y # r) ys1 d2 d3" "same_data bpb (set (y # r @ ys1)) d2 d3"
      "file_bytes bpb d3 (y # r @ ys1) = splice_at (file_bytes bpb d2 (y # r @ ys1)) 0 (drop (fin + want) data)"
      "ys1 \<noteq> [] \<longrightarrow> length (r @ ys1) * csz < 0 + (length data - (fin + want))"
      using Suc.IH [OF v2 p] by blast
    have yr: "y # r @ ys1 = rest @ ys0 @ ys1" using d2(2) by (metis append_Cons append_assoc)
    have dist: "x \<notin> set (y # r @ ys1)" using chain_distinct [OF d3(2)] by auto
    have two: "\<forall>z\<in>set (y # r @ ys1). 2 \<le> z" using chain_in_fat [OF d3(2)] by auto
    have sd: "same_data bpb {x} d d2" using same_data_trans [OF d1(3) d2(6)] by simp
    have "file_bytes bpb d2 (y # r @ ys1) = file_bytes bpb d (y # r @ ys1)"
      using same_data_file [OF sd _ two] dist by simp
    moreover have "cluster_bytes bpb d3 x = splice_at ?C intra (take want (drop fin data))"
      using d3(4) d2(6) d1(4) dist x(1) by (simp add: same_data_def)
    ultimately have "file_bytes bpb d3 (x # y # r @ ys1) = splice_at (file_bytes bpb d (x # y # r @ ys1)) intra (drop fin data)"
      using splice_over [of intra want ?C "drop fin data" "file_bytes bpb d (y # r @ ys1)"] d3(5) wi lC w(3)
      by (simp only: file_bytes_simps(2) drop_drop add.commute length_drop)
    moreover have "extends bpb (pre @ x # rest) (ys0 @ ys1) d d3"
    proof -
      have "extends bpb ((pre @ x # rest) @ ys0) ys1 d2 d3" using d3(3) d2(2) by simp
      then have "extends bpb (pre @ x # rest) (ys0 @ ys1) d1 d3" by (rule extends_trans [OF d2(5)])
      then have "extends bpb ((pre @ x # rest) @ []) (ys0 @ ys1) d1 d3" by simp
      then have "extends bpb (pre @ x # rest) ([] @ (ys0 @ ys1)) d d3" by (rule extends_trans [OF E(1)])
      then show ?thesis by simp
    qed
    moreover have "same_data bpb (set (x # y # r @ ys1)) d d3" using same_data_trans [OF sd d3(4)] by (simp add: insert_commute)
    moreover have "ys0 @ ys1 \<noteq> [] \<longrightarrow> length (y # r @ ys1) * csz < intra + (length data - fin)"
    proof (cases "ys1 = []")
      case True
      then show ?thesis using d2(2,7) left p(3) by (cases "rest = []") auto
    next
      case f: False
      then show ?thesis using d3(6) left by simp
    qed
    moreover have "y \<noteq> 0" using d2(4) by auto
    ultimately show ?thesis using run False d2(1) d3(1,2) unfolding yr
      by (intro exI [of _ "ys0 @ ys1"] exI [of _ d3]) simp
  qed
qed simp

lemma seek_chain_spec:
  assumes "vol_ok bpb d" and "chain bpb d c0 (pre @ x # rest)" and "k \<le> length rest + card (free_set bpb d)" and "iter + k \<le> MAX_ITER"
  shows "\<exists>p z r ys d'. seek_chain k bpb iter x d = Some (z, d') \<and> x # rest @ ys = p @ z # r \<and> length p = k \<and> 2 \<le> z \<and>
    chain bpb d' c0 (pre @ x # rest @ ys) \<and> extends bpb (pre @ x # rest) ys d d' \<and> same_data bpb {} d d' \<and>
    (ys \<noteq> [] \<longrightarrow> length (rest @ ys) = k)"
  using assms
proof (induction k arbitrary: pre x rest iter d)
  case 0
  then have "2 \<le> x" using chain_in_fat [of bpb d c0 "pre @ x # rest" x] by simp
  then show ?case using 0 extends_refl [OF 0(1)]
    by (intro exI [of _ "[]"] exI [of _ x] exI [of _ rest] exI [of _ d]) (simp add: same_data_def)
next
  case (Suc k)
  have free: "rest = [] \<Longrightarrow> free_set bpb d \<noteq> {}" using Suc.prems(3) by auto
  obtain y r ys0 d1 where d1: "next_or_grow bpb x d = Some (y, d1)" "y # r = rest @ ys0" "chain bpb d1 c0 (pre @ x # y # r)"
    "2 \<le> y" "extends bpb (pre @ x # rest) ys0 d d1" "same_data bpb {} d d1" "length ys0 = (if rest = [] then 1 else 0)"
    by (rule next_or_grow_spec [OF Suc.prems(1,2) free])
  have v1: "vol_ok bpb d1" using d1(5) by (simp add: extends_def)
  have "length (y # r) = length rest + length ys0" unfolding d1(2) by simp
  then have "k \<le> length r + card (free_set bpb d1)" using free_after [OF d1(5)] Suc.prems(3) by simp
  moreover have "chain bpb d1 c0 ((pre @ [x]) @ y # r)" using d1(3) by simp
  moreover have "Suc iter + k \<le> MAX_ITER" using Suc.prems(4) by simp
  ultimately obtain p z q ys1 d2 where d2: "seek_chain k bpb (Suc iter) y d1 = Some (z, d2)" "y # r @ ys1 = p @ z # q" "length p = k" "2 \<le> z"
    "chain bpb d2 c0 ((pre @ [x]) @ y # r @ ys1)" "extends bpb ((pre @ [x]) @ y # r) ys1 d1 d2" "same_data bpb {} d1 d2"
    "ys1 \<noteq> [] \<longrightarrow> length (r @ ys1) = k"
    using Suc.IH [OF v1] by blast
  have yr: "y # r @ ys1 = rest @ ys0 @ ys1" using d1(2) by (metis append_Cons append_assoc)
  have "extends bpb ((pre @ x # rest) @ ys0) ys1 d1 d2" using d2(6) d1(2) by simp
  then have "extends bpb (pre @ x # rest) (ys0 @ ys1) d d2" by (rule extends_trans [OF d1(5)])
  moreover have "same_data bpb {} d d2" using same_data_trans [OF d1(6) d2(7)] by simp
  moreover have "ys0 @ ys1 \<noteq> [] \<longrightarrow> length (rest @ ys0 @ ys1) = Suc k"
  proof (cases "ys1 = []")
    case True
    then have "length p = k" "length (y # r) = Suc (k + length q)" using d2(2,3) by (auto dest: arg_cong [where f = length])
    then show ?thesis using True d1(2,7) d2(3) Suc.prems(3) yr by (cases "rest = []") (auto simp: Cons_eq_append_conv)
  next
    case False
    then show ?thesis using d2(8) yr by (metis Suc_eq_plus1 length_Cons)
  qed
  moreover have "seek_chain (Suc k) bpb iter x d = Some (z, d2)"
    using d1(1,4) d2(1) Suc.prems(4) by auto
  ultimately show ?case using d2(2-5) unfolding yr
    by (intro exI [of _ "x # p"] exI [of _ z] exI [of _ q] exI [of _ "ys0 @ ys1"] exI [of _ d2]) simp
qed

section \<open>Properties\<close>

lemma write_chain_extends:
  fixes bpb data
  defines "csz \<equiv> sectors_per_cluster bpb * 512"
  assumes vol: "vol_ok bpb d" and ch: "chain bpb d c xs" and ne: "xs \<noteq> []" "data \<noteq> []"
    and room: "off + length data \<le> (length xs + card (free_set bpb d)) * csz" and big: "off + length data \<le> MAX_ITER * csz"
  shows "\<exists>ys d'. write_chain bpb c off data d = Some (length data, d') \<and> chain bpb d' c (xs @ ys) \<and>
    extends bpb xs ys d d' \<and> same_data bpb (set (xs @ ys)) d d' \<and>
    file_bytes bpb d' (xs @ ys) = splice_at (file_bytes bpb d (xs @ ys)) off data \<and>
    (ys \<noteq> [] \<longrightarrow> (length (xs @ ys) - 1) * csz < off + length data)"
proof -
  note V = vol_okD [OF vol]
  obtain rest where xs: "xs = c # rest" using ch ne(1) by (cases xs) auto
  have csz: "bytes_per_sector bpb * sectors_per_cluster bpb = csz" "0 < csz" using V(4,6) by (simp_all add: csz_def)
  define k m where "k = off div csz" and "m = off mod csz"
  have km: "off = k * csz + m" "m < csz" using csz(2) by (simp_all add: k_def m_def)
  have dl: "0 < length data" using ne(2) by simp
  have bnd: "k < q" if "off + length data \<le> q * csz" for q
  proof -
    have "k * csz < q * csz" using that dl km(1) by linarith
    then show ?thesis by simp
  qed
  have k: "k \<le> length rest + card (free_set bpb d)" "0 + k \<le> MAX_ITER" using bnd [OF room] bnd [OF big] by (simp_all add: xs)
  have ch0: "chain bpb d c ([] @ c # rest)" using ch by (simp add: xs)
  obtain p z r ys0 d1 where S: "seek_chain k bpb 0 c d = Some (z, d1)" "c # rest @ ys0 = p @ z # r" "length p = k" "2 \<le> z"
    "chain bpb d1 c ([] @ c # rest @ ys0)" "extends bpb ([] @ c # rest) ys0 d d1" "same_data bpb {} d d1" "ys0 \<noteq> [] \<longrightarrow> length (rest @ ys0) = k"
    using seek_chain_spec [OF vol ch0 k] by blast
  have v1: "vol_ok bpb d1" using S(6) by (simp add: extends_def)
  have ch1: "chain bpb d1 c (p @ z # r)" using S(2,5) by simp
  have cards: "length xs + card (free_set bpb d) = k + (length (z # r) + card (free_set bpb d1))"
    using free_after [OF S(6)] arg_cong [OF S(2), of length] S(3) by (simp add: xs)
  have "m + (length data - 0) \<le> (length (z # r) + card (free_set bpb d1)) * csz" "m + (length data - 0) \<le> MAX_ITER * csz"
    using room big km(1) unfolding cards add_mult_distrib by simp_all
  then obtain ys1 d2 where W: "write_loop MAX_ITER bpb data z m 0 d1 = Some (length data, d2)" "chain bpb d2 c (p @ z # r @ ys1)"
    "extends bpb (p @ z # r) ys1 d1 d2" "same_data bpb (set (z # r @ ys1)) d1 d2"
    "file_bytes bpb d2 (z # r @ ys1) = splice_at (file_bytes bpb d1 (z # r @ ys1)) m (drop 0 data)"
    "ys1 \<noteq> [] \<longrightarrow> length (r @ ys1) * csz < m + (length data - 0)"
    using write_loop_chain [OF v1 ch1 _ dl, folded csz_def, OF km(2)] by blast
  have all: "xs @ ys0 @ ys1 = p @ z # r @ ys1" using S(2) xs by (metis append_Cons append_assoc)
  have two: "\<forall>y\<in>set (p @ z # r @ ys1). 2 \<le> y" using chain_in_fat [OF W(2)] by blast
  have "set p \<inter> set (z # r @ ys1) = {}" using chain_distinct [OF W(2)] by auto
  then have p2: "file_bytes bpb d2 p = file_bytes bpb d1 p" by (rule same_data_file [OF W(4)]) (use two in auto)
  have d1: "file_bytes bpb d1 (p @ z # r @ ys1) = file_bytes bpb d (p @ z # r @ ys1)" by (rule same_data_file [OF S(7) _ two]) simp
  have lp: "length (file_bytes bpb d1 p) = k * csz" using length_file_bytes [OF vol_okD(5) [OF v1]] S(3) by (simp add: csz_def)
  have "file_bytes bpb d2 (p @ z # r @ ys1) = splice_at (file_bytes bpb d1 (p @ z # r @ ys1)) off data"
    using splice_after [of "file_bytes bpb d1 p" "file_bytes bpb d1 (z # r @ ys1)" m data] W(5) p2 lp km(1)
    by (simp add: file_bytes_simps(3))
  then have "file_bytes bpb d2 (xs @ ys0 @ ys1) = splice_at (file_bytes bpb d (xs @ ys0 @ ys1)) off data" unfolding d1 all .
  moreover have "extends bpb (xs @ ys0) ys1 d1 d2" using W(3) S(2) by (simp add: xs)
  then have "extends bpb xs (ys0 @ ys1) d d2" using extends_trans [of bpb xs ys0 d d1] S(6) by (simp add: xs)
  moreover have "same_data bpb (set (xs @ ys0 @ ys1)) d d2"
    using same_data_trans [OF S(7) W(4)] unfolding all by (auto simp: same_data_def)
  moreover have "ys0 @ ys1 \<noteq> [] \<longrightarrow> (length (xs @ ys0 @ ys1) - 1) * csz < off + length data"
  proof (cases "ys1 = []")
    case True
    then show ?thesis using S(8) dl km(1) by (auto simp: xs)
  next
    case False
    then have "k * csz + length (r @ ys1) * csz < off + length data" using W(6) km(1) by simp
    moreover have "length (xs @ ys0 @ ys1) - 1 = k + length (r @ ys1)" unfolding all using S(3) by simp
    ultimately show ?thesis by (simp add: add_mult_distrib)
  qed
  moreover have "write_chain bpb c off data d = Some (length data, d2)"
    using S(1,4) W(1) ne(2) csz(2) chain_in_fat [OF ch, of c] unfolding write_chain_def Let_def csz(1) k_def m_def
    by (auto simp: xs)
  moreover have "chain bpb d2 c (xs @ ys0 @ ys1)" unfolding all by (rule W(2))
  ultimately show ?thesis by (intro exI [of _ "ys0 @ ys1"] exI [of _ d2]) blast
qed

lemma others_kept:
  assumes "extends bpb xs ys d d'" and "same_data bpb (set (xs @ ys)) d d'" and "chain bpb d z zs" and "set zs \<inter> set xs = {}"
  shows "chain bpb d' z zs" and "file_bytes bpb d' zs = file_bytes bpb d zs"
proof -
  have "set zs \<inter> set (xs @ ys) = {}" using assms(1,4) chain_not_free [OF assms(3)] by (auto simp: extends_def)
  moreover from this have "fat_read_entry bpb x d' = fat_read_entry bpb x d" if "x \<in> set zs" for x
    using that assms(1) chain_in_fat [OF assms(3) that] by (auto simp: extends_def)
  ultimately show "chain bpb d' z zs" "file_bytes bpb d' zs = file_bytes bpb d zs"
    using chain_frame [of zs bpb d' d z] assms(3) same_data_file [OF assms(2)] chain_in_fat [OF assms(3)] by blast+
qed

text \<open>C4: Writing a file: on a well-formed FAT16 or FAT32 volume, \<open>write_chain\<close> writes all the data at any offset,
  as long as there are clusters for it: the chain keeps its clusters and grows by free ones, its content
  is the old content with the data spliced in, \<open>read_chain\<close> reads the data back, and every other file
  keeps its chain and its content.\<close>

theorem fat_write_correct:
  assumes "vol_ok bpb d" and "chain bpb d c xs" and "xs \<noteq> []" and "data \<noteq> []"
    and "off + length data \<le> (length xs + card (free_set bpb d)) * (sectors_per_cluster bpb * 512)"
    and "off + length data \<le> MAX_ITER * (sectors_per_cluster bpb * 512)" and "length xs \<le> MAX_ITER"
  shows "\<exists>ys d'. write_chain bpb c off data d = Some (length data, d') \<and> vol_ok bpb d' \<and> chain bpb d' c (xs @ ys) \<and>
    set ys \<subseteq> free_set bpb d \<and> file_bytes bpb d' (xs @ ys) = splice_at (file_bytes bpb d (xs @ ys)) off data \<and>
    read_chain bpb d' c off (length data) = Some data \<and>
    (\<forall>z zs. chain bpb d z zs \<and> set zs \<inter> set xs = {} \<longrightarrow> chain bpb d' z zs \<and> file_bytes bpb d' zs = file_bytes bpb d zs)"
proof -
  let ?csz = "sectors_per_cluster bpb * 512"
  obtain ys d' where W: "write_chain bpb c off data d = Some (length data, d')" "chain bpb d' c (xs @ ys)"
    "extends bpb xs ys d d'" "same_data bpb (set (xs @ ys)) d d'"
    "file_bytes bpb d' (xs @ ys) = splice_at (file_bytes bpb d (xs @ ys)) off data"
    "ys \<noteq> [] \<longrightarrow> (length (xs @ ys) - 1) * ?csz < off + length data"
    using write_chain_extends [OF assms(1-6)] by blast
  have v: "vol_ok bpb d'" using W(3) by (simp add: extends_def)
  have n: "length (xs @ ys) \<le> MAX_ITER"
  proof (cases "ys = []")
    case False
    then have "(length (xs @ ys) - 1) * ?csz < MAX_ITER * ?csz" using W(6) assms(6) by linarith
    then have "length (xs @ ys) - 1 < MAX_ITER" using vol_okD(4) [OF assms(1)] by simp
    then show ?thesis by linarith
  qed (use assms(7) in simp)
  have l: "length (file_bytes bpb e (xs @ ys)) = length (xs @ ys) * ?csz" if "vol_ok bpb e" for e
    by (rule length_file_bytes [OF vol_okD(5) [OF that]])
  have "read_chain bpb d' c off (length data) = Some (take (length data) (drop off (file_bytes bpb d' (xs @ ys))))"
    using vol_okD(2) [OF v] by (intro read_chain_bytes [OF vol_okD(5,6,4) [OF v] W(2) _ n]) (simp add: data_readable_def)
  moreover have "off \<le> length (file_bytes bpb d (xs @ ys))"
  proof (rule ccontr)
    assume "\<not> ?thesis"
    then have "length (splice_at (file_bytes bpb d (xs @ ys)) off data) = length (file_bytes bpb d (xs @ ys)) + length data"
      by (simp add: splice_at_def)
    then show False using l [OF v] l [OF assms(1)] W(5) assms(4) by simp
  qed
  ultimately have "read_chain bpb d' c off (length data) = Some data" by (simp add: W(5) take_drop_splice)
  then show ?thesis using W v others_kept [OF W(3,4)] by (intro exI [of _ ys] exI [of _ d']) (auto simp: extends_def)
qed

lemma demo_vol: "vol_ok demo_bpb demo_disk" "4 \<in> free_set demo_bpb demo_disk"
  using demo_volume
  by (simp_all add: vol_ok_def free_set_def copy_area_def max_cluster_def demo_bpb_def demo_disk_def fat_sectors_def)

lemma fat_write_correct_witness:
  "\<exists>ys d'. write_chain demo_bpb 2 1023 [8, 9] demo_disk = Some (2, d') \<and> chain demo_bpb d' 2 ([2, 3] @ ys) \<and>
    read_chain demo_bpb d' 2 1023 2 = Some [8, 9]"
proof -
  have "0 < card (free_set demo_bpb demo_disk)" using demo_vol(2) finite_free by (auto simp: card_gt_0_iff)
  then have r1: "1023 + length [8, 9 :: u8] \<le> (length [2, 3 :: u32] + card (free_set demo_bpb demo_disk)) * (sectors_per_cluster demo_bpb * 512)"
    by (simp add: demo_bpb_def)
  have r2: "1023 + length [8, 9 :: u8] \<le> MAX_ITER * (sectors_per_cluster demo_bpb * 512)" and r3: "length [2, 3 :: u32] \<le> MAX_ITER"
    by (simp_all add: MAX_ITER_def demo_bpb_def)
  obtain ys d' where "write_chain demo_bpb 2 1023 [8, 9] demo_disk = Some (length [8, 9 :: u8], d')" "chain demo_bpb d' 2 ([2, 3] @ ys)"
    "read_chain demo_bpb d' 2 1023 (length [8, 9 :: u8]) = Some [8, 9]"
    using fat_write_correct [OF demo_vol(1) demo_volume(4) list.distinct(2) list.distinct(2) r1 r2 r3] by blast
  then show ?thesis by (intro exI [of _ ys] exI [of _ d']) (simp add: numeral_2_eq_2)
qed

end
