(* ===== verification/Cipher_Interface.thy ===== *)
theory Cipher_Interface
  imports Prelude
begin

text \<open>
  The contract of a block cipher, and cipher-block chaining proved once over it: decrypting the
  chain of an encryption gives the blocks back, for every key and every initial vector.
\<close>

definition xor_bytes :: "bytes \<Rightarrow> bytes \<Rightarrow> bytes" where
  "xor_bytes xs ys = map2 (XOR) xs ys"

lemma length_xor_bytes [simp]: "length (xor_bytes xs ys) = min (length xs) (length ys)"
  by (simp add: xor_bytes_def)

lemma nth_xor_bytes [simp]:
  "i < length xs \<Longrightarrow> i < length ys \<Longrightarrow> xor_bytes xs ys ! i = xs ! i XOR ys ! i"
  by (simp add: xor_bytes_def)

lemma xor_bytes_cancel: "length xs = length ys \<Longrightarrow> xor_bytes (xor_bytes xs ys) ys = xs"
  by (rule nth_equalityI) (simp_all add: xor_cancel_right)

locale block_cipher =
  fixes bsize :: nat
    and enc :: "'k \<Rightarrow> bytes \<Rightarrow> bytes"
    and dec :: "'k \<Rightarrow> bytes \<Rightarrow> bytes"
  assumes length_enc: "length b = bsize \<Longrightarrow> length (enc k b) = bsize"
    and dec_enc: "length b = bsize \<Longrightarrow> dec k (enc k b) = b"
begin

primrec chain_enc :: "'k \<Rightarrow> bytes \<Rightarrow> bytes list \<Rightarrow> bytes list" where
  "chain_enc k prev [] = []"
| "chain_enc k prev (b # bs) = (let c = enc k (xor_bytes b prev) in c # chain_enc k c bs)"

primrec chain_dec :: "'k \<Rightarrow> bytes \<Rightarrow> bytes list \<Rightarrow> bytes list" where
  "chain_dec k prev [] = []"
| "chain_dec k prev (c # cs) = xor_bytes (dec k c) prev # chain_dec k c cs"

lemma length_chain_enc [simp]: "length (chain_enc k prev bs) = length bs"
  by (induction bs arbitrary: prev) (simp_all add: Let_def)

lemma chain_enc_blocks:
  assumes "length prev = bsize" and "\<forall>b\<in>set bs. length b = bsize"
  shows "\<forall>c\<in>set (chain_enc k prev bs). length c = bsize"
  using assms
proof (induction bs arbitrary: prev)
  case (Cons b bs)
  then have "length (enc k (xor_bytes b prev)) = bsize" by (simp add: length_enc)
  then show ?case using Cons.IH [of "enc k (xor_bytes b prev)"] Cons.prems by (simp add: Let_def)
qed simp

lemma chain_roundtrip:
  assumes "length prev = bsize" and "\<forall>b\<in>set bs. length b = bsize"
  shows "chain_dec k prev (chain_enc k prev bs) = bs"
  using assms
proof (induction bs arbitrary: prev)
  case (Cons b bs)
  then have l: "length (xor_bytes b prev) = bsize" by simp
  show ?case
    using Cons.IH [of "enc k (xor_bytes b prev)"] Cons.prems l
    by (simp add: Let_def dec_enc [OF l] length_enc [OF l] xor_bytes_cancel)
qed simp

end

section \<open>Cutting a byte string into blocks\<close>

primrec chunks :: "nat \<Rightarrow> nat \<Rightarrow> bytes \<Rightarrow> bytes list" where
  "chunks n 0 xs = []"
| "chunks n (Suc m) xs = take n xs # chunks n m (drop n xs)"

lemma length_chunks [simp]: "length (chunks n m xs) = m"
  by (induction m arbitrary: xs) simp_all

lemma chunks_length: "n * m \<le> length xs \<Longrightarrow> \<forall>b\<in>set (chunks n m xs). length b = n"
proof (induction m arbitrary: xs)
  case (Suc m)
  then have "length (take n xs) = n" and "n * m \<le> length (drop n xs)" by simp_all
  with Suc.IH [OF this(2)] show ?case by (simp only: chunks.simps list.set ball_simps)
qed simp

lemma concat_chunks: "n * m \<le> length xs \<Longrightarrow> concat (chunks n m xs) = take (n * m) xs"
proof (induction m arbitrary: xs)
  case (Suc m)
  then have "n * m \<le> length (drop n xs)" by simp
  from Suc.IH [OF this] have "concat (chunks n m (drop n xs)) = take (n * m) (drop n xs)" .
  then show ?case by (simp add: take_add)
qed simp

lemma chunks_concat:
  "\<forall>b\<in>set bs. length b = n \<Longrightarrow> chunks n (length bs) (concat bs @ rest) = bs"
  by (induction bs) simp_all

lemma length_concat_blocks: "\<forall>b\<in>set bs. length b = n \<Longrightarrow> length (concat bs) = n * length bs"
  by (induction bs) simp_all

end
