(* ===== verification/Aes.thy ===== *)
theory Aes
  imports Cipher_Interface
begin

text \<open>
  AES-128 and CBC with PKCS#7 padding, the second half of \<open>kernel/src/crypto.rs\<close>: the key
  schedule, one block in both directions, and the two CBC loops. The block functions are
  interpreted as \<open>block_cipher\<close>, which needs that the S-boxes are inverse and that the two
  column mixes are inverse; the round trip of the CBC loops then follows from the chain
  lemmas of the interface.
\<close>

section \<open>Tables\<close>

definition AES_SBOX :: bytes where
  "AES_SBOX =
    [0x63, 0x7c, 0x77, 0x7b, 0xf2, 0x6b, 0x6f, 0xc5, 0x30, 0x01, 0x67, 0x2b, 0xfe, 0xd7, 0xab, 0x76,
     0xca, 0x82, 0xc9, 0x7d, 0xfa, 0x59, 0x47, 0xf0, 0xad, 0xd4, 0xa2, 0xaf, 0x9c, 0xa4, 0x72, 0xc0,
     0xb7, 0xfd, 0x93, 0x26, 0x36, 0x3f, 0xf7, 0xcc, 0x34, 0xa5, 0xe5, 0xf1, 0x71, 0xd8, 0x31, 0x15,
     0x04, 0xc7, 0x23, 0xc3, 0x18, 0x96, 0x05, 0x9a, 0x07, 0x12, 0x80, 0xe2, 0xeb, 0x27, 0xb2, 0x75,
     0x09, 0x83, 0x2c, 0x1a, 0x1b, 0x6e, 0x5a, 0xa0, 0x52, 0x3b, 0xd6, 0xb3, 0x29, 0xe3, 0x2f, 0x84,
     0x53, 0xd1, 0x00, 0xed, 0x20, 0xfc, 0xb1, 0x5b, 0x6a, 0xcb, 0xbe, 0x39, 0x4a, 0x4c, 0x58, 0xcf,
     0xd0, 0xef, 0xaa, 0xfb, 0x43, 0x4d, 0x33, 0x85, 0x45, 0xf9, 0x02, 0x7f, 0x50, 0x3c, 0x9f, 0xa8,
     0x51, 0xa3, 0x40, 0x8f, 0x92, 0x9d, 0x38, 0xf5, 0xbc, 0xb6, 0xda, 0x21, 0x10, 0xff, 0xf3, 0xd2,
     0xcd, 0x0c, 0x13, 0xec, 0x5f, 0x97, 0x44, 0x17, 0xc4, 0xa7, 0x7e, 0x3d, 0x64, 0x5d, 0x19, 0x73,
     0x60, 0x81, 0x4f, 0xdc, 0x22, 0x2a, 0x90, 0x88, 0x46, 0xee, 0xb8, 0x14, 0xde, 0x5e, 0x0b, 0xdb,
     0xe0, 0x32, 0x3a, 0x0a, 0x49, 0x06, 0x24, 0x5c, 0xc2, 0xd3, 0xac, 0x62, 0x91, 0x95, 0xe4, 0x79,
     0xe7, 0xc8, 0x37, 0x6d, 0x8d, 0xd5, 0x4e, 0xa9, 0x6c, 0x56, 0xf4, 0xea, 0x65, 0x7a, 0xae, 0x08,
     0xba, 0x78, 0x25, 0x2e, 0x1c, 0xa6, 0xb4, 0xc6, 0xe8, 0xdd, 0x74, 0x1f, 0x4b, 0xbd, 0x8b, 0x8a,
     0x70, 0x3e, 0xb5, 0x66, 0x48, 0x03, 0xf6, 0x0e, 0x61, 0x35, 0x57, 0xb9, 0x86, 0xc1, 0x1d, 0x9e,
     0xe1, 0xf8, 0x98, 0x11, 0x69, 0xd9, 0x8e, 0x94, 0x9b, 0x1e, 0x87, 0xe9, 0xce, 0x55, 0x28, 0xdf,
     0x8c, 0xa1, 0x89, 0x0d, 0xbf, 0xe6, 0x42, 0x68, 0x41, 0x99, 0x2d, 0x0f, 0xb0, 0x54, 0xbb, 0x16]"

definition AES_RSBOX :: bytes where
  "AES_RSBOX =
    [0x52, 0x09, 0x6a, 0xd5, 0x30, 0x36, 0xa5, 0x38, 0xbf, 0x40, 0xa3, 0x9e, 0x81, 0xf3, 0xd7, 0xfb,
     0x7c, 0xe3, 0x39, 0x82, 0x9b, 0x2f, 0xff, 0x87, 0x34, 0x8e, 0x43, 0x44, 0xc4, 0xde, 0xe9, 0xcb,
     0x54, 0x7b, 0x94, 0x32, 0xa6, 0xc2, 0x23, 0x3d, 0xee, 0x4c, 0x95, 0x0b, 0x42, 0xfa, 0xc3, 0x4e,
     0x08, 0x2e, 0xa1, 0x66, 0x28, 0xd9, 0x24, 0xb2, 0x76, 0x5b, 0xa2, 0x49, 0x6d, 0x8b, 0xd1, 0x25,
     0x72, 0xf8, 0xf6, 0x64, 0x86, 0x68, 0x98, 0x16, 0xd4, 0xa4, 0x5c, 0xcc, 0x5d, 0x65, 0xb6, 0x92,
     0x6c, 0x70, 0x48, 0x50, 0xfd, 0xed, 0xb9, 0xda, 0x5e, 0x15, 0x46, 0x57, 0xa7, 0x8d, 0x9d, 0x84,
     0x90, 0xd8, 0xab, 0x00, 0x8c, 0xbc, 0xd3, 0x0a, 0xf7, 0xe4, 0x58, 0x05, 0xb8, 0xb3, 0x45, 0x06,
     0xd0, 0x2c, 0x1e, 0x8f, 0xca, 0x3f, 0x0f, 0x02, 0xc1, 0xaf, 0xbd, 0x03, 0x01, 0x13, 0x8a, 0x6b,
     0x3a, 0x91, 0x11, 0x41, 0x4f, 0x67, 0xdc, 0xea, 0x97, 0xf2, 0xcf, 0xce, 0xf0, 0xb4, 0xe6, 0x73,
     0x96, 0xac, 0x74, 0x22, 0xe7, 0xad, 0x35, 0x85, 0xe2, 0xf9, 0x37, 0xe8, 0x1c, 0x75, 0xdf, 0x6e,
     0x47, 0xf1, 0x1a, 0x71, 0x1d, 0x29, 0xc5, 0x89, 0x6f, 0xb7, 0x62, 0x0e, 0xaa, 0x18, 0xbe, 0x1b,
     0xfc, 0x56, 0x3e, 0x4b, 0xc6, 0xd2, 0x79, 0x20, 0x9a, 0xdb, 0xc0, 0xfe, 0x78, 0xcd, 0x5a, 0xf4,
     0x1f, 0xdd, 0xa8, 0x33, 0x88, 0x07, 0xc7, 0x31, 0xb1, 0x12, 0x10, 0x59, 0x27, 0x80, 0xec, 0x5f,
     0x60, 0x51, 0x7f, 0xa9, 0x19, 0xb5, 0x4a, 0x0d, 0x2d, 0xe5, 0x7a, 0x9f, 0x93, 0xc9, 0x9c, 0xef,
     0xa0, 0xe0, 0x3b, 0x4d, 0xae, 0x2a, 0xf5, 0xb0, 0xc8, 0xeb, 0xbb, 0x3c, 0x83, 0x53, 0x99, 0x61,
     0x17, 0x2b, 0x04, 0x7e, 0xba, 0x77, 0xd6, 0x26, 0xe1, 0x69, 0x14, 0x63, 0x55, 0x21, 0x0c, 0x7d]"

definition AES_RCON :: bytes where
  "AES_RCON = [0x01, 0x02, 0x04, 0x08, 0x10, 0x20, 0x40, 0x80, 0x1b, 0x36]"

section \<open>Key schedule\<close>

function aes_key_expand_loop :: "nat \<Rightarrow> nat \<Rightarrow> bytes \<Rightarrow> bytes" where
  "aes_key_expand_loop i rci rk =
     (if i < 176 then
        (let t = [rk ! (i - 4), rk ! (i - 3), rk ! (i - 2), rk ! (i - 1)];
             (t', rci') =
               (if i mod 16 = 0 then
                  ([AES_SBOX ! unat (t ! 1) XOR AES_RCON ! rci, AES_SBOX ! unat (t ! 2),
                    AES_SBOX ! unat (t ! 3), AES_SBOX ! unat (t ! 0)], rci + 1)
                else (t, rci));
             rk' = fold (\<lambda>k rk. rk[i + k := rk ! (i + k - 16) XOR t' ! k]) [0, 1, 2, 3] rk
         in aes_key_expand_loop (i + 4) rci' rk')
      else rk)"
  by auto
termination by (relation "measure (\<lambda>(i, rci, rk). 176 - i)") auto

declare aes_key_expand_loop.simps [simp del]

definition aes_key_expand :: "bytes \<Rightarrow> bytes" where
  "aes_key_expand key = aes_key_expand_loop 16 0 (splice_at (replicate 176 0) 0 key)"

section \<open>Rounds\<close>

definition xtime :: "u8 \<Rightarrow> u8" where
  "xtime x = (if x AND 0x80 \<noteq> 0 then push_bit 1 x XOR 0x1b else push_bit 1 x)"

definition mul2 :: "u8 \<Rightarrow> u8" where "mul2 x = xtime x"
definition mul3 :: "u8 \<Rightarrow> u8" where "mul3 x = xtime x XOR x"
definition mul9 :: "u8 \<Rightarrow> u8" where "mul9 x = xtime (xtime (xtime x)) XOR x"
definition mul11 :: "u8 \<Rightarrow> u8" where "mul11 x = xtime (xtime (xtime x) XOR x) XOR x"
definition mul13 :: "u8 \<Rightarrow> u8" where "mul13 x = xtime (xtime (xtime x XOR x)) XOR x"
definition mul14 :: "u8 \<Rightarrow> u8" where "mul14 x = xtime (xtime (xtime x XOR x) XOR x)"

definition add_round_key :: "bytes \<Rightarrow> nat \<Rightarrow> bytes \<Rightarrow> bytes" where
  "add_round_key rk off s = map (\<lambda>i. s ! i XOR rk ! (off + i)) [0..<16]"

definition sub_bytes :: "bytes \<Rightarrow> bytes \<Rightarrow> bytes" where
  "sub_bytes box s = map (\<lambda>i. box ! unat (s ! i)) [0..<16]"

definition shift_rows :: "bytes \<Rightarrow> bytes" where
  "shift_rows s = s[1 := s ! 5, 5 := s ! 9, 9 := s ! 13, 13 := s ! 1,
                    2 := s ! 10, 10 := s ! 2, 6 := s ! 14, 14 := s ! 6,
                    3 := s ! 15, 15 := s ! 11, 11 := s ! 7, 7 := s ! 3]"

definition inv_shift_rows :: "bytes \<Rightarrow> bytes" where
  "inv_shift_rows s = s[1 := s ! 13, 13 := s ! 9, 9 := s ! 5, 5 := s ! 1,
                        2 := s ! 10, 10 := s ! 2, 6 := s ! 14, 14 := s ! 6,
                        3 := s ! 7, 7 := s ! 11, 11 := s ! 15, 15 := s ! 3]"

definition mix_column :: "nat \<Rightarrow> bytes \<Rightarrow> bytes" where
  "mix_column c s =
     (let a0 = s ! (4 * c); a1 = s ! (4 * c + 1); a2 = s ! (4 * c + 2); a3 = s ! (4 * c + 3) in
      s[4 * c := mul2 a0 XOR mul3 a1 XOR a2 XOR a3,
        4 * c + 1 := a0 XOR mul2 a1 XOR mul3 a2 XOR a3,
        4 * c + 2 := a0 XOR a1 XOR mul2 a2 XOR mul3 a3,
        4 * c + 3 := mul3 a0 XOR a1 XOR a2 XOR mul2 a3])"

definition inv_mix_column :: "nat \<Rightarrow> bytes \<Rightarrow> bytes" where
  "inv_mix_column c s =
     (let a0 = s ! (4 * c); a1 = s ! (4 * c + 1); a2 = s ! (4 * c + 2); a3 = s ! (4 * c + 3) in
      s[4 * c := mul14 a0 XOR mul11 a1 XOR mul13 a2 XOR mul9 a3,
        4 * c + 1 := mul9 a0 XOR mul14 a1 XOR mul11 a2 XOR mul13 a3,
        4 * c + 2 := mul13 a0 XOR mul9 a1 XOR mul14 a2 XOR mul11 a3,
        4 * c + 3 := mul11 a0 XOR mul13 a1 XOR mul9 a2 XOR mul14 a3])"

definition enc_round :: "bytes \<Rightarrow> nat \<Rightarrow> bytes \<Rightarrow> bytes" where
  "enc_round rk round s =
     (let s1 = shift_rows (sub_bytes AES_SBOX s);
          s2 = (if round \<noteq> 10 then fold mix_column [0..<4] s1 else s1)
      in add_round_key rk (round * 16) s2)"

definition dec_round :: "bytes \<Rightarrow> nat \<Rightarrow> bytes \<Rightarrow> bytes" where
  "dec_round rk round s =
     (let s1 = sub_bytes AES_RSBOX (inv_shift_rows s);
          s2 = add_round_key rk (round * 16) s1
      in if round \<noteq> 0 then fold inv_mix_column [0..<4] s2 else s2)"

definition aes128_encrypt_block :: "bytes \<Rightarrow> bytes \<Rightarrow> bytes" where
  "aes128_encrypt_block key pt =
     (let rk = aes_key_expand key in fold (enc_round rk) [1..<11] (add_round_key rk 0 pt))"

definition aes128_decrypt_block :: "bytes \<Rightarrow> bytes \<Rightarrow> bytes" where
  "aes128_decrypt_block key ct =
     (let rk = aes_key_expand key in fold (dec_round rk) (rev [0..<10]) (add_round_key rk 160 ct))"

section \<open>CBC with PKCS\#7\<close>

text \<open>The loops write into the caller's buffer \<open>out\<close>; the result is the number of bytes and the
  buffer, \<open>None\<close> the error return.\<close>

function cbc_encrypt_loop :: "bytes \<Rightarrow> bytes \<Rightarrow> nat \<Rightarrow> nat \<Rightarrow> bytes \<Rightarrow> nat \<Rightarrow> nat \<Rightarrow> bytes \<Rightarrow> bytes" where
  "cbc_encrypt_loop key data pad tot prev o1 i out =
     (if i < tot then
        (let blk = map (\<lambda>k. (if i + k < length data then data ! (i + k) else of_nat pad) XOR prev ! k) [0..<16];
             ct = aes128_encrypt_block key blk
         in cbc_encrypt_loop key data pad tot ct (o1 + 16) (i + 16) (splice_at out o1 ct))
      else out)"
  by auto
termination by (relation "measure (\<lambda>(key, data, pad, tot, prev, o1, i, out). tot - i)") auto

declare cbc_encrypt_loop.simps [simp del]

definition aes_cbc_encrypt :: "bytes \<Rightarrow> bytes \<Rightarrow> bytes \<Rightarrow> bytes \<Rightarrow> (nat \<times> bytes) option" where
  "aes_cbc_encrypt key iv data out =
     (let pad = 16 - length data mod 16; tot = length data + pad in
      if tot > length out \<or> tot = 0 then None
      else Some (tot, cbc_encrypt_loop key data pad tot iv 0 0 out))"

function cbc_decrypt_loop :: "bytes \<Rightarrow> bytes \<Rightarrow> bytes \<Rightarrow> nat \<Rightarrow> nat \<Rightarrow> bytes \<Rightarrow> (nat \<times> bytes) option" where
  "cbc_decrypt_loop key data prev o1 i out =
     (if i < length data then
        (let cb = take 16 (drop i data);
             pt0 = aes128_decrypt_block key cb;
             pt = map (\<lambda>k. pt0 ! k XOR prev ! k) [0..<16]
         in if o1 + 16 \<le> length out
            then cbc_decrypt_loop key data cb (o1 + 16) (i + 16) (splice_at out o1 pt)
            else None)
      else Some (o1, out))"
  by auto
termination by (relation "measure (\<lambda>(key, data, prev, o1, i, out). length data - i)") auto

declare cbc_decrypt_loop.simps [simp del]

definition aes_cbc_decrypt :: "bytes \<Rightarrow> bytes \<Rightarrow> bytes \<Rightarrow> bytes \<Rightarrow> (nat \<times> bytes) option" where
  "aes_cbc_decrypt key iv data out =
     (if data = [] \<or> length data mod 16 \<noteq> 0 \<or> length data > length out + 16 then None
      else case cbc_decrypt_loop key data iv 0 0 out of
        None \<Rightarrow> None
      | Some (o1, out') \<Rightarrow>
          (let pad = unat (out' ! (o1 - 1)) in
           if pad = 0 \<or> pad > 16 then None
           else if \<exists>k\<in>set [0..<pad]. unat (out' ! (o1 - 1 - k)) \<noteq> pad then None
           else Some (o1 - pad, out')))"

section \<open>The S-boxes are inverse\<close>

text \<open>A lookup in the flat table, split into a row and a column so that the check of all 256
  entries stays small.\<close>

definition rows_of :: "bytes \<Rightarrow> bytes list" where
  "rows_of t = chunks 16 16 t"

lemma nth_chunks: "i < m \<Longrightarrow> chunks n m xs ! i = take n (drop (i * n) xs)"
proof (induction m arbitrary: i xs)
  case (Suc m)
  then show ?case by (cases i) (simp_all add: add.commute)
qed simp

lemma rows_of_nth: "length t = 256 \<Longrightarrow> i < 256 \<Longrightarrow> t ! i = rows_of t ! (i div 16) ! (i mod 16)"
  by (simp add: rows_of_def nth_chunks less_mult_imp_div_less)

lemma length_boxes: "length AES_SBOX = 256" "length AES_RSBOX = 256"
  by (simp_all add: AES_SBOX_def AES_RSBOX_def)

lemma boxes_rows:
  "list_all (\<lambda>r. list_all (\<lambda>c. rows_of AES_RSBOX ! (unat (rows_of AES_SBOX ! r ! c) div 16) !
       (unat (rows_of AES_SBOX ! r ! c) mod 16) = of_nat (16 * r + c)) [0..<16]) [0..<16]"
  by code_simp

lemma unat_u8: "unat (x :: u8) < 256"
  using unsigned_less [of x] by simp

lemma rsbox_sbox: "AES_RSBOX ! unat (AES_SBOX ! unat x) = x"
proof -
  let ?r = "unat x div 16" and ?c = "unat x mod 16"
  have "?r < 16" "?c < 16" using unat_u8 [of x] by (simp_all add: less_mult_imp_div_less)
  then have rc: "?r \<in> set [0..<16]" "?c \<in> set [0..<16]" by simp_all
  have "rows_of AES_RSBOX ! (unat (rows_of AES_SBOX ! ?r ! ?c) div 16) !
      (unat (rows_of AES_SBOX ! ?r ! ?c) mod 16) = of_nat (16 * ?r + ?c)"
    using boxes_rows rc unfolding list_all_iff by blast
  moreover have "16 * ?r + ?c = unat x" by simp
  ultimately show ?thesis
    by (simp add: rows_of_nth [OF length_boxes(1) unat_u8, symmetric] rows_of_nth [OF length_boxes(2) unat_u8, symmetric])
qed

section \<open>The column mixes are inverse\<close>

lemma bit7: "x AND 0x80 \<noteq> 0 \<longleftrightarrow> bit (x :: u8) 7"
proof -
  have "x AND 0x80 = x AND push_bit 7 1" by (simp add: push_bit_eq_mult)
  then show ?thesis by (metis and_exp_eq_0_iff_not_bit push_bit_eq_mult mult_1)
qed

lemma xtime_xor [simp]: "xtime (a XOR b) = xtime a XOR xtime b"
proof -
  have "push_bit 1 (a XOR b) = push_bit 1 a XOR push_bit 1 b" by (rule push_bit_xor)
  then show ?thesis
    unfolding xtime_def bit7 by (auto simp: bit_xor_iff ac_simps xor_cancel_left xor_cancel_right)
qed

lemmas xor_solve = xor.assoc xor.commute xor.left_commute xor_cancel_left xor_self_eq

lemma mix_inverse:
  fixes a0 a1 a2 a3 :: u8
  defines "b0 \<equiv> mul2 a0 XOR mul3 a1 XOR a2 XOR a3" and "b1 \<equiv> a0 XOR mul2 a1 XOR mul3 a2 XOR a3"
    and "b2 \<equiv> a0 XOR a1 XOR mul2 a2 XOR mul3 a3" and "b3 \<equiv> mul3 a0 XOR a1 XOR a2 XOR mul2 a3"
  shows "mul14 b0 XOR mul11 b1 XOR mul13 b2 XOR mul9 b3 = a0"
    and "mul9 b0 XOR mul14 b1 XOR mul11 b2 XOR mul13 b3 = a1"
    and "mul13 b0 XOR mul9 b1 XOR mul14 b2 XOR mul11 b3 = a2"
    and "mul11 b0 XOR mul13 b1 XOR mul9 b2 XOR mul14 b3 = a3"
  unfolding b0_def b1_def b2_def b3_def mul2_def mul3_def mul9_def mul11_def mul13_def mul14_def
  by (simp_all add: xor_solve)

section \<open>One block, there and back\<close>

lemma block16:
  assumes "length (s :: bytes) = 16"
  obtains x0 x1 x2 x3 x4 x5 x6 x7 x8 x9 x10 x11 x12 x13 x14 x15 where
    "s = [x0, x1, x2, x3, x4, x5, x6, x7, x8, x9, x10, x11, x12, x13, x14, x15]"
proof -
  have "s = map (\<lambda>i. s ! i) [0..<16]" using assms map_nth [of s] by simp
  also have "[0..<16] = [0, 1, 2, 3, 4, 5, 6, 7, 8, 9, 10, 11, 12, 13, 14, 15 :: nat]" by code_simp
  finally show thesis using that by simp
qed

lemma upt4: "[0..<4] = [0, 1, 2, 3 :: nat]"
  by code_simp

lemma inv_shift_rows_shift_rows: "length s = 16 \<Longrightarrow> inv_shift_rows (shift_rows s) = s"
  by (erule block16) (simp add: shift_rows_def inv_shift_rows_def)

lemma inv_mix_mix: "length s = 16 \<Longrightarrow> fold inv_mix_column [0..<4] (fold mix_column [0..<4] s) = s"
  by (erule block16) (simp add: upt4 mix_column_def inv_mix_column_def Let_def mix_inverse)

lemma length_rounds [simp]:
  "length (add_round_key rk off s) = 16" "length (sub_bytes box s) = 16"
  "length (shift_rows s) = length s" "length (inv_shift_rows s) = length s"
  "length (mix_column c s) = length s" "length (inv_mix_column c s) = length s"
  by (simp_all add: add_round_key_def sub_bytes_def shift_rows_def inv_shift_rows_def mix_column_def
      inv_mix_column_def Let_def)

lemma length_fold_mix [simp]:
  "length (fold mix_column cs s) = length s" "length (fold inv_mix_column cs s) = length s"
  by (induction cs arbitrary: s) simp_all

lemma length_enc_round [simp]: "length (enc_round rk r s) = 16"
  by (simp add: enc_round_def Let_def)

lemma inv_sub_sub: "length s = 16 \<Longrightarrow> sub_bytes AES_RSBOX (sub_bytes AES_SBOX s) = s"
  by (rule nth_equalityI) (simp_all add: sub_bytes_def rsbox_sbox)

lemma add_round_key_twice: "length s = 16 \<Longrightarrow> add_round_key rk off (add_round_key rk off s) = s"
  by (rule nth_equalityI) (simp_all add: add_round_key_def xor_cancel_right)

text \<open>The state of the cipher after \<open>n\<close> rounds, and what a round of the inverse cipher makes of it.\<close>

definition enc_state :: "bytes \<Rightarrow> nat \<Rightarrow> bytes \<Rightarrow> bytes" where
  "enc_state rk n pt = fold (enc_round rk) [1..<Suc n] (add_round_key rk 0 pt)"

lemma enc_state_0: "enc_state rk 0 pt = add_round_key rk 0 pt"
  by (simp add: enc_state_def)

lemma enc_state_Suc: "enc_state rk (Suc n) pt = enc_round rk (Suc n) (enc_state rk n pt)"
  by (simp add: enc_state_def)

lemma length_enc_state [simp]: "length (enc_state rk n pt) = 16"
  by (cases n) (simp_all add: enc_state_0 enc_state_Suc)

definition masked :: "bytes \<Rightarrow> bytes" where
  "masked s = shift_rows (sub_bytes AES_SBOX s)"

lemma dec_round_masked:
  assumes "r < 9"
  shows "dec_round rk (Suc r) (masked (enc_state rk (Suc r) pt)) = masked (enc_state rk r pt)"
proof -
  have "sub_bytes AES_RSBOX (inv_shift_rows (masked (enc_state rk (Suc r) pt))) = enc_state rk (Suc r) pt"
    by (simp add: masked_def inv_shift_rows_shift_rows inv_sub_sub)
  moreover have "enc_state rk (Suc r) pt =
      add_round_key rk (Suc r * 16) (fold mix_column [0..<4] (masked (enc_state rk r pt)))"
    using assms by (simp add: enc_state_Suc enc_round_def masked_def Let_def)
  ultimately show ?thesis
    by (simp add: dec_round_def Let_def add_round_key_twice inv_mix_mix masked_def del: upt_Suc)
qed

lemma dec_rounds_masked:
  "n \<le> 9 \<Longrightarrow> fold (dec_round rk) (rev [1..<Suc n]) (masked (enc_state rk n pt)) = masked (enc_state rk 0 pt)"
proof (induction n)
  case (Suc n)
  then show ?case using dec_round_masked [of n rk pt] by simp
qed simp

lemma length_encrypt_block: "length (aes128_encrypt_block key pt) = 16"
proof -
  have "aes128_encrypt_block key pt = enc_state (aes_key_expand key) 10 pt"
    by (simp add: aes128_encrypt_block_def enc_state_def Let_def)
  then show ?thesis by simp
qed

lemma length_decrypt_block: "length (aes128_decrypt_block key ct) = 16"
proof -
  have "length (dec_round rk r s) = 16" for rk r s by (simp add: dec_round_def Let_def)
  moreover have "rev [0..<10] = rev [1..<10] @ [0 :: nat]" by code_simp
  ultimately show ?thesis by (simp add: aes128_decrypt_block_def Let_def)
qed

lemma decrypt_encrypt_block:
  assumes "length pt = 16"
  shows "aes128_decrypt_block key (aes128_encrypt_block key pt) = pt"
proof -
  define rk where "rk = aes_key_expand key"
  have e: "aes128_encrypt_block key pt = enc_state rk (Suc 9) pt"
    by (simp add: aes128_encrypt_block_def enc_state_def rk_def Let_def)
  have "add_round_key rk 160 (enc_state rk (Suc 9) pt) = masked (enc_state rk 9 pt)"
    unfolding enc_state_Suc enc_round_def masked_def Let_def by (simp add: add_round_key_twice)
  moreover have "rev [0..<10] = rev [1..<Suc 9] @ [0]" by code_simp
  moreover have "dec_round rk 0 (masked (enc_state rk 0 pt)) = pt"
    by (simp add: dec_round_def masked_def inv_shift_rows_shift_rows inv_sub_sub Let_def enc_state_0
        add_round_key_twice assms)
  ultimately show ?thesis
    using dec_rounds_masked [of 9 rk pt] unfolding e
    by (simp add: aes128_decrypt_block_def rk_def [symmetric] Let_def del: upt_Suc)
qed

interpretation aes: block_cipher 16 aes128_encrypt_block aes128_decrypt_block
  by unfold_locales (simp_all add: length_encrypt_block decrypt_encrypt_block)

section \<open>The CBC loops compute the chain\<close>

text \<open>The padded plaintext the encryption loop reads.\<close>

definition pkcs7 :: "bytes \<Rightarrow> bytes" where
  "pkcs7 data = (let pad = 16 - length data mod 16 in data @ replicate pad (of_nat pad))"

lemma pkcs7_blocks: "length (pkcs7 data) = 16 * (length data div 16 + 1)"
proof -
  have "l + (16 - r) = 16 * (q + 1)" if "r < 16" "16 * q + r = l" for l q r :: nat
    using that by arith
  from this [of "length data mod 16" "length data div 16" "length data"] show ?thesis
    by (simp add: pkcs7_def Let_def)
qed

lemma pkcs7_nth:
  assumes "i < length (pkcs7 data)"
  shows "(if i < length data then data ! i else of_nat (16 - length data mod 16)) = pkcs7 data ! i"
  using assms by (simp add: pkcs7_def Let_def nth_append)

lemma xor_bytes_map:
  assumes "length b = 16" and "length prev = 16"
  shows "xor_bytes b prev = map (\<lambda>k. b ! k XOR prev ! k) [0..<16]"
  by (rule nth_equalityI) (use assms in simp_all)

lemma splice_append:
  assumes "length dst = o1" and "length src \<le> length rest"
  shows "splice_at (dst @ rest) o1 src = dst @ src @ drop (length src) rest"
  using assms by (simp add: splice_at_def)

lemma cbc_encrypt_loop_chain:
  assumes "length prev = 16" and "i + 16 * m = length (pkcs7 data)" and "length done1 = i"
    and "16 * m \<le> length rest"
  shows "cbc_encrypt_loop key data (16 - length data mod 16) (length (pkcs7 data)) prev i i (done1 @ rest) =
    done1 @ concat (aes.chain_enc key prev (chunks 16 m (drop i (pkcs7 data)))) @ drop (16 * m) rest"
  using assms
proof (induction m arbitrary: prev i done1 rest)
  case 0
  then show ?case by (subst cbc_encrypt_loop.simps) simp
next
  case (Suc m)
  let ?p = "pkcs7 data"
  let ?b = "take 16 (drop i ?p)"
  let ?blk = "map (\<lambda>k. (if i + k < length data then data ! (i + k) else of_nat (16 - length data mod 16)) XOR prev ! k) [0..<16]"
  have lb: "length ?b = 16" using Suc.prems(2) by simp
  have "?blk = map (\<lambda>k. ?b ! k XOR prev ! k) [0..<16]"
    using Suc.prems(2) by (intro map_cong refl) (simp add: pkcs7_nth)
  then have blk: "?blk = xor_bytes ?b prev" using xor_bytes_map [OF lb Suc.prems(1)] by simp
  define ct where "ct = aes128_encrypt_block key (xor_bytes ?b prev)"
  have lct: "length ct = 16" by (simp add: ct_def length_encrypt_block)
  have sp: "splice_at (done1 @ rest) i ct = (done1 @ ct) @ drop 16 rest"
    using splice_append [OF Suc.prems(3), of ct rest] Suc.prems(4) lct by simp
  have "cbc_encrypt_loop key data (16 - length data mod 16) (length ?p) prev i i (done1 @ rest) =
      cbc_encrypt_loop key data (16 - length data mod 16) (length ?p) ct (i + 16) (i + 16) ((done1 @ ct) @ drop 16 rest)"
    using Suc.prems(2) by (subst cbc_encrypt_loop.simps) (simp only: blk Let_def ct_def [symmetric] sp, simp)
  also have "\<dots> = (done1 @ ct) @ concat (aes.chain_enc key ct (chunks 16 m (drop (i + 16) ?p))) @ drop (16 * m) (drop 16 rest)"
    by (rule Suc.IH) (use Suc.prems lct in simp_all)
  finally show ?case by (simp add: Let_def ct_def [symmetric] add.commute)
qed

lemma cbc_decrypt_loop_chain:
  assumes "length prev = 16" and "i + 16 * m = length data" and "length done1 = i" and "16 * m \<le> length rest"
  shows "cbc_decrypt_loop key data prev i i (done1 @ rest) =
    Some (length data, done1 @ concat (aes.chain_dec key prev (chunks 16 m (drop i data))) @ drop (16 * m) rest)"
  using assms
proof (induction m arbitrary: prev i done1 rest)
  case 0
  then show ?case by (subst cbc_decrypt_loop.simps) simp
next
  case (Suc m)
  let ?cb = "take 16 (drop i data)"
  define pt where "pt = map (\<lambda>k. aes128_decrypt_block key ?cb ! k XOR prev ! k) [0..<16]"
  have lpt: "length pt = 16" by (simp add: pt_def)
  have lcb: "length ?cb = 16" using Suc.prems(2) by simp
  have sp: "splice_at (done1 @ rest) i pt = (done1 @ pt) @ drop 16 rest"
    using splice_append [OF Suc.prems(3), of pt rest] Suc.prems(4) lpt by simp
  have "length (aes128_decrypt_block key ?cb) = 16" by (rule length_decrypt_block)
  then have pt: "pt = xor_bytes (aes128_decrypt_block key ?cb) prev"
    using xor_bytes_map [OF _ Suc.prems(1)] by (simp add: pt_def)
  have "cbc_decrypt_loop key data prev i i (done1 @ rest) =
      cbc_decrypt_loop key data ?cb (i + 16) (i + 16) ((done1 @ pt) @ drop 16 rest)"
    using Suc.prems by (subst cbc_decrypt_loop.simps) (simp add: Let_def pt_def [symmetric] sp)
  also have "\<dots> = Some (length data, (done1 @ pt) @ concat (aes.chain_dec key ?cb (chunks 16 m (drop (i + 16) data))) @
      drop (16 * m) (drop 16 rest))"
    by (rule Suc.IH) (use Suc.prems lpt lcb in simp_all)
  finally show ?case by (simp add: pt [symmetric] add.commute)
qed

lemma unpad:
  fixes data rest :: bytes
  defines "pad \<equiv> 16 - length data mod 16"
  assumes "out = pkcs7 data @ rest" and "n = length (pkcs7 data)"
  shows "unat (out ! (n - 1)) = pad" and "pad \<noteq> 0" and "pad \<le> 16" and "n - pad = length data"
    and "k < pad \<Longrightarrow> unat (out ! (n - 1 - k)) = pad" and "take (length data) out = data"
proof -
  show pad: "pad \<noteq> 0" "pad \<le> 16" by (simp_all add: pad_def)
  have p: "pkcs7 data = data @ replicate pad (of_nat pad)" by (simp add: pkcs7_def Let_def pad_def)
  have u: "unat (of_nat pad :: u8) = pad" using pad(2) by (simp add: unat_of_nat take_bit_nat_eq_self)
  show "n - pad = length data" "take (length data) out = data" using assms(2,3) p by simp_all
  show k: "unat (out ! (n - 1 - k)) = pad" if "k < pad" for k
  proof -
    have "n - 1 - k = length data + (pad - 1 - k)" using assms(3) p that by simp
    then have "out ! (n - 1 - k) = (replicate pad (of_nat pad) @ rest) ! (pad - 1 - k)"
      using assms(2) p by simp
    then show ?thesis using u that by (simp add: nth_append)
  qed
  show "unat (out ! (n - 1)) = pad" using k [of 0] pad(1) by simp
qed

text \<open>C9: CBC decryption undoes CBC encryption for every key, initial vector and message: with a buffer
  of at least 16 bytes more than the message, encryption succeeds and writes a whole number of
  blocks, and decrypting them with the same key and vector gives back the message and its
  length, padding removed.\<close>

theorem aes_cbc_roundtrip:
  assumes iv: "length iv = 16" and room: "length data + 16 \<le> length out"
  shows "\<exists>n c. aes_cbc_encrypt key iv data out = Some (n, c) \<and> n = 16 * (length data div 16 + 1) \<and>
    length c = length out \<and> drop n c = drop n out \<and>
    (\<forall>out2. n \<le> length out2 \<longrightarrow>
       (\<exists>p. aes_cbc_decrypt key iv (take n c) out2 = Some (length data, p) \<and> take (length data) p = data))"
proof -
  let ?pad = "16 - length data mod 16" and ?n = "length (pkcs7 data)"
  define m where "m = length data div 16 + 1"
  define bs where "bs = chunks 16 m (pkcs7 data)"
  define cs where "cs = aes.chain_enc key iv bs"
  have n: "?n = 16 * m" unfolding m_def by (rule pkcs7_blocks)
  have len: "?n = length data + ?pad" by (simp add: pkcs7_def Let_def)
  then have nout: "?n \<le> length out" using room by linarith
  have bl: "\<forall>b\<in>set bs. length b = 16" unfolding bs_def by (rule chunks_length) (simp add: n)
  have cl: "\<forall>c\<in>set cs. length c = 16" unfolding cs_def by (rule aes.chain_enc_blocks [OF iv bl])
  have lcs: "length (concat cs) = ?n"
    using length_concat_blocks [OF cl] by (simp add: cs_def bs_def n)
  define c where "c = concat cs @ drop ?n out"
  have "cbc_encrypt_loop key data ?pad ?n iv 0 0 ([] @ out) = c"
    using cbc_encrypt_loop_chain [OF iv, of 0 m data "[]" out key] n nout by (simp add: c_def cs_def bs_def)
  then have enc: "aes_cbc_encrypt key iv data out = Some (?n, c)"
    using len nout by (auto simp: aes_cbc_encrypt_def Let_def)
  have tc: "take ?n c = concat cs" using lcs by (simp add: c_def)
  have dec: "\<exists>p. aes_cbc_decrypt key iv (take ?n c) out2 = Some (length data, p) \<and> take (length data) p = data"
    if room2: "?n \<le> length out2" for out2
  proof -
    let ?p = "pkcs7 data @ drop ?n out2"
    have "chunks 16 m (concat cs) = cs"
      using chunks_concat [OF cl, of "[]"] by (simp add: cs_def bs_def)
    then have "aes.chain_dec key iv (chunks 16 m (concat cs)) = bs"
      unfolding cs_def using aes.chain_roundtrip [OF iv bl] by simp
    moreover have "concat bs = pkcs7 data" unfolding bs_def using concat_chunks [of 16 m "pkcs7 data"] n by simp
    ultimately have loop: "cbc_decrypt_loop key (concat cs) iv 0 0 out2 = Some (?n, ?p)"
      using cbc_decrypt_loop_chain [OF iv, of 0 m "concat cs" "[]" out2 key] n lcs room2 by simp
    have "length (concat cs) mod 16 = 0" "\<not> length (concat cs) > length out2 + 16"
      using lcs n room2 by simp_all
    moreover have "concat cs \<noteq> []"
    proof
      assume "concat cs = []"
      then have "?n = 0" using lcs by (simp only: list.size)
      then show False using n by (simp add: m_def)
    qed
    moreover note U = unpad [of ?p data "drop ?n out2" ?n, OF refl refl]
    ultimately have "aes_cbc_decrypt key iv (concat cs) out2 = Some (length data, ?p)"
      using loop U(1-5)
      by (simp add: aes_cbc_decrypt_def Let_def)
    then show ?thesis using U(6) tc by simp
  qed
  have "length c = length out" "drop ?n c = drop ?n out" using lcs nout by (simp_all add: c_def)
  then show ?thesis using enc dec n unfolding m_def by blast
qed

theorem aes_cbc_roundtrip_witness:
  "\<exists>n c p. aes_cbc_encrypt (replicate 16 0x2b) (replicate 16 0x0f) [1, 2, 3] (replicate 48 0) = Some (n, c) \<and> n = 16 \<and>
    aes_cbc_decrypt (replicate 16 0x2b) (replicate 16 0x0f) (take n c) (replicate 48 0) = Some (3, p) \<and> take 3 p = [1, 2, 3]"
proof -
  define d :: bytes where "d = [1, 2, 3]"
  define key iv out :: bytes where "key = replicate 16 0x2b" "iv = replicate 16 0x0f" "out = replicate 48 0"
  have "length iv = 16" "length d + 16 \<le> length out" by (simp_all add: d_def key_iv_out_def)
  from aes_cbc_roundtrip [OF this, of key] obtain n c
    where e: "aes_cbc_encrypt key iv d out = Some (n, c)" "n = 16 * (length d div 16 + 1)"
    "n \<le> length out \<Longrightarrow> \<exists>p. aes_cbc_decrypt key iv (take n c) out = Some (length d, p) \<and> take (length d) p = d"
    by blast
  have n: "n = 16" and d: "length d = 3" using e(2) by (simp_all add: d_def)
  have "n \<le> length out" using n by (simp add: key_iv_out_def)
  from e(3) [OF this] obtain p where "aes_cbc_decrypt key iv (take n c) out = Some (3, p)" "take 3 p = d"
    unfolding d by blast
  then have "\<exists>n c p. aes_cbc_encrypt key iv d out = Some (n, c) \<and> n = 16 \<and>
      aes_cbc_decrypt key iv (take n c) out = Some (3, p) \<and> take 3 p = d" using e(1) n by blast
  then show ?thesis by (simp only: d_def key_iv_out_def)
qed

end
