(* ===== verification/Sha.thy ===== *)
theory Sha
  imports Cipher_Interface
begin

text \<open>
  SHA-256, HMAC and PBKDF2, the first half of \<open>kernel/src/crypto.rs\<close>. The code hashes in three
  ways (\<open>sha256\<close>, \<open>sha256_stream\<close>, \<open>sha256_two_part\<close>); each is compared with one reference, the
  iterated compression of the padded message cut into blocks of 64 bytes.
\<close>

section \<open>Compression\<close>

type_synonym sha_state = "u32 list"

definition SHA_K :: "u32 list" where
  "SHA_K = concat
    [[0x428a2f98, 0x71374491, 0xb5c0fbcf, 0xe9b5dba5, 0x3956c25b, 0x59f111f1, 0x923f82a4, 0xab1c5ed5],
     [0xd807aa98, 0x12835b01, 0x243185be, 0x550c7dc3, 0x72be5d74, 0x80deb1fe, 0x9bdc06a7, 0xc19bf174],
     [0xe49b69c1, 0xefbe4786, 0x0fc19dc6, 0x240ca1cc, 0x2de92c6f, 0x4a7484aa, 0x5cb0a9dc, 0x76f988da],
     [0x983e5152, 0xa831c66d, 0xb00327c8, 0xbf597fc7, 0xc6e00bf3, 0xd5a79147, 0x06ca6351, 0x14292967],
     [0x27b70a85, 0x2e1b2138, 0x4d2c6dfc, 0x53380d13, 0x650a7354, 0x766a0abb, 0x81c2c92e, 0x92722c85],
     [0xa2bfe8a1, 0xa81a664b, 0xc24b8b70, 0xc76c51a3, 0xd192e819, 0xd6990624, 0xf40e3585, 0x106aa070],
     [0x19a4c116, 0x1e376c08, 0x2748774c, 0x34b0bcb5, 0x391c0cb3, 0x4ed8aa4a, 0x5b9cca4f, 0x682e6ff3],
     [0x748f82ee, 0x78a5636f, 0x84c87814, 0x8cc70208, 0x90befffa, 0xa4506ceb, 0xbef9a3f7, 0xc67178f2]]"

definition SHA_IV :: sha_state where
  "SHA_IV = [0x6a09e667, 0xbb67ae85, 0x3c6ef372, 0xa54ff53a, 0x510e527f, 0x9b05688c, 0x1f83d9ab, 0x5be0cd19]"

text \<open>\<open>u32::rotate_right\<close>.\<close>

definition rotate_right :: "nat \<Rightarrow> u32 \<Rightarrow> u32" where
  "rotate_right n x = drop_bit n x OR push_bit (32 - n) x"

definition be_word :: "bytes \<Rightarrow> nat \<Rightarrow> u32" where
  "be_word block i = push_bit 24 (ucast (block ! (i * 4))) OR push_bit 16 (ucast (block ! (i * 4 + 1)))
     OR push_bit 8 (ucast (block ! (i * 4 + 2))) OR ucast (block ! (i * 4 + 3))"

definition sha_extend :: "nat \<Rightarrow> u32 list \<Rightarrow> u32 list" where
  "sha_extend i w =
     (let s0 = rotate_right 7 (w ! (i - 15)) XOR rotate_right 18 (w ! (i - 15)) XOR drop_bit 3 (w ! (i - 15));
          s1 = rotate_right 17 (w ! (i - 2)) XOR rotate_right 19 (w ! (i - 2)) XOR drop_bit 10 (w ! (i - 2))
      in w[i := w ! (i - 16) + s0 + w ! (i - 7) + s1])"

definition sha_schedule :: "bytes \<Rightarrow> u32 list" where
  "sha_schedule block = fold sha_extend [16..<64] (map (be_word block) [0..<16] @ replicate 48 0)"

type_synonym sha_vars = "u32 \<times> u32 \<times> u32 \<times> u32 \<times> u32 \<times> u32 \<times> u32 \<times> u32"

definition sha_round :: "u32 list \<Rightarrow> nat \<Rightarrow> sha_vars \<Rightarrow> sha_vars" where
  "sha_round w i v =
     (let (a, b, c, d, e, f, g, hh) = v;
          s1 = rotate_right 6 e XOR rotate_right 11 e XOR rotate_right 25 e;
          ch = (e AND f) XOR (NOT e AND g);
          t1 = hh + s1 + ch + SHA_K ! i + w ! i;
          s0 = rotate_right 2 a XOR rotate_right 13 a XOR rotate_right 22 a;
          maj = (a AND b) XOR (a AND c) XOR (b AND c);
          t2 = s0 + maj
      in (t1 + t2, a, b, c, d + t1, e, f, g))"

definition sha256_compress :: "sha_state \<Rightarrow> bytes \<Rightarrow> sha_state" where
  "sha256_compress h block =
     (let w = sha_schedule block;
          (a, b, c, d, e, f, g, hh) =
            fold (sha_round w) [0..<64] (h ! 0, h ! 1, h ! 2, h ! 3, h ! 4, h ! 5, h ! 6, h ! 7)
      in [h ! 0 + a, h ! 1 + b, h ! 2 + c, h ! 3 + d, h ! 4 + e, h ! 5 + f, h ! 6 + g, h ! 7 + hh])"

section \<open>Hashing\<close>

definition len_bytes :: "nat \<Rightarrow> bytes" where
  "len_bytes n = (let bit_len = of_nat n * 8 :: u64 in map (\<lambda>i. ucast (drop_bit (56 - i * 8) bit_len)) [0..<8])"

definition digest_bytes :: "sha_state \<Rightarrow> bytes" where
  "digest_bytes h = concat (map (\<lambda>i. [ucast (drop_bit 24 (h ! i)), ucast (drop_bit 16 (h ! i)),
                                      ucast (drop_bit 8 (h ! i)), ucast (h ! i)]) [0..<8])"

function sha_full_blocks :: "bytes \<Rightarrow> nat \<Rightarrow> sha_state \<Rightarrow> nat \<times> sha_state" where
  "sha_full_blocks msg off h =
     (if off + 64 \<le> length msg
      then sha_full_blocks msg (off + 64) (sha256_compress h (take 64 (drop off msg)))
      else (off, h))"
  by auto
termination by (relation "measure (\<lambda>(msg, off, h). length msg - off)") auto

declare sha_full_blocks.simps [simp del]

text \<open>The one or two last blocks: the rest of the message, \<open>0x80\<close>, zeros and the bit length.\<close>

definition sha_last :: "bytes \<Rightarrow> nat \<Rightarrow> nat \<times> bytes" where
  "sha_last msg off =
     (let rem = length msg - off;
          buf1 = splice_at (replicate 128 0) 0 (drop off msg);
          buf2 = buf1[rem := 0x80];
          tot = rem + 1 + 8;
          blocks = (if tot \<le> 64 then 1 else 2)
      in (blocks, splice_at buf2 (blocks * 64 - 8) (len_bytes (length msg))))"

definition sha256_stream :: "bytes \<Rightarrow> sha_state \<Rightarrow> bytes" where
  "sha256_stream msg h =
     (let (off, h1) = sha_full_blocks msg 0 h;
          (blocks, buf) = sha_last msg off;
          h2 = fold (\<lambda>bi h. sha256_compress h (take 64 (drop (bi * 64) buf))) [0..<blocks] h1
      in digest_bytes h2)"

definition sha256 :: "bytes \<Rightarrow> bytes" where
  "sha256 msg =
     (let (off, h1) = sha_full_blocks msg 0 SHA_IV;
          (blocks, buf) = sha_last msg off;
          h2 = fold (\<lambda>bi h. sha256_compress h (take 64 (drop (bi * 64) buf))) [0..<blocks] h1
      in digest_bytes h2)"

text \<open>The closure \<open>feed\<close> of \<open>sha256_two_part\<close>, from offset \<open>o1\<close> of the data on. With a full buffer
  (\<open>fill = 64\<close>) the source would loop for ever; \<open>feed\<close> never leaves one behind, which is
  \<open>sha_feed_absorbed\<close> below.\<close>

function sha_feed :: "bytes \<Rightarrow> nat \<Rightarrow> sha_state \<times> bytes \<times> nat \<Rightarrow> sha_state \<times> bytes \<times> nat" where
  "sha_feed data o1 (h, buf, fill) =
     (if o1 < length data \<and> fill < 64 then
        (let n = min (64 - fill) (length data - o1);
             buf' = splice_at buf fill (take n (drop o1 data));
             fill' = fill + n
         in if fill' = 64 then sha_feed data (o1 + n) (sha256_compress h buf', buf', 0)
            else sha_feed data (o1 + n) (h, buf', fill'))
      else (h, buf, fill))"
  by pat_completeness auto
termination by (relation "measure (\<lambda>(data, o1, h, buf, fill). length data - o1)") auto

declare sha_feed.simps [simp del]

definition sha256_two_part :: "bytes \<Rightarrow> bytes \<Rightarrow> nat \<times> bytes" where
  "sha256_two_part a b =
     (let st0 = (SHA_IV, replicate 64 0, 0);
          st1 = sha_feed a 0 st0;
          st2 = sha_feed b 0 st1;
          fill = snd (snd st2);
          k = (56 + 64 - fill mod 64) mod 64;
          total_pad = 1 + k + 8;
          pad = splice_at ((replicate 128 0)[0 := 0x80]) (1 + k) (len_bytes (length a + length b));
          (h, buf, fill') = sha_feed (take total_pad pad) 0 st2
      in (fill', digest_bytes h))"

definition hmac_sha256 :: "bytes \<Rightarrow> bytes \<Rightarrow> bytes" where
  "hmac_sha256 key msg =
     (let k = (if length key > 64 then splice_at (replicate 64 0) 0 (sha256 key)
               else splice_at (replicate 64 0) 0 key);
          ipad = map (\<lambda>i. 0x36 XOR k ! i) [0..<64];
          opad = map (\<lambda>i. 0x5c XOR k ! i) [0..<64];
          inner_in = splice_at (replicate 128 0) 0 ipad;
          inner = (if length msg \<le> 64
                   then (let inner_in' = splice_at inner_in 64 msg; tot = 64 + length msg;
                             tmp = splice_at (replicate 128 0) 0 (take tot inner_in')
                         in sha256_stream (take tot tmp) SHA_IV)
                   else snd (sha256_two_part ipad msg));
          outer_in = splice_at (splice_at (replicate 96 0) 0 opad) 64 inner
      in sha256 outer_in)"

text \<open>The \<open>while\<close> loop of \<open>pbkdf2\<close>, \<open>n\<close> more iterations.\<close>

primrec pbkdf2_loop :: "bytes \<Rightarrow> nat \<Rightarrow> bytes \<Rightarrow> bytes \<Rightarrow> bytes" where
  "pbkdf2_loop password 0 u acc = acc"
| "pbkdf2_loop password (Suc n) u acc =
     (let v = hmac_sha256 password u in pbkdf2_loop password n v (map (\<lambda>k. acc ! k XOR v ! k) [0..<32]))"

definition pbkdf2 :: "bytes \<Rightarrow> bytes \<Rightarrow> nat \<Rightarrow> bytes \<Rightarrow> bytes" where
  "pbkdf2 password salt iters out =
     (let dklen = min (length out) 32;
          sl = min (length salt) 60;
          msg = (splice_at (replicate 64 0) 0 (take sl salt))[sl := 0, sl + 1 := 0, sl + 2 := 0, sl + 3 := 1];
          u = hmac_sha256 password (take (sl + 4) msg);
          acc = pbkdf2_loop password (iters - 1) u u
      in splice_at out 0 (take dklen acc))"

definition hex_eq :: "bytes \<Rightarrow> bytes \<Rightarrow> bool" where
  "hex_eq a b = (if length a \<noteq> length b then False
     else fold (\<lambda>i d. d OR (a ! i XOR b ! i)) [0..<length a] 0 = 0)"

section \<open>Reference\<close>

definition sha_pad :: "bytes \<Rightarrow> bytes" where
  "sha_pad msg = msg @ 0x80 # replicate ((119 - length msg mod 64) mod 64) 0 @ len_bytes (length msg)"

definition sha_iterate :: "sha_state \<Rightarrow> bytes \<Rightarrow> sha_state" where
  "sha_iterate h s = fold (\<lambda>b h. sha256_compress h b) (chunks 64 (length s div 64) s) h"

definition sha_ref :: "sha_state \<Rightarrow> bytes \<Rightarrow> bytes" where
  "sha_ref h msg = digest_bytes (sha_iterate h (sha_pad msg))"

section \<open>Blocks\<close>

lemma length_len_bytes [simp]: "length (len_bytes n) = 8"
  by (simp add: len_bytes_def Let_def)

lemma length_digest [simp]: "length (digest_bytes h) = 32"
  by (simp add: digest_bytes_def length_concat o_def sum_list_triv)

lemma chunks_add: "chunks n (q + m) xs = chunks n q xs @ chunks n m (drop (n * q) xs)"
  by (induction q arbitrary: xs) (simp_all add: add.commute)

lemma chunks_take: "n * m \<le> k \<Longrightarrow> chunks n m (take k xs) = chunks n m xs"
proof (induction m arbitrary: k xs)
  case (Suc m)
  then have "n \<le> k" "n * m \<le> k - n" by simp_all
  with Suc.IH [OF this(2), of "drop n xs"] show ?case by (simp add: min_absorb1 drop_take)
qed simp

lemma chunks_append: "n * m \<le> length xs \<Longrightarrow> chunks n m (xs @ ys) = chunks n m xs"
  using chunks_take [of n m "length xs" "xs @ ys"] by simp

lemma div_mod_64: "64 * (n div 64) + n mod 64 = (n :: nat)" "n mod 64 < (64 :: nat)"
  by simp_all

lemma pad_zeros:
  assumes "r < (64 :: nat)"
  shows "r + 1 + (119 - r) mod 64 + 8 = (if r + 1 + 8 \<le> 64 then 64 else 128)"
proof (cases "r \<le> 55")
  case True
  then have "119 - r = (55 - r) + 64" by simp
  then have "(119 - r) mod 64 = 55 - r" using True by (simp only: mod_add_self2) simp
  then show ?thesis using True by simp
qed (use assms in simp)

lemma pad_len: "length (sha_pad msg) mod 64 = 0"
proof -
  let ?n = "length msg"
  have "length (sha_pad msg) = 64 * (?n div 64) + (?n mod 64 + 1 + (119 - ?n mod 64) mod 64 + 8)"
    using div_mod_64(1) [of ?n] by (simp add: sha_pad_def)
  then have "64 dvd length (sha_pad msg)"
    unfolding pad_zeros [OF div_mod_64(2) [of ?n]] by (simp only: dvd_add dvd_triv_left if_split) simp
  then show ?thesis by simp
qed

section \<open>The one-pass hashes\<close>

lemma sha_full_blocks_iterate:
  assumes "off + 64 * m + r = length msg" and "r < 64"
  shows "sha_full_blocks msg off h = (off + 64 * m, fold (\<lambda>b h. sha256_compress h b) (chunks 64 m (drop off msg)) h)"
  using assms
proof (induction m arbitrary: off h)
  case 0
  then show ?case by (subst sha_full_blocks.simps) simp
next
  case (Suc m)
  then have "sha_full_blocks msg (off + 64) (sha256_compress h (take 64 (drop off msg))) =
      (off + 64 + 64 * m, fold (\<lambda>b h. sha256_compress h b) (chunks 64 m (drop (off + 64) msg)) (sha256_compress h (take 64 (drop off msg))))"
    by (intro Suc.IH) simp_all
  with Suc.prems show ?case by (subst sha_full_blocks.simps) (simp add: add.commute)
qed

lemma sha_last_pad:
  assumes "off = 64 * (length msg div 64)"
  shows "\<exists>buf blocks. sha_last msg off = (blocks, buf) \<and>
    take (blocks * 64) buf = drop off (sha_pad msg) \<and> blocks * 64 = length (drop off (sha_pad msg)) \<and> length buf = 128"
proof -
  define r where "r = length msg mod 64"
  have r: "length msg - off = r" "r < 64" "length (drop off msg) = r" "off \<le> length msg"
    using assms by (simp_all add: r_def minus_mult_div_eq_mod)
  define blocks :: nat where "blocks = (if r + 1 + 8 \<le> 64 then 1 else 2)"
  define z where "z = (119 - r) mod 64"
  have z: "blocks * 64 = r + 1 + z + 8" using pad_zeros [OF r(2)] by (simp add: blocks_def z_def)
  have bl: "blocks = 1 \<or> blocks = 2" by (simp add: blocks_def)
  define buf where "buf = splice_at ((splice_at (replicate 128 0) 0 (drop off msg))[r := 0x80]) (blocks * 64 - 8) (len_bytes (length msg))"
  have last: "sha_last msg off = (blocks, buf)"
    by (simp add: sha_last_def Let_def r(1) blocks_def buf_def)
  have "128 - r = Suc (127 - r)" using r(2) by simp
  then have rep: "(replicate (128 - r) 0)[0 := 0x80] = (0x80 :: u8) # replicate (127 - r) 0"
    by (simp only: replicate.simps list_update.simps nat.case)
  have "(splice_at (replicate 128 0) 0 (drop off msg))[r := 0x80] = drop off msg @ 0x80 # replicate (127 - r) 0"
    using r rep by (simp add: splice_at_def list_update_append)
  moreover have "take (blocks * 64 - 8) (drop off msg @ 0x80 # replicate (127 - r) 0) = drop off msg @ 0x80 # replicate z 0"
    using z r bl by (auto simp: take_Cons' min_def)
  ultimately obtain y where "buf = ((drop off msg @ 0x80 # replicate z 0) @ len_bytes (length msg)) @ y"
    unfolding buf_def splice_at_def by (metis append.assoc)
  moreover have "blocks * 64 = length ((drop off msg @ 0x80 # replicate z 0) @ len_bytes (length msg))"
    using z r(1) by simp
  ultimately have "take (blocks * 64) buf = drop off msg @ 0x80 # replicate z 0 @ len_bytes (length msg)"
    by (simp only: append_eq_conv_conj [THEN iffD1, OF refl, THEN conjunct1, symmetric]) simp
  moreover have "drop off (sha_pad msg) = drop off msg @ 0x80 # replicate z 0 @ len_bytes (length msg)"
    using r(4) by (simp add: sha_pad_def z_def r_def)
  moreover have "length buf = 128" using bl r by (auto simp: buf_def)
  ultimately show ?thesis using last z r(3) by auto
qed

lemma fold_blocks:
  "fold (\<lambda>bi h. sha256_compress h (take 64 (drop (bi * 64) buf))) [0..<n] h =
    fold (\<lambda>b h. sha256_compress h b) (chunks 64 n buf) h"
proof -
  have "chunks 64 n buf = map (\<lambda>bi. take 64 (drop (bi * 64) buf)) [0..<n]"
  proof (induction n)
    case (Suc n)
    then show ?case using chunks_add [of 64 n 1 buf] by (simp add: mult.commute)
  qed simp
  then show ?thesis by (simp add: fold_map o_def)
qed

lemma sha256_stream_ref: "sha256_stream msg h = sha_ref h msg"
proof -
  define q where "q = length msg div 64"
  have full: "sha_full_blocks msg 0 h = (64 * q, fold (\<lambda>b h. sha256_compress h b) (chunks 64 q msg) h)"
    using sha_full_blocks_iterate [of 0 q "length msg mod 64" msg h] div_mod_64 [of "length msg"] by (simp add: q_def)
  obtain blocks buf where l: "sha_last msg (64 * q) = (blocks, buf)"
    "take (blocks * 64) buf = drop (64 * q) (sha_pad msg)" "blocks * 64 = length (drop (64 * q) (sha_pad msg))" "length buf = 128"
    using sha_last_pad [of "64 * q" msg] q_def by blast
  have "64 * q \<le> length msg" by (simp add: q_def)
  then have pq: "chunks 64 q (sha_pad msg) = chunks 64 q msg" "64 * q + 64 * blocks = length (sha_pad msg)"
    using l(3) chunks_append [of 64 q msg] by (simp_all add: sha_pad_def)
  have "chunks 64 blocks (drop (64 * q) (sha_pad msg)) = chunks 64 blocks buf"
    using chunks_take [of 64 blocks "blocks * 64" buf] l(2) by simp
  moreover have "length (sha_pad msg) div 64 = q + blocks" using pq(2) by simp
  ultimately show ?thesis
    by (simp add: sha256_stream_def sha_ref_def sha_iterate_def full l(1) fold_blocks chunks_add pq(1))
qed

text \<open>C22: The code's SHA-256 is the iterated hash: for every message, \<open>sha256\<close> is the digest of the
  compression function iterated over the message padded with \<open>0x80\<close>, zeros and the 64-bit
  length; the streaming variant from the same initial value gives the same digest.\<close>

theorem sha256_equiv: "sha256 msg = sha_ref SHA_IV msg \<and> sha256_stream msg SHA_IV = sha256 msg"
  using sha256_stream_ref [of msg SHA_IV] by (simp add: sha256_def sha256_stream_def)

section \<open>The incremental hash\<close>

text \<open>The state of the incremental hash after the bytes \<open>s\<close>.\<close>

definition absorbed :: "sha_state \<Rightarrow> bytes \<Rightarrow> sha_state \<times> bytes \<times> nat \<Rightarrow> bool" where
  "absorbed iv s st = (case st of (h, buf, fill) \<Rightarrow> fill = length s mod 64 \<and> length buf = 64 \<and>
     h = sha_iterate iv s \<and> take fill buf = drop (64 * (length s div 64)) s)"

lemma sha_iterate_append:
  assumes "length xs + length s mod 64 < 64"
  shows "sha_iterate iv (s @ xs) = sha_iterate iv s" "length (s @ xs) div 64 = length s div 64"
    "length (s @ xs) mod 64 = length s mod 64 + length xs"
proof -
  have n: "length (s @ xs) = 64 * (length s div 64) + (length s mod 64 + length xs)"
    using div_mod_64(1) [of "length s"] by simp
  then show d: "length (s @ xs) div 64 = length s div 64" "length (s @ xs) mod 64 = length s mod 64 + length xs"
    using assms by (simp_all only: div_mult_self4 mod_mult_self4) simp_all
  show "sha_iterate iv (s @ xs) = sha_iterate iv s"
    unfolding sha_iterate_def d by (simp add: chunks_append)
qed

lemma sha_iterate_full:
  assumes "length xs + length s mod 64 = 64"
  shows "sha_iterate iv (s @ xs) = sha256_compress (sha_iterate iv s) (drop (64 * (length s div 64)) s @ xs)"
    "length (s @ xs) div 64 = Suc (length s div 64)" "length (s @ xs) mod 64 = 0"
proof -
  have "a + b = 64 * (q + 1)" if "b + m = 64" "64 * q + m = a" for a b q m :: nat
    using that by simp
  from this [OF assms div_mod_64(1)] have n: "length (s @ xs) = 64 * (length s div 64 + 1)" by simp
  then show d: "length (s @ xs) div 64 = Suc (length s div 64)" "length (s @ xs) mod 64 = 0"
    by simp_all
  have "drop (64 * (length s div 64)) (s @ xs) = drop (64 * (length s div 64)) s @ xs" by simp
  moreover have "length (drop (64 * (length s div 64)) s @ xs) = 64"
    using assms by (simp add: minus_mult_div_eq_mod)
  ultimately show "sha_iterate iv (s @ xs) = sha256_compress (sha_iterate iv s) (drop (64 * (length s div 64)) s @ xs)"
    unfolding sha_iterate_def d(1) using chunks_add [of 64 "length s div 64" 1 "s @ xs"] by (simp add: chunks_append)
qed

lemma absorbed_step:
  assumes "absorbed iv s (h, buf, fill)" and "fill + length xs \<le> 64"
  shows "fill + length xs = 64 \<Longrightarrow> absorbed iv (s @ xs) (sha256_compress h (splice_at buf fill xs), splice_at buf fill xs, 0)"
    and "fill + length xs \<noteq> 64 \<Longrightarrow> absorbed iv (s @ xs) (h, splice_at buf fill xs, fill + length xs)"
proof -
  let ?b = "splice_at buf fill xs"
  have a: "fill = length s mod 64" "length buf = 64" "h = sha_iterate iv s" "take fill buf = drop (64 * (length s div 64)) s"
    using assms(1) unfolding absorbed_def by auto
  have tb: "take (fill + length xs) ?b = drop (64 * (length s div 64)) s @ xs"
    unfolding a(4) [symmetric] splice_at_def using a(2) assms(2) by simp
  have lb: "length ?b = 64" using a(2) assms(2) by simp
  show "absorbed iv (s @ xs) (sha256_compress h ?b, ?b, 0)" if f: "fill + length xs = 64"
  proof -
    have "?b = drop (64 * (length s div 64)) s @ xs" using tb lb f by simp
    moreover have e: "length xs + length s mod 64 = 64" using f a(1) by simp
    moreover have "length (s @ xs) = 64 * (length (s @ xs) div 64)"
      using sha_iterate_full(3) [OF e] by (simp add: mult_div_mod_eq [of 64, symmetric] flip: dvd_eq_mod_eq_0)
    ultimately show ?thesis
      using sha_iterate_full(1) [OF e, of iv] sha_iterate_full(2,3) [OF e] lb a(3) by (simp add: absorbed_def)
  qed
  show "absorbed iv (s @ xs) (h, ?b, fill + length xs)" if f: "fill + length xs \<noteq> 64"
  proof -
    have e: "length xs + length s mod 64 < 64" using f a(1) assms(2) by simp
    show ?thesis using sha_iterate_append(1) [OF e, of iv] sha_iterate_append(2,3) [OF e] lb a(1,3) tb by (simp add: absorbed_def)
  qed
qed

lemma absorbed_fill: "absorbed iv s (h, buf, fill) \<Longrightarrow> fill < 64"
  by (simp add: absorbed_def)

lemma sha_feed_absorbed: "absorbed iv s st \<Longrightarrow> absorbed iv (s @ drop o1 data) (sha_feed data o1 st)"
proof (induction data o1 st arbitrary: s rule: sha_feed.induct)
  case (1 data o1 h buf fill)
  let ?n = "min (64 - fill) (length data - o1)"
  let ?xs = "take ?n (drop o1 data)"
  let ?b = "splice_at buf fill ?xs"
  show ?case
  proof (cases "o1 < length data \<and> fill < 64")
    case False
    then show ?thesis using 1(3) absorbed_fill [OF 1(3)] by (subst sha_feed.simps) auto
  next
    case True
    have l: "length ?xs = ?n" "fill + length ?xs \<le> 64" using True by auto
    have app: "(s @ ?xs) @ drop (o1 + ?n) data = s @ drop o1 data"
      using append_take_drop_id [of ?n "drop o1 data"] by (simp add: add.commute)
    note step = absorbed_step [OF 1(3) l(2)]
    show ?thesis
    proof (cases "fill + ?n = 64")
      case full: True
      then have "sha_feed data o1 (h, buf, fill) = sha_feed data (o1 + ?n) (sha256_compress h ?b, ?b, 0)"
        using True by (subst sha_feed.simps) (simp add: Let_def)
      then show ?thesis
        using 1(1) [OF True refl refl refl full step(1)] full l(1) app by metis
    next
      case part: False
      then have "sha_feed data o1 (h, buf, fill) = sha_feed data (o1 + ?n) (h, ?b, fill + ?n)"
        using True by (subst sha_feed.simps) (simp add: Let_def)
      then show ?thesis
        using 1(2) [OF True refl refl refl part, of "s @ ?xs"] step(2) part l(1) app by metis
    qed
  qed
qed

lemma two_part_absorbed:
  obtains h buf where "sha_feed b 0 (sha_feed a 0 (SHA_IV, replicate 64 0, 0)) = (h, buf, (length a + length b) mod 64)"
    "absorbed SHA_IV (a @ b) (h, buf, (length a + length b) mod 64)"
proof -
  have "absorbed SHA_IV [] (SHA_IV, replicate 64 0, 0)" by (simp add: absorbed_def sha_iterate_def)
  from sha_feed_absorbed [OF sha_feed_absorbed [OF this, of 0 a], of 0 b]
  have ab: "absorbed SHA_IV (a @ b) (sha_feed b 0 (sha_feed a 0 (SHA_IV, replicate 64 0, 0)))" by simp
  obtain h buf fill where st: "sha_feed b 0 (sha_feed a 0 (SHA_IV, replicate 64 0, 0)) = (h, buf, fill)" by (metis prod_cases3)
  then have "fill = (length a + length b) mod 64" using ab by (simp add: absorbed_def)
  then show thesis using that ab st by simp
qed

lemma pad_one_more: "(n + (1 + (120 - n mod 64) mod 64 + 8)) mod 64 = (1 :: nat)"
proof -
  define r q where "r = n mod 64" and "q = n div 64"
  have n: "n = 64 * q + r" "r < 64" by (simp_all add: r_def q_def)
  have "(120 - r) mod 64 = 56 - r \<and> r \<le> 56 \<or> (120 - r) mod 64 = 120 - r \<and> 56 < r"
  proof (cases "r \<le> 56")
    case True
    then have "120 - r = (56 - r) + 64" by simp
    then show ?thesis using True by (simp only: mod_add_self2) simp
  qed (use n(2) in simp)
  then have "n + (1 + (120 - r) mod 64 + 8) = 1 + 64 * (q + 1) \<or> n + (1 + (120 - r) mod 64 + 8) = 1 + 64 * (q + 2)"
    using n by auto
  then show ?thesis unfolding r_def [symmetric] by (elim disjE) (simp_all only: mod_mult_self2, simp_all)
qed

text \<open>\<open>sha256_two_part\<close>, which HMAC uses for messages of more than 64 bytes, pads with one zero
  too many: whatever the two parts are, one byte, the last byte of the message length, is left
  in the buffer and never hashed (the assertion that the buffer is empty fails), and the result
  is the digest of the bytes before it instead of the SHA-256 of the concatenation.\<close>

theorem two_part_drops_last_byte:
  "sha256_two_part a b =
    (1, digest_bytes (sha_iterate SHA_IV
          (a @ b @ 0x80 # replicate ((120 - (length a + length b) mod 64) mod 64) 0 @ len_bytes (length a + length b))))"
proof -
  define n where "n = length a + length b"
  define k where "k = (120 - n mod 64) mod 64"
  obtain h buf where st: "sha_feed b 0 (sha_feed a 0 (SHA_IV, replicate 64 0, 0)) = (h, buf, n mod 64)"
    "absorbed SHA_IV (a @ b) (h, buf, n mod 64)" unfolding n_def by (rule two_part_absorbed)
  define pad :: bytes where "pad = 0x80 # replicate k 0 @ len_bytes n"
  have k: "k < 64" by (simp add: k_def)
  have "(replicate 128 0)[0 := 0x80] = (0x80 :: u8) # replicate 127 0" by code_simp
  then have pad: "take (1 + k + 8) (splice_at ((replicate 128 0)[0 := 0x80]) (1 + k) (len_bytes n)) = pad"
    using k by (simp add: splice_at_def pad_def min_def take_Cons')
  define fin where "fin = sha_feed pad 0 (h, buf, n mod 64)"
  obtain h' buf' fill' where f: "fin = (h', buf', fill')" by (metis prod_cases3)
  have "absorbed SHA_IV (a @ b @ pad) fin" using sha_feed_absorbed [OF st(2), of 0 pad] by (simp add: fin_def)
  then have f': "fill' = length (a @ b @ pad) mod 64" "h' = sha_iterate SHA_IV (a @ b @ pad)"
    unfolding f by (auto simp: absorbed_def)
  have "(n + (1 + k + 8)) mod 64 = 1" unfolding k_def by (rule pad_one_more)
  then have "fill' = 1" using f'(1) by (simp add: pad_def n_def add.assoc)
  then show ?thesis
    using st(1) f f'(2) unfolding sha256_two_part_def Let_def
    using pad by (simp add: n_def [symmetric] k_def [symmetric] fin_def pad_def)
qed

section \<open>HMAC and PBKDF2\<close>

definition hmac_key :: "bytes \<Rightarrow> bytes" where
  "hmac_key key = (let k0 = (if length key > 64 then sha_ref SHA_IV key else key) in k0 @ replicate (64 - length k0) 0)"

definition hmac_ref :: "bytes \<Rightarrow> bytes \<Rightarrow> bytes" where
  "hmac_ref key msg =
     sha_ref SHA_IV (map ((XOR) 0x5c) (hmac_key key) @ sha_ref SHA_IV (map ((XOR) 0x36) (hmac_key key) @ msg))"

text \<open>The blocks \<open>U\<^sub>1, U\<^sub>2, \<dots>\<close> of PBKDF2 after \<open>u\<close>, and their exclusive or.\<close>

primrec pbkdf2_blocks :: "bytes \<Rightarrow> nat \<Rightarrow> bytes \<Rightarrow> bytes list" where
  "pbkdf2_blocks password 0 u = []"
| "pbkdf2_blocks password (Suc n) u = (let v = hmac_ref password u in v # pbkdf2_blocks password n v)"

definition pbkdf2_ref :: "bytes \<Rightarrow> bytes \<Rightarrow> nat \<Rightarrow> bytes" where
  "pbkdf2_ref password salt iters =
     (let u1 = hmac_ref password (salt @ [0, 0, 0, 1])
      in foldl xor_bytes u1 (pbkdf2_blocks password (iters - 1) u1))"

lemma length_sha_ref [simp]: "length (sha_ref h msg) = 32"
  by (simp add: sha_ref_def)

lemma sha256_ref: "sha256 msg = sha_ref SHA_IV msg"
  using sha256_stream_ref [of msg SHA_IV] by (simp add: sha256_def sha256_stream_def)

lemma length_hmac_key [simp]: "length (hmac_key key) = 64"
  by (simp add: hmac_key_def Let_def)

lemma splice_pad: "length xs \<le> n \<Longrightarrow> splice_at (replicate n 0) 0 xs = xs @ replicate (n - length xs) 0"
  by (simp add: splice_at_def)

lemma map_key_index: "length k = 64 \<Longrightarrow> map (\<lambda>i. c XOR k ! i) [0..<64] = map ((XOR) c) (k :: bytes)"
  by (rule nth_equalityI) simp_all

lemma hmac_sha256_ref:
  assumes "length msg \<le> 64"
  shows "hmac_sha256 key msg = hmac_ref key msg"
proof -
  have k: "(if length key > 64 then splice_at (replicate 64 0) 0 (sha256 key) else splice_at (replicate 64 0) 0 key) = hmac_key key"
    by (simp add: hmac_key_def splice_pad sha256_ref Let_def)
  define ipad opad where "ipad = map ((XOR) 0x36) (hmac_key key)" and "opad = map ((XOR) 0x5c) (hmac_key key)"
  have l: "length ipad = 64" "length opad = 64" by (simp_all add: ipad_def opad_def)
  have "take (64 + length msg) (splice_at (splice_at (replicate 128 0) 0 ipad) 64 msg) = ipad @ msg"
    using l assms by (simp add: splice_at_def)
  moreover have "take (64 + length msg) (splice_at (replicate 128 0) 0 (ipad @ msg)) = ipad @ msg"
    using l assms by (simp add: splice_at_def)
  moreover have "splice_at (splice_at (replicate 96 0) 0 opad) 64 (sha_ref SHA_IV (ipad @ msg)) = opad @ sha_ref SHA_IV (ipad @ msg)"
    using l by (simp add: splice_at_def)
  ultimately show ?thesis
    unfolding hmac_sha256_def k Let_def map_key_index [OF length_hmac_key] ipad_def [symmetric] opad_def [symmetric]
    using assms by (simp add: hmac_ref_def ipad_def [symmetric] opad_def [symmetric] sha256_stream_ref sha256_ref)
qed

lemma length_hmac_ref [simp]: "length (hmac_ref key msg) = 32"
  by (simp add: hmac_ref_def)

lemma pbkdf2_loop_blocks:
  "length u = 32 \<Longrightarrow> length acc = 32 \<Longrightarrow>
    pbkdf2_loop password n u acc = foldl xor_bytes acc (pbkdf2_blocks password n u)"
proof (induction n arbitrary: u acc)
  case (Suc n)
  have "map (\<lambda>k. acc ! k XOR hmac_ref password u ! k) [0..<32] = xor_bytes acc (hmac_ref password u)"
    by (rule nth_equalityI) (use Suc.prems in simp_all)
  then show ?case using Suc by (simp add: Let_def hmac_sha256_ref)
qed simp

text \<open>C23: HMAC and PBKDF2 follow their definitions as long as the padding fault is not reached: for a
  message of at most 64 bytes \<open>hmac_sha256\<close> is the hash of the outer key block and the hash of
  the inner key block and the message, and \<open>pbkdf2\<close> (whose messages are that short when the
  salt has at most 60 bytes) fills the output with the leading bytes of the exclusive or of the
  iterated HMAC blocks.\<close>

theorem hmac_pbkdf2_equiv:
  assumes "length msg \<le> 64" and "length salt \<le> 60"
  shows "hmac_sha256 key msg = hmac_ref key msg \<and>
    pbkdf2 password salt iters out = splice_at out 0 (take (length out) (pbkdf2_ref password salt iters))"
proof -
  let ?sl = "length salt"
  have "replicate (64 - ?sl) 0 = [0, 0, 0, 0] @ replicate (60 - ?sl) (0 :: u8)"
    using assms(2) by (simp add: replicate_add [symmetric] numeral_eq_Suc Suc_diff_le)
  then have msg: "take (?sl + 4) ((splice_at (replicate 64 0) 0 salt)[?sl := 0, ?sl + 1 := 0, ?sl + 2 := 0, ?sl + 3 := 1]) = salt @ [0, 0, 0, 1]"
    using assms(2) by (simp add: splice_pad list_update_append)
  define u where "u = hmac_ref password (salt @ [0, 0, 0, 1])"
  have u: "hmac_sha256 password (salt @ [0, 0, 0, 1]) = u" "length u = 32"
    using assms(2) by (simp_all add: u_def hmac_sha256_ref)
  have "length (foldl xor_bytes u bs) \<le> 32" for bs
    by (induction bs rule: rev_induct) (use u(2) in auto)
  moreover have "take (min n 32) xs = take n xs" if "length xs \<le> 32" for n and xs :: bytes
    using that by (cases "n \<le> 32") (simp_all add: min_def)
  ultimately have "take (min (length out) 32) (pbkdf2_ref password salt iters) = take (length out) (pbkdf2_ref password salt iters)"
    unfolding pbkdf2_ref_def u_def [symmetric] Let_def by blast
  moreover have "pbkdf2_loop password (iters - 1) u u = pbkdf2_ref password salt iters"
    using pbkdf2_loop_blocks [OF u(2) u(2)] by (simp add: pbkdf2_ref_def u_def [symmetric])
  ultimately have "pbkdf2 password salt iters out = splice_at out 0 (take (length out) (pbkdf2_ref password salt iters))"
    unfolding pbkdf2_def Let_def using assms(2) msg by (simp add: min_absorb1 u(1))
  then show ?thesis using hmac_sha256_ref [OF assms(1)] by blast
qed

theorem hmac_pbkdf2_equiv_witness:
  "hmac_sha256 (replicate 20 0x0b) [72, 105] = hmac_ref (replicate 20 0x0b) [72, 105] \<and>
    pbkdf2 [112] [115] 4096 (replicate 16 0) = splice_at (replicate 16 0) 0 (take (length (replicate 16 (0 :: u8))) (pbkdf2_ref [112] [115] 4096))"
  by (rule hmac_pbkdf2_equiv) simp_all

lemma hex_eq_iff: "hex_eq a b \<longleftrightarrow> a = b"
proof (cases "length a = length b")
  case True
  have F: "fold (\<lambda>i d. d OR (a ! i XOR b ! i)) is d = 0 \<longleftrightarrow> d = 0 \<and> (\<forall>i\<in>set is. a ! i = b ! i)" for "is" d
  proof (induction "is" arbitrary: d)
    case (Cons i "is")
    have "a ! i XOR b ! i = 0 \<longleftrightarrow> a ! i = b ! i"
      using xor_cancel_right [of "a ! i" "b ! i"] by auto
    then show ?case by (simp add: Cons or_eq_0_iff)
  qed simp
  have "a = b \<longleftrightarrow> (\<forall>i\<in>set [0..<length a]. a ! i = b ! i)"
    using nth_equalityI [OF True] by fastforce
  then show ?thesis unfolding hex_eq_def F using True by metis
qed (auto simp: hex_eq_def)

end
