(* ===== verification/Driver_Interface.thy ===== *)
theory Driver_Interface
  imports Vfs
begin

text \<open>
  What the file system switch relies on a driver for: a handle stands for the content of a file,
  \<open>write\<close> replaces a range of it and may be short, \<open>read\<close> returns the bytes at an offset. The
  client's side, that data written through a descriptor is read back through it, is proved once
  here from these laws.
\<close>

locale fs_driver =
  fixes ops :: "'d fs_ops"
    and inv :: "'d \<Rightarrow> bool"
    and content :: "'d \<Rightarrow> u64 \<Rightarrow> bytes option"
  assumes write_law: "inv d \<Longrightarrow> content d h = Some c \<Longrightarrow> unat off \<le> length c \<Longrightarrow>
      \<exists>n d'. fs_write ops h buf off d = (Some n, d') \<and> inv d' \<and> n \<le> length buf \<and>
        content d' h = Some (take (unat off) c @ take n buf @ drop (unat off + n) c)"
    and read_law: "inv d \<Longrightarrow> content d h = Some c \<Longrightarrow>
      \<exists>n d'. fs_read ops h buf off d = ((Some n, splice_at buf 0 (take n (drop (unat off) c))), d') \<and> inv d' \<and>
        content d' h = Some c \<and> n = min (length buf) (length c - unat off)"
begin

lemma vfs_write_content:
  assumes "inv (FS s)" and "fd_file fd s = Some f" and "get_driver s (driver_idx f) = Some ops"
    and "f_flags f AND 3 \<noteq> 0" and "content (FS s) (handle f) = Some c" and "unat (f_offset f) \<le> length c"
    and "vfs_ok s" and "vfs_write fd buf s = (r, s1)"
  shows "\<exists>n f1. r = int n \<and> n \<le> length buf \<and> inv (FS s1) \<and> fd_file fd s1 = Some f1 \<and>
    handle f1 = handle f \<and> driver_idx f1 = driver_idx f \<and> f_flags f1 = f_flags f \<and>
    f_offset f1 = f_offset f + of_nat n \<and> get_driver s1 (driver_idx f1) = Some ops \<and> vfs_ok s1 \<and>
    content (FS s1) (handle f) = Some (take (unat (f_offset f)) c @ take n buf @ drop (unat (f_offset f) + n) c)"
proof -
  obtain n d' where w: "fs_write ops (handle f) buf (f_offset f) (FS s) = (Some n, d')" "inv d'" "n \<le> length buf"
    "content d' (handle f) = Some (take (unat (f_offset f)) c @ take n buf @ drop (unat (f_offset f) + n) c)"
    using write_law [OF assms(1,5,6), of buf] by blast
  have fd: "nat fd < length (OPEN_FILES s)" "\<not> (fd < 0 \<or> nat fd \<ge> MAX_OPEN_FILES)"
    using assms(2,7) by (auto simp: fd_file_def vfs_ok_def split: if_splits)
  define f1 where "f1 = f\<lparr>f_offset := f_offset f + of_nat n,
    f_size := (if f_offset f + of_nat n > ucast (f_size f) then ucast (f_offset f + of_nat n) else f_size f)\<rparr>"
  have "s1 = s\<lparr>FS := d', OPEN_FILES := (OPEN_FILES s)[nat fd := Some f1]\<rparr>" "r = int n"
    using assms(8) w(1) assms(2-4) by (simp_all add: vfs_write_def Let_def f1_def)
  moreover have "handle f1 = handle f" "driver_idx f1 = driver_idx f" "f_flags f1 = f_flags f" "f_offset f1 = f_offset f + of_nat n"
    by (simp_all add: f1_def)
  ultimately show ?thesis
    using w fd assms(3,7) by (intro exI [of _ n] exI [of _ f1]) (simp add: fd_file_def get_driver_def vfs_ok_def split: if_splits)
qed

text \<open>Writing, seeking back and reading gives the bytes written.\<close>

lemma vfs_readback:
  assumes "inv (FS s)" and "fd_file fd s = Some f" and "get_driver s (driver_idx f) = Some ops"
    and "f_flags f AND 3 \<noteq> 0" and "content (FS s) (handle f) = Some c" and "unat (f_offset f) \<le> length c"
    and "vfs_ok s" and "vfs_write fd buf s = (r, s1)" and "vfs_lseek fd (f_offset f) 0 s1 = (q, s2)"
    and "int (length out) = r"
  shows "fst (vfs_read fd out s2) = (r, take (nat r) buf)"
proof -
  obtain n f1 where W: "r = int n" "n \<le> length buf" "inv (FS s1)" "fd_file fd s1 = Some f1"
    "handle f1 = handle f" "get_driver s1 (driver_idx f1) = Some ops" "vfs_ok s1"
    "content (FS s1) (handle f) = Some (take (unat (f_offset f)) c @ take n buf @ drop (unat (f_offset f) + n) c)"
    using vfs_write_content [OF assms(1-8)] by blast
  let ?c = "take (unat (f_offset f)) c @ take n buf @ drop (unat (f_offset f) + n) c"
  have fd: "nat fd < length (OPEN_FILES s1)" "\<not> (fd < 0 \<or> nat fd \<ge> MAX_OPEN_FILES)"
    using W(4,7) by (auto simp: fd_file_def vfs_ok_def split: if_splits)
  let ?f2 = "f1\<lparr>f_offset := f_offset f\<rparr>"
  have s2: "s2 = s1\<lparr>OPEN_FILES := (OPEN_FILES s1)[nat fd := Some ?f2]\<rparr>"
    using assms(9) W(4) by (simp add: vfs_lseek_def)
  then have f2: "fd_file fd s2 = Some ?f2" "get_driver s2 (driver_idx ?f2) = Some ops" "FS s2 = FS s1"
    using fd W(6) by (simp_all add: fd_file_def get_driver_def split: if_splits)
  have "content (FS s2) (handle ?f2) = Some ?c" using W(5,8) f2(3) by simp
  from read_law [OF W(3) [folded f2(3)] this, of out "f_offset ?f2"] obtain m d' where
    R: "fs_read ops (handle ?f2) out (f_offset f) (FS s2) = ((Some m, splice_at out 0 (take m (drop (unat (f_offset f)) ?c))), d')"
    "m = min (length out) (length ?c - unat (f_offset f))" by auto
  have l: "length out = n" using assms(10) W(1) by simp
  have "drop (unat (f_offset f)) ?c = take n buf @ drop (unat (f_offset f) + n) c" using assms(6) by simp
  moreover have "m = n" using R(2) l W(2) assms(6) by simp
  ultimately have "splice_at out 0 (take m (drop (unat (f_offset f)) ?c)) = take n buf"
    using l W(2) by (simp add: splice_at_def)
  then show ?thesis using R(1) f2 \<open>m = n\<close> W(1) by (simp add: vfs_read_def)
qed

end

end
