(* ===== verification/Tmpfs.thy ===== *)
theory Tmpfs
  imports Driver_Interface
begin

text \<open>
  The RAM file system mounted at \<open>/tmp\<close>, \<open>kernel/src/tmpfs.rs\<close>: a flat table of 32 files of at most
  8192 bytes, and a table of handles. A file's buffer is the list of bytes behind its pointer;
  \<open>KMEM\<close> gives, for each call of \<open>kmalloc(MAX_FILE_SIZE)\<close>, the block it returned with whatever the
  heap left in it, or \<open>None\<close> for a null pointer, so that the model makes no assumption on the
  heap. Two results: the driver refines a map from names to contents, and it satisfies
  \<open>fs_driver\<close>, the contract of the switch.
\<close>

section \<open>State\<close>

definition MAX_FILES :: nat where "MAX_FILES = 32"
definition MAX_FILE_SIZE :: nat where "MAX_FILE_SIZE = 8192"

record tmp_file =
  t_in_use :: bool
  t_is_dir :: bool
  t_name :: bytes
  t_name_len :: nat
  t_data :: "bytes option"
  t_size :: nat
  t_cap :: nat

definition tmp_file_empty :: tmp_file where
  "tmp_file_empty = \<lparr>t_in_use = False, t_is_dir = False, t_name = replicate MAX_NAME 0, t_name_len = 0,
     t_data = None, t_size = 0, t_cap = 0\<rparr>"

record tmpfs =
  FILES :: "tmp_file list"
  HANDLES :: "nat option list"
  KMEM :: "nat \<Rightarrow> bytes option"
  KCALLS :: nat

section \<open>Names\<close>

fun strip_lead :: "bytes \<Rightarrow> bytes" where
  "strip_lead (a # b # p) = (if a = 0x2F then strip_lead (b # p) else a # b # p)"
| "strip_lead p = p"

function strip_trail :: "bytes \<Rightarrow> bytes" where
  "strip_trail p = (if length p > 1 \<and> last p = 0x2F then strip_trail (butlast p) else p)"
  by auto
termination by (relation "measure length") auto

declare strip_trail.simps [simp del]

definition norm :: "bytes \<Rightarrow> bytes" where
  "norm path =
     (let p = strip_lead path in
      if p = [0x2F] then []
      else let p2 = strip_trail p in
           case rposition (\<lambda>c. c = 0x2F) p2 of Some pos \<Rightarrow> drop (pos + 1) p2 | None \<Rightarrow> p2)"

definition name_is :: "bytes \<Rightarrow> tmp_file \<Rightarrow> bool" where
  "name_is nm f \<longleftrightarrow> t_in_use f \<and> \<not> t_is_dir f \<and> t_name_len f = length nm \<and> take (length nm) (t_name f) = nm"

definition tmp_find :: "tmpfs \<Rightarrow> bytes \<Rightarrow> nat option" where
  "tmp_find t nm = (if nm = [] then None else find_idx MAX_FILES (\<lambda>i. name_is nm (FILES t ! i)))"

definition tmp_free_slot :: "tmpfs \<Rightarrow> nat option" where
  "tmp_free_slot t = find_idx MAX_FILES (\<lambda>i. \<not> t_in_use (FILES t ! i))"

definition free_handle :: "tmpfs \<Rightarrow> nat option" where
  "free_handle t = find_idx MAX_FILES (\<lambda>h. HANDLES t ! h = None)"

section \<open>Operations\<close>

definition tmp_create :: "bytes \<Rightarrow> tmpfs \<Rightarrow> u64 option \<times> tmpfs" where
  "tmp_create nm t =
     (case tmp_free_slot t of
        None \<Rightarrow> (None, t)
      | Some slot \<Rightarrow>
          (let r = KMEM t (KCALLS t); t1 = t\<lparr>KCALLS := KCALLS t + 1\<rparr> in
           case r of
             None \<Rightarrow> (None, t1)
           | Some data \<Rightarrow>
               (let f = FILES t1 ! slot;
                    f' = f\<lparr>t_in_use := True, t_is_dir := False, t_name := splice_at (t_name f) 0 nm,
                           t_name_len := length nm, t_data := Some data, t_size := 0, t_cap := MAX_FILE_SIZE\<rparr>;
                    t2 = t1\<lparr>FILES := (FILES t1)[slot := f']\<rparr>
                in case free_handle t2 of
                     Some h \<Rightarrow> (Some (of_nat h), t2\<lparr>HANDLES := (HANDLES t2)[h := Some slot]\<rparr>)
                   | None \<Rightarrow> (None, t2\<lparr>FILES := (FILES t2)[slot := tmp_file_empty]\<rparr>))))"

definition tmp_open :: "bytes \<Rightarrow> u64 \<Rightarrow> tmpfs \<Rightarrow> u64 option \<times> tmpfs" where
  "tmp_open path flags t =
     (let nm = norm path in
      if nm = [] then (Some (NOT 0), t)
      else if length nm > MAX_NAME then (None, t)
      else case tmp_find t nm of
        Some idx \<Rightarrow>
          (let t1 = (if flags AND 0x200 \<noteq> 0
                     then t\<lparr>FILES := (FILES t)[idx := (FILES t ! idx)\<lparr>t_size := 0\<rparr>]\<rparr> else t)
           in case free_handle t1 of
                Some h \<Rightarrow> (Some (of_nat h), t1\<lparr>HANDLES := (HANDLES t1)[h := Some idx]\<rparr>)
              | None \<Rightarrow> (None, t1))
      | None \<Rightarrow> if flags AND 0x100 = 0 then (None, t) else tmp_create nm t)"

definition tmp_close :: "u64 \<Rightarrow> tmpfs \<Rightarrow> tmpfs" where
  "tmp_close h t =
     (if h = NOT 0 then t
      else if unat h < MAX_FILES then t\<lparr>HANDLES := (HANDLES t)[unat h := None]\<rparr> else t)"

definition handle_file :: "u64 \<Rightarrow> tmpfs \<Rightarrow> nat option" where
  "handle_file h t = (if unat h \<ge> MAX_FILES then None else HANDLES t ! unat h)"

definition tmp_read :: "u64 \<Rightarrow> bytes \<Rightarrow> u64 \<Rightarrow> tmpfs \<Rightarrow> (nat option \<times> bytes) \<times> tmpfs" where
  "tmp_read h buf offset t =
     (if h = NOT 0 then ((Some 0, buf), t)
      else case handle_file h t of
        None \<Rightarrow> ((None, buf), t)
      | Some idx \<Rightarrow>
          (let f = FILES t ! idx; off = unat offset in
           if off \<ge> t_size f then ((Some 0, buf), t)
           else let n = min (length buf) (t_size f - off)
                in ((Some n, splice_at buf 0 (take n (drop off (the (t_data f))))), t)))"

definition tmp_write :: "u64 \<Rightarrow> bytes \<Rightarrow> u64 \<Rightarrow> tmpfs \<Rightarrow> nat option \<times> tmpfs" where
  "tmp_write h buf offset t =
     (if h = NOT 0 then (None, t)
      else case handle_file h t of
        None \<Rightarrow> (None, t)
      | Some idx \<Rightarrow>
          (let f = FILES t ! idx; off = unat offset in
           if off > MAX_FILE_SIZE then (None, t)
           else let n = min (length buf) (MAX_FILE_SIZE - off);
                    f1 = f\<lparr>t_data := Some (splice_at (the (t_data f)) off (take n buf))\<rparr>;
                    f2 = (if off + n > t_size f1 then f1\<lparr>t_size := off + n\<rparr> else f1)
                in (Some n, t\<lparr>FILES := (FILES t)[idx := f2]\<rparr>)))"

definition tmp_stat :: "bytes \<Rightarrow> tmpfs \<Rightarrow> stat_info option \<times> tmpfs" where
  "tmp_stat path t =
     (let nm = norm path in
      if nm = [] then (Some \<lparr>st_size = 0, st_is_dir = True, st_cluster = 0\<rparr>, t)
      else (map_option (\<lambda>idx. \<lparr>st_size = of_nat (t_size (FILES t ! idx)), st_is_dir = False, st_cluster = of_nat idx\<rparr>)
              (tmp_find t nm), t))"

definition dir_entry_of :: "tmp_file \<Rightarrow> dir_entry" where
  "dir_entry_of f = (let l = min (t_name_len f) 32 in
     \<lparr>de_name = splice_at (replicate 32 0) 0 (take l (t_name f)), de_is_dir = False, de_size = of_nat (t_size f)\<rparr>)"

definition tmp_readdir :: "bytes \<Rightarrow> dir_entry list \<Rightarrow> tmpfs \<Rightarrow> (nat option \<times> dir_entry list) \<times> tmpfs" where
  "tmp_readdir path entries t =
     (if norm path \<noteq> [] then ((None, entries), t)
      else let (n, es) = fold (\<lambda>i (n, es). if t_in_use (FILES t ! i) \<and> n < length es
                                then (n + 1, es[n := dir_entry_of (FILES t ! i)]) else (n, es)) [0..<MAX_FILES] (0, entries)
           in ((Some n, es), t))"

definition tmp_mkdir :: "bytes \<Rightarrow> tmpfs \<Rightarrow> bool \<times> tmpfs" where
  "tmp_mkdir path t = (True, t)"

definition tmp_rmdir :: "bytes \<Rightarrow> tmpfs \<Rightarrow> bool \<times> tmpfs" where
  "tmp_rmdir path t = (True, t)"

definition tmp_unlink :: "bytes \<Rightarrow> tmpfs \<Rightarrow> bool \<times> tmpfs" where
  "tmp_unlink path t =
     (case tmp_find t (norm path) of
        None \<Rightarrow> (False, t)
      | Some idx \<Rightarrow>
          (True, t\<lparr>HANDLES := map (\<lambda>x. if x = Some idx then None else x) (HANDLES t),
                   FILES := (FILES t)[idx := tmp_file_empty]\<rparr>))"

definition TMP_OPS :: "tmpfs fs_ops" where
  "TMP_OPS = \<lparr>fs_open = tmp_open, fs_close = tmp_close, fs_read = tmp_read, fs_write = tmp_write, fs_stat = tmp_stat,
     fs_readdir = tmp_readdir, fs_mkdir = tmp_mkdir, fs_rmdir = tmp_rmdir, fs_unlink = tmp_unlink\<rparr>"

definition tmpfs_init :: "tmpfs vfs \<Rightarrow> bool \<times> tmpfs vfs" where
  "tmpfs_init s =
     (let (idx, s1) = register_driver (Some TMP_OPS) s in
      if idx = NOT 0 then (False, s1) else mount (ascii ''/tmp'') (unat idx) s1)"

section \<open>Invariant\<close>

definition file_ok :: "tmp_file \<Rightarrow> bool" where
  "file_ok f \<longleftrightarrow> (\<exists>b. t_data f = Some b \<and> length b = MAX_FILE_SIZE) \<and> t_size f \<le> MAX_FILE_SIZE \<and> \<not> t_is_dir f \<and>
     0 < t_name_len f \<and> t_name_len f \<le> MAX_NAME"

definition tmp_ok :: "tmpfs \<Rightarrow> bool" where
  "tmp_ok t \<longleftrightarrow> length (FILES t) = MAX_FILES \<and> length (HANDLES t) = MAX_FILES \<and>
     (\<forall>i<MAX_FILES. length (t_name (FILES t ! i)) = MAX_NAME \<and> (t_in_use (FILES t ! i) \<longrightarrow> file_ok (FILES t ! i))) \<and>
     (\<forall>h i. h < MAX_FILES \<and> HANDLES t ! h = Some i \<longrightarrow> i < MAX_FILES \<and> t_in_use (FILES t ! i)) \<and>
     (\<forall>n b. KMEM t n = Some b \<longrightarrow> length b = MAX_FILE_SIZE) \<and>
     (\<forall>i j nm. i < MAX_FILES \<and> j < MAX_FILES \<and> name_is nm (FILES t ! i) \<and> name_is nm (FILES t ! j) \<longrightarrow> i = j)"

definition file_content :: "tmp_file \<Rightarrow> bytes" where
  "file_content f = take (t_size f) (the (t_data f))"

text \<open>The abstraction: the map from names to contents.\<close>

definition files_of :: "tmpfs \<Rightarrow> bytes \<Rightarrow> bytes option" where
  "files_of t nm = map_option (\<lambda>i. file_content (FILES t ! i)) (tmp_find t nm)"

lemma tmp_okD:
  assumes "tmp_ok t"
  shows "length (FILES t) = MAX_FILES" "length (HANDLES t) = MAX_FILES"
    and "i < MAX_FILES \<Longrightarrow> t_in_use (FILES t ! i) \<Longrightarrow> file_ok (FILES t ! i)"
    and "i < MAX_FILES \<Longrightarrow> length (t_name (FILES t ! i)) = MAX_NAME"
    and "h < MAX_FILES \<Longrightarrow> HANDLES t ! h = Some i \<Longrightarrow> i < MAX_FILES \<and> t_in_use (FILES t ! i)"
    and "KMEM t n = Some b \<Longrightarrow> length b = MAX_FILE_SIZE"
    and "i < MAX_FILES \<Longrightarrow> j < MAX_FILES \<Longrightarrow> name_is nm (FILES t ! i) \<Longrightarrow> name_is nm (FILES t ! j) \<Longrightarrow> i = j"
  using assms unfolding tmp_ok_def by blast+

lemma tmp_find_Some_iff:
  assumes "tmp_ok t"
  shows "tmp_find t nm = Some i \<longleftrightarrow> nm \<noteq> [] \<and> i < MAX_FILES \<and> name_is nm (FILES t ! i)"
proof
  show "tmp_find t nm = Some i \<Longrightarrow> nm \<noteq> [] \<and> i < MAX_FILES \<and> name_is nm (FILES t ! i)"
    using find_idx_SomeD [of MAX_FILES _ i] by (auto simp: tmp_find_def split: if_splits)
  assume "nm \<noteq> [] \<and> i < MAX_FILES \<and> name_is nm (FILES t ! i)"
  then show "tmp_find t nm = Some i"
    unfolding tmp_find_def using tmp_okD(7) [OF assms, of i] find_idx_eq_SomeI [of i MAX_FILES "\<lambda>i. name_is nm (FILES t ! i)"]
    by (metis less_irrefl less_trans)
qed

lemma handle_file_ok:
  assumes "tmp_ok t" and "handle_file h t = Some idx"
  shows "idx < MAX_FILES" "t_in_use (FILES t ! idx)" "file_ok (FILES t ! idx)" "h \<noteq> NOT 0" "unat h < MAX_FILES"
proof -
  have h: "unat h < MAX_FILES" "HANDLES t ! unat h = Some idx"
    using assms(2) by (auto simp: handle_file_def split: if_splits)
  show "unat h < MAX_FILES" by (rule h)
  show "idx < MAX_FILES" "t_in_use (FILES t ! idx)" using tmp_okD(5) [OF assms(1) h] by blast+
  then show "file_ok (FILES t ! idx)" using tmp_okD(3) [OF assms(1)] by blast
  have "unat (NOT 0 :: u64) = 2 ^ 64 - 1" by (simp add: unsigned_minus_1_eq_mask mask_eq_exp_minus_1)
  then show "h \<noteq> NOT 0" using h(1) by (auto simp: MAX_FILES_def)
qed

text \<open>Replacing a file's content keeps names, handles and the other files.\<close>

lemma update_file:
  assumes "tmp_ok t" and "idx < MAX_FILES" and "t_in_use (FILES t ! idx)"
    and "t_in_use f \<and> t_is_dir f = t_is_dir (FILES t ! idx) \<and> t_name f = t_name (FILES t ! idx) \<and> t_name_len f = t_name_len (FILES t ! idx)"
    and "file_ok f" and "t' = t\<lparr>FILES := (FILES t)[idx := f]\<rparr>"
  shows "tmp_ok t'" and "tmp_find t' nm = tmp_find t nm"
    and "files_of t' nm = (if tmp_find t nm = Some idx then Some (file_content f) else files_of t nm)"
proof -
  have nm: "name_is q (FILES t' ! i) \<longleftrightarrow> name_is q (FILES t ! i)" if "i < MAX_FILES" for q i
    using assms(2,3,4,6) that tmp_okD(1) [OF assms(1)] by (cases "i = idx") (auto simp: name_is_def)
  show F: "tmp_find t' nm = tmp_find t nm" for nm
    unfolding tmp_find_def by (auto intro!: find_idx_cong nm)
  have fl: "FILES t' ! i = (if i = idx then f else FILES t ! i)" for i
    using assms(2,6) tmp_okD(1) [OF assms(1)] by simp
  show "tmp_ok t'"
    unfolding tmp_ok_def
  proof (intro conjI allI impI)
    fix i j q assume "i < MAX_FILES \<and> j < MAX_FILES \<and> name_is q (FILES t' ! i) \<and> name_is q (FILES t' ! j)"
    then show "i = j" using tmp_okD(7) [OF assms(1), of i j q] nm by blast
  next
    fix i assume i: "i < MAX_FILES"
    show "length (t_name (FILES t' ! i)) = MAX_NAME" using tmp_okD(4) [OF assms(1)] i assms(2,4) by (auto simp: fl)
    show "file_ok (FILES t' ! i)" if "t_in_use (FILES t' ! i)"
      using that tmp_okD(3) [OF assms(1) i] assms(5) by (auto simp: fl split: if_splits)
  next
    fix h i assume "h < MAX_FILES \<and> HANDLES t' ! h = Some i"
    then have "i < MAX_FILES \<and> t_in_use (FILES t ! i)" using tmp_okD(5) [OF assms(1), of h i] by (simp add: assms(6))
    then show "i < MAX_FILES" "t_in_use (FILES t' ! i)" using assms(4) by (auto simp: fl)
  qed (use tmp_okD(1,2,6) [OF assms(1)] in \<open>auto simp: assms(6)\<close>)
  show "files_of t' nm = (if tmp_find t nm = Some idx then Some (file_content f) else files_of t nm)"
    unfolding files_of_def F by (cases "tmp_find t nm") (auto simp: fl)
qed

section \<open>Writing and reading\<close>

definition content_of :: "tmpfs \<Rightarrow> u64 \<Rightarrow> bytes option" where
  "content_of t h = map_option (\<lambda>i. file_content (FILES t ! i)) (handle_file h t)"

lemma write_content:
  assumes "file_ok f" and "off \<le> t_size f" and "n = min (length buf) (MAX_FILE_SIZE - off)"
    and "f1 = f\<lparr>t_data := Some (splice_at (the (t_data f)) off (take n buf))\<rparr>"
    and "f2 = (if off + n > t_size f1 then f1\<lparr>t_size := off + n\<rparr> else f1)"
  shows "file_ok f2" and "file_content f2 = take off (file_content f) @ take n buf @ drop (off + n) (file_content f)"
proof -
  obtain b where b: "t_data f = Some b" "length b = MAX_FILE_SIZE" "t_size f \<le> MAX_FILE_SIZE"
    using assms(1) by (auto simp: file_ok_def)
  have n: "off + n \<le> MAX_FILE_SIZE" "length (take n buf) = n" using assms(2,3) b(3) by simp_all
  show "file_ok f2" using assms(1,4,5) b n by (simp add: file_ok_def)
  have "file_content f2 = take (max (t_size f) (off + n)) (splice_at b off (take n buf))"
    using assms(4,5) b(1) by (auto simp: file_content_def max_def)
  also have "\<dots> = take off b @ take n buf @ take (t_size f - (off + n)) (drop (off + n) b)"
    using n b(2) assms(2) by (auto simp: splice_at_def max_def min_def)
  finally show "file_content f2 = take off (file_content f) @ take n buf @ drop (off + n) (file_content f)"
    using b(1) assms(2) by (simp add: file_content_def min_absorb1 drop_take)
qed

lemma tmp_write_ok:
  assumes ok: "tmp_ok t" and h: "handle_file h t = Some idx" and off: "unat off \<le> t_size (FILES t ! idx)"
  shows "\<exists>n t'. tmp_write h buf off t = (Some n, t') \<and> n = min (length buf) (MAX_FILE_SIZE - unat off) \<and> tmp_ok t' \<and>
    HANDLES t' = HANDLES t \<and>
    file_content (FILES t' ! idx) = take (unat off) (file_content (FILES t ! idx)) @ take n buf @ drop (unat off + n) (file_content (FILES t ! idx)) \<and>
    (\<forall>nm. files_of t' nm = (if tmp_find t nm = Some idx then Some (file_content (FILES t' ! idx)) else files_of t nm))"
proof -
  note H = handle_file_ok [OF ok h]
  let ?f = "FILES t ! idx"
  define n where "n = min (length buf) (MAX_FILE_SIZE - unat off)"
  define f1 where "f1 = ?f\<lparr>t_data := Some (splice_at (the (t_data ?f)) (unat off) (take n buf))\<rparr>"
  define f2 where "f2 = (if unat off + n > t_size f1 then f1\<lparr>t_size := unat off + n\<rparr> else f1)"
  define t' where "t' = t\<lparr>FILES := (FILES t)[idx := f2]\<rparr>"
  note C = write_content [OF H(3) off n_def f1_def f2_def]
  have "unat off \<le> MAX_FILE_SIZE" using off H(3) by (simp add: file_ok_def)
  then have w: "tmp_write h buf off t = (Some n, t')"
    using H(4) h by (simp add: tmp_write_def Let_def n_def [symmetric] f1_def t'_def f2_def)
  have same: "t_in_use f2 \<and> t_is_dir f2 = t_is_dir ?f \<and> t_name f2 = t_name ?f \<and> t_name_len f2 = t_name_len ?f"
    using H(2) by (simp add: f2_def f1_def)
  note U = update_file [OF ok H(1,2) same C(1) t'_def]
  have "FILES t' ! idx = f2" using H(1) tmp_okD(1) [OF ok] by (simp add: t'_def)
  then show ?thesis using w U(1,3) C(2) n_def by (intro exI [of _ n] exI [of _ t']) (simp add: t'_def)
qed

interpretation tmp: fs_driver TMP_OPS tmp_ok content_of
proof unfold_locales
  fix d h c and off :: u64 and buf
  assume ok: "tmp_ok d" and c: "content_of d h = Some c" and off: "unat off \<le> length c"
  then obtain idx where i: "handle_file h d = Some idx" "c = file_content (FILES d ! idx)" by (auto simp: content_of_def)
  have "t_size (FILES d ! idx) = length c" using handle_file_ok(3) [OF ok i(1)] i(2) by (auto simp: file_content_def file_ok_def)
  with off obtain n t' where w: "tmp_write h buf off d = (Some n, t')" "n = min (length buf) (MAX_FILE_SIZE - unat off)" "tmp_ok t'"
    "HANDLES t' = HANDLES d" "file_content (FILES t' ! idx) = take (unat off) c @ take n buf @ drop (unat off + n) c"
    using tmp_write_ok [OF ok i(1), of off buf] i(2) by auto
  then have "content_of t' h = Some (take (unat off) c @ take n buf @ drop (unat off + n) c)"
    using i(1) by (simp add: content_of_def handle_file_def split: if_splits)
  then show "\<exists>n d'. fs_write TMP_OPS h buf off d = (Some n, d') \<and> tmp_ok d' \<and> n \<le> length buf \<and>
      content_of d' h = Some (take (unat off) c @ take n buf @ drop (unat off + n) c)"
    using w by (simp add: TMP_OPS_def)
next
  fix d h c and buf :: bytes and off :: u64
  assume ok: "tmp_ok d" and c: "content_of d h = Some c"
  then obtain idx where i: "handle_file h d = Some idx" "c = file_content (FILES d ! idx)" by (auto simp: content_of_def)
  note H = handle_file_ok [OF ok i(1)]
  let ?n = "min (length buf) (length c - unat off)"
  have l: "length c = t_size (FILES d ! idx)" using H(3) i(2) by (auto simp: file_content_def file_ok_def)
  have "take ?n (drop (unat off) (the (t_data (FILES d ! idx)))) = take ?n (drop (unat off) c)"
    unfolding i(2) using l i(2) by (simp add: file_content_def drop_take min_def)
  then have "tmp_read h buf off d = ((Some ?n, splice_at buf 0 (take ?n (drop (unat off) c))), d)"
    using H(4) i(1) l by (auto simp: tmp_read_def Let_def)
  then show "\<exists>n d'. fs_read TMP_OPS h buf off d = ((Some n, splice_at buf 0 (take n (drop (unat off) c))), d') \<and> tmp_ok d' \<and>
      content_of d' h = Some c \<and> n = min (length buf) (length c - unat off)"
    using ok c by (simp add: TMP_OPS_def)
qed

section \<open>Opening, closing and removing\<close>

lemma name_is_unique: "name_is p f \<Longrightarrow> name_is q f \<Longrightarrow> p = q"
  by (auto simp: name_is_def)

lemma set_handle:
  assumes "tmp_ok t" and "x = None \<or> (\<exists>i. x = Some i \<and> i < MAX_FILES \<and> t_in_use (FILES t ! i))"
  shows "tmp_ok (t\<lparr>HANDLES := (HANDLES t)[h := x]\<rparr>)" and "files_of (t\<lparr>HANDLES := (HANDLES t)[h := x]\<rparr>) = files_of t"
proof -
  show "files_of (t\<lparr>HANDLES := (HANDLES t)[h := x]\<rparr>) = files_of t"
    by (rule ext) (simp add: files_of_def tmp_find_def)
  have H: "i < MAX_FILES \<and> t_in_use (FILES t ! i)" if "k < MAX_FILES" "(HANDLES t)[h := x] ! k = Some i" for k i
    using that assms(2) tmp_okD(2,5) [OF assms(1)] by (cases "k = h") auto
  define t' where "t' = t\<lparr>HANDLES := (HANDLES t)[h := x]\<rparr>"
  have t': "FILES t' = FILES t" "HANDLES t' = (HANDLES t)[h := x]" "KMEM t' = KMEM t" by (simp_all add: t'_def)
  have "tmp_ok t'" unfolding tmp_ok_def t' length_list_update using assms(1) [unfolded tmp_ok_def] H by blast
  then show "tmp_ok (t\<lparr>HANDLES := (HANDLES t)[h := x]\<rparr>)" by (simp add: t'_def)
qed

text \<open>Putting a file into an unused slot.\<close>

lemma fill_slot:
  assumes "tmp_ok t" and "slot < MAX_FILES" and "\<not> t_in_use (FILES t ! slot)"
    and "length (t_name f) = MAX_NAME" and "t_in_use f \<longrightarrow> file_ok f \<and> (\<forall>nm. name_is nm f \<longrightarrow> tmp_find t nm = None)"
    and "t' = t\<lparr>FILES := (FILES t)[slot := f]\<rparr>"
  shows "tmp_ok t'" and "files_of t' nm = (if nm \<noteq> [] \<and> name_is nm f then Some (file_content f) else files_of t nm)"
proof -
  have fl: "FILES t' ! i = (if i = slot then f else FILES t ! i)" for i
    using assms(2,6) tmp_okD(1) [OF assms(1)] by simp
  have fresh: "\<not> name_is q (FILES t ! j)" if "name_is q f" "j < MAX_FILES" for q j
  proof
    assume "name_is q (FILES t ! j)"
    moreover have "t_in_use f" "q \<noteq> []" using that assms(5) by (auto simp: name_is_def file_ok_def)
    ultimately have "tmp_find t q = Some j" using tmp_find_Some_iff [OF assms(1)] that by blast
    then show False using assms(5) that \<open>t_in_use f\<close> by auto
  qed
  have old: "\<not> name_is q (FILES t ! slot)" for q using assms(3) by (simp add: name_is_def)
  show ok: "tmp_ok t'"
    unfolding tmp_ok_def
  proof (intro conjI allI impI)
    fix i j q assume "i < MAX_FILES \<and> j < MAX_FILES \<and> name_is q (FILES t' ! i) \<and> name_is q (FILES t' ! j)"
    then show "i = j" using tmp_okD(7) [OF assms(1), of i j q] fresh [of q i] fresh [of q j]
      unfolding fl by (metis (full_types))
  next
    fix i assume i: "i < MAX_FILES"
    show "length (t_name (FILES t' ! i)) = MAX_NAME" using tmp_okD(4) [OF assms(1)] i assms(4) by (auto simp: fl)
    show "file_ok (FILES t' ! i)" if "t_in_use (FILES t' ! i)"
      using that tmp_okD(3) [OF assms(1) i] assms(5) by (auto simp: fl split: if_splits)
  next
    fix h i assume "h < MAX_FILES \<and> HANDLES t' ! h = Some i"
    then have "i < MAX_FILES \<and> t_in_use (FILES t ! i)" using tmp_okD(5) [OF assms(1), of h i] by (simp add: assms(6))
    then show "i < MAX_FILES" "t_in_use (FILES t' ! i)" using assms(3) by (auto simp: fl)
  qed (use tmp_okD(1,2,6) [OF assms(1)] in \<open>auto simp: assms(6)\<close>)
  show "files_of t' nm = (if nm \<noteq> [] \<and> name_is nm f then Some (file_content f) else files_of t nm)"
  proof (cases "nm \<noteq> [] \<and> name_is nm f")
    case True
    then have "tmp_find t' nm = Some slot" using tmp_find_Some_iff [OF ok] assms(2) by (simp add: fl)
    then show ?thesis using True by (simp add: files_of_def fl)
  next
    case False
    have "tmp_find t' nm = tmp_find t nm"
      unfolding tmp_find_def using False old by (auto intro!: find_idx_cong simp: fl)
    moreover have "tmp_find t nm \<noteq> Some slot" using tmp_find_Some_iff [OF assms(1)] old by blast
    ultimately show ?thesis using False by (auto simp: files_of_def fl option.map_comp split: option.splits intro!: option.map_cong)
  qed
qed

lemma free_handle_set:
  assumes "tmp_ok t" and "free_handle t = Some h" and "i < MAX_FILES" and "t_in_use (FILES t ! i)"
  shows "content_of (t\<lparr>HANDLES := (HANDLES t)[h := Some i]\<rparr>) (of_nat h) = Some (file_content (FILES t ! i))"
proof -
  have h: "h < MAX_FILES" using assms(2) find_idx_SomeD(1) by (simp add: free_handle_def)
  then have "unat (of_nat h :: u64) = h" by (intro unat_of_nat64) (simp add: MAX_FILES_def)
  then show ?thesis using h tmp_okD(2) [OF assms(1)] by (simp add: content_of_def handle_file_def)
qed

lemma tmp_create_ok:
  assumes ok: "tmp_ok t" and nm: "nm \<noteq> []" "length nm \<le> MAX_NAME" and new: "tmp_find t nm = None"
    and run: "tmp_create nm t = (r, t')"
  shows "tmp_ok t' \<and> files_of t' = (if r = None then files_of t else (files_of t)(nm \<mapsto> [])) \<and>
    (\<forall>h. r = Some h \<longrightarrow> content_of t' h = Some [])"
proof (cases "tmp_free_slot t")
  case None
  then show ?thesis using run ok by (auto simp: tmp_create_def)
next
  case (Some slot)
  have slot: "slot < MAX_FILES" "\<not> t_in_use (FILES t ! slot)"
    using find_idx_SomeD(1,2) [OF Some [unfolded tmp_free_slot_def]] by blast+
  let ?t1 = "t\<lparr>KCALLS := KCALLS t + 1\<rparr>"
  have ok1: "tmp_ok ?t1" and f1: "files_of ?t1 = files_of t" "tmp_find ?t1 nm = tmp_find t nm"
    using ok by (auto simp: tmp_ok_def files_of_def tmp_find_def)
  show ?thesis
  proof (cases "KMEM t (KCALLS t)")
    case None
    then show ?thesis using run Some ok1 f1 by (auto simp: tmp_create_def Let_def)
  next
    case mem: (Some data)
    let ?f = "FILES ?t1 ! slot"
    define f' where "f' = ?f\<lparr>t_in_use := True, t_is_dir := False, t_name := splice_at (t_name ?f) 0 nm,
      t_name_len := length nm, t_data := Some data, t_size := 0, t_cap := MAX_FILE_SIZE\<rparr>"
    define t2 where "t2 = ?t1\<lparr>FILES := (FILES ?t1)[slot := f']\<rparr>"
    have create: "tmp_create nm t = (case free_handle t2 of
        Some h \<Rightarrow> (Some (of_nat h), t2\<lparr>HANDLES := (HANDLES t2)[h := Some slot]\<rparr>)
      | None \<Rightarrow> (None, t2\<lparr>FILES := (FILES t2)[slot := tmp_file_empty]\<rparr>))"
      unfolding t2_def f'_def tmp_create_def Let_def Some option.case mem by (rule refl)
    have ln: "length (t_name f') = MAX_NAME" using tmp_okD(4) [OF ok slot(1)] nm(2) by (simp add: f'_def)
    have fo: "file_ok f'" using tmp_okD(6) [OF ok mem] nm by (simp add: file_ok_def f'_def)
    have isnm: "name_is nm f'" using nm(2) by (simp add: name_is_def f'_def splice_at_def)
    have fc: "file_content f' = []" by (simp add: file_content_def f'_def)
    have pre: "t_in_use f' \<longrightarrow> file_ok f' \<and> (\<forall>q. name_is q f' \<longrightarrow> tmp_find ?t1 q = None)"
      using fo new f1(2) name_is_unique [OF isnm] by auto
    have "\<not> t_in_use (FILES ?t1 ! slot)" using slot(2) by simp
    note F = fill_slot [OF ok1 slot(1) this ln pre t2_def]
    note ok2 = F(1)
    have fl2: "files_of t2 = (files_of t)(nm \<mapsto> [])"
    proof
      fix q
      have "name_is q f' \<longleftrightarrow> q = nm" using isnm name_is_unique [OF isnm, of q] by blast
      then show "files_of t2 q = ((files_of t)(nm \<mapsto> [])) q" using F(2) [of q] nm(1) fc unfolding f1(1) by simp
    qed
    have in2: "slot < MAX_FILES" "FILES t2 ! slot = f'" "t_in_use (FILES t2 ! slot)"
      using slot(1) tmp_okD(1) [OF ok] by (simp_all add: t2_def f'_def)
    show ?thesis
    proof (cases "free_handle t2")
      case (Some h)
      then have "r = Some (of_nat h)" "t' = t2\<lparr>HANDLES := (HANDLES t2)[h := Some slot]\<rparr>"
        using run create by simp_all
      moreover have "Some slot = None \<or> (\<exists>i. Some slot = Some i \<and> i < MAX_FILES \<and> t_in_use (FILES t2 ! i))"
        using in2 by blast
      note set_handle [OF ok2 this, of h]
      moreover have "content_of (t2\<lparr>HANDLES := (HANDLES t2)[h := Some slot]\<rparr>) (of_nat h) = Some []"
        using free_handle_set [OF ok2 Some in2(1,3)] in2(2) fc by simp
      ultimately show ?thesis using fl2 by simp
    next
      case None
      then have r: "r = None" "t' = t2\<lparr>FILES := (FILES t2)[slot := tmp_file_empty]\<rparr>"
        using run create by simp_all
      then have t': "t' = ?t1\<lparr>FILES := (FILES ?t1)[slot := tmp_file_empty]\<rparr>" by (simp add: t2_def)
      have "length (t_name tmp_file_empty) = MAX_NAME" "\<not> t_in_use tmp_file_empty" by (simp_all add: tmp_file_empty_def)
      have "\<not> t_in_use (FILES ?t1 ! slot)" using slot(2) by simp
      note E = fill_slot [OF ok1 slot(1) this \<open>length (t_name tmp_file_empty) = MAX_NAME\<close> _ t']
      have "tmp_ok t'" using E(1) slot(2) \<open>\<not> t_in_use tmp_file_empty\<close> by simp
      moreover have "files_of t' = files_of t"
        using E(2) slot(2) \<open>\<not> t_in_use tmp_file_empty\<close> f1(1) by (simp add: name_is_def fun_eq_iff)
      ultimately show ?thesis using r(1) by simp
    qed
  qed
qed

lemma tmp_open_ok:
  assumes ok: "tmp_ok t" and nm: "norm path \<noteq> []" "length (norm path) \<le> MAX_NAME" and run: "tmp_open path flags t = (r, t')"
  shows "tmp_ok t' \<and>
    files_of t' = (if files_of t (norm path) = None then (if r = None then files_of t else (files_of t)(norm path \<mapsto> []))
                   else if flags AND 0x200 \<noteq> 0 then (files_of t)(norm path \<mapsto> []) else files_of t) \<and>
    (\<forall>h. r = Some h \<longrightarrow> content_of t' h = files_of t' (norm path))"
proof (cases "tmp_find t (norm path)")
  case None
  then have "files_of t (norm path) = None" by (simp add: files_of_def)
  moreover have "(r, t') = (if flags AND 0x100 = 0 then (None, t) else tmp_create (norm path) t)"
    using run nm None by (simp add: tmp_open_def Let_def)
  ultimately show ?thesis
    using ok tmp_create_ok [OF ok nm None, of r t'] by (auto split: if_splits)
next
  case (Some idx)
  then have i: "idx < MAX_FILES" "name_is (norm path) (FILES t ! idx)" using tmp_find_Some_iff [OF ok] by blast+
  then have use: "t_in_use (FILES t ! idx)" by (simp add: name_is_def)
  note fo = tmp_okD(3) [OF ok i(1) use]
  define f where "f = (if flags AND 0x200 \<noteq> 0 then (FILES t ! idx)\<lparr>t_size := 0\<rparr> else FILES t ! idx)"
  define t1 where "t1 = t\<lparr>FILES := (FILES t)[idx := f]\<rparr>"
  have t1: "(if flags AND 0x200 \<noteq> 0 then t\<lparr>FILES := (FILES t)[idx := (FILES t ! idx)\<lparr>t_size := 0\<rparr>]\<rparr> else t) = t1"
    using tmp_okD(1) [OF ok] i(1) by (cases t) (simp add: t1_def f_def)
  have same: "t_in_use f \<and> t_is_dir f = t_is_dir (FILES t ! idx) \<and> t_name f = t_name (FILES t ! idx) \<and> t_name_len f = t_name_len (FILES t ! idx)"
    using use by (simp add: f_def)
  have "file_ok f" using fo by (auto simp: f_def file_ok_def)
  note U = update_file [OF ok i(1) use same this t1_def]
  have only: "tmp_find t q = Some idx \<longleftrightarrow> q = norm path" for q
    using i nm(1) name_is_unique tmp_find_Some_iff [OF ok, of q idx] by blast
  have fs: "files_of t1 q = (if q = norm path then Some (file_content f) else files_of t q)" for q
    using U(3) [of q] unfolding only .
  have had: "files_of t (norm path) = Some (file_content (FILES t ! idx))" using Some by (simp add: files_of_def)
  have "files_of t1 = (if flags AND 0x200 \<noteq> 0 then (files_of t)(norm path \<mapsto> []) else files_of t)"
    by (rule ext) (simp add: fs f_def file_content_def had)
  moreover have in1: "t_in_use (FILES t1 ! idx)" "FILES t1 ! idx = f" using same i(1) tmp_okD(1) [OF ok] by (simp_all add: t1_def)
  moreover have "(r, t') = (case free_handle t1 of Some h \<Rightarrow> (Some (of_nat h), t1\<lparr>HANDLES := (HANDLES t1)[h := Some idx]\<rparr>) | None \<Rightarrow> (None, t1))"
    using run nm Some by (simp add: tmp_open_def Let_def t1 split: option.splits)
  moreover have "Some idx = None \<or> (\<exists>i. Some idx = Some i \<and> i < MAX_FILES \<and> t_in_use (FILES t1 ! i))" using i(1) in1 by blast
  note set_handle [OF U(1) this]
  moreover have "content_of (t1\<lparr>HANDLES := (HANDLES t1)[h := Some idx]\<rparr>) (of_nat h) = files_of t1 (norm path)"
    if "free_handle t1 = Some h" for h
    using free_handle_set [OF U(1) that i(1) in1(1)] in1(2) fs by simp
  ultimately show ?thesis using U(1) had by (auto split: option.splits)
qed

lemma tmp_unlink_ok:
  assumes ok: "tmp_ok t" and run: "tmp_unlink path t = (b, t')"
  shows "tmp_ok t' \<and> files_of t' = (files_of t)(norm path := None) \<and> (b \<longleftrightarrow> files_of t (norm path) \<noteq> None)"
proof (cases "tmp_find t (norm path)")
  case None
  then show ?thesis using run ok by (auto simp: tmp_unlink_def files_of_def fun_eq_iff)
next
  case (Some idx)
  then have i: "idx < MAX_FILES" "name_is (norm path) (FILES t ! idx)" "norm path \<noteq> []" using tmp_find_Some_iff [OF ok] by blast+
  define hs where "hs = map (\<lambda>x. if x = Some idx then None else x) (HANDLES t)"
  have t': "t' = t\<lparr>HANDLES := hs, FILES := (FILES t)[idx := tmp_file_empty]\<rparr>" "b"
    using run Some by (simp_all add: tmp_unlink_def hs_def)
  have fl: "FILES t' ! k = (if k = idx then tmp_file_empty else FILES t ! k)" for k
    using i(1) tmp_okD(1) [OF ok] by (simp add: t')
  have nn: "name_is q (FILES t' ! k) \<longleftrightarrow> name_is q (FILES t ! k) \<and> k \<noteq> idx" for q k
    by (simp add: fl name_is_def tmp_file_empty_def)
  have ok': "tmp_ok t'"
    unfolding tmp_ok_def
  proof (intro conjI allI impI)
    fix p j q assume "p < MAX_FILES \<and> j < MAX_FILES \<and> name_is q (FILES t' ! p) \<and> name_is q (FILES t' ! j)"
    then show "p = j" unfolding nn using tmp_okD(7) [OF ok] by blast
  next
    fix h k assume "h < MAX_FILES \<and> HANDLES t' ! h = Some k"
    then have "HANDLES t ! h = Some k \<and> k \<noteq> idx \<and> h < MAX_FILES"
      using tmp_okD(2) [OF ok] by (auto simp: t' hs_def split: if_splits)
    then show "k < MAX_FILES" "t_in_use (FILES t' ! k)" using tmp_okD(5) [OF ok, of h k] by (auto simp: fl)
  next
    fix k assume k: "k < MAX_FILES"
    show "length (t_name (FILES t' ! k)) = MAX_NAME" using tmp_okD(4) [OF ok k] by (simp add: fl tmp_file_empty_def)
    show "file_ok (FILES t' ! k)" if "t_in_use (FILES t' ! k)"
      using that tmp_okD(3) [OF ok k] by (auto simp: fl tmp_file_empty_def split: if_splits)
  qed (use tmp_okD(1,2,6) [OF ok] in \<open>auto simp: t' hs_def\<close>)
  have find: "tmp_find t' q = (if q = norm path then None else tmp_find t q)" for q
  proof (cases "tmp_find t' q")
    case None
    then show ?thesis using tmp_find_Some_iff [OF ok', of q] tmp_find_Some_iff [OF ok, of q] i name_is_unique nn
      by (cases "tmp_find t q") (auto, metis option.distinct(1))
  next
    case (Some k)
    then have k: "q \<noteq> []" "k < MAX_FILES" "name_is q (FILES t ! k)" "k \<noteq> idx" using tmp_find_Some_iff [OF ok'] nn by blast+
    then have "tmp_find t q = Some k" using tmp_find_Some_iff [OF ok] by blast
    moreover have "q \<noteq> norm path" using k i tmp_okD(7) [OF ok] by blast
    ultimately show ?thesis using Some by simp
  qed
  have "files_of t' q = ((files_of t)(norm path := None)) q" for q
  proof (cases "tmp_find t' q")
    case None
    then show ?thesis using find [of q] by (auto simp: files_of_def split: if_splits)
  next
    case (Some k)
    then have "k \<noteq> idx" using tmp_find_Some_iff [OF ok', of q k] nn by blast
    then have "FILES t' ! k = FILES t ! k" by (simp add: fl)
    moreover have "q \<noteq> norm path" "tmp_find t q = Some k" using find [of q] Some by (auto split: if_splits)
    ultimately show ?thesis using Some by (simp add: files_of_def)
  qed
  then show ?thesis using ok' t'(2) Some by (auto simp: files_of_def)
qed

section \<open>Properties\<close>

text \<open>A handle that stands for the file with a name.\<close>

definition names_file :: "tmpfs \<Rightarrow> u64 \<Rightarrow> bytes \<Rightarrow> bool" where
  "names_file t h nm \<longleftrightarrow> (\<exists>idx. handle_file h t = Some idx \<and> tmp_find t nm = Some idx)"

lemma write_refines:
  assumes "tmp_ok t" and "names_file t h nm" and "files_of t nm = Some c" and "unat off \<le> length c"
  shows "\<exists>n t'. tmp_write h buf off t = (Some n, t') \<and> n = min (length buf) (MAX_FILE_SIZE - unat off) \<and> tmp_ok t' \<and>
    files_of t' = (files_of t)(nm \<mapsto> take (unat off) c @ take n buf @ drop (unat off + n) c)"
proof -
  obtain idx where i: "handle_file h t = Some idx" "tmp_find t nm = Some idx" using assms(2) by (auto simp: names_file_def)
  then have c: "c = file_content (FILES t ! idx)" using assms(3) by (simp add: files_of_def)
  have "t_size (FILES t ! idx) = length c" using handle_file_ok(3) [OF assms(1) i(1)] c by (auto simp: file_content_def file_ok_def)
  then obtain n t' where w: "tmp_write h buf off t = (Some n, t')" "n = min (length buf) (MAX_FILE_SIZE - unat off)" "tmp_ok t'"
    "file_content (FILES t' ! idx) = take (unat off) c @ take n buf @ drop (unat off + n) c"
    "\<forall>q. files_of t' q = (if tmp_find t q = Some idx then Some (file_content (FILES t' ! idx)) else files_of t q)"
    using tmp_write_ok [OF assms(1) i(1), of off buf] assms(4) c by auto
  have "tmp_find t q = Some idx \<longleftrightarrow> q = nm" for q
    using i(2) tmp_find_Some_iff [OF assms(1)] name_is_unique by blast
  then have "files_of t' = (files_of t)(nm \<mapsto> take (unat off) c @ take n buf @ drop (unat off + n) c)"
    using w(4,5) by (intro ext) simp
  then show ?thesis using w(1-3) by blast
qed


text \<open>Through the switch, a file on the RAM file system reads back what was written to it: after a
  write through a descriptor (open for writing, positioned at or below the end of the file),
  seeking back and reading as many bytes returns exactly those bytes.\<close>

theorem vfs_tmpfs_readback:
  assumes "vfs_ok s" and "tmp_ok (FS s)" and "fd_file fd s = Some f" and "get_driver s (driver_idx f) = Some TMP_OPS"
    and "f_flags f AND 3 \<noteq> 0" and "content_of (FS s) (handle f) = Some c" and "unat (f_offset f) \<le> length c"
    and "vfs_write fd buf s = (r, s1)" and "vfs_lseek fd (f_offset f) 0 s1 = (q, s2)" and "int (length out) = r"
  shows "fst (vfs_read fd out s2) = (r, take (nat r) buf)"
  by (rule tmp.vfs_readback [OF assms(2-7) assms(1) assms(8-10)])

text \<open>A gap in a file shows old kernel memory: when the first write to an empty file starts at offset
  \<open>k\<close>, reading the file from the start returns the first \<open>k\<close> bytes of the heap block exactly as
  \<open>kmalloc\<close> left it (nothing clears it).\<close>

theorem gap_exposes_heap:
  assumes "tmp_ok t" and "handle_file h t = Some idx" and "t_size (FILES t ! idx) = 0" and "t_data (FILES t ! idx) = Some block"
    and "k < MAX_FILE_SIZE" and "tmp_write h [x] (of_nat k) t = (r, t')"
  shows "r = Some 1 \<and> fst (tmp_read h (replicate k 0) 0 t') = (Some k, take k block)"
proof -
  note H = handle_file_ok [OF assms(1,2)]
  have k: "unat (of_nat k :: u64) = k" using assms(5) by (intro unat_of_nat64) (simp add: MAX_FILE_SIZE_def)
  have len: "length block = MAX_FILE_SIZE" using H(3) assms(4) by (simp add: file_ok_def)
  define f where "f = (FILES t ! idx)\<lparr>t_data := Some (splice_at block k [x]), t_size := k + 1\<rparr>"
  have "min 1 (MAX_FILE_SIZE - k) = 1" using assms(5) by simp
  then have w: "r = Some 1" "t' = t\<lparr>FILES := (FILES t)[idx := f]\<rparr>"
    using assms H(4) k by (auto simp: tmp_write_def Let_def f_def)
  have "handle_file h t' = Some idx" using assms(2) w(2) by (simp add: handle_file_def split: if_splits)
  moreover have "FILES t' ! idx = f" using w(2) H(1) tmp_okD(1) [OF assms(1)] by simp
  moreover have "take k (splice_at block k [x]) = take k block" using len assms(5) by (simp add: splice_at_def)
  ultimately have "fst (tmp_read h (replicate k 0) 0 t') = (Some k, splice_at (replicate k 0) 0 (take k block))"
    using H(4) by (simp add: tmp_read_def Let_def f_def min_def)
  then show ?thesis using w(1) len assms(5) by (simp add: splice_at_def)
qed

section \<open>Concrete file systems\<close>

text \<open>One file \<open>"a"\<close> of \<open>n\<close> bytes, open under handle 0, in a block the heap left filled with \<open>0x5A\<close>.\<close>

definition demo_file :: "nat \<Rightarrow> tmp_file" where
  "demo_file n = \<lparr>t_in_use = True, t_is_dir = False, t_name = 0x61 # replicate 31 0, t_name_len = 1,
     t_data = Some (replicate MAX_FILE_SIZE 0x5A), t_size = n, t_cap = MAX_FILE_SIZE\<rparr>"

definition demo_tmp :: "nat \<Rightarrow> tmpfs" where
  "demo_tmp n = \<lparr>FILES = demo_file n # replicate 31 tmp_file_empty, HANDLES = Some 0 # replicate 31 None,
     KMEM = (\<lambda>_. None), KCALLS = 0\<rparr>"

lemma demo_tmp_files: "FILES (demo_tmp n) ! i = (if i = 0 then demo_file n else tmp_file_empty)" if "i < MAX_FILES"
  using that by (cases i) (simp_all add: demo_tmp_def MAX_FILES_def)

lemma demo_tmp_ok:
  assumes "n \<le> MAX_FILE_SIZE"
  shows "tmp_ok (demo_tmp n)"
  unfolding tmp_ok_def
proof (intro conjI allI impI)
  fix i j nm assume a: "i < MAX_FILES \<and> j < MAX_FILES \<and> name_is nm (FILES (demo_tmp n) ! i) \<and> name_is nm (FILES (demo_tmp n) ! j)"
  then have "i = 0" "j = 0"
    using demo_tmp_files [of i n] demo_tmp_files [of j n] by (auto simp: name_is_def tmp_file_empty_def split: if_splits)
  then show "i = j" by simp
next
  fix i assume "i < MAX_FILES"
  then show "length (t_name (FILES (demo_tmp n) ! i)) = MAX_NAME"
    by (simp add: demo_tmp_files demo_file_def tmp_file_empty_def MAX_NAME_def)
  assume "t_in_use (FILES (demo_tmp n) ! i)"
  then show "file_ok (FILES (demo_tmp n) ! i)"
    using assms demo_tmp_files [OF \<open>i < MAX_FILES\<close>, of n]
    by (auto simp: demo_file_def tmp_file_empty_def file_ok_def MAX_NAME_def split: if_splits)
next
  fix h i assume "h < MAX_FILES \<and> HANDLES (demo_tmp n) ! h = Some i"
  then have "i = 0" by (cases h) (auto simp: demo_tmp_def MAX_FILES_def)
  then show "i < MAX_FILES" "t_in_use (FILES (demo_tmp n) ! i)" by (simp_all add: demo_tmp_def demo_file_def MAX_FILES_def)
qed (simp_all add: demo_tmp_def MAX_FILES_def)

lemma demo_tmp_handle: "handle_file 0 (demo_tmp n) = Some 0"
  by (simp add: handle_file_def demo_tmp_def MAX_FILES_def)


theorem gap_exposes_heap_witness:
  "fst (tmp_read 0 (replicate 2 0) 0 (snd (tmp_write 0 [7] (of_nat 2) (demo_tmp 0)))) = (Some 2, [0x5A, 0x5A])"
proof -
  have "tmp_ok (demo_tmp 0)" by (rule demo_tmp_ok) simp
  moreover have "t_size (FILES (demo_tmp 0) ! 0) = 0" "t_data (FILES (demo_tmp 0) ! 0) = Some (replicate MAX_FILE_SIZE 0x5A)"
    by (simp_all add: demo_tmp_def demo_file_def)
  moreover have "take 2 (replicate MAX_FILE_SIZE (0x5A :: u8)) = [0x5A, 0x5A]" by (simp add: MAX_FILE_SIZE_def numeral_2_eq_2)
  ultimately show ?thesis
    using gap_exposes_heap [OF _ demo_tmp_handle, of 0 _ 2 7 "fst (tmp_write 0 [7] (of_nat 2) (demo_tmp 0))"
        "snd (tmp_write 0 [7] (of_nat 2) (demo_tmp 0))"] by (simp add: MAX_FILE_SIZE_def)
qed

definition demo_tmp_vfs :: "tmpfs vfs" where
  "demo_tmp_vfs = permdb.extend demo_perms \<lparr>DRIVERS = Some TMP_OPS # replicate 7 None, DRIVER_COUNT = 1,
     MOUNTS = replicate 8 mount_free,
     OPEN_FILES = Some \<lparr>driver_idx = 0, handle = 0, f_offset = 0, f_size = 3, f_flags = 1\<rparr> # replicate 63 None,
     FS = demo_tmp 3\<rparr>"

theorem vfs_tmpfs_readback_witness:
  "\<exists>r s1 s2. vfs_write 0 [1, 2] demo_tmp_vfs = (r, s1) \<and> s2 = snd (vfs_lseek 0 0 0 s1) \<and>
     fst (vfs_read 0 (replicate (nat r) 0) s2) = (r, take (nat r) [1, 2])"
proof -
  let ?s = demo_tmp_vfs and ?f = "\<lparr>driver_idx = 0, handle = 0, f_offset = 0, f_size = 3, f_flags = 1\<rparr>"
  have ok: "vfs_ok ?s" "tmp_ok (FS ?s)" "fd_file 0 ?s = Some ?f" "get_driver ?s (driver_idx ?f) = Some TMP_OPS"
    using demo_tmp_ok [of 3]
    by (simp_all add: vfs_ok_def demo_tmp_vfs_def permdb.defs MAX_OPEN_FILES_def MAX_MOUNTS_def fd_file_def get_driver_def MAX_FILE_SIZE_def)
  have c: "content_of (FS ?s) (handle ?f) = Some (file_content (FILES (demo_tmp 3) ! 0))"
    using demo_tmp_handle by (simp add: content_of_def demo_tmp_vfs_def permdb.defs)
  obtain r s1 where w: "vfs_write 0 [1, 2] ?s = (r, s1)" by force
  obtain q s2 where l: "vfs_lseek 0 (f_offset ?f) 0 s1 = (q, s2)" by force
  have fl: "f_flags ?f AND 3 \<noteq> 0" "unat (f_offset ?f) \<le> length (file_content (FILES (demo_tmp 3) ! 0))" by simp_all
  have "\<exists>n. r = int n" using tmp.vfs_write_content [OF ok(2,3,4) fl(1) c fl(2) ok(1) w] by blast
  then have "int (length (replicate (nat r) (0 :: u8))) = r" by auto
  from vfs_tmpfs_readback [OF ok fl(1) c fl(2) w l this] show ?thesis using w l by auto
qed

end
