(* ===== verification/User_Store.thy ===== *)
theory User_Store
  imports Vfs
begin

text \<open>
  The persistence of the user database, the second half of \<open>kernel/src/user.rs\<close>: the password file
  with one line \<open>uid:gid:hash:salt:name:home\<close> per user, written to and read from a 2048-byte
  buffer, and the operations that end by saving. What the file holds and how it is read back is
  proved on the text; the calls of the file system are those of \<open>Vfs\<close>.
\<close>

section \<open>Writing\<close>

definition write_u32 :: "u32 \<Rightarrow> bytes \<times> nat \<Rightarrow> bytes \<times> nat" where
  "write_u32 v st = put_bytes (length (fst st)) (dec_bytes (unat v)) st"

definition put_sep :: "u8 \<Rightarrow> bytes \<times> nat \<Rightarrow> bytes \<times> nat" where
  "put_sep c st = put_byte (length (fst st)) c st"

definition put_block :: "bytes \<Rightarrow> bytes \<times> nat \<Rightarrow> bytes \<times> nat" where
  "put_block cs st = (case st of (buf, pos) \<Rightarrow>
     if pos + length cs < length buf then (splice_at buf pos cs, pos + length cs) else (buf, pos))"

definition save_user :: "user \<Rightarrow> bytes \<times> nat \<Rightarrow> bytes \<times> nat" where
  "save_user u st =
     put_sep 0x0A (put_block (user_home u) (put_sep 0x3A (put_block (user_name u)
       (put_sep 0x3A (write_u32 (salt u) (put_sep 0x3A (write_u32 (password_hash u)
         (put_sep 0x3A (write_u32 (u_gid u) (put_sep 0x3A (write_u32 (u_uid u) st)))))))))))"

fun save_users :: "user list \<Rightarrow> bytes \<times> nat \<Rightarrow> bytes \<times> nat" where
  "save_users [] st = st"
| "save_users (u # us) st = (let st' = save_user u st in if snd st' > 1900 then st' else save_users us st')"

definition etc_passwd :: bytes where "etc_passwd = ascii ''/etc/passwd''"

definition save_to_disk :: "'d vfs \<Rightarrow> 'd vfs" where
  "save_to_disk s =
     (let (buf, pos) = save_users (take (USER_COUNT s) (USERS s)) (replicate 2048 0, 0);
          flags = 0x100 OR 0x200 OR 1;
          (fd1, s1) = vfs_open etc_passwd flags s;
          (fd, path_saved, s2) =
            (if fd1 < 0 then
               (let s1a = snd (vfs_mkdir (ascii ''/etc'') s1);
                    (fd2, s1b) = vfs_open etc_passwd flags s1a
                in if fd2 < 0 then (let (fd3, s1c) = vfs_open (ascii ''/passwd'') flags s1b in (fd3, ascii ''/passwd'', s1c))
                   else (fd2, etc_passwd, s1b))
             else (fd1, etc_passwd, s1))
      in if fd < 0 then s2
         else let s3 = snd (vfs_write fd (take pos buf) s2);
                  s4 = snd (vfs_close fd s3);
                  s5 = perm_set path_saved \<lparr>owner = 0, group = 0, mode = 0x180\<rparr> s4
              in perm_set (ascii ''/etc'') \<lparr>owner = 0, group = 0, mode = 0x1C0\<rparr> s5)"

section \<open>Reading\<close>

text \<open>Splitting a line at colons into at most six parts; \<open>cur\<close> is the part being read.\<close>

fun split_line :: "bytes \<Rightarrow> bytes list \<Rightarrow> bytes \<Rightarrow> bytes list" where
  "split_line cur parts [] = (if length parts < 6 then parts @ [cur] else parts)"
| "split_line cur parts (c # cs) =
     (if c = 0x3A then split_line [] (if length parts < 6 then parts @ [cur] else parts) cs
      else split_line (cur @ [c]) parts cs)"

definition load_line :: "bytes \<Rightarrow> 'a userdb_scheme \<times> nat \<Rightarrow> 'a userdb_scheme \<times> nat" where
  "load_line line st =
     (case st of (s, loaded) \<Rightarrow>
        if line = [] then (s, loaded)
        else let parts = split_line [] [] line in
          if length parts = 6 then
            (case (parse_u32 (parts ! 0), parse_u32 (parts ! 1), parse_u32 (parts ! 2), parse_u32 (parts ! 3)) of
               (Some u, Some g, Some hsh, Some slt) \<Rightarrow>
                 if USER_COUNT s < MAX_USERS
                 then (push_user ((fill_user u g (parts ! 4) (parts ! 5))\<lparr>password_hash := hsh, salt := slt\<rparr>) s, loaded + 1)
                 else (s, loaded)
             | _ \<Rightarrow> (s, loaded))
          else (s, loaded))"

function load_lines :: "bytes \<Rightarrow> 'a userdb_scheme \<times> nat \<Rightarrow> 'a userdb_scheme \<times> nat" where
  "load_lines text st =
     (if text = [] then st
      else let line = takeWhile (\<lambda>c. c \<noteq> 0x0A) text
           in load_lines (drop (length line + 1) text) (load_line line st))"
  by auto
termination by (relation "measure (\<lambda>(text, st). length text)") auto

declare load_lines.simps [simp del]

definition load_from_disk :: "'d vfs \<Rightarrow> bool \<times> 'd vfs" where
  "load_from_disk s =
     (let (fd1, s1) = vfs_open etc_passwd 0 s;
          (fd, s2) = (if fd1 < 0 then vfs_open (ascii ''/passwd'') 0 s1 else (fd1, s1))
      in if fd < 0 then (False, s2)
         else let ((n, buf), s3) = vfs_read fd (replicate 2048 0) s2;
                  s4 = snd (vfs_close fd s3)
              in if n \<le> 0 then (False, s4)
                 else let (s5, loaded) = load_lines (take (nat n) buf) (s4\<lparr>USER_COUNT := 0\<rparr>, 0) in (loaded > 0, s5))"

definition become_root :: "'d vfs \<Rightarrow> 'd vfs" where
  "become_root s = upd_task (CURRENT s) (\<lambda>t. t\<lparr>uid := 0, gid := 0\<rparr>) (s\<lparr>CURRENT_UID := 0\<rparr>)"

definition post_vfs_init :: "'d vfs \<Rightarrow> 'd vfs" where
  "post_vfs_init s = (let (ok, s') = load_from_disk s in if ok then become_root s' else save_to_disk s')"

definition try_load_or_init :: "'d vfs \<Rightarrow> 'd vfs" where
  "try_load_or_init s = (let (ok, s') = load_from_disk s in if ok then become_root s' else save_to_disk s')"

section \<open>Changing users\<close>

definition home_of :: "bytes \<Rightarrow> bytes" where
  "home_of nm =
     (let pre = ascii ''/home/''; nl = min (length nm) (64 - length pre);
          home = splice_at (splice_at (replicate 64 0) 0 pre) (length pre) (take nl nm)
      in take (length pre + nl) home)"

definition add_user :: "u64 \<Rightarrow> bytes \<Rightarrow> bytes \<Rightarrow> 'd vfs \<Rightarrow> bool \<times> 'd vfs" where
  "add_user ticks nm password s =
     (if nm = [] \<or> find_by_name s nm \<noteq> None then (False, s)
      else let u = 1000 + of_nat (USER_COUNT s);
               s1 = init_user_salted ticks u u nm (home_of nm) password s;
               s2 = snd (vfs_mkdir (home_of nm) s1)
           in (True, save_to_disk s2))"

definition set_password :: "u64 \<Rightarrow> bytes \<Rightarrow> bytes \<Rightarrow> 'd vfs \<Rightarrow> bool \<times> 'd vfs" where
  "set_password ticks nm new_pw s =
     (case find_by_name s nm of
        Some idx \<Rightarrow> (True, save_to_disk (change_password ticks idx nm new_pw s))
      | None \<Rightarrow> (False, s))"

section \<open>The text of a user\<close>

definition line_of :: "user \<Rightarrow> bytes" where
  "line_of u = dec_bytes (unat (u_uid u)) @ 0x3A # dec_bytes (unat (u_gid u)) @ 0x3A # dec_bytes (unat (password_hash u)) @
     0x3A # dec_bytes (unat (salt u)) @ 0x3A # user_name u @ 0x3A # user_home u @ [0x0A]"

lemma write_u32_fits:
  "pos + length (dec_bytes (unat v)) \<le> length buf \<Longrightarrow>
    write_u32 v (buf, pos) = (splice_at buf pos (dec_bytes (unat v)), pos + length (dec_bytes (unat v)))"
  by (simp add: write_u32_def put_bytes_fits)

lemma put_sep_fits: "pos < length buf \<Longrightarrow> put_sep c (buf, pos) = (splice_at buf pos [c], pos + 1)"
  using put_bytes_fits [of pos "[c]" "length buf" buf] by (simp add: put_sep_def put_bytes_def)

text \<open>A step that writes \<open>cs\<close> when \<open>cs\<close> and one byte more fit; steps compose.\<close>

definition writes :: "(bytes \<times> nat \<Rightarrow> bytes \<times> nat) \<Rightarrow> bytes \<Rightarrow> bool" where
  "writes f cs \<longleftrightarrow> (\<forall>buf pos. pos + length cs < length buf \<longrightarrow> f (buf, pos) = (splice_at buf pos cs, pos + length cs))"

lemma writes_basic: "writes (write_u32 v) (dec_bytes (unat v))" "writes (put_sep c) [c]" "writes (put_block cs) cs"
  by (simp_all add: writes_def write_u32_fits put_sep_fits put_block_def)

lemma writes_comp:
  assumes "writes f xs" and "writes g ys"
  shows "writes (\<lambda>st. g (f st)) (xs @ ys)"
  unfolding writes_def
proof (intro allI impI)
  fix buf :: bytes and pos assume fit: "pos + length (xs @ ys) < length buf"
  then have "f (buf, pos) = (splice_at buf pos xs, pos + length xs)" using assms(1) by (simp add: writes_def)
  moreover have "g (splice_at buf pos xs, pos + length xs) = (splice_at (splice_at buf pos xs) (pos + length xs) ys, pos + length xs + length ys)"
    using assms(2) fit by (simp add: writes_def)
  ultimately show "g (f (buf, pos)) = (splice_at buf pos (xs @ ys), pos + length (xs @ ys))"
    using splice_splice [of pos xs ys buf] fit by simp
qed

lemma writes_user: "writes (save_user u) (line_of u)"
proof -
  note c = writes_comp
  have "writes (save_user u) ((((((((((dec_bytes (unat (u_uid u)) @ [0x3A]) @ dec_bytes (unat (u_gid u))) @ [0x3A]) @
      dec_bytes (unat (password_hash u))) @ [0x3A]) @ dec_bytes (unat (salt u))) @ [0x3A]) @ user_name u) @ [0x3A]) @ user_home u @ [0x0A])"
    unfolding save_user_def
    by (intro c [of _ _ "\<lambda>st. put_sep 0x0A (put_block (user_home u) st)"] c [of "put_block (user_home u)"] c writes_basic)
  then show ?thesis by (simp add: line_of_def)
qed

lemma length_line:
  assumes "length (user_name u) \<le> 31" and "length (user_home u) \<le> 63"
  shows "length (line_of u) \<le> 140"
  using assms length_dec_bytes [of "u_uid u"] length_dec_bytes [of "u_gid u"] length_dec_bytes [of "password_hash u"]
    length_dec_bytes [of "salt u"] by (simp add: line_of_def)

lemma save_users_text:
  assumes "\<forall>u\<in>set us. length (user_name u) \<le> 31 \<and> length (user_home u) \<le> 63" and "length buf = 2048"
    and "pos + length (concat (map line_of us)) \<le> 1900"
  shows "save_users us (buf, pos) = (splice_at buf pos (concat (map line_of us)), pos + length (concat (map line_of us)))"
  using assms
proof (induction us arbitrary: buf pos)
  case (Cons u us)
  let ?b = "splice_at buf pos (line_of u)" and ?p = "pos + length (line_of u)"
  have "save_user u (buf, pos) = (?b, ?p)" using writes_user [of u] Cons.prems by (simp add: writes_def)
  moreover have "\<not> ?p > 1900" using Cons.prems(3) by simp
  ultimately have "save_users (u # us) (buf, pos) = save_users us (?b, ?p)" by simp
  also have "\<dots> = (splice_at ?b ?p (concat (map line_of us)), ?p + length (concat (map line_of us)))"
    using Cons.prems by (intro Cons.IH) (simp_all add: add.assoc)
  finally show ?case using splice_splice [of pos "line_of u" "concat (map line_of us)" buf] Cons.prems by simp
qed simp

section \<open>Reading the text back\<close>

lemma split_field:
  "0x3A \<notin> set f \<Longrightarrow> split_line cur parts (f @ 0x3A # cs) =
    split_line [] (if length parts < 6 then parts @ [cur @ f] else parts) cs"
  by (induction f arbitrary: cur) auto

lemma split_last: "0x3A \<notin> set f \<Longrightarrow> split_line cur parts f = (if length parts < 6 then parts @ [cur @ f] else parts)"
  by (induction f arbitrary: cur) auto

lemma split_full: "length parts = 6 \<Longrightarrow> split_line cur parts cs = parts"
  by (induction cs arbitrary: cur) auto

text \<open>With five parts read, the rest of the line only gives the sixth.\<close>

lemma split_sixth: "length parts = 5 \<Longrightarrow> \<exists>f. split_line cur parts cs = parts @ [f]"
proof (induction cs arbitrary: cur)
  case (Cons c cs)
  then show ?case using split_full [of "parts @ [cur]" "[]" cs] by (cases "c = 0x3A") auto
qed simp

lemma dec_no_sep: "0x3A \<notin> set (dec_bytes n)" "0x0A \<notin> set (dec_bytes n)"
  using dec_bytes_digits [of "0x3A" n] dec_bytes_digits [of "0x0A" n] by auto

lemma takeWhile_line: "0x0A \<notin> set l \<Longrightarrow> takeWhile (\<lambda>c. c \<noteq> (0x0A :: u8)) (l @ 0x0A # rest) = l"
  by (induction l) auto

lemma load_lines_line:
  assumes "0x0A \<notin> set l"
  shows "load_lines (l @ 0x0A # rest) st = load_lines rest (load_line l st)"
  by (subst load_lines.simps) (simp add: takeWhile_line [OF assms] Let_def)

text \<open>A user as the constructors of the database make it, with a name and home the file format can
  hold.\<close>

definition storable :: "user \<Rightarrow> bool" where
  "storable u \<longleftrightarrow> (\<exists>nm hm. u = (fill_user (u_uid u) (u_gid u) nm hm)\<lparr>password_hash := password_hash u, salt := salt u\<rparr> \<and>
     length nm \<le> 31 \<and> length hm \<le> 63 \<and> 0x3A \<notin> set nm \<and> 0x0A \<notin> set nm \<and> 0x3A \<notin> set hm \<and> 0x0A \<notin> set hm)"

lemma fill_user_fields:
  assumes "length nm \<le> 31" and "length hm \<le> 63"
  shows "user_name (fill_user u g nm hm) = nm" "user_home (fill_user u g nm hm) = hm"
proof -
  have "unat (of_nat (length nm) :: u8) = length nm" "unat (of_nat (length hm) :: u8) = length hm"
    using assms by (simp_all add: unat_of_nat take_bit_nat_eq_self)
  then show "user_name (fill_user u g nm hm) = nm" "user_home (fill_user u g nm hm) = hm"
    using assms by (simp_all add: fill_user_def user_name_def user_home_def Let_def min_absorb1)
qed

lemma user_name_upd [simp]:
  "user_name (u\<lparr>password_hash := h, salt := x\<rparr>) = user_name u" "user_home (u\<lparr>password_hash := h, salt := x\<rparr>) = user_home u"
  by (simp_all add: user_name_def user_home_def)

lemma storableD:
  assumes "storable u"
  shows "u = (fill_user (u_uid u) (u_gid u) (user_name u) (user_home u))\<lparr>password_hash := password_hash u, salt := salt u\<rparr>"
    and "length (user_name u) \<le> 31" "length (user_home u) \<le> 63" "0x3A \<notin> set (user_name u)" "0x0A \<notin> set (user_name u)"
    and "0x3A \<notin> set (user_home u)" "0x0A \<notin> set (user_home u)"
proof -
  obtain nm hm where u: "u = (fill_user (u_uid u) (u_gid u) nm hm)\<lparr>password_hash := password_hash u, salt := salt u\<rparr>"
    "length nm \<le> 31" "length hm \<le> 63" "0x3A \<notin> set nm" "0x0A \<notin> set nm" "0x3A \<notin> set hm" "0x0A \<notin> set hm"
    using assms unfolding storable_def by blast
  have "user_name u = nm" "user_home u = hm"
    using fill_user_fields [OF u(2,3), of "u_uid u" "u_gid u"] user_name_upd by (metis u(1))+
  with u show "u = (fill_user (u_uid u) (u_gid u) (user_name u) (user_home u))\<lparr>password_hash := password_hash u, salt := salt u\<rparr>"
    "length (user_name u) \<le> 31" "length (user_home u) \<le> 63" "0x3A \<notin> set (user_name u)" "0x0A \<notin> set (user_name u)"
    "0x3A \<notin> set (user_home u)" "0x0A \<notin> set (user_home u)" by simp_all
qed

lemma load_line_user:
  assumes "storable u" and "line_of u = l @ [0x0A]" and "USER_COUNT s < MAX_USERS"
  shows "load_line l (s, n) = (push_user u s, n + 1)" and "0x0A \<notin> set l"
proof -
  note S = storableD [OF assms(1)]
  let ?a = "dec_bytes (unat (u_uid u))" and ?b = "dec_bytes (unat (u_gid u))" and ?c = "dec_bytes (unat (password_hash u))"
    and ?d = "dec_bytes (unat (salt u))"
  have l: "l = ?a @ 0x3A # ?b @ 0x3A # ?c @ 0x3A # ?d @ 0x3A # user_name u @ 0x3A # user_home u"
    using assms(2) by (simp add: line_of_def)
  show "0x0A \<notin> set l" unfolding l using S dec_no_sep(2) by simp
  have "split_line [] [] l = [?a, ?b, ?c, ?d, user_name u, user_home u]"
    unfolding l using S(4,6) dec_no_sep(1) by (simp add: split_field split_last)
  moreover have "l \<noteq> []" by (simp add: l)
  ultimately have "load_line l (s, n) =
      (push_user ((fill_user (u_uid u) (u_gid u) (user_name u) (user_home u))\<lparr>password_hash := password_hash u, salt := salt u\<rparr>) s, n + 1)"
    using assms(3) by (simp add: load_line_def parse_dec)
  then show "load_line l (s, n) = (push_user u s, n + 1)" using S(1) by simp
qed

lemma load_users:
  assumes "\<forall>u\<in>set us. storable u" and "USER_COUNT s + length us \<le> MAX_USERS" and "length (USERS s) = MAX_USERS"
  shows "\<exists>s'. load_lines (concat (map line_of us)) (s, n) = (s', n + length us) \<and> USER_COUNT s' = USER_COUNT s + length us \<and>
    length (USERS s') = MAX_USERS \<and> take (USER_COUNT s') (USERS s') = take (USER_COUNT s) (USERS s) @ us"
  using assms
proof (induction us arbitrary: s n)
  case Nil
  then show ?case by (subst load_lines.simps) simp
next
  case (Cons u us)
  obtain l where l: "line_of u = l @ [0x0A]" by (simp add: line_of_def)
  have c: "USER_COUNT s < MAX_USERS" using Cons.prems(2) by simp
  have "storable u" using Cons.prems(1) by simp
  note L = load_line_user(1) [OF this l c, of n] load_line_user(2) [OF this l c]
  have "load_lines (concat (map line_of (u # us))) (s, n) = load_lines (concat (map line_of us)) (push_user u s, n + 1)"
    using load_lines_line [OF L(2), of "concat (map line_of us)" "(s, n)"] unfolding L(1) by (simp add: l)
  moreover have "take (USER_COUNT (push_user u s)) (USERS (push_user u s)) = take (USER_COUNT s) (USERS s) @ [u]"
    using c Cons.prems(3) by (simp add: push_user_def take_Suc_conv_app_nth)
  ultimately show ?case
    using Cons.IH [of "push_user u s" "n + 1"] Cons.prems by (simp add: push_user_def)
qed

text \<open>C29: The password file reads back what was written: saving up to 16 users whose names and homes
  contain no colon and no newline, with at most 1900 bytes of text in all, and loading the saved
  bytes gives the same users in the same order, all fields included, and counts them.\<close>

theorem passwd_roundtrip:
  assumes "\<forall>u\<in>set us. storable u" and "length us \<le> MAX_USERS" and "length (concat (map line_of us)) \<le> 1900"
    and "length (USERS s) = MAX_USERS" and "save_users us (replicate 2048 0, 0) = (buf, pos)"
  shows "\<exists>s'. load_lines (take pos buf) (s\<lparr>USER_COUNT := 0\<rparr>, 0) = (s', length us) \<and>
    take (USER_COUNT s') (USERS s') = us \<and> USER_COUNT s' = length us"
proof -
  have "\<forall>u\<in>set us. length (user_name u) \<le> 31 \<and> length (user_home u) \<le> 63" using assms(1) storableD(2,3) by blast
  from save_users_text [OF this, of "replicate 2048 0" 0] assms(3,5)
  have "take pos buf = concat (map line_of us)" by simp
  then show ?thesis using load_users [OF assms(1), of "s\<lparr>USER_COUNT := 0\<rparr>" 0] assms(2,4) by auto
qed

section \<open>A name can forge an account\<close>

lemma load_line_keeps:
  assumes "load_line l (s, n) = (s', n')" and "i < USER_COUNT s"
  shows "USER_COUNT s \<le> USER_COUNT s'" and "USERS s' ! i = USERS s ! i"
  using assms by (auto simp: load_line_def Let_def push_user_def split: if_splits option.splits)

lemma load_lines_keeps:
  assumes "load_lines bs (s, n) = (s', n')" and "i < USER_COUNT s"
  shows "i < USER_COUNT s' \<and> USERS s' ! i = USERS s ! i"
  using assms
proof (induction bs "(s, n)" arbitrary: s n rule: load_lines.induct)
  case (1 bs s n)
  show ?case
  proof (cases "bs = []")
    case True
    then show ?thesis using 1(2,3) by (simp add: load_lines.simps)
  next
    case False
    obtain s1 n1 where l: "load_line (takeWhile (\<lambda>c. c \<noteq> 0x0A) bs) (s, n) = (s1, n1)" by force
    note K = load_line_keeps [OF l 1(3)]
    have "load_lines (drop (length (takeWhile (\<lambda>c. c \<noteq> 0x0A) bs) + 1) bs) (s1, n1) = (s', n')"
      using 1(2) False l by (simp add: load_lines.simps [of bs])
    then show ?thesis using 1(1) [OF False refl l] K 1(3) by simp
  qed
qed

text \<open>The name \<open>"x:x\n0:0:0:0:r"\<close>.\<close>

definition forged_name :: bytes where
  "forged_name = ascii ''x:x'' @ 0x0A # ascii ''0:0:0:0:r''"

text \<open>A user name can forge a root account: the file format does not escape names, so after saving and
  loading a user whose name is \<open>"x:x\n0:0:0:0:r"\<close> (13 bytes, accepted by \<open>add_user\<close>), whatever the
  rest of the entry is, the database contains a user \<open>r\<close> with user identifier 0 and no
  password, as whom anyone can log in.\<close>

theorem name_forges_root:
  assumes "user_name u = forged_name" and "USER_COUNT s = 0" and "length (USERS s) = MAX_USERS"
    and "load_lines (line_of u) (s, 0) = (s', n)"
  shows "\<exists>i<USER_COUNT s'. user_name (USERS s' ! i) = [0x72] \<and> u_uid (USERS s' ! i) = 0 \<and> password_hash (USERS s' ! i) = 0"
proof -
  let ?a = "dec_bytes (unat (u_uid u))" and ?b = "dec_bytes (unat (u_gid u))" and ?c = "dec_bytes (unat (password_hash u))"
    and ?d = "dec_bytes (unat (salt u))"
  have nm: "forged_name = [0x78, 0x3A, 0x78, 0x0A, 0x30, 0x3A, 0x30, 0x3A, 0x30, 0x3A, 0x30, 0x3A, 0x72]"
    by (simp add: forged_name_def ascii_def)
  define l1 where "l1 = ?a @ 0x3A # ?b @ 0x3A # ?c @ 0x3A # ?d @ 0x3A # [0x78, 0x3A, 0x78]"
  define rest where "rest = [0x30, 0x3A, 0x30, 0x3A, 0x30, 0x3A, 0x30, 0x3A, 0x72, 0x3A] @ user_home u @ [0x0A]"
  have line: "line_of u = l1 @ 0x0A # rest" by (simp add: line_of_def assms(1) nm l1_def rest_def)
  have nl: "0x0A \<notin> set l1" using dec_no_sep(2) by (simp add: l1_def)
  obtain s1 where s1: "load_line l1 (s, 0) = (s1, 1)" "USER_COUNT s1 = 1" "length (USERS s1) = MAX_USERS"
  proof -
    have "split_line [] [] l1 = [?a, ?b, ?c, ?d, [0x78], [0x78]]"
      unfolding l1_def using dec_no_sep(1) by (simp add: split_field)
    moreover have "l1 \<noteq> []" by (simp add: l1_def)
    ultimately have "load_line l1 (s, 0) = (push_user ((fill_user (u_uid u) (u_gid u) [0x78] [0x78])\<lparr>password_hash := password_hash u, salt := salt u\<rparr>) s, 1)"
      using assms(2) by (simp add: load_line_def parse_dec MAX_USERS_def)
    then show thesis using that assms(2,3) by (simp add: push_user_def)
  qed
  define l2 where "l2 = takeWhile (\<lambda>c. c \<noteq> 0x0A) rest"
  obtain t where l2: "l2 = [0x30, 0x3A, 0x30, 0x3A, 0x30, 0x3A, 0x30, 0x3A, 0x72, 0x3A] @ t" by (simp add: l2_def rest_def)
  obtain f where "split_line [] [] l2 = [[0x30], [0x30], [0x30], [0x30], [0x72], f]"
    unfolding l2 using split_sixth [of "[[0x30], [0x30], [0x30], [0x30], [0x72]]" "[]" t] by auto
  moreover have "parse_u32 [0x30] = Some 0" using parse_dec [of 0] by (simp add: dec_bytes_def)
  ultimately have ll: "load_line l2 (s1, 1) = (push_user ((fill_user 0 0 [0x72] f)\<lparr>password_hash := 0, salt := 0\<rparr>) s1, 2)"
    using s1(2) l2 by (simp add: load_line_def MAX_USERS_def)
  define s2 where "s2 = push_user ((fill_user 0 0 [0x72] f)\<lparr>password_hash := 0, salt := 0\<rparr>) s1"
  have u2: "USERS s2 ! 1 = (fill_user 0 0 [0x72] f)\<lparr>password_hash := 0, salt := 0\<rparr>" "1 < USER_COUNT s2"
    using s1 by (simp_all add: s2_def push_user_def MAX_USERS_def)
  have "load_lines (drop (length l2 + 1) rest) (s2, 2) = (s', n)"
  proof -
    have "load_lines rest (s1, 1) = (s', n)" using assms(4) line load_lines_line [OF nl, of rest "(s, 0)"] s1(1) by simp
    moreover have "rest \<noteq> []" by (simp add: rest_def)
    ultimately show ?thesis using ll by (simp add: load_lines.simps [of rest] l2_def [symmetric] s2_def)
  qed
  from load_lines_keeps [OF this u2(2)] have k: "1 < USER_COUNT s'" "USERS s' ! 1 = USERS s2 ! 1" by blast+
  moreover have "user_name (USERS s2 ! 1) = [0x72]"
    unfolding u2(1) by (simp add: user_name_def fill_user_def user_empty_def Let_def splice_at_def)
  moreover have "u_uid (USERS s2 ! 1) = 0" "password_hash (USERS s2 ! 1) = 0"
    unfolding u2(1) by (simp_all add: fill_user_def Let_def)
  ultimately show ?thesis by (intro exI [of _ 1]) simp
qed

section \<open>Concrete users\<close>

lemma demo_users_len: "length (USERS demo_users) = MAX_USERS"
  by (simp add: demo_users_def MAX_USERS_def)

lemma storable_fill:
  assumes "length nm \<le> 31" "length hm \<le> 63" "0x3A \<notin> set nm" "0x0A \<notin> set nm" "0x3A \<notin> set hm" "0x0A \<notin> set hm"
  shows "storable (fill_user u g nm hm)"
  unfolding storable_def
proof (intro exI conjI)
  show "fill_user u g nm hm = (fill_user (u_uid (fill_user u g nm hm)) (u_gid (fill_user u g nm hm)) nm hm)
      \<lparr>password_hash := password_hash (fill_user u g nm hm), salt := salt (fill_user u g nm hm)\<rparr>"
    by (simp add: fill_user_def user_empty_def Let_def)
qed (use assms in auto)

theorem passwd_roundtrip_witness:
  "\<exists>buf pos s'. save_users [fill_user 5 5 [0x61] [0x2F]] (replicate 2048 0, 0) = (buf, pos) \<and>
     load_lines (take pos buf) (demo_users\<lparr>USER_COUNT := 0\<rparr>, 0) = (s', 1) \<and>
     take (USER_COUNT s') (USERS s') = [fill_user 5 5 [0x61] [0x2F]]"
proof -
  let ?u = "fill_user 5 5 [0x61] [0x2F]"
  have st: "storable ?u" by (rule storable_fill) simp_all
  have "length (line_of ?u) \<le> 140" using storableD(2,3) [OF st] by (rule length_line)
  moreover obtain buf pos where b: "save_users [?u] (replicate 2048 0, 0) = (buf, pos)" by force
  ultimately show ?thesis using passwd_roundtrip [OF _ _ _ demo_users_len b] st by (simp add: MAX_USERS_def) blast
qed

theorem name_forges_root_witness:
  "\<exists>s' n i. load_lines (line_of (fill_user 1003 1003 forged_name [0x2F])) (demo_users\<lparr>USER_COUNT := 0\<rparr>, 0) = (s', n) \<and>
     u_uid (USERS s' ! i) = 0 \<and> password_hash (USERS s' ! i) = 0 \<and> user_name (USERS s' ! i) = [0x72]"
proof -
  have "user_name (fill_user 1003 1003 forged_name [0x2F]) = forged_name"
    by (rule fill_user_fields) (simp_all add: forged_name_def)
  moreover obtain s' n where "load_lines (line_of (fill_user 1003 1003 forged_name [0x2F])) (demo_users\<lparr>USER_COUNT := 0\<rparr>, 0) = (s', n)" by force
  ultimately show ?thesis using name_forges_root [of "fill_user 1003 1003 forged_name [0x2F]" "demo_users\<lparr>USER_COUNT := 0\<rparr>" s' n]
    by (auto simp: demo_users_len)
qed

end
