(* ===== verification/Dhcp.thy ===== *)
theory Dhcp
  imports Dns
begin

text \<open>
  The DHCP client, \<open>kernel/src/driver/dhcp.rs\<close>: building and reading BOOTP packets with options, waiting
  for a reply with the transaction id, and the exchange DISCOVER, OFFER, REQUEST, ACK that sets the
  machine's address. Waiting loops take one entry per turn, as in \<open>Dns\<close>; every send goes to the
  broadcast address, so no address resolution happens.
\<close>

section \<open>Packets\<close>

definition DHCP_SERVER_PORT :: u16 where "DHCP_SERVER_PORT = 67"
definition DHCP_CLIENT_PORT :: u16 where "DHCP_CLIENT_PORT = 68"

definition F_OP :: nat where "F_OP = 0"
definition F_XID :: nat where "F_XID = 4"
definition F_FLAGS :: nat where "F_FLAGS = 10"
definition F_YIADDR :: nat where "F_YIADDR = 16"
definition F_CHADDR :: nat where "F_CHADDR = 28"
definition F_MAGIC :: nat where "F_MAGIC = 236"
definition F_OPT :: nat where "F_OPT = 240"
definition BOOTP_LEN :: nat where "BOOTP_LEN = 300"

definition MT_DISCOVER :: u8 where "MT_DISCOVER = 1"
definition MT_OFFER :: u8 where "MT_OFFER = 2"
definition MT_REQUEST :: u8 where "MT_REQUEST = 3"
definition MT_ACK :: u8 where "MT_ACK = 5"

definition O_MSG_TYPE :: u8 where "O_MSG_TYPE = 53"
definition O_REQ_LIST :: u8 where "O_REQ_LIST = 55"
definition O_CLIENT_ID :: u8 where "O_CLIENT_ID = 61"
definition O_REQ_IP :: u8 where "O_REQ_IP = 50"
definition O_SRV_ID :: u8 where "O_SRV_ID = 54"
definition O_MASK :: u8 where "O_MASK = 1"
definition O_ROUTER :: u8 where "O_ROUTER = 3"
definition O_DNS :: u8 where "O_DNS = 6"
definition O_END :: u8 where "O_END = 255"

definition MAGIC_COOKIE :: bytes where "MAGIC_COOKIE = [0x63, 0x82, 0x53, 0x63]"

lemmas dhcp_consts = F_OP_def F_XID_def F_FLAGS_def F_YIADDR_def F_CHADDR_def F_MAGIC_def F_OPT_def BOOTP_LEN_def
  MT_DISCOVER_def MT_OFFER_def MT_REQUEST_def MT_ACK_def O_MSG_TYPE_def O_REQ_LIST_def O_CLIENT_ID_def O_REQ_IP_def
  O_SRV_ID_def O_MASK_def O_ROUTER_def O_DNS_def O_END_def MAGIC_COOKIE_def

definition next_xid :: "u32 \<Rightarrow> u32" where "next_xid x = x + 0x00010001"

definition bcast_ip :: bytes where "bcast_ip = replicate 4 255"

definition add_opt :: "u8 \<Rightarrow> bytes \<Rightarrow> bytes \<times> nat \<Rightarrow> bytes \<times> nat" where
  "add_opt code data = (\<lambda>(pkt, pos).
     if pos + 2 + length data \<ge> BOOTP_LEN then (pkt, pos)
     else (splice_at pkt pos (code # of_nat (length data) # data), pos + 2 + length data))"

definition build_header :: "bytes \<Rightarrow> u32 \<Rightarrow> bytes" where
  "build_header mac xid =
     (let pkt = replicate BOOTP_LEN 0; pkt = pkt[F_OP := 1]; pkt = pkt[1 := 1]; pkt = pkt[2 := 6];
          pkt = splice_at pkt F_XID (be32 xid); pkt = pkt[F_FLAGS := 0x80]; pkt = pkt[F_FLAGS + 1 := 0];
          pkt = splice_at pkt F_CHADDR mac
      in splice_at pkt F_MAGIC MAGIC_COOKIE)"

text \<open>The end of both builders: the client id, the end mark and the length.\<close>

definition finish_packet :: "bytes \<Rightarrow> bytes \<times> nat \<Rightarrow> bytes \<times> nat" where
  "finish_packet mac pp = (let (pkt, pos) = add_opt O_CLIENT_ID (1 # mac) pp in (pkt[pos := O_END], pos + 1))"

definition discover_packet :: "bytes \<Rightarrow> u32 \<Rightarrow> bytes \<times> nat" where
  "discover_packet mac xid =
     finish_packet mac (add_opt O_REQ_LIST [O_MASK, O_ROUTER, O_DNS]
       (add_opt O_MSG_TYPE [MT_DISCOVER] (build_header mac xid, F_OPT)))"

definition request_packet :: "bytes \<Rightarrow> u32 \<Rightarrow> bytes \<Rightarrow> bytes \<Rightarrow> bytes \<times> nat" where
  "request_packet mac xid requested_ip server_id =
     finish_packet mac (add_opt O_REQ_LIST [O_MASK, O_ROUTER, O_DNS] (add_opt O_SRV_ID server_id
       (add_opt O_REQ_IP requested_ip (add_opt O_MSG_TYPE [MT_REQUEST] (build_header mac xid, F_OPT)))))"

definition dhcp_send :: "bytes \<times> nat \<Rightarrow> net \<Rightarrow> net option" where
  "dhcp_send pp s = map_option snd
     (udp_send [] (replicate 4 0) bcast_ip DHCP_CLIENT_PORT DHCP_SERVER_PORT (take (snd pp) (fst pp)) s)"

definition send_discover :: "u32 \<Rightarrow> net \<Rightarrow> ((bytes \<times> nat) \<times> net) option" where
  "send_discover xid s = (let pp = discover_packet (OUR_MAC s) xid in map_option (Pair pp) (dhcp_send pp s))"

definition send_request :: "u32 \<Rightarrow> bytes \<Rightarrow> bytes \<Rightarrow> net \<Rightarrow> ((bytes \<times> nat) \<times> net) option" where
  "send_request xid requested_ip server_id s =
     (let pp = request_packet (OUR_MAC s) xid requested_ip server_id in map_option (Pair pp) (dhcp_send pp s))"

section \<open>Options\<close>

function opt_loop :: "bytes \<Rightarrow> u8 \<Rightarrow> bytes \<Rightarrow> nat \<Rightarrow> nat \<times> bytes" where
  "opt_loop pkt code out pos =
     (if pos \<ge> length pkt then (0, out)
      else let c = pkt ! pos in
        if c = O_END then (0, out)
        else if c = 0 then opt_loop pkt code out (pos + 1)
        else if pos + 1 \<ge> length pkt then (0, out)
        else let len = unat (pkt ! (pos + 1)) in
          if pos + 2 + len > length pkt then (0, out)
          else if c = code then (let n = min len (length out) in (n, splice_at out 0 (slice (pos + 2) (pos + 2 + n) pkt)))
          else opt_loop pkt code out (pos + (2 + len)))"
  by pat_completeness auto
termination by (relation "measure (\<lambda>(pkt, code, out, pos). length pkt - pos)") auto

declare opt_loop.simps [simp del]

definition get_opt :: "bytes \<Rightarrow> u8 \<Rightarrow> bytes \<Rightarrow> nat \<times> bytes" where
  "get_opt pkt code out = (if length pkt < F_OPT then (0, out) else opt_loop pkt code out F_OPT)"

definition message_type :: "bytes \<Rightarrow> u8 option" where
  "message_type pkt = (let (n, m) = get_opt pkt O_MSG_TYPE [0] in if n = 1 then Some (m ! 0) else None)"

section \<open>The exchange\<close>

definition is_reply :: "u32 \<Rightarrow> net \<Rightarrow> bool" where
  "is_reply xid s \<longleftrightarrow> RX_VALID s \<and> RX_DPORT s = DHCP_CLIENT_PORT \<and>
     (let pl = rx_payload s in length pl \<ge> F_OPT \<and> pl ! F_OP = 2 \<and> u32_from (slice F_XID (F_XID + 4) pl) = xid)"

definition reply_buf :: "bytes \<Rightarrow> bytes" where
  "reply_buf pl = splice_at (replicate BOOTP_LEN 0) 0 (take (min (length pl) BOOTP_LEN) pl)"

fun wait_reply :: "u32 \<Rightarrow> bytes \<times> nat \<Rightarrow> u64 \<Rightarrow> (u64 \<times> bytes list) list \<Rightarrow> net \<Rightarrow> (bytes option \<times> net) option" where
  "wait_reply xid resend last_send [] s = Some (None, s)"
| "wait_reply xid resend last_send ((now, frames) # turns) s =
     do { s1 \<leftarrow> poll frames (s\<lparr>now_ms := now\<rparr>);
          (lst, s2) \<leftarrow> (if now - last_send \<ge> 1000 then map_option (Pair now) (dhcp_send resend s1) else Some (last_send, s1));
          if is_reply xid s2 then Some (Some (reply_buf (rx_payload s2)), s2)
          else wait_reply xid resend lst turns s2 }"

text \<open>The end of \<open>run\<close>: taking over the configuration of the ACK.\<close>

definition apply_config :: "bytes \<Rightarrow> bytes \<Rightarrow> bytes \<Rightarrow> net \<Rightarrow> net" where
  "apply_config yiaddr server_id ack s =
     (let mask = snd (get_opt ack O_MASK [255, 255, 255, 0]);
          (n, gw) = get_opt ack O_ROUTER server_id; gw = (if n = 0 then server_id else gw);
          dns = snd (get_opt ack O_DNS (replicate 4 0));
          s1 = s\<lparr>OUR_IP := yiaddr, OUR_NETMASK := mask, OUR_GATEWAY := gw\<rparr>
      in if dns \<noteq> replicate 4 0 then s1\<lparr>OUR_DNS := dns\<rparr> else s1)"

definition dhcp_run :: "(u64 \<times> bytes list) list \<Rightarrow> (u64 \<times> bytes list) list \<Rightarrow> u32 \<Rightarrow> net \<Rightarrow> (bool \<times> u32 \<times> net) option" where
  "dhcp_run turns1 turns2 xid0 s =
     (if OUR_MAC s = replicate 6 0 then Some (False, xid0, s)
      else let xid = next_xid xid0 in
        do { (disc, s1) \<leftarrow> send_discover xid (rx_clear s);
             (r, s2) \<leftarrow> wait_reply xid disc (now_ms s1) turns1 s1;
             case r of None \<Rightarrow> Some (False, xid, s2)
             | Some offer \<Rightarrow>
                 if message_type offer \<noteq> Some MT_OFFER then Some (False, xid, s2)
                 else let yiaddr = slice F_YIADDR (F_YIADDR + 4) offer;
                          server_id = snd (get_opt offer O_SRV_ID (replicate 4 0))
                      in do { (req, s3) \<leftarrow> send_request xid yiaddr server_id (rx_clear s2);
                              (r2, s4) \<leftarrow> wait_reply xid req (now_ms s3) turns2 s3;
                              case r2 of None \<Rightarrow> Some (False, xid, s4)
                              | Some ack \<Rightarrow>
                                  if message_type ack \<noteq> Some MT_ACK then Some (False, xid, s4)
                                  else Some (True, xid, apply_config yiaddr server_id ack s4) } })"

section \<open>Reading options\<close>

definition tlv :: "u8 \<times> bytes \<Rightarrow> bytes" where
  "tlv x = fst x # of_nat (length (snd x)) # snd x"

definition tlv_ok :: "u8 \<times> bytes \<Rightarrow> bool" where
  "tlv_ok x \<longleftrightarrow> fst x \<noteq> 0 \<and> fst x \<noteq> O_END \<and> length (snd x) < 256"

lemma opt_loop_tlvs:
  assumes "\<forall>x\<in>set xs. tlv_ok x"
  shows "opt_loop (pre @ concat (map tlv xs) @ O_END # post) code out (length pre) =
    (case List.find (\<lambda>x. fst x = code) xs of
       None \<Rightarrow> (0, out)
     | Some x \<Rightarrow> (let n = min (length (snd x)) (length out) in (n, splice_at out 0 (take n (snd x)))))"
  using assms
proof (induction xs arbitrary: pre)
  case Nil
  show ?case by (subst opt_loop.simps) (simp add: nth_append)
next
  case (Cons x xs)
  obtain c d where x: "x = (c, d)" by force
  let ?p = "pre @ tlv x @ concat (map tlv xs) @ O_END # post"
  have c: "c \<noteq> 0" "c \<noteq> O_END" "unat (of_nat (length d) :: u8) = length d"
    using Cons.prems x by (simp_all add: tlv_ok_def unat_of_nat take_bit_nat_eq_self)
  have nths: "?p ! length pre = c" "?p ! (length pre + 1) = of_nat (length d)"
    by (simp_all add: x tlv_def nth_append)
  have "opt_loop ?p code out (length pre) =
      (if c = code then (let n = min (length d) (length out) in (n, splice_at out 0 (take n d)))
       else opt_loop ?p code out (length pre + (2 + length d)))"
    using c nths by (subst opt_loop.simps) (simp add: Let_def x tlv_def slice_def)
  moreover have "opt_loop ((pre @ tlv x) @ concat (map tlv xs) @ O_END # post) code out (length (pre @ tlv x)) =
      (case List.find (\<lambda>x. fst x = code) xs of None \<Rightarrow> (0, out)
       | Some x \<Rightarrow> (let n = min (length (snd x)) (length out) in (n, splice_at out 0 (take n (snd x)))))"
    by (rule Cons.IH) (use Cons.prems in simp)
  moreover have "length (pre @ tlv x) = length pre + (2 + length d)" by (simp add: x tlv_def)
  ultimately show ?case by (simp add: x)
qed

lemma get_opt_tlvs:
  assumes "length hdr = F_OPT" and "\<forall>x\<in>set xs. tlv_ok x"
  shows "get_opt (hdr @ concat (map tlv xs) @ O_END # post) code out =
    (case List.find (\<lambda>x. fst x = code) xs of
       None \<Rightarrow> (0, out)
     | Some x \<Rightarrow> (let n = min (length (snd x)) (length out) in (n, splice_at out 0 (take n (snd x)))))"
  using opt_loop_tlvs [OF assms(2), of hdr] assms(1) by (simp add: get_opt_def)

section \<open>Building packets\<close>

definition dhcp_hdr :: "bytes \<Rightarrow> u32 \<Rightarrow> bytes" where
  "dhcp_hdr mac xid = [1, 1, 6, 0] @ be32 xid @ [0, 0, 0x80, 0] @ replicate 16 0 @ mac @ replicate 202 0 @ MAGIC_COOKIE"

lemma splice_field: "off = length a \<Longrightarrow> length b = length c \<Longrightarrow> splice_at (a @ b @ d) off c = a @ c @ d"
  by (simp add: splice_at_def)

lemma build_header_bytes:
  assumes "length mac = 6"
  shows "build_header mac xid = dhcp_hdr mac xid @ replicate 60 0"
proof -
  let ?z = "\<lambda>n. replicate n (0 :: u8)"
  have r: "replicate BOOTP_LEN (0 :: u8) = [0, 0, 0, 0] @ ?z 4 @ ?z 2 @ [0, 0] @ ?z 16 @ ?z 6 @ ?z 202 @ ?z 4 @ ?z 60"
    by (simp add: BOOTP_LEN_def flip: replicate_Suc replicate_add)
  have u: "(replicate BOOTP_LEN 0)[F_OP := 1, 1 := 1, 2 := 6] =
      [1, 1, 6, 0] @ ?z 4 @ ?z 2 @ [0, 0] @ ?z 16 @ ?z 6 @ ?z 202 @ ?z 4 @ ?z 60"
    unfolding r F_OP_def by simp
  let ?a = "[1, 1, 6, 0] @ be32 xid @ ?z 2" and ?b = "[1, 1, 6, 0] @ be32 xid @ ?z 2 @ [0x80, 0] @ ?z 16"
  have "splice_at ([1, 1, 6, 0] @ ?z 4 @ ?z 2 @ [0, 0] @ ?z 16 @ ?z 6 @ ?z 202 @ ?z 4 @ ?z 60) F_XID (be32 xid) =
      ?a @ [0, 0] @ ?z 16 @ ?z 6 @ ?z 202 @ ?z 4 @ ?z 60"
    by (subst splice_field) (simp_all add: F_XID_def)
  moreover have "(?a @ [0, 0] @ ?z 16 @ ?z 6 @ ?z 202 @ ?z 4 @ ?z 60)[F_FLAGS := 0x80, F_FLAGS + 1 := 0] =
      ?b @ ?z 6 @ ?z 202 @ ?z 4 @ ?z 60"
    by (simp add: F_FLAGS_def list_update_append)
  moreover have "splice_at (?b @ ?z 6 @ ?z 202 @ ?z 4 @ ?z 60) F_CHADDR mac = ?b @ mac @ ?z 202 @ ?z 4 @ ?z 60"
    by (rule splice_field) (use assms in \<open>simp_all add: F_CHADDR_def\<close>)
  moreover have "splice_at ((?b @ mac @ ?z 202) @ ?z 4 @ ?z 60) F_MAGIC MAGIC_COOKIE = (?b @ mac @ ?z 202) @ MAGIC_COOKIE @ ?z 60"
    by (rule splice_field) (use assms in \<open>simp_all add: F_MAGIC_def MAGIC_COOKIE_def\<close>)
  ultimately show ?thesis unfolding build_header_def Let_def u
    by (simp only: append_assoc dhcp_hdr_def) (simp add: numeral_2_eq_2)
qed

lemma add_opt_append:
  assumes "length (pre @ post) = BOOTP_LEN" and "length pre + 2 + length data < BOOTP_LEN"
  shows "add_opt code data (pre @ post, length pre) =
    ((pre @ tlv (code, data)) @ drop (2 + length data) post, length (pre @ tlv (code, data)))"
  using assms by (simp add: add_opt_def splice_at_def tlv_def)

lemma add_opts:
  assumes "length pre + k = BOOTP_LEN" and "length (concat (map tlv xs)) < k"
  shows "fold (\<lambda>x. add_opt (fst x) (snd x)) xs (pre @ replicate k 0, length pre) =
    (pre @ concat (map tlv xs) @ replicate (k - length (concat (map tlv xs))) 0, length (pre @ concat (map tlv xs)))"
  using assms
proof (induction xs arbitrary: pre k)
  case (Cons x xs)
  obtain c d where x: "x = (c, d)" by force
  let ?k = "k - (2 + length d)"
  have lt: "length (tlv x) = 2 + length d" by (simp add: x tlv_def)
  have "add_opt c d (pre @ replicate k 0, length pre) = ((pre @ tlv x) @ replicate ?k 0, length (pre @ tlv x))"
    using add_opt_append [of pre "replicate k 0" d c] Cons.prems lt by (simp add: x)
  moreover have "fold (\<lambda>x. add_opt (fst x) (snd x)) xs ((pre @ tlv x) @ replicate ?k 0, length (pre @ tlv x)) =
     ((pre @ tlv x) @ concat (map tlv xs) @ replicate (?k - length (concat (map tlv xs))) 0, length ((pre @ tlv x) @ concat (map tlv xs)))"
    by (rule Cons.IH) (use Cons.prems lt in simp_all)
  ultimately show ?case using lt by (simp add: x)
qed simp

definition discover_opts :: "bytes \<Rightarrow> (u8 \<times> bytes) list" where
  "discover_opts mac = [(O_MSG_TYPE, [MT_DISCOVER]), (O_REQ_LIST, [O_MASK, O_ROUTER, O_DNS]), (O_CLIENT_ID, 1 # mac)]"

definition request_opts :: "bytes \<Rightarrow> bytes \<Rightarrow> bytes \<Rightarrow> (u8 \<times> bytes) list" where
  "request_opts mac ip sid = [(O_MSG_TYPE, [MT_REQUEST]), (O_REQ_IP, ip), (O_SRV_ID, sid),
     (O_REQ_LIST, [O_MASK, O_ROUTER, O_DNS]), (O_CLIENT_ID, 1 # mac)]"

lemma dhcp_hdr_length: "length mac = 6 \<Longrightarrow> length (dhcp_hdr mac xid) = 240"
  by (simp add: dhcp_hdr_def MAGIC_COOKIE_def)

lemma packet_bytes:
  assumes "length mac = 6" and "length (concat (map tlv xs)) = n" and "n < 60"
    and "fold (\<lambda>x. add_opt (fst x) (snd x)) xs (build_header mac xid, F_OPT) = (pkt, pos)"
  shows "pkt[pos := O_END] = dhcp_hdr mac xid @ concat (map tlv xs) @ O_END # replicate (59 - n) 0 \<and> pos = 240 + n"
proof -
  have "fold (\<lambda>x. add_opt (fst x) (snd x)) xs (dhcp_hdr mac xid @ replicate 60 0, length (dhcp_hdr mac xid)) =
      (dhcp_hdr mac xid @ concat (map tlv xs) @ replicate (60 - n) 0, length (dhcp_hdr mac xid @ concat (map tlv xs)))"
    using add_opts [of "dhcp_hdr mac xid" 60 xs] assms(1-3) dhcp_hdr_length by (simp add: BOOTP_LEN_def)
  moreover have "replicate (60 - n) (0 :: u8) = 0 # replicate (59 - n) 0"
    using assms(3) by (cases "60 - n") auto
  ultimately show ?thesis
    using assms dhcp_hdr_length [OF assms(1), of xid] build_header_bytes [OF assms(1), of xid]
    by (auto simp: F_OPT_def list_update_append)
qed

lemma request_bytes:
  assumes "length mac = 6" and "length ip = 4" and "length sid = 4"
  shows "request_packet mac xid ip sid =
    (dhcp_hdr mac xid @ concat (map tlv (request_opts mac ip sid)) @ O_END # replicate 30 0, 270)"
proof -
  obtain pkt pos where f: "fold (\<lambda>x. add_opt (fst x) (snd x)) (request_opts mac ip sid) (build_header mac xid, F_OPT) = (pkt, pos)"
    by force
  have "length (concat (map tlv (request_opts mac ip sid))) = 29" using assms by (simp add: request_opts_def tlv_def)
  from packet_bytes [OF assms(1) this _ f]
  show ?thesis using f by (auto simp: request_packet_def finish_packet_def request_opts_def)
qed

lemma discover_bytes:
  assumes "length mac = 6"
  shows "discover_packet mac xid = (dhcp_hdr mac xid @ concat (map tlv (discover_opts mac)) @ O_END # replicate 42 0, 258)"
proof -
  obtain pkt pos where f: "fold (\<lambda>x. add_opt (fst x) (snd x)) (discover_opts mac) (build_header mac xid, F_OPT) = (pkt, pos)"
    by force
  have "length (concat (map tlv (discover_opts mac))) = 17" using assms by (simp add: discover_opts_def tlv_def)
  from packet_bytes [OF assms this _ f]
  show ?thesis using f by (auto simp: discover_packet_def finish_packet_def discover_opts_def)
qed

section \<open>The configuration\<close>

definition net_config :: "net \<Rightarrow> bytes \<times> bytes \<times> bytes \<times> bytes \<times> bytes" where
  "net_config s = (OUR_MAC s, OUR_IP s, OUR_NETMASK s, OUR_GATEWAY s, OUR_DNS s)"

lemma config_tcp: "tcp_keeps s s' \<Longrightarrow> net_config s' = net_config s"
  by (cases s; cases s') (simp add: net_config_def tcp_keeps_def)

lemma config_simps [simp]:
  "net_config (arp_learn ip mac s) = net_config s" "net_config (snd (tx_route f s)) = net_config s"
  "net_config (udp_input d i m s) = net_config s" "net_config (rx_clear s) = net_config s"
  "net_config (s\<lparr>now_ms := t\<rparr>) = net_config s" "net_config (snd (send_udp a b c d' e g s)) = net_config s"
  by (simp_all add: net_config_def arp_learn_def tx_route_def udp_input_def rx_clear_def send_udp_def Let_def split: option.split)

lemma input_frame_config:
  assumes "net_ok s" and "42 \<le> length f" and "length f \<le> 1514" and "input_frame f s = Some s'"
  shows "net_config s' = net_config s"
proof -
  have a: "net_config (arp_input f s) = net_config s" by (simp add: arp_input_def Let_def)
  have i: "net_config t' = net_config t" if t: "net_ok t" "ip_input f t = Some t'" for t t'
  proof -
    let ?src = "slice 26 30 f" and ?mac = "slice 6 12 f"
    have L: "length ?src = 4" "length ?mac = 6" using assms(2) by (simp_all add: length_slice)
    define t1 where "t1 = (if ?src \<noteq> replicate 4 0 then arp_learn ?src ?mac t else t)"
    have "net_ok t1" unfolding t1_def using t(1) arp_learn_ok L(2) by simp
    then have "tcp_ok t1" by (simp add: net_ok_def)
    from tcp_input_total [OF this L, of 0 "drop 34 f"]
    have tc: "net_config x = net_config t1" if "tcp_input DEPTH ?src ?mac (drop 34 f) t1 = Some x" for x
      using that config_tcp unfolding DEPTH_def numeral_3_eq_3 by fastforce
    have ic: "net_config x = net_config t1" if "icmp_input f t1 = Some x" for x
      using that by (auto simp: icmp_input_def split: if_splits)
    have "net_config t1 = net_config t" by (simp add: t1_def)
    then show ?thesis using t(2) tc ic
      by (auto simp: ip_input_def Let_def t1_def [symmetric] split: if_splits)
  qed
  show ?thesis using assms(1,2,4) a i arp_input_ok [OF assms(1,2)]
    by (auto simp: input_frame_def Let_def split: if_splits)
qed

lemma poll_config:
  assumes "net_ok s" and "frames_ok fs" and "poll fs s = Some s'"
  shows "net_config s' = net_config s"
  using assms
proof (induction fs arbitrary: s)
  case (Cons f fs)
  obtain s1 where s1: "input_frame f s = Some s1" "net_ok s1" using input_frame_ok [of s f] Cons.prems by auto
  then show ?case using Cons.IH [of s1] Cons.prems input_frame_config [of s f s1] by simp
qed simp

lemma dhcp_send_ok:
  assumes "net_ok s"
  shows "\<exists>s'. dhcp_send pp s = Some s' \<and> net_ok s' \<and> net_config s' = net_config s"
proof -
  have "dhcp_send pp s = Some (snd (send_udp (replicate 4 0) (replicate 6 0xFF) bcast_ip DHCP_CLIENT_PORT DHCP_SERVER_PORT
      (take (snd pp) (fst pp)) s))" by (simp add: dhcp_send_def udp_send_def bcast_ip_def)
  then show ?thesis using send_udp_ok [OF assms] by simp
qed

definition from_server :: "u32 \<Rightarrow> bytes \<Rightarrow> bool" where
  "from_server xid pkt \<longleftrightarrow> length pkt = BOOTP_LEN \<and> pkt ! F_OP = 2 \<and> u32_from (slice F_XID (F_XID + 4) pkt) = xid"

lemma reply_buf_fields:
  assumes "is_reply xid s"
  shows "from_server xid (reply_buf (rx_payload s))"
proof -
  let ?pl = "rx_payload s" and ?b = "reply_buf (rx_payload s)"
  have pl: "length ?pl \<ge> 240" "?pl ! 0 = 2" "u32_from (slice 4 8 ?pl) = xid"
    using assms by (simp_all add: is_reply_def Let_def dhcp_consts)
  have "take 240 ?b = take 240 ?pl" using pl(1) by (simp add: reply_buf_def splice_at_def BOOTP_LEN_def min_def)
  then obtain q where b: "?b = take 240 ?pl @ q" by (metis append_take_drop_id)
  have "?b ! 0 = ?pl ! 0" using pl(1) unfolding b by (simp add: nth_append)
  moreover have "slice 4 8 ?b = slice 4 8 ?pl" using pl(1) unfolding b by (simp add: slice_def drop_take)
  moreover have "length ?b = BOOTP_LEN" by (simp add: reply_buf_def BOOTP_LEN_def)
  ultimately show ?thesis using pl by (simp add: from_server_def dhcp_consts)
qed

lemma wait_reply_ok:
  assumes "net_ok s" and "\<forall>t\<in>set turns. frames_ok (snd t)"
  shows "\<exists>r s'. wait_reply xid resend lst turns s = Some (r, s') \<and> net_ok s' \<and> net_config s' = net_config s \<and>
    (\<forall>p. r = Some p \<longrightarrow> from_server xid p)"
  using assms
proof (induction turns arbitrary: lst s)
  case (Cons t turns)
  obtain now frames where t: "t = (now, frames)" by force
  have f: "frames_ok frames" using Cons.prems(2) t by simp
  have ok: "net_ok (s\<lparr>now_ms := now\<rparr>)" using net_ok_time [OF Cons.prems(1)] .
  obtain s1 where s1: "poll frames (s\<lparr>now_ms := now\<rparr>) = Some s1" "net_ok s1" using poll_ok [OF ok f] by blast
  have c1: "net_config s1 = net_config s" using poll_config [OF ok f s1(1)] by simp
  obtain s2 where s2: "dhcp_send resend s1 = Some s2" "net_ok s2" "net_config s2 = net_config s1"
    using dhcp_send_ok [OF s1(2)] by blast
  have step: "\<exists>r s'. (if is_reply xid u then Some (Some (reply_buf (rx_payload u)), u) else wait_reply xid resend l turns u) = Some (r, s') \<and>
      net_ok s' \<and> net_config s' = net_config s \<and> (\<forall>p. r = Some p \<longrightarrow> from_server xid p)"
    if "net_ok u" "net_config u = net_config s" for u l
    using Cons.IH [OF that(1), of l] Cons.prems(2) that reply_buf_fields [of xid u] by auto
  show ?case using s1 s2 c1 step [OF s2(2), of now] step [OF s1(2) c1, of lst] by (auto simp: t)
qed simp

lemma net_ok_config: "net_ok (s\<lparr>OUR_IP := a, OUR_NETMASK := b, OUR_GATEWAY := c\<rparr>) = net_ok (s\<lparr>OUR_IP := a\<rparr>)"
  "net_ok (s\<lparr>OUR_DNS := d\<rparr>) = net_ok s"
  by (simp_all add: net_ok_def tcp_ok_def)

section \<open>Properties\<close>

text \<open>The packets the client builds can be read back: in a REQUEST the option reader finds the message type,
  the requested address and the server, in a DISCOVER the message type, and in both the list of
  wanted options and the client's hardware address.\<close>

theorem dhcp_packets_readable:
  assumes "length mac = 6" and "length ip = 4" and "length sid = 4"
  shows "message_type (fst (request_packet mac xid ip sid)) = Some MT_REQUEST \<and>
    get_opt (fst (request_packet mac xid ip sid)) O_REQ_IP (replicate 4 0) = (4, ip) \<and>
    get_opt (fst (request_packet mac xid ip sid)) O_SRV_ID (replicate 4 0) = (4, sid) \<and>
    message_type (fst (discover_packet mac xid)) = Some MT_DISCOVER \<and>
    get_opt (fst (discover_packet mac xid)) O_CLIENT_ID (replicate 7 0) = (7, 1 # mac)"
proof -
  have h: "length (dhcp_hdr mac xid) = F_OPT" using dhcp_hdr_length [OF assms(1)] by (simp add: F_OPT_def)
  have ok: "\<forall>x\<in>set (request_opts mac ip sid). tlv_ok x" "\<forall>x\<in>set (discover_opts mac). tlv_ok x"
    using assms by (auto simp: request_opts_def discover_opts_def tlv_ok_def dhcp_consts)
  show ?thesis
    using assms unfolding request_bytes [OF assms] discover_bytes [OF assms(1)] fst_conv message_type_def
      get_opt_tlvs [OF h ok(1)] get_opt_tlvs [OF h ok(2)]
    by (simp add: request_opts_def discover_opts_def dhcp_consts splice_at_def)
qed

text \<open>The exchange is all or nothing: whatever frames arrive while the client waits, \<open>run\<close> returns without a
  panic. When it fails, the machine's address, mask, gateway and name server are as before. When it
  succeeds, there are a DHCP OFFER and a DHCP ACK, both replies with the transaction id of this run,
  and the address is the one of the offer, the mask the one of the ACK.\<close>

theorem dhcp_run_safe:
  assumes "net_ok s" and "\<forall>t\<in>set turns1. frames_ok (snd t)" and "\<forall>t\<in>set turns2. frames_ok (snd t)"
  shows "\<exists>b x s'. dhcp_run turns1 turns2 xid s = Some (b, x, s') \<and>
    (if b then \<exists>offer ack. from_server x offer \<and> message_type offer = Some MT_OFFER \<and>
                from_server x ack \<and> message_type ack = Some MT_ACK \<and>
                OUR_IP s' = slice F_YIADDR (F_YIADDR + 4) offer \<and>
                OUR_NETMASK s' = snd (get_opt ack O_MASK [255, 255, 255, 0])
     else net_config s' = net_config s)"
proof (cases "OUR_MAC s = replicate 6 0")
  case True
  then have "dhcp_run turns1 turns2 xid s = Some (False, xid, s)" by (simp add: dhcp_run_def)
  then show ?thesis by auto
next
  case False
  let ?x = "next_xid xid"
  have c0: "net_ok (rx_clear u)" if "net_ok u" for u using net_ok_clear [OF that] .
  obtain disc s1 where s1: "send_discover ?x (rx_clear s) = Some (disc, s1)" "net_ok s1" "net_config s1 = net_config s"
    using dhcp_send_ok [OF c0 [OF assms(1)]] by (fastforce simp: send_discover_def Let_def)
  obtain r s2 where s2: "wait_reply ?x disc (now_ms s1) turns1 s1 = Some (r, s2)" "net_ok s2" "net_config s2 = net_config s"
    "\<forall>p. r = Some p \<longrightarrow> from_server ?x p"
    using wait_reply_ok [OF s1(2) assms(2)] s1(3) by metis
  show ?thesis
  proof (cases "\<exists>offer. r = Some offer \<and> message_type offer = Some MT_OFFER")
    case False
    then show ?thesis using s1 s2 \<open>OUR_MAC s \<noteq> _\<close> by (auto simp: dhcp_run_def Let_def split: option.split)
  next
    case True
    then obtain offer where o: "r = Some offer" "message_type offer = Some MT_OFFER" by blast
    let ?y = "slice F_YIADDR (F_YIADDR + 4) offer" and ?sid = "snd (get_opt offer O_SRV_ID (replicate 4 0))"
    obtain req s3 where s3: "send_request ?x ?y ?sid (rx_clear s2) = Some (req, s3)" "net_ok s3" "net_config s3 = net_config s"
      using dhcp_send_ok [OF c0 [OF s2(2)]] s2(3) by (fastforce simp: send_request_def Let_def)
    obtain r2 s4 where s4: "wait_reply ?x req (now_ms s3) turns2 s3 = Some (r2, s4)" "net_config s4 = net_config s"
      "\<forall>p. r2 = Some p \<longrightarrow> from_server ?x p"
      using wait_reply_ok [OF s3(2) assms(3)] s3(3) by metis
    have run: "dhcp_run turns1 turns2 xid s = (case r2 of None \<Rightarrow> Some (False, ?x, s4)
        | Some ack \<Rightarrow> if message_type ack \<noteq> Some MT_ACK then Some (False, ?x, s4) else Some (True, ?x, apply_config ?y ?sid ack s4))"
      using s1(1) s2(1) s3(1) s4(1) o \<open>OUR_MAC s \<noteq> _\<close> by (simp add: dhcp_run_def Let_def)
    have ap: "OUR_IP (apply_config ?y ?sid a s4) = ?y" "OUR_NETMASK (apply_config ?y ?sid a s4) = snd (get_opt a O_MASK [255, 255, 255, 0])" for a
      by (simp_all add: apply_config_def Let_def split_beta)
    show ?thesis
    proof (cases "\<exists>ack. r2 = Some ack \<and> message_type ack = Some MT_ACK")
      case True
      then obtain ack where "r2 = Some ack" "message_type ack = Some MT_ACK" by blast
      then show ?thesis using run ap o s2(4) s4(3) by auto
    next
      case False
      then show ?thesis using run s4(2) by (auto split: option.split)
    qed
  qed
qed

theorem dhcp_packets_readable_witness:
  "message_type (fst (request_packet (replicate 6 1) 7 [10, 0, 2, 15] [10, 0, 2, 2])) = Some MT_REQUEST"
  using dhcp_packets_readable [of "replicate 6 1" "[10, 0, 2, 15]" "[10, 0, 2, 2]" 7] by simp

theorem dhcp_run_safe_witness:
  "\<exists>b x s'. dhcp_run [(10, [replicate 342 2]), (1500, [])] [] 0x51000000 demo_net = Some (b, x, s') \<and> (b \<or> OUR_IP s' = [10, 0, 2, 15])"
proof -
  have "\<forall>t\<in>set [(10 :: u64, [replicate 342 2]), (1500, [])]. frames_ok (snd t)" by simp
  from dhcp_run_safe [OF demo_net_ok this, of "[]" "0x51000000"] show ?thesis
    by (auto simp: net_config_def demo_net_sel split: if_splits)
qed

end
