(* ===== verification/Spec2Isabelle.thy ===== *)
theory Spec2Isabelle
  imports Script_Correct Isofs_Correct Http Heap Unix_Sockets Event_Ring Linux_Elf Fat_Write Aes Sha Tmpfs User_Store Dhcp
begin

text \<open>
  Verification of the DBSos kernel.
\<close>

end
